(* ===== verification/Prelude.thy ===== *)
theory Prelude
  imports Main "HOL-Library.Word"
begin

text \<open>
  What every component shares: the machine integers, the outcome type of a fallible
  Rust call, checked arithmetic, byte order, and the loop combinators that the table
  parsers of \<^verbatim>\<open>src/mountin/lib/mountin/src\<close> are written with.

  The crate is built by \<^verbatim>\<open>build.sh\<close> with \<^verbatim>\<open>cargo --release\<close> and no overflow checks, so
  plain \<open>+\<close>, \<open>-\<close>, \<open>*\<close> wrap around: they are the operations of the word types. Buffer
  lengths and \<open>usize\<close> values are \<open>nat\<close> (64-bit targets); \<open>as u32\<close>, \<open>as u64\<close> are \<open>ucast\<close>.
\<close>

named_theorems ok_iff \<open>when an operation returns a value\<close>
named_theorems panic_free \<open>why an operation does not unwind\<close>

unbundle bit_operations_syntax

type_synonym u8 = "8 word"
type_synonym u16 = "16 word"
type_synonym u32 = "32 word"
type_synonym u64 = "64 word"
type_synonym bytes = "8 word list"

section \<open>Outcomes\<close>

text \<open>
  A Rust function of type \<^verbatim>\<open>io::Result\<close> returns \<open>Ok\<close> or \<open>Err\<close>, or unwinds. The library
  never reads an error's message, only that it is one, so an error keeps its
  \<^verbatim>\<open>ErrorKind\<close>. A panic is not an error: no \<^verbatim>\<open>Err(_)\<close> arm catches it, it reaches the
  \<^verbatim>\<open>catch_unwind\<close> of the C entry points.
\<close>

datatype error_kind = InvalidData | UnexpectedEof | Unsupported | InvalidInput | OtherError

datatype 'a io = Ok 'a | Err error_kind | Panic

text \<open>The \<^verbatim>\<open>?\<close> operator followed by the rest of the function.\<close>

fun and_then :: "'a io \<Rightarrow> ('a \<Rightarrow> 'b io) \<Rightarrow> 'b io" where
  "and_then (Ok x) f = f x"
| "and_then (Err e) f = Err e"
| "and_then Panic f = Panic"

text \<open>\<^verbatim>\<open>match m { Ok(v) => f(v), Err(_) => g }\<close>: the error arm does not see a panic.\<close>

fun match_io :: "'a io \<Rightarrow> ('a \<Rightarrow> 'b) \<Rightarrow> 'b \<Rightarrow> 'b \<Rightarrow> 'b" where
  "match_io (Ok x) f g p = f x"
| "match_io (Err e) f g p = g"
| "match_io Panic f g p = p"

text \<open>\<^verbatim>\<open>opt.ok_or_else(...)?\<close>\<close>

definition ok_or :: "'a option \<Rightarrow> error_kind \<Rightarrow> 'a io" where
  "ok_or x e = (case x of None \<Rightarrow> Err e | Some v \<Rightarrow> Ok v)"

lemma and_then_cong [fundef_cong]:
  "m = m' \<Longrightarrow> (\<And>x. m' = Ok x \<Longrightarrow> f x = f' x) \<Longrightarrow> and_then m f = and_then m' f'"
  by (cases m') auto

lemma match_io_cong [fundef_cong]:
  "m = m' \<Longrightarrow> (\<And>x. m' = Ok x \<Longrightarrow> f x = f' x) \<Longrightarrow> ((\<And>x. m' \<noteq> Ok x) \<Longrightarrow> m' \<noteq> Panic \<Longrightarrow> g = g') \<Longrightarrow> p = p'
     \<Longrightarrow> match_io m f g p = match_io m' f' g' p'"
  by (cases m') auto

lemma and_then_Ok_iff [ok_iff]: "and_then m f = Ok y \<longleftrightarrow> (\<exists>x. m = Ok x \<and> f x = Ok y)"
  by (cases m) auto

lemma and_then_Ok_E:
  assumes "and_then m f = Ok y"
  obtains x where "m = Ok x" and "f x = Ok y"
  using assms by (cases m) auto

lemma and_then_assoc: "and_then (and_then m f) g = and_then m (\<lambda>x. and_then (f x) g)"
  by (cases m) auto

lemma and_then_Panic_iff [panic_free]:
  "and_then m f = Panic \<longleftrightarrow> m = Panic \<or> (\<exists>x. m = Ok x \<and> f x = Panic)"
  by (cases m) auto

lemma match_io_Panic_iff [panic_free]:
  "match_io m f g p = Panic \<longleftrightarrow>
     (\<exists>x. m = Ok x \<and> f x = Panic) \<or> (\<exists>e. m = Err e) \<and> g = Panic \<or> m = Panic \<and> p = Panic"
  by (cases m) auto

lemma match_io_Ok_iff [ok_iff]:
  "match_io m f g p = Ok y \<longleftrightarrow>
     (\<exists>x. m = Ok x \<and> f x = Ok y) \<or> (\<exists>e. m = Err e) \<and> g = Ok y \<or> m = Panic \<and> p = Ok y"
  by (cases m) auto

lemma ok_or_simps [simp]: "ok_or None e = Err e" "ok_or (Some v) e = Ok v"
  by (simp_all add: ok_or_def)

lemma ok_or_Ok_iff [ok_iff]: "ok_or x e = Ok v \<longleftrightarrow> x = Some v"
  by (cases x) auto

lemma ok_or_not_Panic [simp]: "ok_or x e \<noteq> Panic"
  by (cases x) auto

section \<open>Checked and saturating arithmetic\<close>

text \<open>\<^verbatim>\<open>checked_add\<close>, \<^verbatim>\<open>checked_mul\<close>, \<^verbatim>\<open>checked_sub\<close>, \<^verbatim>\<open>saturating_sub\<close>, \<^verbatim>\<open>saturating_add\<close>.\<close>

definition checked_add :: "'a::len word \<Rightarrow> 'a word \<Rightarrow> 'a word option" where
  "checked_add a b = (if unat a + unat b < 2 ^ LENGTH('a) then Some (a + b) else None)"

definition checked_mul :: "'a::len word \<Rightarrow> 'a word \<Rightarrow> 'a word option" where
  "checked_mul a b = (if unat a * unat b < 2 ^ LENGTH('a) then Some (a * b) else None)"

definition checked_sub :: "'a::len word \<Rightarrow> 'a word \<Rightarrow> 'a word option" where
  "checked_sub a b = (if b \<le> a then Some (a - b) else None)"

definition saturating_sub :: "'a::len word \<Rightarrow> 'a word \<Rightarrow> 'a word" where
  "saturating_sub a b = (if b \<le> a then a - b else 0)"

definition saturating_add :: "'a::len word \<Rightarrow> 'a word \<Rightarrow> 'a word" where
  "saturating_add a b = (if unat a + unat b < 2 ^ LENGTH('a) then a + b else - 1)"

lemma unat_add_exact:
  "unat a + unat b < 2 ^ LENGTH('a) \<Longrightarrow> unat (a + b :: 'a::len word) = unat a + unat b"
  by (simp add: unat_word_ariths)

lemma unat_mult_exact:
  "unat a * unat b < 2 ^ LENGTH('a) \<Longrightarrow> unat (a * b :: 'a::len word) = unat a * unat b"
  by (simp add: unat_word_ariths)

lemma checked_add_Some:
  "checked_add a b = Some c \<Longrightarrow> unat c = unat a + unat b"
  by (auto simp: checked_add_def unat_add_exact split: if_splits)

lemma checked_mul_Some:
  "checked_mul a b = Some c \<Longrightarrow> unat c = unat a * unat b"
  by (auto simp: checked_mul_def unat_mult_exact split: if_splits)

lemma checked_sub_Some:
  "checked_sub a b = Some c \<Longrightarrow> unat c = unat a - unat b \<and> unat b \<le> unat a"
  by (auto simp: checked_sub_def unat_sub word_le_nat_alt split: if_splits)

lemma unat_saturating_sub: "unat (saturating_sub a b) = unat a - unat b"
  by (auto simp: saturating_sub_def unat_sub word_le_nat_alt)

lemma saturating_add_le:
  assumes "saturating_add a b \<le> c" and "c \<noteq> - 1"
  shows "unat a + unat b \<le> unat (c :: 'a::len word)"
proof (cases "unat a + unat b < 2 ^ LENGTH('a)")
  case True
  with assms(1) show ?thesis by (simp add: saturating_add_def word_le_nat_alt unat_add_exact)
next
  case False
  with assms have "- 1 \<le> c" by (simp add: saturating_add_def)
  with assms(2) show ?thesis by (simp add: order.antisym)
qed

section \<open>Byte order\<close>

text \<open>\<^verbatim>\<open>uN::from_le_bytes\<close> and \<^verbatim>\<open>uN::from_be_bytes\<close>, and their inverses.\<close>

fun le_nat :: "bytes \<Rightarrow> nat" where
  "le_nat [] = 0"
| "le_nat (b # bs) = unat b + 256 * le_nat bs"

definition from_le :: "bytes \<Rightarrow> 'a::len word" where
  "from_le bs = word_of_nat (le_nat bs)"

definition from_be :: "bytes \<Rightarrow> 'a::len word" where
  "from_be bs = word_of_nat (le_nat (rev bs))"

fun nat_le :: "nat \<Rightarrow> nat \<Rightarrow> bytes" where
  "nat_le 0 n = []"
| "nat_le (Suc k) n = word_of_nat n # nat_le k (n div 256)"

definition to_le :: "'a::len word \<Rightarrow> bytes" where
  "to_le w = nat_le (LENGTH('a) div 8) (unat w)"

definition to_be :: "'a::len word \<Rightarrow> bytes" where
  "to_be w = rev (to_le w)"

lemma length_nat_le [simp]: "length (nat_le k n) = k"
  by (induction k arbitrary: n) auto

lemma le_nat_nat_le: "le_nat (nat_le k n) = n mod 256 ^ k"
proof (induction k arbitrary: n)
  case 0
  then show ?case by simp
next
  case (Suc k)
  have "unat (word_of_nat n :: u8) = n mod 256"
    by (simp add: unat_of_nat)
  then show ?case
    by (simp add: Suc.IH mod_mult2_eq)
qed

lemma le_nat_bound: "le_nat bs < 256 ^ length bs"
proof (induction bs)
  case Nil
  then show ?case by simp
next
  case (Cons b bs)
  have "unat b < 256" using unsigned_less [of b] by simp
  with Cons show ?case by simp
qed

lemma length_to_le [simp]: "length (to_le (w :: 'a::len word)) = LENGTH('a) div 8"
  by (simp add: to_le_def)

lemma length_to_be [simp]: "length (to_be (w :: 'a::len word)) = LENGTH('a) div 8"
  by (simp add: to_be_def)

lemma from_to_le:
  assumes "8 dvd LENGTH('a::len)"
  shows "from_le (to_le (w :: 'a word)) = w"
proof -
  have "(256::nat) ^ (LENGTH('a) div 8) = (2 ^ 8) ^ (LENGTH('a) div 8)"
    by simp
  also have "\<dots> = 2 ^ LENGTH('a)"
    using assms by (simp only: power_mult [symmetric]) simp
  finally show ?thesis
    by (simp add: from_le_def to_le_def le_nat_nat_le)
qed

lemma from_to_be:
  assumes "8 dvd LENGTH('a::len)"
  shows "from_be (to_be (w :: 'a word)) = w"
  using from_to_le [OF assms, of w] by (simp add: from_be_def to_be_def from_le_def)

section \<open>Loops\<close>

text \<open>
  The shapes of the crate's loops. \<open>for_each\<close> is a \<^verbatim>\<open>for\<close> loop whose body may return
  early with \<^verbatim>\<open>?\<close>; \<open>for_break\<close> is one whose body may also \<^verbatim>\<open>break\<close>; \<open>collect\<close> is a
  \<^verbatim>\<open>for\<close> loop that pushes at most one element per round (\<open>None\<close> is \<^verbatim>\<open>continue\<close>);
  \<open>all_io\<close> and \<open>any_io\<close> are \<^verbatim>\<open>iter().all\<close> and \<^verbatim>\<open>iter().any\<close>, which stop at the first
  element that decides.
\<close>

fun for_each :: "('x \<Rightarrow> 's \<Rightarrow> 's io) \<Rightarrow> 'x list \<Rightarrow> 's \<Rightarrow> 's io" where
  "for_each f [] s = Ok s"
| "for_each f (x # xs) s = and_then (f x s) (for_each f xs)"

datatype 's flow = Continue 's | Break 's

fun for_break :: "('x \<Rightarrow> 's \<Rightarrow> 's flow io) \<Rightarrow> 'x list \<Rightarrow> 's \<Rightarrow> 's io" where
  "for_break f [] s = Ok s"
| "for_break f (x # xs) s =
     and_then (f x s) (\<lambda>c. case c of Continue t \<Rightarrow> for_break f xs t | Break t \<Rightarrow> Ok t)"

fun push_opt :: "'y option \<Rightarrow> 'y list \<Rightarrow> 'y list" where
  "push_opt None ys = ys"
| "push_opt (Some y) ys = y # ys"

fun collect :: "('x \<Rightarrow> 'y option io) \<Rightarrow> 'x list \<Rightarrow> 'y list io" where
  "collect f [] = Ok []"
| "collect f (x # xs) = and_then (f x) (\<lambda>v. and_then (collect f xs) (\<lambda>ys. Ok (push_opt v ys)))"

fun all_io :: "('x \<Rightarrow> bool io) \<Rightarrow> 'x list \<Rightarrow> bool io" where
  "all_io f [] = Ok True"
| "all_io f (x # xs) = and_then (f x) (\<lambda>b. if b then all_io f xs else Ok False)"

fun any_io :: "('x \<Rightarrow> bool io) \<Rightarrow> 'x list \<Rightarrow> bool io" where
  "any_io f [] = Ok False"
| "any_io f (x # xs) = and_then (f x) (\<lambda>b. if b then Ok True else any_io f xs)"

fun traverse :: "('x \<Rightarrow> 'y io) \<Rightarrow> 'x list \<Rightarrow> 'y list io" where
  "traverse f [] = Ok []"
| "traverse f (x # xs) = and_then (f x) (\<lambda>y. and_then (traverse f xs) (\<lambda>ys. Ok (y # ys)))"

lemma all_io_cong [fundef_cong]:
  "xs = ys \<Longrightarrow> (\<And>x. x \<in> set ys \<Longrightarrow> f x = g x) \<Longrightarrow> all_io f xs = all_io g ys"
  by (induction ys arbitrary: xs) (auto intro: and_then_cong)

lemma any_io_cong [fundef_cong]:
  "xs = ys \<Longrightarrow> (\<And>x. x \<in> set ys \<Longrightarrow> f x = g x) \<Longrightarrow> any_io f xs = any_io g ys"
  by (induction ys arbitrary: xs) (auto intro: and_then_cong)

lemma for_each_cong [fundef_cong]:
  "xs = ys \<Longrightarrow> s = t \<Longrightarrow> (\<And>x u. x \<in> set ys \<Longrightarrow> f x u = g x u) \<Longrightarrow> for_each f xs s = for_each g ys t"
  by (induction ys arbitrary: xs s t) (auto intro!: and_then_cong)

lemma all_io_Ok_True: "all_io f xs = Ok True \<longleftrightarrow> (\<forall>x\<in>set xs. f x = Ok True)"
  by (induction xs) (auto simp: and_then_Ok_iff split: if_splits)

lemma any_io_Ok_True_D: "any_io f xs = Ok True \<Longrightarrow> \<exists>x\<in>set xs. f x = Ok True"
  by (induction xs) (auto simp: and_then_Ok_iff split: if_splits)

lemma all_io_pure: "(\<And>x. x \<in> set xs \<Longrightarrow> f x = Ok (p x)) \<Longrightarrow> all_io f xs = Ok (\<forall>x\<in>set xs. p x)"
  by (induction xs) auto

lemma any_io_pure: "(\<And>x. x \<in> set xs \<Longrightarrow> f x = Ok (p x)) \<Longrightarrow> any_io f xs = Ok (\<exists>x\<in>set xs. p x)"
  by (induction xs) auto

lemma for_each_inv:
  assumes "for_each f xs s = Ok t" and "P s"
    and "\<And>x u v. x \<in> set xs \<Longrightarrow> P u \<Longrightarrow> f x u = Ok v \<Longrightarrow> P v"
  shows "P t"
  using assms
proof (induction xs arbitrary: s)
  case Nil
  then show ?case by simp
next
  case (Cons x xs)
  from Cons.prems(1) obtain u where "f x s = Ok u" and "for_each f xs u = Ok t"
    by (auto elim: and_then_Ok_E)
  with Cons.prems(2,3) Cons.IH [of u] show ?case by (metis list.set_intros)
qed

text \<open>The invariant may count the rounds of a loop over numbered elements.\<close>

lemma for_each_enumerate_inv:
  assumes "for_each f (List.enumerate k xs) s = Ok t" and "P k s"
    and "\<And>i u v. i < length xs \<Longrightarrow> P (k + i) u \<Longrightarrow> f (k + i, xs ! i) u = Ok v \<Longrightarrow> P (Suc (k + i)) v"
  shows "P (k + length xs) t"
  using assms
proof (induction xs arbitrary: k s)
  case Nil
  then show ?case by simp
next
  case (Cons x xs)
  from Cons.prems(1) obtain u where u: "f (k, x) s = Ok u" and rest: "for_each f (List.enumerate (Suc k) xs) u = Ok t"
    by (auto elim: and_then_Ok_E)
  have "P (Suc k) u"
    using Cons.prems(3) [of 0 s u] Cons.prems(2) u by simp
  moreover have "P (Suc (Suc k + i)) w"
    if "i < length xs" "P (Suc k + i) v" "f (Suc k + i, xs ! i) v = Ok w" for i v w
    using Cons.prems(3) [of "Suc i" v w] that by simp
  ultimately have "P (Suc k + length xs) t"
    using Cons.IH [OF rest] by blast
  then show ?case by simp
qed

lemma for_break_inv:
  assumes "for_break f xs s = Ok t" and "P s"
    and "\<And>x u v. x \<in> set xs \<Longrightarrow> P u \<Longrightarrow> f x u = Ok (Continue v) \<Longrightarrow> P v"
    and "\<And>x u v. x \<in> set xs \<Longrightarrow> P u \<Longrightarrow> f x u = Ok (Break v) \<Longrightarrow> P v"
  shows "P t"
  using assms
proof (induction xs arbitrary: s)
  case Nil
  then show ?case by simp
next
  case (Cons x xs)
  from Cons.prems(1) obtain c where c: "f x s = Ok c"
    and rest: "(case c of Continue t' \<Rightarrow> for_break f xs t' | Break t' \<Rightarrow> Ok t') = Ok t"
    by (auto elim: and_then_Ok_E)
  show ?case
  proof (cases c)
    case (Continue u)
    then have "P u" and "for_break f xs u = Ok t"
      using Cons.prems(2,3) c rest by auto
    then show ?thesis using Cons.IH Cons.prems(3,4) by (metis list.set_intros(2))
  next
    case (Break u)
    then show ?thesis using Cons.prems(2,4) c rest by auto
  qed
qed

text \<open>Loops that grow something by at most \<open>m\<close> in each round.\<close>

lemma for_each_count:
  assumes "for_each f xs s = Ok t" and "P k s"
    and "\<And>x u v j. j < length xs \<Longrightarrow> P (k + m * j) u \<Longrightarrow> f x u = Ok v \<Longrightarrow> P (k + m * Suc j) v"
  shows "P (k + m * length xs) t"
  using assms
proof (induction xs arbitrary: k s)
  case Nil
  then show ?case by simp
next
  case (Cons x xs)
  from Cons.prems(1) obtain u where u: "f x s = Ok u" and rest: "for_each f xs u = Ok t"
    by (auto elim: and_then_Ok_E)
  have "P (k + m) u"
    using Cons.prems(3) [of 0 s x u] Cons.prems(2) u by simp
  moreover have "P (k + m + m * Suc j) w" if "j < length xs" "P (k + m + m * j) v" "f y v = Ok w" for j v w y
    using Cons.prems(3) [of "Suc j" v y w] that by (simp add: ac_simps)
  ultimately have "P (k + m + m * length xs) t"
    using Cons.IH [OF rest] by blast
  then show ?case by (simp add: ac_simps)
qed

lemma for_break_count:
  assumes "for_break f xs s = Ok t" and "P k s"
    and "\<And>j u. P j u \<Longrightarrow> P (j + m) u"
    and "\<And>x u v j. j < length xs \<Longrightarrow> P (k + m * j) u \<Longrightarrow>
      f x u = Ok (Continue v) \<or> f x u = Ok (Break v) \<Longrightarrow> P (k + m * Suc j) v"
  shows "P (k + m * length xs) t"
  using assms(1,2,4)
proof (induction xs arbitrary: k s)
  case Nil
  then show ?case by simp
next
  case (Cons x xs)
  have later: "P (j + m * n) u" if "P j u" for j n u
    using that by (induction n) (auto simp: ac_simps dest: assms(3))
  from Cons.prems(1) obtain c where c: "f x s = Ok c"
    and rest: "(case c of Continue u \<Rightarrow> for_break f xs u | Break u \<Rightarrow> Ok u) = Ok t"
    by (auto elim: and_then_Ok_E)
  have one: "P (k + m) u" if "c = Continue u \<or> c = Break u" for u
    using Cons.prems(3) [of 0 s x u] Cons.prems(2) c that by simp
  show ?case
  proof (cases c)
    case (Continue u)
    have "P (k + m + m * Suc j) w" if "j < length xs" "P (k + m + m * j) v"
      "f y v = Ok (Continue w) \<or> f y v = Ok (Break w)" for j v w y
      using Cons.prems(3) [of "Suc j" v y w] that by (simp add: ac_simps)
    then have "P (k + m + m * length xs) t"
      using Cons.IH [of u "k + m"] rest Continue one by simp
    then show ?thesis by (simp add: ac_simps)
  next
    case (Break u)
    then have "P (k + m + m * length xs) t"
      using one rest later [of "k + m" t "length xs"] by simp
    then show ?thesis by (simp add: ac_simps)
  qed
qed

lemma for_break_growth:
  assumes "for_break f xs s = Ok t"
    and "\<And>x u v. f x u = Ok (Continue v) \<Longrightarrow> g v \<le> Suc (g u)"
    and "\<And>x u v. f x u = Ok (Break v) \<Longrightarrow> g v \<le> Suc (g u)"
  shows "g t \<le> g s + length xs"
  using assms(1)
proof (induction xs arbitrary: s)
  case Nil
  then show ?case by simp
next
  case (Cons x xs)
  from Cons.prems obtain c where c: "f x s = Ok c"
    and rest: "(case c of Continue u \<Rightarrow> for_break f xs u | Break u \<Rightarrow> Ok u) = Ok t"
    by (auto elim: and_then_Ok_E)
  show ?case
  proof (cases c)
    case (Continue u)
    with rest have "g t \<le> g u + length xs" by (simp add: Cons.IH)
    with assms(2) [of x s u] c Continue show ?thesis by simp
  next
    case (Break u)
    with assms(3) [of x s u] c rest show ?thesis by simp
  qed
qed

lemma for_each_not_Panic:
  "(\<And>x u. x \<in> set xs \<Longrightarrow> f x u \<noteq> Panic) \<Longrightarrow> for_each f xs s \<noteq> Panic"
  by (induction xs arbitrary: s) (auto simp: and_then_Panic_iff)

lemma for_break_not_Panic:
  "(\<And>x u. x \<in> set xs \<Longrightarrow> f x u \<noteq> Panic) \<Longrightarrow> for_break f xs s \<noteq> Panic"
  by (induction xs arbitrary: s) (auto simp: and_then_Panic_iff split: flow.splits)

lemma collect_not_Panic:
  "(\<And>x. x \<in> set xs \<Longrightarrow> f x \<noteq> Panic) \<Longrightarrow> collect f xs \<noteq> Panic"
  by (induction xs) (auto simp: and_then_Panic_iff)

lemma set_push_opt: "set (push_opt v ys) = set_option v \<union> set ys"
  by (cases v) auto

lemma length_push_opt: "length (push_opt v ys) \<le> Suc (length ys)"
  by (cases v) auto

lemma collect_length: "collect f xs = Ok ys \<Longrightarrow> length ys \<le> length xs"
proof (induction xs arbitrary: ys)
  case (Cons x xs)
  then obtain v zs where "collect f xs = Ok zs" and "ys = push_opt v zs"
    by (auto elim!: and_then_Ok_E)
  with Cons.IH length_push_opt [of v zs] show ?case by fastforce
qed simp

lemma collect_mem:
  "collect f xs = Ok ys \<Longrightarrow> y \<in> set ys \<Longrightarrow> \<exists>x\<in>set xs. f x = Ok (Some y)"
proof (induction xs arbitrary: ys)
  case (Cons x xs)
  then obtain v zs where "f x = Ok v" and "collect f xs = Ok zs" and "ys = push_opt v zs"
    by (auto elim!: and_then_Ok_E)
  with Cons show ?case by (auto simp: set_push_opt)
qed simp

lemma collect_complete:
  "collect f xs = Ok ys \<Longrightarrow> x \<in> set xs \<Longrightarrow> f x = Ok (Some y) \<Longrightarrow> y \<in> set ys"
proof (induction xs arbitrary: ys)
  case (Cons z xs)
  then obtain v zs where "f z = Ok v" and "collect f xs = Ok zs" and "ys = push_opt v zs"
    by (auto elim!: and_then_Ok_E)
  with Cons show ?case by (auto simp: set_push_opt)
qed simp

lemma collect_pure:
  "(\<And>x. x \<in> set xs \<Longrightarrow> f x = Ok (g x)) \<Longrightarrow> collect f xs = Ok (List.map_filter g xs)"
  by (induction xs) (auto simp: List.map_filter_simps split: option.splits)

text \<open>The pushed elements keep the order of the loop variable.\<close>

lemma collect_sorted:
  assumes "collect f xs = Ok ys"
    and "\<And>x y. x \<in> set xs \<Longrightarrow> f x = Ok (Some y) \<Longrightarrow> key y = g x"
    and "sorted_wrt (\<lambda>x x'. R (g x) (g x')) xs"
  shows "sorted_wrt R (map key ys)"
  using assms
proof (induction xs arbitrary: ys)
  case Nil
  then show ?case by simp
next
  case (Cons x xs)
  from Cons.prems(1) obtain v zs where v: "f x = Ok v" and zs: "collect f xs = Ok zs"
    and ys: "ys = push_opt v zs"
    by (auto elim!: and_then_Ok_E)
  have sorted: "sorted_wrt R (map key zs)"
    using Cons.IH [OF zs] Cons.prems(2,3) by simp
  show ?case
  proof (cases v)
    case None
    with ys sorted show ?thesis by simp
  next
    case (Some y)
    have "R (key y) (key z)" if "z \<in> set zs" for z
    proof -
      from collect_mem [OF zs that] obtain x' where x': "x' \<in> set xs" "f x' = Ok (Some z)" by blast
      have "key y = g x" and "key z = g x'"
        using Cons.prems(2) [of x y] Cons.prems(2) [of x' z] v Some x' by auto
      then show ?thesis using Cons.prems(3) x'(1) by auto
    qed
    with ys Some sorted show ?thesis by simp
  qed
qed

lemma traverse_length: "traverse f xs = Ok ys \<Longrightarrow> length ys = length xs"
  by (induction xs arbitrary: ys) (auto elim!: and_then_Ok_E)

lemma traverse_nth: "traverse f xs = Ok ys \<Longrightarrow> i < length xs \<Longrightarrow> f (xs ! i) = Ok (ys ! i)"
  by (induction xs arbitrary: ys i) (auto elim!: and_then_Ok_E simp: nth_Cons split: nat.splits)

lemma traverse_pure: "(\<And>x. x \<in> set xs \<Longrightarrow> f x = Ok (g x)) \<Longrightarrow> traverse f xs = Ok (map g xs)"
  by (induction xs) auto

lemma traverse_not_Panic: "(\<And>x. x \<in> set xs \<Longrightarrow> f x \<noteq> Panic) \<Longrightarrow> traverse f xs \<noteq> Panic"
  by (induction xs) (auto simp: and_then_Panic_iff)

section \<open>Lists\<close>

text \<open>A byte string literal \<^verbatim>\<open>b"..."\<close>, and \<^verbatim>\<open>str::as_bytes\<close>.\<close>

definition ascii :: "string \<Rightarrow> bytes" where
  "ascii s = map of_char s"

lemma ascii_simps [simp]: "ascii [] = []" "ascii (c # cs) = of_char c # ascii cs"
  by (simp_all add: ascii_def)

lemma length_ascii [simp]: "length (ascii s) = length s"
  by (simp add: ascii_def)

text \<open>An image given by what lies at each position: the form the concrete examples use.\<close>

definition image_of :: "nat \<Rightarrow> (nat \<Rightarrow> u8) \<Rightarrow> bytes" where
  "image_of n f = map f [0..<n]"

lemma length_image_of [simp]: "length (image_of n f) = n"
  by (simp add: image_of_def)

lemma take_drop_image_of: "take k (drop i (image_of n f)) = map f [i..<min (i + k) n]"
  by (simp add: image_of_def drop_map take_map take_upt min_def)

lemma nth_image_of [simp]: "i < n \<Longrightarrow> image_of n f ! i = f i"
  by (simp add: image_of_def)

lemma take_min_drop:
  "take (min n (length xs - k)) (drop k xs) = take n (drop k xs)"
  "take (min (length xs - k) n) (drop k xs) = take n (drop k xs)"
  by (auto simp: min_def)

section \<open>Widening casts\<close>

lemma unat_u8_less: "unat (w :: u8) < 256"
  using unsigned_less [of w] by simp

lemma unat_u16_less: "unat (w :: u16) < 65536"
  using unsigned_less [of w] by simp

lemma unat_u32_less: "unat (w :: u32) < 4294967296"
  using unsigned_less [of w] by simp

lemma unat_u64_less: "unat (w :: u64) < 18446744073709551616"
  using unsigned_less [of w] by simp

lemma unat_ucast_widen [simp]:
  "unat (ucast (a :: u8) :: u16) = unat a" "unat (ucast (a :: u8) :: u32) = unat a"
  "unat (ucast (a :: u8) :: u64) = unat a"
  "unat (ucast (b :: u16) :: u32) = unat b" "unat (ucast (b :: u16) :: u64) = unat b"
  "unat (ucast (c :: u32) :: u64) = unat c"
  using unat_u8_less [of a] unat_u16_less [of b] unat_u32_less [of c]
  by (simp_all add: unsigned_ucast_eq take_bit_nat_eq_self)

section \<open>Slices and indices\<close>

text \<open>
  \<^verbatim>\<open>data[a..b]\<close>, \<^verbatim>\<open>data[i]\<close>, \<^verbatim>\<open>data[i] = v\<close> and \<^verbatim>\<open>data[a..b].copy_from_slice(src)\<close>: out of
  range they unwind. Where every index is a constant inside of a fixed array, the models
  read the list directly.
\<close>

definition get_range :: "'a list \<Rightarrow> nat \<Rightarrow> nat \<Rightarrow> 'a list io" where
  "get_range xs a b = (if a \<le> b \<and> b \<le> length xs then Ok (take (b - a) (drop a xs)) else Panic)"

definition get_at :: "'a list \<Rightarrow> nat \<Rightarrow> 'a io" where
  "get_at xs i = (if i < length xs then Ok (xs ! i) else Panic)"

definition put_at :: "'a list \<Rightarrow> nat \<Rightarrow> 'a \<Rightarrow> 'a list io" where
  "put_at xs i v = (if i < length xs then Ok (xs[i := v]) else Panic)"

definition overwrite :: "'a list \<Rightarrow> nat \<Rightarrow> 'a list \<Rightarrow> 'a list" where
  "overwrite xs a src = take a xs @ src @ drop (a + length src) xs"

definition put_range :: "'a list \<Rightarrow> nat \<Rightarrow> nat \<Rightarrow> 'a list \<Rightarrow> 'a list io" where
  "put_range xs a b src =
     (if a \<le> b \<and> b \<le> length xs \<and> length src = b - a then Ok (overwrite xs a src) else Panic)"

definition le16_at :: "bytes \<Rightarrow> nat \<Rightarrow> u16" where
  "le16_at b off = from_le [b ! off, b ! (off + 1)]"

definition le32_at :: "bytes \<Rightarrow> nat \<Rightarrow> u32" where
  "le32_at b off = from_le [b ! off, b ! (off + 1), b ! (off + 2), b ! (off + 3)]"

definition le64_at :: "bytes \<Rightarrow> nat \<Rightarrow> u64" where
  "le64_at b off = from_le (map (\<lambda>i. b ! (off + i)) [0..<8])"

definition be32_at :: "bytes \<Rightarrow> nat \<Rightarrow> u32" where
  "be32_at b off = from_be [b ! off, b ! (off + 1), b ! (off + 2), b ! (off + 3)]"

definition be64_at :: "bytes \<Rightarrow> nat \<Rightarrow> u64" where
  "be64_at b off = from_be (map (\<lambda>i. b ! (off + i)) [0..<8])"

text \<open>\<^verbatim>\<open>chunks_exact(n)\<close>: the incomplete chunk at the end is left out.\<close>

fun chunks_exact :: "nat \<Rightarrow> nat \<Rightarrow> 'a list \<Rightarrow> 'a list list" where
  "chunks_exact 0 n xs = []"
| "chunks_exact (Suc k) n xs = take n xs # chunks_exact k n (drop n xs)"

definition decode_chunks :: "nat \<Rightarrow> (bytes \<Rightarrow> 'a) \<Rightarrow> bytes \<Rightarrow> 'a list" where
  "decode_chunks n f xs = map f (chunks_exact (length xs div n) n xs)"

lemma chunks_exact_numeral:
  "chunks_exact (numeral k) n xs = take n xs # chunks_exact (pred_numeral k) n (drop n xs)"
  by (simp add: numeral_eq_Suc)

lemma length_chunks_exact [simp]: "length (chunks_exact k n xs) = k"
  by (induction k n xs rule: chunks_exact.induct) auto

lemma nth_chunks_exact: "i < k \<Longrightarrow> chunks_exact k n xs ! i = take n (drop (i * n) xs)"
proof (induction k n xs arbitrary: i rule: chunks_exact.induct)
  case (2 k n xs)
  then show ?case by (cases i) (auto simp: add.commute)
qed simp

lemma length_decode_chunks [simp]: "length (decode_chunks n f xs) = length xs div n"
  by (simp add: decode_chunks_def)

lemma nth_decode_chunks: "i < length xs div n \<Longrightarrow> decode_chunks n f xs ! i = f (take n (drop (i * n) xs))"
  by (simp add: decode_chunks_def nth_chunks_exact)

lemma length_overwrite [simp]: "a + length src \<le> length xs \<Longrightarrow> length (overwrite xs a src) = length xs"
  by (simp add: overwrite_def)

lemma nth_overwrite:
  "a + length src \<le> length xs \<Longrightarrow>
   overwrite xs a src ! i = (if a \<le> i \<and> i < a + length src then src ! (i - a) else xs ! i)"
  by (auto simp: overwrite_def nth_append)

lemma take_drop_overwrite:
  "a + length src \<le> length xs \<Longrightarrow> take (length src) (drop a (overwrite xs a src)) = src"
  by (simp add: overwrite_def)

lemma take_overwrite: "b \<le> a \<Longrightarrow> a \<le> length xs \<Longrightarrow> take b (overwrite xs a src) = take b xs"
  by (simp add: overwrite_def)

lemma get_range_Ok_iff [ok_iff]:
  "get_range xs a b = Ok ys \<longleftrightarrow> a \<le> b \<and> b \<le> length xs \<and> ys = take (b - a) (drop a xs)"
  by (auto simp: get_range_def)

lemma get_at_Ok_iff [ok_iff]: "get_at xs i = Ok y \<longleftrightarrow> i < length xs \<and> y = xs ! i"
  by (auto simp: get_at_def)

lemma put_at_Ok_iff [ok_iff]: "put_at xs i v = Ok ys \<longleftrightarrow> i < length xs \<and> ys = xs[i := v]"
  by (auto simp: put_at_def)

lemma put_range_Ok_iff [ok_iff]:
  "put_range xs a b src = Ok ys \<longleftrightarrow> a \<le> b \<and> b \<le> length xs \<and> length src = b - a \<and> ys = overwrite xs a src"
  by (auto simp: put_range_def)

lemma slice_Panic_iff [panic_free]:
  "get_range xs a b = Panic \<longleftrightarrow> \<not> (a \<le> b \<and> b \<le> length xs)"
  "get_at xs i = Panic \<longleftrightarrow> \<not> i < length xs"
  "put_at xs i v = Panic \<longleftrightarrow> \<not> i < length xs"
  "put_range xs a b src = Panic \<longleftrightarrow> \<not> (a \<le> b \<and> b \<le> length xs \<and> length src = b - a)"
  by (simp_all add: get_range_def get_at_def put_at_def put_range_def)

text \<open>Fixed fields read back.\<close>

lemma word32_list: "\<exists>x y z t. to_le (w :: u32) = [x, y, z, t]"
proof -
  have four: "nat_le 4 n = nat_le (Suc (Suc (Suc (Suc 0)))) n" for n
    by (rule arg_cong [of _ _ "\<lambda>k. nat_le k n"]) simp
  have "to_le w = nat_le 4 (unat w)" by (simp add: to_le_def)
  then show ?thesis unfolding four nat_le.simps by blast
qed

lemma word16_list: "\<exists>x y. to_le (w :: u16) = [x, y]"
proof -
  have two: "nat_le 2 n = nat_le (Suc (Suc 0)) n" for n
    by (rule arg_cong [of _ _ "\<lambda>k. nat_le k n"]) simp
  have "to_le w = nat_le 2 (unat w)" by (simp add: to_le_def)
  then show ?thesis unfolding two nat_le.simps by blast
qed

lemma le16_again: "from_le [to_le (w :: u16) ! 0, to_le w ! Suc 0] = w"
proof -
  obtain x y where "to_le w = [x, y]" using word16_list by blast
  then show ?thesis using from_to_le [of w] by simp
qed

lemma le32_again: "from_le [to_le (w :: u32) ! 0, to_le w ! Suc 0, to_le w ! 2, to_le w ! 3] = w"
proof -
  obtain x y z t where "to_le w = [x, y, z, t]" using word32_list by blast
  then show ?thesis using from_to_le [of w] by simp
qed

lemma le32_at_here:
  assumes "xs = pre @ to_le (w :: u32) @ post" and "length pre = k"
  shows "le32_at xs k = w"
proof -
  obtain a b c d where w: "to_le w = [a, b, c, d]" using word32_list by blast
  have "from_le [a, b, c, d] = w" using from_to_le [of w] by (simp flip: w)
  with assms w show ?thesis by (simp add: le32_at_def nth_append)
qed

end
