(* ===== verification/Readers.thy ===== *)
theory Readers
  imports Prelude
begin

text \<open>
  Positional readers: the trait \<^verbatim>\<open>Reader\<close> of \<^verbatim>\<open>detect.rs\<close>, the in-memory reader and the
  helpers of \<^verbatim>\<open>container/mod.rs\<close>, and the bounded reader of \<^verbatim>\<open>container/slice.rs\<close>.

  A trait object is a record of its two methods. \<open>read_at r off n\<close> is a call with a
  zeroed buffer of length \<open>n\<close>: the bytes it stored at the front of the buffer, so that
  the returned count is their number. The contracts a reader can have are the locales
  \<open>safe_reader\<close> (a call returns an error or a count within the buffer), \<open>positional_reader\<close> (its bytes come from one fixed content, reads may be short but make
  progress) and \<open>exact_reader\<close> (no short reads before the end of the content).
\<close>

section \<open>The trait and its implementations\<close>

record reader =
  read_at :: "u64 \<Rightarrow> nat \<Rightarrow> bytes io"
  rsize :: "u64 option"

definition bytes_reader :: "bytes \<Rightarrow> reader" where
  "bytes_reader data =
     \<lparr>read_at = (\<lambda>off n.
        let offset = unat off
        in if offset \<ge> length data then Ok []
           else let available = length data - offset; to_read = min n available
                in Ok (take to_read (drop offset data))),
      rsize = Some (word_of_nat (length data))\<rparr>"

definition slice_reader :: "reader \<Rightarrow> u64 \<Rightarrow> u64 \<Rightarrow> reader" where
  "slice_reader parent offset0 length0 =
     \<lparr>read_at = (\<lambda>off n.
        if off \<ge> length0 then Ok []
        else let available = unat (length0 - off); to_read = min n available
             in read_at parent (offset0 + off) to_read),
      rsize = Some length0\<rparr>"

lemma rsize_bytes_reader: "rsize (bytes_reader d) = Some (word_of_nat (length d))"
  by (simp add: bytes_reader_def)

text \<open>A child of a container: \<^verbatim>\<open>container::Child\<close>, and the trait \<^verbatim>\<open>Container\<close>.\<close>

record child =
  index :: u32
  offset :: u64
  child_reader :: reader

type_synonym container = "reader \<Rightarrow> child list io"

definition slice_child :: "reader \<Rightarrow> u32 \<Rightarrow> u64 \<Rightarrow> u64 \<Rightarrow> child" where
  "slice_child reader i start len =
     \<lparr>index = i, offset = start, child_reader = slice_reader reader start len\<rparr>"

text \<open>What a caller sees of a slice without reading it.\<close>

definition extent :: "child \<Rightarrow> u32 \<times> u64 \<times> u64 option" where
  "extent c = (index c, offset c, rsize (child_reader c))"

lemma extent_slice_child [simp]: "extent (slice_child r i s n) = (i, s, Some n)"
  by (simp add: extent_def slice_child_def slice_reader_def)

lemma slice_child_sel [simp]:
  "index (slice_child r i s n) = i" "offset (slice_child r i s n) = s"
  "child_reader (slice_child r i s n) = slice_reader r s n"
  by (simp_all add: slice_child_def)

text \<open>The window of a child lies between two byte positions of its parent.\<close>

definition child_within :: "child \<Rightarrow> nat \<Rightarrow> nat \<Rightarrow> bool" where
  "child_within c lo hi \<longleftrightarrow> (case rsize (child_reader c) of
     None \<Rightarrow> False | Some n \<Rightarrow> lo \<le> unat (offset c) \<and> unat (offset c) + unat n \<le> hi)"

lemma child_within_slice [simp]:
  "child_within (slice_child r i s n) lo hi \<longleftrightarrow> lo \<le> unat s \<and> unat s + unat n \<le> hi"
  by (simp add: child_within_def slice_child_def slice_reader_def)

section \<open>Fixed-size reads\<close>

text \<open>
  Every parser has its own \<^verbatim>\<open>read_byte\<close>, \<^verbatim>\<open>read_le16\<close>, ...: read \<open>n\<close> bytes, a short
  read is an \<^verbatim>\<open>UnexpectedEof\<close> error, decode. They differ in nothing else.
\<close>

definition read_exactly :: "reader \<Rightarrow> u64 \<Rightarrow> nat \<Rightarrow> bytes io" where
  "read_exactly r off n =
     and_then (read_at r off n) (\<lambda>bs. if length bs \<noteq> n then Err UnexpectedEof else Ok bs)"

definition read_u8 :: "reader \<Rightarrow> u64 \<Rightarrow> u8 io" where
  "read_u8 r off = and_then (read_exactly r off 1) (\<lambda>bs. Ok (bs ! 0))"

definition read_le16 :: "reader \<Rightarrow> u64 \<Rightarrow> u16 io" where
  "read_le16 r off = and_then (read_exactly r off 2) (\<lambda>bs. Ok (from_le bs))"

definition read_le32 :: "reader \<Rightarrow> u64 \<Rightarrow> u32 io" where
  "read_le32 r off = and_then (read_exactly r off 4) (\<lambda>bs. Ok (from_le bs))"

definition read_le64 :: "reader \<Rightarrow> u64 \<Rightarrow> u64 io" where
  "read_le64 r off = and_then (read_exactly r off 8) (\<lambda>bs. Ok (from_le bs))"

definition read_be16 :: "reader \<Rightarrow> u64 \<Rightarrow> u16 io" where
  "read_be16 r off = and_then (read_exactly r off 2) (\<lambda>bs. Ok (from_be bs))"

definition read_be32 :: "reader \<Rightarrow> u64 \<Rightarrow> u32 io" where
  "read_be32 r off = and_then (read_exactly r off 4) (\<lambda>bs. Ok (from_be bs))"

definition read_be64 :: "reader \<Rightarrow> u64 \<Rightarrow> u64 io" where
  "read_be64 r off = and_then (read_exactly r off 8) (\<lambda>bs. Ok (from_be bs))"

lemmas read_defs = read_u8_def read_le16_def read_le32_def read_le64_def
  read_be16_def read_be32_def read_be64_def

section \<open>Reading a whole container\<close>

definition MAX_SIZE :: nat where
  "MAX_SIZE = 1024 * 1024 * 1024"

definition MAX_TABLE_SIZE :: u64 where
  "MAX_TABLE_SIZE = 64 * 1024 * 1024"

text \<open>
  The loop of \<^verbatim>\<open>read_all\<close>: an empty read ends it, and the collected data is checked
  against the limit after every block, so the data grows and the loop ends.
\<close>

function read_all_loop :: "reader \<Rightarrow> u64 \<Rightarrow> bytes \<Rightarrow> bytes io" where
  "read_all_loop reader off data =
     and_then (read_at reader off 65536) (\<lambda>buf.
       if buf = [] then Ok data
       else if length (data @ buf) > MAX_SIZE then Err OtherError
       else read_all_loop reader (off + word_of_nat (length buf)) (data @ buf))"
  by pat_completeness auto
termination
  by (relation "measure (\<lambda>(reader, off, data). Suc MAX_SIZE - length data)")
    (auto simp flip: length_greater_0_conv)

declare read_all_loop.simps [simp del]

definition read_all :: "reader \<Rightarrow> bytes io" where
  "read_all reader = read_all_loop reader 0 []"

section \<open>Metadata tables\<close>

definition checked_table_size :: "reader \<Rightarrow> u64 \<Rightarrow> u64 \<Rightarrow> u64 \<Rightarrow> nat io" where
  "checked_table_size reader off entries entry_size =
     and_then (ok_or (case checked_mul entries entry_size of
                        Some sz \<Rightarrow> if sz \<le> MAX_TABLE_SIZE then Some sz else None
                      | None \<Rightarrow> None) InvalidData) (\<lambda>bytes.
     and_then (ok_or (checked_add off bytes) InvalidData) (\<lambda>end.
     if (case rsize reader of Some sz \<Rightarrow> end > sz | None \<Rightarrow> False) then Err UnexpectedEof
     else Ok (unat bytes)))"

section \<open>Decompressors\<close>

text \<open>
  The decoders are third-party crates. A decoder that is an \<^verbatim>\<open>impl Read\<close> is the bytes it
  yields and the error, if any, that follows them; one that pushes into a \<^verbatim>\<open>Write\<close> is
  the list of buffers it writes and the error, if any, it ends with.
\<close>

type_synonym pull_decoder = "bytes \<Rightarrow> bytes \<times> error_kind option"
type_synonym push_decoder = "bytes \<Rightarrow> bytes list \<times> error_kind option"

fun read_to_end_limited :: "bytes \<times> error_kind option \<Rightarrow> bytes io" where
  "read_to_end_limited (out, e) =
     (if length out > MAX_SIZE then Err InvalidData
      else case e of Some k \<Rightarrow> Err k | None \<Rightarrow> Ok out)"

definition limited_write :: "bytes \<Rightarrow> bytes \<Rightarrow> bytes io" where
  "limited_write data buf =
     (if length data + length buf > MAX_SIZE then Err InvalidData else Ok (data @ buf))"

text \<open>A push decoder run into a \<^verbatim>\<open>LimitedBuffer\<close>: a failing write ends the decoder with
  that error, which its caller turns into \<^verbatim>\<open>InvalidData\<close> like every other.\<close>

fun decode_into_limited :: "bytes list \<times> error_kind option \<Rightarrow> bytes io" where
  "decode_into_limited (bufs, e) =
     and_then (for_each (\<lambda>buf data. limited_write data buf) bufs []) (\<lambda>out.
     case e of Some k \<Rightarrow> Err InvalidData | None \<Rightarrow> Ok out)"

section \<open>The contracts\<close>

text \<open>
  What a client may rely on: a call does not unwind and stores no more than the buffer
  holds; for a \<open>positional_reader\<close> moreover it succeeds, its bytes are those of one fixed \<open>data\<close> at
  the offset asked for, and it stores nothing only for an empty buffer or past the end.
  A short read is allowed. The window of a safe reader is one, wherever it lies.
\<close>

locale safe_reader =
  fixes r :: reader
  assumes read_not_Panic: "read_at r off n \<noteq> Panic"
    and read_bounded: "read_at r off n = Ok bs \<Longrightarrow> length bs \<le> n"
begin

lemma read_exactly_not_Panic: "read_exactly r off n \<noteq> Panic"
  by (auto simp: read_exactly_def panic_free read_not_Panic split: if_splits)

lemma fixed_reads_not_Panic:
  "read_u8 r off \<noteq> Panic" "read_le16 r off \<noteq> Panic" "read_le32 r off \<noteq> Panic"
  "read_le64 r off \<noteq> Panic" "read_be16 r off \<noteq> Panic" "read_be32 r off \<noteq> Panic"
  "read_be64 r off \<noteq> Panic"
  by (simp_all add: read_defs and_then_Panic_iff read_exactly_not_Panic)

lemma read_all_loop_not_Panic: "read_all_loop r off data \<noteq> Panic"
proof (induction "Suc MAX_SIZE - length data" arbitrary: off data rule: less_induct)
  case less
  show ?case
  proof (cases "read_at r off 65536")
    case (Ok buf)
    then show ?thesis
      using less [of "data @ buf" "off + word_of_nat (length buf)"]
      by (subst read_all_loop.simps) (auto simp flip: length_greater_0_conv)
  qed (use read_not_Panic in \<open>subst read_all_loop.simps, simp\<close>)+
qed

lemma read_all_not_Panic: "read_all r \<noteq> Panic"
  by (simp add: read_all_def read_all_loop_not_Panic)

lemma slice_safe: "safe_reader (slice_reader r start len)"
  by unfold_locales
    (auto simp: slice_reader_def Let_def read_not_Panic dest: read_bounded split: if_splits)

end

locale positional_reader = safe_reader +
  fixes data :: bytes
  assumes read_total: "\<exists>bs. read_at r off n = Ok bs"
    and read_prefix: "read_at r off n = Ok bs \<Longrightarrow> bs = take (length bs) (drop (unat off) data)"
    and read_progress: "read_at r off n = Ok [] \<Longrightarrow> n = 0 \<or> length data \<le> unat off"
begin

lemma read_E:
  obtains bs where "read_at r off n = Ok bs" "length bs \<le> n"
    "bs = take (length bs) (drop (unat off) data)"
  using read_total [of off n] read_prefix read_bounded by blast

lemma read_end: "length data \<le> unat off \<Longrightarrow> read_at r off n = Ok []"
  by (rule read_E [of off n]) auto

lemma read_all_loop_from:
  assumes "k \<le> length data" and "k \<le> MAX_SIZE"
  shows "read_all_loop r (word_of_nat k) (take k data) =
    (if length data \<le> MAX_SIZE then Ok data else Err OtherError)"
  using assms
proof (induction "Suc MAX_SIZE - k" arbitrary: k rule: less_induct)
  case less
  have k64: "unat (word_of_nat k :: u64) = k"
    using less.prems(2) by (simp add: unat_of_nat MAX_SIZE_def)
  obtain bs where bs: "read_at r (word_of_nat k) 65536 = Ok bs"
    and pre: "bs = take (length bs) (drop k data)"
    by (rule read_E [of "word_of_nat k" 65536]) (simp add: k64)
  have app: "take k data @ bs = take (k + length bs) data"
    using pre by (simp add: take_add)
  have le: "k + length bs \<le> length data"
    using arg_cong [OF pre, of length] less.prems(1) by simp
  show ?case
  proof (cases "bs = []")
    case True
    then have "length data \<le> k"
      using read_progress [of "word_of_nat k" 65536] bs k64 by simp
    then show ?thesis
      using less.prems bs True by (subst read_all_loop.simps) simp
  next
    case False
    then have more: "Suc MAX_SIZE - (k + length bs) < Suc MAX_SIZE - k"
      using less.prems(2) by (cases bs) auto
    show ?thesis
    proof (cases "k + length bs \<le> MAX_SIZE")
      case True
      have "read_all_loop r (word_of_nat k) (take k data) =
          read_all_loop r (word_of_nat (k + length bs)) (take (k + length bs) data)"
        using bs False True le by (subst read_all_loop.simps) (simp add: app)
      then show ?thesis
        using less.hyps [OF more le True] by simp
    next
      case over: False
      then show ?thesis
        using bs False le by (subst read_all_loop.simps) (simp add: app)
    qed
  qed
qed

lemma read_all_eq: "read_all r = (if length data \<le> MAX_SIZE then Ok data else Err OtherError)"
  using read_all_loop_from [of 0] by (simp add: read_all_def)

lemma read_exactly_cases:
  "read_exactly r off n = Ok (take n (drop (unat off) data)) \<and> n \<le> length data - unat off
   \<or> read_exactly r off n = Err UnexpectedEof"
proof -
  obtain bs where bs: "read_at r off n = Ok bs"
    and pre: "bs = take (length bs) (drop (unat off) data)"
    by (rule read_E)
  show ?thesis
  proof (cases "length bs = n")
    case True
    moreover have "length bs \<le> length data - unat off"
      using arg_cong [OF pre, of length] by simp
    ultimately show ?thesis using bs pre by (simp add: read_exactly_def)
  next
    case False
    then show ?thesis using bs by (simp add: read_exactly_def)
  qed
qed

end

lemmas [panic_free] = safe_reader.read_not_Panic safe_reader.read_exactly_not_Panic
  safe_reader.fixed_reads_not_Panic safe_reader.read_all_not_Panic

text \<open>No short reads: the answer is determined by the content.\<close>

locale exact_reader =
  fixes r :: reader and data :: bytes
  assumes read_at_eq: "read_at r off n = Ok (take n (drop (unat off) data))"

sublocale exact_reader \<subseteq> positional_reader
  by unfold_locales (auto simp: read_at_eq take_min_drop)

context exact_reader
begin

lemma read_exactly_eq:
  "read_exactly r off n =
     (if n \<le> length data - unat off then Ok (take n (drop (unat off) data)) else Err UnexpectedEof)"
  by (auto simp: read_exactly_def read_at_eq)

lemma read_u8_eq:
  "read_u8 r off = (if unat off < length data then Ok (data ! unat off) else Err UnexpectedEof)"
  by (auto simp: read_u8_def read_exactly_eq)

end

text \<open>A window of an exact reader that does not wrap around the address space.\<close>

locale slice_of = exact_reader +
  fixes start len :: u64
  assumes no_wrap: "unat start + unat len \<le> 2 ^ 64"
begin

lemma slice_exact:
  "read_at (slice_reader r start len) off n =
     Ok (take n (drop (unat off) (take (unat len) (drop (unat start) data))))"
proof (cases "off \<ge> len")
  case True
  then show ?thesis
    by (simp add: slice_reader_def word_le_nat_alt)
next
  case False
  then have lt: "unat off < unat len" by (simp add: word_le_nat_alt)
  then have sum: "unat (start + off) = unat start + unat off"
    using no_wrap by (intro unat_add_exact) simp
  have "unat (len - off) = unat len - unat off"
    using False by (simp add: unat_sub word_le_nat_alt)
  then show ?thesis
    using False sum
    by (simp add: slice_reader_def read_at_eq drop_take take_take min.commute add.commute [of "unat off"])
qed

end

sublocale slice_of \<subseteq> slice: exact_reader "slice_reader r start len"
    "take (unat len) (drop (unat start) data)"
  by unfold_locales (rule slice_exact)

interpretation bytes: exact_reader "bytes_reader d" d for d
  by unfold_locales (auto simp: bytes_reader_def Let_def take_min_drop)

text \<open>Sector-addressed windows, as the partition tables with 32-bit sector fields make them.\<close>

lemma sector_bound: "unat (ucast (w :: u32) * 512 :: u64) = unat w * 512"
proof -
  have w: "unat w < 2 ^ 32" using unsigned_less [of w] by simp
  then show ?thesis
    by (subst unat_mult_exact) simp_all
qed

interpretation sector_slice: slice_of "bytes_reader d" d "ucast (lba :: u32) * 512" "ucast (n :: u32) * 512"
  for d lba n
proof unfold_locales
  have "unat lba < 2 ^ 32" "unat n < 2 ^ 32"
    using unsigned_less [of lba] unsigned_less [of n] by simp_all
  then show "unat (ucast lba * 512 :: u64) + unat (ucast n * 512 :: u64) \<le> 2 ^ 64"
    by (simp add: sector_bound)
qed

section \<open>Properties\<close>

text \<open>
  C11. Reading a whole container returns its content exactly, whatever the sizes of the
  short reads its reader makes on the way, and refuses a content over the limit of 1 GiB.
\<close>

theorem read_all_complete:
  assumes "positional_reader r d"
  shows "read_all r = (if length d \<le> MAX_SIZE then Ok d else Err OtherError)"
  using assms by (rule positional_reader.read_all_eq)

lemma one_byte_reader:
  "positional_reader \<lparr>read_at = \<lambda>off n. Ok (take (min n 1) (drop (unat off) d)), rsize = None\<rparr> d"
  by unfold_locales (auto simp: min_def split: if_splits)

theorem read_all_complete_witness:
  "read_all \<lparr>read_at = \<lambda>off n. Ok (take (min n 1) (drop (unat off) [7, 8, 9])), rsize = None\<rparr> = Ok [7, 8, 9]"
  using read_all_complete [OF one_byte_reader [of "[7, 8, 9]"]] by (simp add: MAX_SIZE_def)

text \<open>
  C12. A bounded reader over a window that does not wrap around the address space reads
  exactly the bytes of that window: nothing before it, nothing after it, and nothing
  is lost at its end.
\<close>

theorem slice_reader_window:
  assumes "exact_reader r d" and "unat start + unat len \<le> 2 ^ 64"
  shows "read_at (slice_reader r start len) off n =
    Ok (take n (drop (unat off) (take (unat len) (drop (unat start) d))))"
  using assms by (intro slice_of.slice_exact) (simp add: slice_of_def slice_of_axioms_def)

theorem slice_reader_window_witness:
  "read_at (slice_reader (bytes_reader [1, 2, 3, 4, 5]) 1 3) 1 10 = Ok [3, 4]"
  using slice_reader_window [OF bytes.exact_reader_axioms, of 1 3 "[1, 2, 3, 4, 5]" 1 10] by simp

text \<open>
  A metadata table that \<open>checked_table_size\<close> accepts has the size its header claims
  (no wrap-around), is at most 64 MiB, and lies inside a reader of known size.
\<close>

theorem checked_table_size_bounds:
  assumes "checked_table_size r off entries entry_size = Ok n"
  shows "n = unat entries * unat entry_size \<and> n \<le> 64 * 1024 * 1024 \<and>
    unat off + n < 2 ^ 64 \<and> (\<forall>sz. rsize r = Some sz \<longrightarrow> unat off + n \<le> unat sz)"
proof -
  from assms obtain sz e where sz: "checked_mul entries entry_size = Some sz" "sz \<le> MAX_TABLE_SIZE"
    and e: "checked_add off sz = Some e" and n: "n = unat sz"
    and fits: "\<And>s. rsize r = Some s \<Longrightarrow> \<not> e > s"
    by (auto simp: checked_table_size_def ok_iff split: option.splits if_splits)
  have "unat sz \<le> 64 * 1024 * 1024"
    using sz(2) by (simp add: MAX_TABLE_SIZE_def word_le_nat_alt)
  then show ?thesis
    using checked_mul_Some [OF sz(1)] checked_add_Some [OF e] n fits unat_u64_less [of e]
    by (auto simp: not_less word_le_nat_alt)
qed

theorem checked_table_size_bounds_witness:
  "checked_table_size (bytes_reader (replicate 64 0)) 16 10 4 = Ok 40 \<and> (40::nat) \<le> 64 * 1024 * 1024"
proof -
  have ok: "checked_table_size (bytes_reader (replicate 64 0)) 16 10 4 = Ok 40"
    by (simp add: checked_table_size_def bytes_reader_def checked_mul_def checked_add_def MAX_TABLE_SIZE_def)
  from checked_table_size_bounds [OF ok] ok show ?thesis by simp
qed

end
