(* ===== verification/Checksum.thy ===== *)
theory Checksum
  imports Prelude
begin

text \<open>
  \<^verbatim>\<open>checksum.rs\<close>: the registry of named boot-sector checksums and the repeating-key xor.
  A validator takes a byte slice and says whether its checksum is right; every one of them
  looks at the first 512 bytes only.
\<close>

section \<open>The validators\<close>

definition adfs_step :: "u8 \<Rightarrow> u32 \<Rightarrow> u32" where
  "adfs_step b result = (result AND 0xff) + drop_bit 8 result + ucast b"

definition adfs_sum :: "bytes \<Rightarrow> u32" where
  "adfs_sum data = fold adfs_step (rev (take 511 data)) 0"

definition adfs :: "bytes \<Rightarrow> bool" where
  "adfs data =
     (if length data < 512 then False
      else (ucast (adfs_sum data AND 0xff) :: u8) = data ! 511)"

definition atari_sum :: "bytes \<Rightarrow> u16" where
  "atari_sum data =
     fold (\<lambda>i sum. sum + from_be [data ! (2 * i), data ! (2 * i + 1)]) [0..<256] 0"

definition atari_boot :: "bytes \<Rightarrow> bool" where
  "atari_boot data = (if length data < 512 then False else atari_sum data = 0x1234)"

definition ics_sum :: "bytes \<Rightarrow> u32" where
  "ics_sum data = fold (\<lambda>b sum. sum + ucast b) (take 508 data) 0x50617274"

definition ics :: "bytes \<Rightarrow> bool" where
  "ics data =
     (if length data < 512 then False
      else ics_sum data = from_le [data ! 508, data ! 509, data ! 510, data ! 511])"

definition powertec_sum :: "bytes \<Rightarrow> u8" where
  "powertec_sum data = fold (\<lambda>b sum. sum + b) (take 511 data) 0x2a"

definition powertec :: "bytes \<Rightarrow> bool" where
  "powertec data =
     (if length data < 512 then False
      else if data ! 510 = 0x55 \<and> data ! 511 = 0xaa then False
      else powertec_sum data = data ! 511)"

definition get_checksum :: "string \<Rightarrow> (bytes \<Rightarrow> bool) option" where
  "get_checksum name =
     (if name = ''adfs'' then Some adfs
      else if name = ''atari_boot'' then Some atari_boot
      else if name = ''ics'' then Some ics
      else if name = ''powertec'' then Some powertec
      else None)"

definition xor_decrypt :: "bytes \<Rightarrow> bytes \<Rightarrow> bytes" where
  "xor_decrypt data key =
     (if key = [] then data
      else map (\<lambda>(i, b). b XOR key ! (i mod length key)) (List.enumerate 0 data))"

section \<open>The repeating-key xor\<close>

lemma length_xor_decrypt [simp]: "length (xor_decrypt data key) = length data"
  by (simp add: xor_decrypt_def)

lemma nth_xor_decrypt:
  "i < length data \<Longrightarrow> key \<noteq> [] \<Longrightarrow> xor_decrypt data key ! i = data ! i XOR key ! (i mod length key)"
  by (simp add: xor_decrypt_def nth_enumerate_eq)

lemma xor_decrypt_twice: "xor_decrypt (xor_decrypt data key) key = data"
proof (cases "key = []")
  case True
  then show ?thesis by (simp add: xor_decrypt_def)
next
  case False
  show ?thesis
  proof (rule nth_equalityI)
    fix i assume "i < length (xor_decrypt (xor_decrypt data key) key)"
    then show "xor_decrypt (xor_decrypt data key) key ! i = data ! i"
      using False by (simp add: nth_xor_decrypt xor.assoc)
  qed simp
qed

section \<open>The sums\<close>

lemma fold_plus_word: "fold (\<lambda>b (s :: 'a::len word). s + f b) xs a = a + sum_list (map f xs)"
  by (induction xs arbitrary: a) (simp_all add: add.assoc)

lemma ics_sum_sum_list: "ics_sum data = 0x50617274 + sum_list (map ucast (take 508 data))"
  by (simp add: ics_sum_def fold_plus_word)

lemma powertec_sum_sum_list: "powertec_sum data = 0x2a + sum_list (take 511 data)"
  using fold_plus_word [of "\<lambda>b. b" "take 511 data" "0x2a"] by (simp add: powertec_sum_def)

lemma atari_sum_sum_list:
  "atari_sum data = (\<Sum>i\<leftarrow>[0..<256]. from_be [data ! (2 * i), data ! (2 * i + 1)])"
  by (simp add: atari_sum_def fold_plus_word)

text \<open>The carry of the ADFS sum stays a single bit: the accumulator never leaves nine bits.\<close>

lemma adfs_step_bound:
  assumes "unat r \<le> 511" shows "unat (adfs_step b r) \<le> 511"
proof -
  have low: "unat (r AND 0xff) = unat r mod 256"
  proof -
    have "r AND 0xff = take_bit 8 r" by (simp add: take_bit_eq_mask mask_eq_exp_minus_1)
    then show ?thesis by (simp add: take_bit_eq_mod unat_mod)
  qed
  have high: "unat (drop_bit 8 r) = unat r div 256"
    by (simp add: drop_bit_eq_div unat_div)
  have b: "unat (ucast b :: u32) < 256" using unat_u8_less [of b] by simp
  have hi1: "unat r div 256 \<le> 1" using assms by simp
  have tot: "unat r mod 256 + unat r div 256 \<le> 256"
    using hi1 mod_less_divisor [of 256 "unat r"] by linarith
  have s1: "unat ((r AND 0xff) + drop_bit 8 r) = unat r mod 256 + unat r div 256"
    using tot by (subst unat_add_exact) (simp_all add: low high)
  have "unat (adfs_step b r) = unat r mod 256 + unat r div 256 + unat (ucast b :: u32)"
    unfolding adfs_step_def using tot b by (subst unat_add_exact) (simp_all add: s1)
  with tot b show ?thesis by simp
qed

lemma adfs_sum_bound: "unat (adfs_sum data) \<le> 511"
proof -
  have "unat (fold adfs_step xs a) \<le> 511" if "unat a \<le> 511" for xs and a :: u32
    using that by (induction xs arbitrary: a) (simp_all add: adfs_step_bound)
  then show ?thesis by (simp add: adfs_sum_def)
qed

text \<open>The end-around carry keeps the ADFS sum equal to the plain sum modulo 255.\<close>

lemma adfs_step_mod:
  assumes "unat r \<le> 511"
  shows "unat (adfs_step b r) mod 255 = (unat r + unat b) mod 255"
proof -
  have "r AND 0xff = take_bit 8 r" by (simp add: take_bit_eq_mask mask_eq_exp_minus_1)
  then have low: "unat (r AND 0xff) = unat r mod 256" by (simp add: take_bit_eq_mod unat_mod)
  have high: "unat (drop_bit 8 r) = unat r div 256" by (simp add: drop_bit_eq_div unat_div)
  have b: "unat b < 256" by (rule unat_u8_less)
  have "unat r div 256 \<le> 1" using assms by simp
  then have tot: "unat r mod 256 + unat r div 256 \<le> 256"
    using mod_less_divisor [of 256 "unat r"] by linarith
  then have s1: "unat ((r AND 0xff) + drop_bit 8 r) = unat r mod 256 + unat r div 256"
    by (subst unat_add_exact) (simp_all add: low high)
  have "unat (adfs_step b r) = unat r mod 256 + unat r div 256 + unat b"
    unfolding adfs_step_def using tot b by (subst unat_add_exact) (simp_all add: s1)
  moreover have "unat r + unat b = (unat r mod 256 + unat r div 256 + unat b) + 255 * (unat r div 256)"
    using div_mult_mod_eq [of "unat r" 256] by linarith
  ultimately show ?thesis by (metis mod_mult_self2)
qed

lemma adfs_fold_mod:
  "unat r \<le> 511 \<Longrightarrow> unat (fold adfs_step xs r) mod 255 = (unat r + sum_list (map unat xs)) mod 255"
proof (induction xs arbitrary: r)
  case (Cons x xs)
  have "unat (fold adfs_step (x # xs) r) mod 255 = (unat (adfs_step x r) + sum_list (map unat xs)) mod 255"
    using Cons.IH [OF adfs_step_bound [OF Cons.prems]] by simp
  also have "\<dots> = (unat r + unat x + sum_list (map unat xs)) mod 255"
    using adfs_step_mod [OF Cons.prems] by (metis mod_add_left_eq)
  finally show ?case by (simp add: add.assoc)
qed simp

lemma sum_list_rev_nat: "sum_list (rev xs) = sum_list (xs :: nat list)"
  by (induction xs) simp_all

lemma sum_list_word_update:
  "i < length xs \<Longrightarrow> sum_list (xs[i := v]) = sum_list xs - xs ! i + (v :: 'a::len word)"
  by (induction xs arbitrary: i) (auto simp: nth_Cons list_update.simps algebra_simps split: nat.splits)

section \<open>Properties\<close>

text \<open>
  The repeating-key xor undoes itself and keeps the length, for every key: what the
  nested rules of an xor leaf see are the bytes that were encrypted with that key.
\<close>

theorem xor_decrypt_involution:
  "xor_decrypt (xor_decrypt data key) key = data \<and> length (xor_decrypt data key) = length data"
  by (simp add: xor_decrypt_twice)

text \<open>
  The ADFS sum with its end-around carry is the sum of the first 511 bytes modulo 255,
  and its accumulator never grows past nine bits, so that the comparison of its low byte
  loses at most the last carry.
\<close>

theorem adfs_sum_carry:
  "unat (adfs_sum data) mod 255 = sum_list (map unat (take 511 data)) mod 255 \<and> unat (adfs_sum data) \<le> 511"
  using adfs_fold_mod [of 0 "rev (take 511 data)"] adfs_sum_bound [of data]
  by (simp add: adfs_sum_def rev_map [symmetric] sum_list_rev_nat)

text \<open>
  A sector has exactly one ICS checksum: after 508 bytes only the four bytes of the
  seeded sum, in little-endian order, are accepted.
\<close>

theorem ics_accepts_one_sum:
  assumes "length body = 508"
  shows "ics (body @ to_le (w :: u32) @ rest) = (w = 0x50617274 + sum_list (map ucast body))"
proof -
  have four: "nat_le 4 n = nat_le (Suc (Suc (Suc (Suc 0)))) n" for n
    by (rule arg_cong [of _ _ "\<lambda>k. nat_le k n"]) simp
  have "to_le w = nat_le 4 (unat w)" by (simp add: to_le_def)
  then have "\<exists>a b c d. to_le w = [a, b, c, d]"
    unfolding four nat_le.simps by blast
  then obtain a b c d where w: "to_le w = [a, b, c, d]" by blast
  have nth: "(body @ [a, b, c, d] @ rest) ! (508 + k) = ([a, b, c, d] @ rest) ! k" for k
    using assms by (metis nth_append_length_plus)
  have "from_le [a, b, c, d] = w"
    using from_to_le [of w] by (simp add: w)
  then show ?thesis
    using assms nth [of 0] nth [of 1] nth [of 2] nth [of 3]
    by (auto simp: ics_def ics_sum_sum_list w)
qed

theorem ics_accepts_one_sum_witness:
  "ics (replicate 508 1 @ to_le (0x50617470 :: u32) @ []) \<and> \<not> ics (replicate 508 1 @ to_le (0 :: u32) @ [])"
proof -
  have "sum_list (map ucast (replicate 508 (1 :: u8))) = (508 :: u32)"
    by (simp add: sum_list_replicate)
  with ics_accepts_one_sum [of "replicate 508 1" "0x50617470" "[]"] ics_accepts_one_sum [of "replicate 508 1" 0 "[]"]
  show ?thesis by simp
qed

text \<open>
  The PowerTec checksum catches every change of a single byte of the sector, the
  stored checksum included.
\<close>

theorem powertec_single_change:
  assumes "powertec data" and "length data = 512" and "i < 512" and "v \<noteq> data ! i"
  shows "\<not> powertec (data[i := v])"
proof (cases "i < 511")
  case True
  have "sum_list (take 511 (data[i := v])) = sum_list (take 511 data) - data ! i + v"
    using True assms(2) sum_list_word_update [of i "take 511 data" v] by (simp add: take_update_swap)
  then have "powertec_sum (data[i := v]) - powertec_sum data = v - data ! i"
    by (simp add: powertec_sum_sum_list)
  then have "powertec_sum (data[i := v]) \<noteq> powertec_sum data"
    using assms(4) by (metis right_minus_eq)
  with assms(1,2) True show ?thesis by (auto simp: powertec_def split: if_splits)
next
  case False
  then have "i = 511" using assms(3) by simp
  then have "powertec_sum (data[i := v]) = powertec_sum data" by (simp add: powertec_sum_def)
  with assms \<open>i = 511\<close> show ?thesis by (auto simp: powertec_def split: if_splits)
qed

theorem powertec_single_change_witness:
  "\<not> powertec ((replicate 511 0 @ [0x2a])[5 := 1])"
proof (rule powertec_single_change)
  have sum: "sum_list (replicate 511 (0 :: u8)) = 0" by (simp add: sum_list_replicate)
  show "powertec (replicate 511 0 @ [0x2a])"
    using sum by (simp add: powertec_def powertec_sum_sum_list nth_append)
qed (simp_all add: nth_append)

end
