(* ===== verification/Matching.thy ===== *)
theory Matching
  imports Readers Checksum
begin

text \<open>
  Format rules (\<^verbatim>\<open>format.rs\<close>) and the rule matcher (\<^verbatim>\<open>detect.rs\<close>). A rule is a leaf that
  reads bytes at an offset, or an any/all combination. Matching never fails with an error:
  a failing read makes the rule not match. It can unwind when the reader it is given does,
  so its result is an \<open>io\<close> value that is \<open>Ok\<close> of the answer or \<open>Panic\<close>.
\<close>

section \<open>Rules\<close>

text \<open>An \<^verbatim>\<open>i64\<close> is kept as its 64 bits; \<^verbatim>\<open>as u64\<close> is then the identity.\<close>

datatype rule_value = VInt u64 | VUInt u64 | VBytes "u64 list" | VString string

datatype rule =
    RAny "rule list"
  | RAll "rule list"
  | Leaf (leaf_offset: u64) (leaf_type: string) (leaf_value: "rule_value option")
      (leaf_op: "string option") (leaf_mask: "u64 option") (leaf_name: "string option")
      (leaf_then: "rule list option") (leaf_length: "u32 option")
      (leaf_algorithm: "string option") (leaf_key: "string option")

datatype detect = DAll "rule list" | DAny "rule list"

text \<open>The \<^verbatim>\<open>regex\<close> crate: \<open>None\<close> for a pattern that does not compile.\<close>

type_synonym regex_engine = "string \<Rightarrow> string \<Rightarrow> bool option"

section \<open>Offsets and values\<close>

text \<open>\<open>sint off < 0\<close> is the sign test of the \<^verbatim>\<open>i64\<close>; negation wraps.\<close>

definition resolve_offset :: "u64 \<Rightarrow> u64 option \<Rightarrow> u64 option" where
  "resolve_offset off sz =
     (if 0 \<le> sint off then Some off
      else map_option (\<lambda>s. saturating_sub s (- off)) sz)"

definition numeric_value :: "rule_value \<Rightarrow> u64 option" where
  "numeric_value v = (case v of VInt i \<Rightarrow> Some i | VUInt i \<Rightarrow> Some i | _ \<Rightarrow> None)"

definition compare_num :: "u64 \<Rightarrow> u64 \<Rightarrow> string \<Rightarrow> bool" where
  "compare_num a e op =
     (if op = ''='' then a = e
      else if op = ''!='' then a \<noteq> e
      else if op = ''&'' then a AND e = e
      else if op = ''^'' then a XOR e = 0
      else if op = ''<'' then a < e
      else if op = ''>'' then a > e
      else if op = ''<='' then a \<le> e
      else if op = ''>='' then a \<ge> e
      else False)"

definition compare :: "rule_value \<Rightarrow> rule_value \<Rightarrow> string \<Rightarrow> bool" where
  "compare actual expected op =
     (case (numeric_value actual, numeric_value expected) of
        (Some a, Some e) \<Rightarrow> compare_num a e op
      | _ \<Rightarrow> (case (actual, expected) of (VBytes a, VBytes e) \<Rightarrow> a = e | _ \<Rightarrow> False))"

definition apply_mask :: "u64 option \<Rightarrow> rule_value \<Rightarrow> rule_value" where
  "apply_mask msk v =
     (case msk of
        Some m \<Rightarrow> (case v of VInt i \<Rightarrow> VInt (i AND m) | VUInt i \<Rightarrow> VUInt (i AND m) | w \<Rightarrow> w)
      | None \<Rightarrow> v)"

text \<open>\<^verbatim>\<open>read_bytes_generic\<close>: a failing or short read is \<^verbatim>\<open>None\<close>.\<close>

definition read_bytes_generic :: "reader \<Rightarrow> u64 \<Rightarrow> nat \<Rightarrow> bytes option io" where
  "read_bytes_generic reader off n =
     match_io (read_at reader off n)
       (\<lambda>buf. Ok (if length buf = n then Some buf else None)) (Ok None) Panic"

definition read_num :: "reader \<Rightarrow> u64 \<Rightarrow> nat \<Rightarrow> (bytes \<Rightarrow> u64) \<Rightarrow> rule_value option io" where
  "read_num reader off n decode =
     and_then (read_bytes_generic reader off n) (\<lambda>b. Ok (map_option (\<lambda>bs. VUInt (decode bs)) b))"

definition read_value_generic :: "reader \<Rightarrow> u64 \<Rightarrow> string \<Rightarrow> rule_value option io" where
  "read_value_generic reader off typ =
     (if typ \<in> {''byte'', ''u8'', ''i8''} then read_num reader off 1 (\<lambda>b. ucast (b ! 0))
      else if typ \<in> {''le16'', ''u16'', ''i16''} then read_num reader off 2 (\<lambda>b. ucast (from_le b :: u16))
      else if typ = ''be16'' then read_num reader off 2 (\<lambda>b. ucast (from_be b :: u16))
      else if typ \<in> {''le32'', ''u32'', ''i32''} then read_num reader off 4 (\<lambda>b. ucast (from_le b :: u32))
      else if typ = ''be32'' then read_num reader off 4 (\<lambda>b. ucast (from_be b :: u32))
      else if typ \<in> {''le64'', ''u64'', ''i64''} then read_num reader off 8 from_le
      else if typ = ''be64'' then read_num reader off 8 from_be
      else Ok None)"

section \<open>Leaf rules\<close>

definition match_ascii_regex ::
  "regex_engine \<Rightarrow> reader \<Rightarrow> u64 \<Rightarrow> nat \<Rightarrow> string \<Rightarrow> bool option io" where
  "match_ascii_regex rx reader off len pattern =
     match_io (read_at reader off len)
       (\<lambda>buf. if length buf \<noteq> len then Ok (Some False)
              else if \<not> list_all (\<lambda>b. unat b < 128) buf then Ok (Some False)
              else Ok (rx pattern (map (\<lambda>b. char_of (unat b)) buf)))
       (Ok None) Panic"

definition match_bytes_generic :: "reader \<Rightarrow> u64 \<Rightarrow> rule_value \<Rightarrow> bool option io" where
  "match_bytes_generic reader off expected =
     (case expected of
        VBytes b \<Rightarrow>
          let expected_u8 = map (\<lambda>x. ucast x :: u8) b
          in match_io (read_at reader off (length expected_u8))
               (\<lambda>buf. Ok (Some (length buf = length expected_u8 \<and> buf = expected_u8)))
               (Ok (Some False)) Panic
      | _ \<Rightarrow> Ok None)"

definition match_checksum :: "reader \<Rightarrow> u64 \<Rightarrow> nat \<Rightarrow> string \<Rightarrow> bool io" where
  "match_checksum reader off len algorithm =
     (case get_checksum algorithm of
        None \<Rightarrow> Ok False
      | Some validator \<Rightarrow>
          match_io (read_at reader off len)
            (\<lambda>buf. Ok (length buf = len \<and> validator buf)) (Ok False) Panic)"

text \<open>
  The nested rules of an xor leaf are matched on the decrypted bytes by \<^verbatim>\<open>match_rule_on_bytes\<close>,
  here the argument \<open>on_bytes\<close>; any and all rules at the top are taken apart one level first.
\<close>

definition match_nested :: "(rule \<Rightarrow> bool io) \<Rightarrow> rule \<Rightarrow> bool io" where
  "match_nested on_decrypted r =
     (case r of
        RAny any \<Rightarrow> any_io on_decrypted any
      | RAll all \<Rightarrow> all_io on_decrypted all
      | _ \<Rightarrow> on_decrypted r)"

definition match_xor_then ::
  "(bytes \<Rightarrow> rule \<Rightarrow> bool io) \<Rightarrow> reader \<Rightarrow> u64 \<Rightarrow> nat \<Rightarrow> string \<Rightarrow> rule list option \<Rightarrow> bool io" where
  "match_xor_then on_bytes reader off len key then_rules =
     (case then_rules of
        None \<Rightarrow> Ok True
      | Some rules \<Rightarrow>
          match_io (read_at reader off len)
            (\<lambda>buf. if length buf \<noteq> len then Ok False
              else let decrypted = xor_decrypt buf (map of_char key)
                   in all_io (match_nested (on_bytes decrypted)) rules)
            (Ok False) Panic)"

text \<open>The check of nested rules once a leaf has matched.\<close>

definition then_check :: "(rule \<Rightarrow> bool io) \<Rightarrow> rule list option \<Rightarrow> bool \<Rightarrow> bool io" where
  "then_check recurse then_rules matched =
     (if matched then (case then_rules of Some rules \<Rightarrow> all_io recurse rules | None \<Rightarrow> Ok True)
      else Ok False)"

text \<open>
  \<^verbatim>\<open>matches_leaf\<close>. Its closure \<^verbatim>\<open>recurse\<close> is only ever called with the reader it was given,
  so it is the argument \<open>recurse\<close> applied to that reader.
\<close>

definition matches_leaf ::
  "regex_engine \<Rightarrow> (bytes \<Rightarrow> rule \<Rightarrow> bool io) \<Rightarrow> reader \<Rightarrow> u64 \<Rightarrow> string \<Rightarrow> rule_value option \<Rightarrow>
     string option \<Rightarrow> u64 option \<Rightarrow> u32 option \<Rightarrow> rule list option \<Rightarrow> string option \<Rightarrow> string option \<Rightarrow>
     (rule \<Rightarrow> bool io) \<Rightarrow> bool io" where
  "matches_leaf rx on_bytes reader off typ val op msk len then_rules algorithm key recurse =
     (if typ = ''checksum'' then
        match_checksum reader off (case len of None \<Rightarrow> 512 | Some l \<Rightarrow> unat l)
          (case algorithm of None \<Rightarrow> ''adfs'' | Some a \<Rightarrow> a)
      else if typ = ''xor'' then
        match_xor_then on_bytes reader off (case len of None \<Rightarrow> 256 | Some l \<Rightarrow> unat l)
          (case key of None \<Rightarrow> [] | Some k \<Rightarrow> k) then_rules
      else case val of
        None \<Rightarrow> then_check recurse then_rules True
      | Some expected \<Rightarrow>
        if typ = ''string'' then
          and_then (match_bytes_generic reader off expected)
            (\<lambda>m. case m of None \<Rightarrow> Ok False | Some matched \<Rightarrow> then_check recurse then_rules matched)
        else if typ = ''ascii'' then
          (case len of
             None \<Rightarrow> Ok False
           | Some l \<Rightarrow>
             (case expected of
                VString pattern \<Rightarrow>
                  and_then (match_ascii_regex rx reader off (unat l) pattern)
                    (\<lambda>m. case m of None \<Rightarrow> Ok False
                         | Some matched \<Rightarrow> then_check recurse then_rules matched)
              | _ \<Rightarrow> Ok False))
        else
          and_then (read_value_generic reader off typ)
            (\<lambda>v. case v of
               None \<Rightarrow> Ok False
             | Some actual \<Rightarrow>
                 then_check recurse then_rules
                   (compare (apply_mask msk actual) expected
                      (case op of None \<Rightarrow> ''='' | Some p \<Rightarrow> p))))"

section \<open>The recursion\<close>

text \<open>
  The congruence rules that let the two recursive matchers be defined through
  \<open>matches_leaf\<close>: it only calls \<open>recurse\<close> on its nested rules, and \<open>on_bytes\<close> on them or on
  the members of those that are any/all rules.
\<close>

lemma then_check_cong [fundef_cong]:
  "\<lbrakk>ts = ts'; m = m'; \<And>rs r. ts' = Some rs \<Longrightarrow> r \<in> set rs \<Longrightarrow> f r = f' r\<rbrakk>
     \<Longrightarrow> then_check f ts m = then_check f' ts' m'"
  by (cases ts') (auto simp: then_check_def intro: all_io_cong)

lemma match_xor_then_cong [fundef_cong]:
  assumes "reader = reader'" "off = off'" "len = len'" "key = key'" "ts = ts'"
    and on: "\<And>d rs r. ts' = Some rs \<Longrightarrow> r \<in> set rs \<Longrightarrow> ob d r = ob' d r"
    and any: "\<And>d rs xs r. ts' = Some rs \<Longrightarrow> RAny xs \<in> set rs \<Longrightarrow> r \<in> set xs \<Longrightarrow> ob d r = ob' d r"
    and all: "\<And>d rs xs r. ts' = Some rs \<Longrightarrow> RAll xs \<in> set rs \<Longrightarrow> r \<in> set xs \<Longrightarrow> ob d r = ob' d r"
  shows "match_xor_then ob reader off len key ts = match_xor_then ob' reader' off' len' key' ts'"
proof (cases ts')
  case None
  with assms show ?thesis by (simp add: match_xor_then_def)
next
  case (Some rs)
  have "all_io (match_nested (ob d)) rs = all_io (match_nested (ob' d)) rs" for d
  proof (rule all_io_cong [OF refl])
    fix r assume r: "r \<in> set rs"
    show "match_nested (ob d) r = match_nested (ob' d) r"
      using on [OF Some] any [OF Some] all [OF Some] r
      by (cases r) (auto simp: match_nested_def intro!: any_io_cong all_io_cong)
  qed
  then show ?thesis using assms(1-5) Some by (simp add: match_xor_then_def Let_def cong: if_cong)
qed

lemma matches_leaf_cong [fundef_cong]:
  assumes "rx = rx'" "reader = reader'" "off = off'" "typ = typ'" "val = val'" "op = op'"
    "msk = msk'" "len = len'" "ts = ts'" "alg = alg'" "key = key'"
    and "\<And>d rs r. ts' = Some rs \<Longrightarrow> r \<in> set rs \<Longrightarrow> ob d r = ob' d r"
    and "\<And>d rs xs r. ts' = Some rs \<Longrightarrow> RAny xs \<in> set rs \<Longrightarrow> r \<in> set xs \<Longrightarrow> ob d r = ob' d r"
    and "\<And>d rs xs r. ts' = Some rs \<Longrightarrow> RAll xs \<in> set rs \<Longrightarrow> r \<in> set xs \<Longrightarrow> ob d r = ob' d r"
    and "\<And>rs r. ts' = Some rs \<Longrightarrow> r \<in> set rs \<Longrightarrow> rec r = rec' r"
  shows "matches_leaf rx ob reader off typ val op msk len ts alg key rec =
    matches_leaf rx' ob' reader' off' typ' val' op' msk' len' ts' alg' key' rec'"
proof -
  have x: "match_xor_then ob reader' off' n k ts' = match_xor_then ob' reader' off' n k ts'" for n k
    using assms(12-14) by (intro match_xor_then_cong) auto
  have t: "then_check rec ts' m = then_check rec' ts' m" for m
    using assms(15) by (intro then_check_cong) auto
  show ?thesis
    unfolding matches_leaf_def assms(1-11) x t by (rule refl)
qed

lemma size_nested_rule: "r \<in> set rs \<Longrightarrow> size r \<le> size_list size (rs :: rule list)"
  using size_list_estimation' [of r rs "size r" size] by simp

lemma size_nested_member:
  assumes "RAny xs \<in> set rs \<or> RAll xs \<in> set rs" "r \<in> set xs"
  shows "size r \<le> size_list size (rs :: rule list)"
proof -
  have "size r \<le> size_list size xs" by (rule size_nested_rule) fact
  also have "\<dots> \<le> size_list size rs"
    using assms(1) size_nested_rule [of "RAny xs" rs] size_nested_rule [of "RAll xs" rs] by auto
  finally show ?thesis .
qed

text \<open>\<^verbatim>\<open>match_rule_on_bytes\<close>: the matcher for decrypted data.\<close>

function match_rule_on_bytes :: "regex_engine \<Rightarrow> bytes \<Rightarrow> rule \<Rightarrow> bool io" where
  "match_rule_on_bytes rx d (RAny any) = any_io (\<lambda>r. match_rule_on_bytes rx d r) any"
| "match_rule_on_bytes rx d (RAll all) = all_io (\<lambda>r. match_rule_on_bytes rx d r) all"
| "match_rule_on_bytes rx d (Leaf off typ val op msk nm ts len alg key) =
     (case resolve_offset off (rsize (bytes_reader d)) of
        None \<Rightarrow> Ok False
      | Some resolved \<Rightarrow>
          matches_leaf rx (\<lambda>d' r. match_rule_on_bytes rx d' r) (bytes_reader d) resolved typ val op msk
            len ts alg key (\<lambda>r. match_rule_on_bytes rx d r))"
  by pat_completeness auto
termination
  by (relation "measure (\<lambda>(rx, d, r). size r)")
    (auto simp: less_Suc_eq_le intro!: le_SucI intro: size_nested_rule size_nested_member)

text \<open>\<^verbatim>\<open>matches_rule_dyn\<close>: the matcher for any reader.\<close>

function matches_rule_dyn :: "regex_engine \<Rightarrow> reader \<Rightarrow> rule \<Rightarrow> bool io" where
  "matches_rule_dyn rx reader (RAny any) = any_io (\<lambda>r. matches_rule_dyn rx reader r) any"
| "matches_rule_dyn rx reader (RAll all) = all_io (\<lambda>r. matches_rule_dyn rx reader r) all"
| "matches_rule_dyn rx reader (Leaf off typ val op msk nm ts len alg key) =
     (case resolve_offset off (rsize reader) of
        None \<Rightarrow> Ok False
      | Some resolved \<Rightarrow>
          matches_leaf rx (match_rule_on_bytes rx) reader resolved typ val op msk
            len ts alg key (\<lambda>r. matches_rule_dyn rx reader r))"
  by pat_completeness auto
termination
  by (relation "measure (\<lambda>(rx, d, r). size r)")
    (auto simp: less_Suc_eq_le intro!: le_SucI intro: size_nested_rule size_nested_member)

definition matches_detect_dyn :: "regex_engine \<Rightarrow> reader \<Rightarrow> detect \<Rightarrow> bool io" where
  "matches_detect_dyn rx reader d =
     (case d of DAll all \<Rightarrow> all_io (matches_rule_dyn rx reader) all
      | DAny any \<Rightarrow> any_io (matches_rule_dyn rx reader) any)"

section \<open>The two matchers agree\<close>

lemma match_rule_on_bytes_eq:
  "match_rule_on_bytes rx d rule = matches_rule_dyn rx (bytes_reader d) rule"
proof (induction rx d rule rule: match_rule_on_bytes.induct)
  case (1 rx d any)
  then show ?case by (auto intro: any_io_cong)
next
  case (2 rx d all)
  then show ?case by (auto intro: all_io_cong)
next
  case (3 rx d off ty v op msk nm ts len alg key)
  show ?case
  proof (cases "resolve_offset off (rsize (bytes_reader d))")
    case None
    then show ?thesis by simp
  next
    case (Some resolved)
    then show ?thesis
      using "3.IH"(4) [OF Some] by (auto intro!: matches_leaf_cong)
  qed
qed

text \<open>Taking the nested any/all rules of an xor leaf apart changes nothing.\<close>

lemma match_nested_eq: "match_nested (match_rule_on_bytes rx d) r = match_rule_on_bytes rx d r"
  by (cases r) (auto simp: match_nested_def)

section \<open>Matching is total on a positional reader\<close>

definition decided :: "bool io \<Rightarrow> bool" where
  "decided m \<longleftrightarrow> (\<exists>b. m = Ok b)"

lemma decided_Ok [simp]: "decided (Ok b)"
  by (simp add: decided_def)

lemma decided_all_io: "(\<And>x. x \<in> set xs \<Longrightarrow> decided (f x)) \<Longrightarrow> decided (all_io f xs)"
proof (induction xs)
  case (Cons x xs)
  then obtain b where "f x = Ok b" by (force simp: decided_def)
  with Cons show ?case by simp
qed simp

lemma decided_any_io: "(\<And>x. x \<in> set xs \<Longrightarrow> decided (f x)) \<Longrightarrow> decided (any_io f xs)"
proof (induction xs)
  case (Cons x xs)
  then obtain b where "f x = Ok b" by (force simp: decided_def)
  with Cons show ?case by simp
qed simp

lemma decided_and_then: "\<exists>v. m = Ok v \<Longrightarrow> (\<And>v. decided (f v)) \<Longrightarrow> decided (and_then m f)"
  by auto

lemma decided_match_io:
  "m \<noteq> Panic \<Longrightarrow> (\<And>v. decided (f v)) \<Longrightarrow> decided g \<Longrightarrow> decided (match_io m f g p)"
  by (cases m) auto

lemma match_io_value: "m \<noteq> Panic \<Longrightarrow> (\<And>v. \<exists>w. f v = Ok w) \<Longrightarrow> \<exists>w. match_io m f (Ok c) p = Ok w"
  by (cases m) auto

lemma decided_case_option:
  "decided g \<Longrightarrow> (\<And>x. decided (f x)) \<Longrightarrow> decided (case_option g f v)"
  by (cases v) auto

lemma decided_then_check:
  "(\<And>rs r. ts = Some rs \<Longrightarrow> r \<in> set rs \<Longrightarrow> decided (f r)) \<Longrightarrow> decided (then_check f ts m)"
  by (cases ts) (auto simp: then_check_def intro: decided_all_io)

context safe_reader
begin

lemma read_bytes_generic_Ok: "\<exists>v. read_bytes_generic r off n = Ok v"
  unfolding read_bytes_generic_def by (rule match_io_value) (auto simp: read_not_Panic)

lemma read_num_Ok: "\<exists>v. read_num r off n dec = Ok v"
  using read_bytes_generic_Ok [of off n] by (auto simp: read_num_def)

lemma read_value_generic_Ok: "\<exists>v. read_value_generic r off typ = Ok v"
  unfolding read_value_generic_def by (simp add: read_num_Ok)

lemma match_ascii_regex_Ok: "\<exists>v. match_ascii_regex rx r off n p = Ok v"
  unfolding match_ascii_regex_def by (rule match_io_value) (auto simp: read_not_Panic)

lemma match_bytes_generic_Ok: "\<exists>v. match_bytes_generic r off e = Ok v"
  by (cases e) (auto simp: match_bytes_generic_def Let_def read_not_Panic intro: match_io_value)

lemma decided_checksum: "decided (match_checksum r off n alg)"
  by (auto simp: match_checksum_def read_not_Panic intro!: decided_match_io split: option.split)

lemma decided_xor:
  assumes "\<And>d rs x. ts = Some rs \<Longrightarrow> x \<in> set rs \<Longrightarrow> decided (match_nested (ob d) x)"
  shows "decided (match_xor_then ob r off n key ts)"
proof (cases ts)
  case (Some rs)
  have "decided (all_io (match_nested (ob d)) rs)" for d
    using assms [OF Some] by (rule decided_all_io)
  with Some show ?thesis
    by (auto simp: match_xor_then_def Let_def read_not_Panic intro!: decided_match_io)
qed (simp add: match_xor_then_def)

lemma decided_leaf:
  assumes "\<And>d rs x. ts = Some rs \<Longrightarrow> x \<in> set rs \<Longrightarrow> decided (match_nested (ob d) x)"
    and "\<And>rs x. ts = Some rs \<Longrightarrow> x \<in> set rs \<Longrightarrow> decided (f x)"
  shows "decided (matches_leaf rx ob r off typ val op msk len ts alg key f)"
proof -
  have t: "decided (then_check f ts m)" for m
    using assms(2) by (rule decided_then_check)
  have str: "decided (and_then (match_bytes_generic r off e) (case_option (Ok False) (then_check f ts)))" for e
    by (intro decided_and_then match_bytes_generic_Ok decided_case_option t decided_Ok)
  have asc: "decided (and_then (match_ascii_regex rx r off n p) (case_option (Ok False) (then_check f ts)))"
    for n p
    by (intro decided_and_then match_ascii_regex_Ok decided_case_option t decided_Ok)
  have num: "decided (and_then (read_value_generic r off ty) (case_option (Ok False) (\<lambda>a. then_check f ts (c a))))"
    for ty c
    by (intro decided_and_then read_value_generic_Ok decided_case_option t decided_Ok)
  show ?thesis
    unfolding matches_leaf_def
    using t decided_checksum decided_xor [OF assms(1)] str asc num
    by (simp split: option.split rule_value.split)
qed

end

lemma on_bytes_decided: "decided (match_rule_on_bytes rx d rule)"
proof (induction rx d rule rule: match_rule_on_bytes.induct)
  case (1 rx d any)
  then show ?case by (auto intro: decided_any_io)
next
  case (2 rx d all)
  then show ?case by (auto intro: decided_all_io)
next
  case (3 rx d off ty v op msk nm ts len alg key)
  show ?case
  proof (cases "resolve_offset off (rsize (bytes_reader d))")
    case (Some resolved)
    have "decided (match_nested (match_rule_on_bytes rx d') x)" if "ts = Some rs" "x \<in> set rs" for d' rs x
      using "3.IH"(1) [OF Some that] by (simp add: match_nested_eq)
    with Some "3.IH"(4) [OF Some] show ?thesis
      by (auto intro!: bytes.decided_leaf)
  qed simp
qed

text \<open>Matching a rule, and a whole format, answers yes or no on every safe reader.\<close>

lemma rule_decided:
  assumes "safe_reader reader"
  shows "decided (matches_rule_dyn rx reader rule)"
  using assms
proof (induction rx reader rule rule: matches_rule_dyn.induct)
  case (1 rx reader any)
  then show ?case by (auto intro: decided_any_io)
next
  case (2 rx reader all)
  then show ?case by (auto intro: decided_all_io)
next
  case (3 rx reader off ty v op msk nm ts len alg key)
  show ?case
  proof (cases "resolve_offset off (rsize reader)")
    case (Some resolved)
    with 3 show ?thesis
      by (auto simp: match_nested_eq on_bytes_decided intro!: safe_reader.decided_leaf)
  qed simp
qed

lemma detect_decided:
  "safe_reader reader \<Longrightarrow> decided (matches_detect_dyn rx reader d)"
  by (cases d) (auto simp: matches_detect_dyn_def intro!: decided_all_io decided_any_io rule_decided)

section \<open>What a rule means\<close>

text \<open>
  The specification of the matcher: a rule as a predicate on the bytes of the image, with
  no reader, no buffer and no order of evaluation.
\<close>

definition field :: "bytes \<Rightarrow> u64 \<Rightarrow> nat \<Rightarrow> bytes option" where
  "field d off n = (if n \<le> length d - unat off then Some (take n (drop (unat off) d)) else None)"

definition number_at :: "bytes \<Rightarrow> u64 \<Rightarrow> string \<Rightarrow> u64 option" where
  "number_at d off ty =
     (if ty \<in> {''byte'', ''u8'', ''i8''} then map_option (\<lambda>b. ucast (b ! 0)) (field d off 1)
      else if ty \<in> {''le16'', ''u16'', ''i16''} then map_option (\<lambda>b. ucast (from_le b :: u16)) (field d off 2)
      else if ty = ''be16'' then map_option (\<lambda>b. ucast (from_be b :: u16)) (field d off 2)
      else if ty \<in> {''le32'', ''u32'', ''i32''} then map_option (\<lambda>b. ucast (from_le b :: u32)) (field d off 4)
      else if ty = ''be32'' then map_option (\<lambda>b. ucast (from_be b :: u32)) (field d off 4)
      else if ty \<in> {''le64'', ''u64'', ''i64''} then map_option from_le (field d off 8)
      else if ty = ''be64'' then map_option from_be (field d off 8)
      else None)"

definition value_holds ::
  "regex_engine \<Rightarrow> bytes \<Rightarrow> u64 \<Rightarrow> string \<Rightarrow> rule_value \<Rightarrow> string option \<Rightarrow> u64 option \<Rightarrow> u32 option \<Rightarrow> bool"
where
  "value_holds rx d off ty expected op msk len =
     (if ty = ''string'' then
        (case expected of VBytes b \<Rightarrow> field d off (length b) = Some (map ucast b) | _ \<Rightarrow> False)
      else if ty = ''ascii'' then
        (case (len, expected) of
           (Some l, VString pattern) \<Rightarrow>
             (case field d off (unat l) of
                None \<Rightarrow> False
              | Some bs \<Rightarrow> list_all (\<lambda>b. unat b < 128) bs
                  \<and> rx pattern (map (\<lambda>b. char_of (unat b)) bs) = Some True)
         | _ \<Rightarrow> False)
      else
        (case number_at d off ty of
           None \<Rightarrow> False
         | Some n \<Rightarrow> compare (apply_mask msk (VUInt n)) expected (case op of None \<Rightarrow> ''='' | Some p \<Rightarrow> p)))"

function holds :: "regex_engine \<Rightarrow> bytes \<Rightarrow> rule \<Rightarrow> bool" where
  "holds rx d (RAny any) = (\<exists>r\<in>set any. holds rx d r)"
| "holds rx d (RAll all) = (\<forall>r\<in>set all. holds rx d r)"
| "holds rx d (Leaf off ty v op msk nm ts len alg key) =
     (case resolve_offset off (Some (word_of_nat (length d))) of
        None \<Rightarrow> False
      | Some resolved \<Rightarrow>
          if ty = ''checksum'' then
            (case (get_checksum (case alg of None \<Rightarrow> ''adfs'' | Some a \<Rightarrow> a),
                   field d resolved (case len of None \<Rightarrow> 512 | Some l \<Rightarrow> unat l)) of
               (Some valid, Some bs) \<Rightarrow> valid bs
             | _ \<Rightarrow> False)
          else if ty = ''xor'' then
            (case ts of
               None \<Rightarrow> True
             | Some rs \<Rightarrow>
                 (case field d resolved (case len of None \<Rightarrow> 256 | Some l \<Rightarrow> unat l) of
                    None \<Rightarrow> False
                  | Some bs \<Rightarrow> \<forall>r\<in>set rs.
                      holds rx (xor_decrypt bs (map of_char (case key of None \<Rightarrow> [] | Some k \<Rightarrow> k))) r))
          else
            (case v of None \<Rightarrow> True | Some e \<Rightarrow> value_holds rx d resolved ty e op msk len)
            \<and> (case ts of None \<Rightarrow> True | Some rs \<Rightarrow> \<forall>r\<in>set rs. holds rx d r))"
  by pat_completeness auto
termination
  by (relation "measure (\<lambda>(rx, d, r). size r)")
    (auto simp: less_Suc_eq_le intro!: le_SucI intro: size_nested_rule)

definition detect_holds :: "regex_engine \<Rightarrow> bytes \<Rightarrow> detect \<Rightarrow> bool" where
  "detect_holds rx d dt =
     (case dt of DAll all \<Rightarrow> \<forall>r\<in>set all. holds rx d r | DAny any \<Rightarrow> \<exists>r\<in>set any. holds rx d r)"

lemma then_check_pure:
  "(\<And>rs r. ts = Some rs \<Longrightarrow> r \<in> set rs \<Longrightarrow> f r = Ok (p r)) \<Longrightarrow>
   then_check f ts m = Ok (m \<and> (case ts of None \<Rightarrow> True | Some rs \<Rightarrow> \<forall>r\<in>set rs. p r))"
  by (cases ts) (auto simp: then_check_def all_io_pure)

context exact_reader
begin

lemma read_bytes_generic_field: "read_bytes_generic r off n = Ok (field data off n)"
  by (auto simp: read_bytes_generic_def read_at_eq field_def)

lemma read_value_number_at:
  "read_value_generic r off ty = Ok (map_option VUInt (number_at data off ty))"
  by (simp add: read_value_generic_def number_at_def read_num_def read_bytes_generic_field
      option.map_comp comp_def)

lemma match_bytes_field:
  "match_bytes_generic r off (VBytes b) = Ok (Some (field data off (length b) = Some (map ucast b)))"
  by (auto simp: match_bytes_generic_def read_at_eq field_def Let_def min_def split: if_splits)

lemma match_bytes_other:
  "match_bytes_generic r off (VInt i) = Ok None" "match_bytes_generic r off (VUInt i) = Ok None"
  "match_bytes_generic r off (VString t) = Ok None"
  by (simp_all add: match_bytes_generic_def)

lemma match_ascii_field:
  "match_ascii_regex rx r off n p =
     Ok (case field data off n of
           None \<Rightarrow> Some False
         | Some bs \<Rightarrow> if list_all (\<lambda>b. unat b < 128) bs then rx p (map (\<lambda>b. char_of (unat b)) bs)
                     else Some False)"
  by (auto simp: match_ascii_regex_def read_at_eq field_def)

lemma match_checksum_field:
  "match_checksum r off n alg =
     Ok (case (get_checksum alg, field data off n) of (Some f, Some bs) \<Rightarrow> f bs | _ \<Rightarrow> False)"
  by (auto simp: match_checksum_def read_at_eq field_def split: option.split)

lemma match_xor_field:
  assumes "\<And>rs bs x. ts = Some rs \<Longrightarrow> field data off n = Some bs \<Longrightarrow> x \<in> set rs \<Longrightarrow>
    match_nested (ob (xor_decrypt bs (map of_char key))) x = Ok (p (xor_decrypt bs (map of_char key)) x)"
  shows "match_xor_then ob r off n key ts =
    Ok (case ts of
          None \<Rightarrow> True
        | Some rs \<Rightarrow> (case field data off n of
              None \<Rightarrow> False
            | Some bs \<Rightarrow> \<forall>x\<in>set rs. p (xor_decrypt bs (map of_char key)) x))"
proof (cases ts)
  case ts: (Some rs)
  show ?thesis
  proof (cases "field data off n")
    case None
    with ts show ?thesis
      by (auto simp: match_xor_then_def read_at_eq field_def split: if_splits)
  next
    case (Some bs)
    have "all_io (match_nested (ob (xor_decrypt bs (map of_char key)))) rs =
        Ok (\<forall>x\<in>set rs. p (xor_decrypt bs (map of_char key)) x)"
      using assms [OF ts Some] by (rule all_io_pure)
    with ts Some show ?thesis
      by (auto simp: match_xor_then_def read_at_eq field_def Let_def split: if_splits)
  qed
qed (simp add: match_xor_then_def)

lemma leaf_value_holds:
  assumes "ty \<noteq> ''checksum''" "ty \<noteq> ''xor''"
    and t: "\<And>m. then_check f ts m = Ok (m \<and> q)"
  shows "matches_leaf rx ob r off ty v op msk len ts alg key f =
    Ok ((case v of None \<Rightarrow> True | Some e \<Rightarrow> value_holds rx data off ty e op msk len) \<and> q)"
proof (cases v)
  case None
  with assms show ?thesis by (simp add: matches_leaf_def)
next
  case (Some e)
  consider "ty = ''string''" | "ty = ''ascii''" | "ty \<noteq> ''string''" "ty \<noteq> ''ascii''" by blast
  then show ?thesis
  proof cases
    case 1
    with Some assms show ?thesis
      by (cases e) (simp_all add: matches_leaf_def value_holds_def match_bytes_field match_bytes_other)
  next
    case 2
    with Some assms show ?thesis
      by (auto simp: matches_leaf_def value_holds_def match_ascii_field
          split: option.split rule_value.split)
  next
    case 3
    with Some assms show ?thesis
      by (auto simp: matches_leaf_def value_holds_def read_value_number_at split: option.split)
  qed
qed

end

text \<open>The matcher computes the specification.\<close>

lemma rule_holds:
  assumes "exact_reader reader d" "rsize reader = Some (word_of_nat (length d))"
  shows "matches_rule_dyn rx reader rule = Ok (holds rx d rule)"
  using assms
proof (induction rx d rule arbitrary: reader rule: holds.induct)
  case (1 rx d any)
  then show ?case by (simp add: any_io_pure)
next
  case (2 rx d all)
  then show ?case by (simp add: all_io_pure)
next
  case (3 rx d off ty v op msk nm ts len alg key)
  show ?case
  proof (cases "resolve_offset off (Some (word_of_nat (length d)))")
    case None
    with 3 show ?thesis by simp
  next
    case (Some resolved)
    consider "ty = ''checksum''" | "ty = ''xor''" | "ty \<noteq> ''checksum''" "ty \<noteq> ''xor''" by blast
    then show ?thesis
    proof cases
      case 1
      with 3 Some show ?thesis
        by (simp add: matches_leaf_def exact_reader.match_checksum_field)
    next
      case 2
      have "match_nested (match_rule_on_bytes rx (xor_decrypt bs (map of_char k))) x =
          Ok (holds rx (xor_decrypt bs (map of_char k)) x)"
        if "ts = Some rs" "x \<in> set rs"
          "field d resolved (case len of None \<Rightarrow> 256 | Some l \<Rightarrow> unat l) = Some bs"
          "k = (case key of None \<Rightarrow> [] | Some k \<Rightarrow> k)" for rs x bs k
        unfolding match_nested_eq match_rule_on_bytes_eq
        using "3.IH"(1) [OF Some _ 2 that(1,3,2) bytes.exact_reader_axioms] 2 that(4)
        by (simp add: bytes_reader_def)
      with 2 Some "3.prems" show ?thesis
        by (simp add: matches_leaf_def exact_reader.match_xor_field)
    next
      case other: 3
      have "then_check (matches_rule_dyn rx reader) ts m =
          Ok (m \<and> (case ts of None \<Rightarrow> True | Some rs \<Rightarrow> \<forall>r\<in>set rs. holds rx d r))" for m
        using "3.IH"(2) [OF Some other _ _ "3.prems"] by (intro then_check_pure) auto
      from exact_reader.leaf_value_holds [OF "3.prems"(1) other this]
      show ?thesis using Some other "3.prems"(2) by simp
    qed
  qed
qed

section \<open>Properties\<close>

text \<open>
  C10. The matcher of format rules means what its specification says: on a reader whose
  reads are exact, a format of the catalogue matches just when its any/all combination of
  rules holds of the bytes, nested rules, offsets from the end, masks, checksums and xor
  decryption included.
\<close>

theorem matcher_refines_spec:
  assumes "exact_reader reader d" and "rsize reader = Some (word_of_nat (length d))"
  shows "matches_detect_dyn rx reader dt = Ok (detect_holds rx d dt)"
  using rule_holds [OF assms]
  by (cases dt) (simp_all add: matches_detect_dyn_def detect_holds_def all_io_pure any_io_pure)

definition boot_rule :: detect where
  "boot_rule = DAll [Leaf 2 ''le16'' (Some (VUInt 0xAA55)) None None None
     (Some [Leaf (- 4) ''byte'' (Some (VUInt 7)) (Some ''&'') None None None None None None]) None None None]"

theorem matcher_refines_spec_witness:
  "matches_detect_dyn (\<lambda>_ _. None) (bytes_reader [7, 0, 0x55, 0xAA]) boot_rule = Ok True \<and>
   matches_detect_dyn (\<lambda>_ _. None) (bytes_reader [6, 0, 0x55, 0xAA]) boot_rule = Ok False"
proof -
  have "rsize (bytes_reader d) = Some (word_of_nat (length d))" for d
    by (simp add: bytes_reader_def)
  from matcher_refines_spec [OF bytes.exact_reader_axioms this, of "\<lambda>_ _. None" _ boot_rule]
  show ?thesis
    by (simp add: boot_rule_def detect_holds_def resolve_offset_def field_def number_at_def value_holds_def
        compare_def compare_num_def numeric_value_def apply_mask_def from_le_def saturating_sub_def)
qed

text \<open>
  Matching never fails: on every reader that returns errors instead of unwinding, and
  never overfills its buffer, a format either matches or does not, whatever its rules are.
\<close>

theorem matcher_always_decides:
  assumes "safe_reader reader"
  shows "matches_detect_dyn rx reader dt = Ok True \<or> matches_detect_dyn rx reader dt = Ok False"
  using detect_decided [OF assms, of rx dt] by (auto simp: decided_def)

theorem matcher_always_decides_witness:
  "matches_detect_dyn (\<lambda>_ _. None) \<lparr>read_at = \<lambda>off n. Err OtherError, rsize = None\<rparr> boot_rule = Ok True \<or>
   matches_detect_dyn (\<lambda>_ _. None) \<lparr>read_at = \<lambda>off n. Err OtherError, rsize = None\<rparr> boot_rule = Ok False"
  by (rule matcher_always_decides) (unfold_locales, simp_all)

end
