(* ===== verification/Tables.thy ===== *)
theory Tables
  imports Readers
begin

text \<open>
  The contracts of the containers. \<open>safe_container\<close> is what the walk over nested containers
  relies on: listing the children returns, their readers can be read, and no two children
  have the same index. \<open>partition_table\<close> is the stronger contract of the partition tables,
  whose children are windows of the parent. \<open>entry_table\<close> is the loop most of them consist
  of: one function per entry of a fixed array, numbered by its position.
\<close>

definition window_of :: "reader \<Rightarrow> child \<Rightarrow> bool" where
  "window_of r c \<longleftrightarrow> (\<exists>s n. c = slice_child r (index c) s n)"

lemma window_of_slice [simp, intro]: "window_of r (slice_child r i s n)"
  unfolding window_of_def by (rule exI [of _ s], rule exI [of _ n]) simp

lemma window_of_cases:
  assumes "window_of r c"
  obtains s n where "offset c = s" "child_reader c = slice_reader r s n" "rsize (child_reader c) = Some n"
proof -
  from assms obtain s n where c: "c = slice_child r (index c) s n" unfolding window_of_def by blast
  have "offset c = s" "child_reader c = slice_reader r s n"
    by (subst c, simp)+
  moreover have "rsize (slice_reader r s n) = Some n" by (simp add: slice_reader_def)
  ultimately show thesis using that by simp
qed

section \<open>What the walk relies on\<close>

locale safe_container =
  fixes children :: container
  assumes no_panic: "safe_reader r \<Longrightarrow> children r \<noteq> Panic"
    and child_safe: "safe_reader r \<Longrightarrow> children r = Ok cs \<Longrightarrow> c \<in> set cs \<Longrightarrow> safe_reader (child_reader c)"
    and distinct_indices: "children r = Ok cs \<Longrightarrow> distinct (map index cs)"
begin

lemma child_by_index:
  "children r = Ok cs \<Longrightarrow> c \<in> set cs \<Longrightarrow> c' \<in> set cs \<Longrightarrow> index c = index c' \<Longrightarrow> c = c'"
  using distinct_indices by (metis distinct_map inj_onD)

end

section \<open>Partition tables\<close>

locale partition_table =
  fixes children :: container
  assumes table_no_panic: "safe_reader r \<Longrightarrow> children r \<noteq> Panic"
    and windows: "children r = Ok cs \<Longrightarrow> c \<in> set cs \<Longrightarrow> window_of r c"
    and table_distinct: "children r = Ok cs \<Longrightarrow> distinct (map index cs)"
begin

text \<open>The bytes of a partition are those of its parent, from its offset on.\<close>

lemma partition_bytes:
  assumes "exact_reader r d" and "children r = Ok cs" and "c \<in> set cs"
    and "rsize (child_reader c) = Some n" and "unat (offset c) + unat n \<le> 2 ^ 64"
  shows "exact_reader (child_reader c) (take (unat n) (drop (unat (offset c)) d))"
proof -
  obtain s m where c: "offset c = s" "child_reader c = slice_reader r s m" "rsize (child_reader c) = Some m"
    using windows [OF assms(2,3)] by (rule window_of_cases)
  have "m = n" using c(3) assms(4) by simp
  then have "slice_of r d s m"
    using assms(1,5) c(1) by (simp add: slice_of_def slice_of_axioms_def)
  then show ?thesis
    using c \<open>m = n\<close> by (simp add: exact_reader_def slice_of.slice_exact)
qed

end

sublocale partition_table \<subseteq> safe_container
proof (rule safe_container.intro)
  show "children r \<noteq> Panic" if "safe_reader r" for r using that by (rule table_no_panic)
  show "distinct (map index cs)" if "children r = Ok cs" for r cs using that by (rule table_distinct)
next
  fix r cs c assume r: "safe_reader r" and c: "children r = Ok cs" "c \<in> set cs"
  obtain s m where "child_reader c = slice_reader r s m"
    using windows [OF c] by (rule window_of_cases)
  with r show "safe_reader (child_reader c)" by (simp add: safe_reader.slice_safe)
qed

lemmas [panic_free] = safe_container.no_panic

section \<open>Tables of entries\<close>

lemma index_number: "i < n \<Longrightarrow> n \<le> 2 ^ 32 \<Longrightarrow> unat (word_of_nat i :: u32) = i"
  by (simp add: unat_of_nat)

locale entry_table =
  fixes entry :: "reader \<Rightarrow> nat \<Rightarrow> child option io"
  assumes entry_slice: "entry r i = Ok (Some c) \<Longrightarrow> \<exists>s n. c = slice_child r (word_of_nat i) s n"
    and entry_no_panic: "safe_reader r \<Longrightarrow> entry r i \<noteq> Panic"
begin

lemma entry_index: "entry r i = Ok (Some c) \<Longrightarrow> index c = word_of_nat i"
  using entry_slice [of r i c] by auto

lemma rows_no_panic: "safe_reader r \<Longrightarrow> collect (entry r) xs \<noteq> Panic"
  by (rule collect_not_Panic) (rule entry_no_panic)

lemma rows_windows:
  assumes "collect (entry r) xs = Ok cs" and "c \<in> set cs"
  shows "window_of r c"
  using collect_mem [OF assms] entry_slice by blast

lemma rows_sorted:
  assumes "collect (entry r) [0..<n] = Ok cs" and "n \<le> 2 ^ 32"
  shows "sorted_wrt (<) (map index cs)"
proof (rule collect_sorted [OF assms(1), of index word_of_nat])
  show "index y = word_of_nat i" if "i \<in> set [0..<n]" "entry r i = Ok (Some y)" for i y
    using that by (simp add: entry_index)
  have "(word_of_nat i :: u32) < word_of_nat j" if "i < j" "j < n" for i j
    using that assms(2) index_number [of i n] index_number [of j n] by (simp add: word_less_nat_alt)
  then show "sorted_wrt (\<lambda>i j. (word_of_nat i :: u32) < word_of_nat j) [0..<n]"
    by (auto simp: sorted_wrt_iff_nth_less)
qed

lemma rows_distinct:
  assumes "collect (entry r) [0..<n] = Ok cs" and "n \<le> 2 ^ 32"
  shows "distinct (map index cs)"
  using rows_sorted [OF assms] strict_sorted_iff by blast

lemma rows_below:
  assumes "collect (entry r) [0..<n] = Ok cs" and "n \<le> 2 ^ 32" and "c \<in> set cs"
  shows "unat (index c) < n"
  using collect_mem [OF assms(1,3)] index_number [OF _ assms(2)] by (auto simp: entry_index)

lemma rows_at:
  assumes "collect (entry r) [0..<n] = Ok cs" and "n \<le> 2 ^ 32" and "c \<in> set cs"
  shows "entry r (unat (index c)) = Ok (Some c)"
  using collect_mem [OF assms(1,3)] index_number [OF _ assms(2)] by (auto simp: entry_index)

text \<open>The children are the entries that are not skipped, no more and no less.\<close>

lemma rows_set:
  "collect (entry r) [0..<n] = Ok cs \<Longrightarrow> set cs = {c. \<exists>i<n. entry r i = Ok (Some c)}"
  using collect_mem collect_complete by fastforce

end

section \<open>Children numbered as they are pushed\<close>

text \<open>\<^verbatim>\<open>index: children.len() as u32\<close>\<close>

definition push_slice :: "reader \<Rightarrow> child list \<Rightarrow> u64 \<Rightarrow> u64 \<Rightarrow> child list" where
  "push_slice reader children start len =
     children @ [slice_child reader (word_of_nat (length children)) start len]"

definition numbered :: "child list \<Rightarrow> bool" where
  "numbered cs \<longleftrightarrow> map index cs = map word_of_nat [0..<length cs]"

lemma numbered_Nil [simp]: "numbered []"
  by (simp add: numbered_def)

lemma numbered_snoc: "numbered cs \<Longrightarrow> index c = word_of_nat (length cs) \<Longrightarrow> numbered (cs @ [c])"
  by (simp add: numbered_def)

lemma numbered_push [simp]: "numbered cs \<Longrightarrow> numbered (push_slice r cs s n)"
  by (simp add: push_slice_def numbered_snoc)

lemma set_push_slice [simp]:
  "set (push_slice r cs s n) = insert (slice_child r (word_of_nat (length cs)) s n) (set cs)"
  by (simp add: push_slice_def)

lemma length_push_slice [simp]: "length (push_slice r cs s n) = Suc (length cs)"
  by (simp add: push_slice_def)

lemma numbered_distinct:
  assumes "numbered cs" and "length cs \<le> 2 ^ 32"
  shows "distinct (map index cs)"
proof -
  have "inj_on (word_of_nat :: nat \<Rightarrow> u32) {0..<length cs}"
    using assms(2) by (intro inj_onI) (metis atLeastLessThan_iff index_number)
  with assms(1) show ?thesis by (simp add: numbered_def distinct_map)
qed

definition pushed :: "reader \<Rightarrow> child list \<Rightarrow> bool" where
  "pushed r cs \<longleftrightarrow> numbered cs \<and> (\<forall>c\<in>set cs. window_of r c)"

lemma pushed_Nil [simp]: "pushed r []"
  by (simp add: pushed_def)

lemma pushed_push [simp]: "pushed r cs \<Longrightarrow> pushed r (push_slice r cs s n)"
  by (simp add: pushed_def)

lemma pushed_partition_table:
  assumes "\<And>r. safe_reader r \<Longrightarrow> children r \<noteq> Panic"
    and "\<And>r cs. children r = Ok cs \<Longrightarrow> pushed r cs \<and> length cs \<le> 2 ^ 32"
  shows "partition_table children"
proof (rule partition_table.intro)
  show "window_of r c" if "children r = Ok cs" "c \<in> set cs" for r cs c
    using assms(2) [OF that(1)] that(2) by (simp add: pushed_def)
  show "distinct (map index cs)" if "children r = Ok cs" for r cs
    using assms(2) [OF that] by (simp add: pushed_def numbered_distinct)
qed (rule assms(1))

text \<open>Children numbered by a counter that may also skip numbers.\<close>

definition counted :: "child list \<Rightarrow> u32 \<Rightarrow> bool" where
  "counted cs k \<longleftrightarrow> sorted_wrt (<) (map index cs) \<and> (\<forall>c\<in>set cs. index c < k)"

lemma counted_Nil [simp]: "counted [] k"
  by (simp add: counted_def)

lemma counted_push: "counted cs k \<Longrightarrow> index c = k \<Longrightarrow> k < k' \<Longrightarrow> counted (cs @ [c]) k'"
  by (auto simp: counted_def sorted_wrt_append)

lemma counted_skip: "counted cs k \<Longrightarrow> k \<le> k' \<Longrightarrow> counted cs k'"
  by (auto simp: counted_def)

lemma counted_distinct: "counted cs k \<Longrightarrow> distinct (map index cs)"
  unfolding counted_def using strict_sorted_iff by blast

text \<open>\<^verbatim>\<open>children.push(Child { index: slot, .. }); slot += 1;\<close>\<close>

definition push_slot :: "reader \<Rightarrow> u64 \<Rightarrow> u64 \<Rightarrow> child list \<times> u32 \<Rightarrow> child list \<times> u32" where
  "push_slot reader start len = (\<lambda>(children, slot). (children @ [slice_child reader slot start len], slot + 1))"

definition slotted :: "reader \<Rightarrow> nat \<Rightarrow> child list \<times> u32 \<Rightarrow> bool" where
  "slotted r k = (\<lambda>(cs, slot). counted cs slot \<and> unat slot \<le> k \<and> (\<forall>c\<in>set cs. window_of r c))"

lemma slotted_start [simp]: "slotted r k ([], slot) \<longleftrightarrow> unat slot \<le> k"
  by (simp add: slotted_def)

lemma slotted_mono: "slotted r k s \<Longrightarrow> k \<le> k' \<Longrightarrow> slotted r k' s"
  by (auto simp: slotted_def)

lemma slotted_push:
  assumes "slotted r k s" and "k < 2 ^ 32 - 1"
  shows "slotted r (Suc k) (push_slot r start len s)"
proof -
  obtain cs slot where s: "s = (cs, slot)" by fastforce
  have "unat slot < 2 ^ 32 - 1" using assms s by (simp add: slotted_def)
  then have "unat (slot + 1) = unat slot + 1"
    by (subst unat_add_exact) simp_all
  moreover from this have "slot < slot + 1" by (simp add: word_less_nat_alt)
  ultimately show ?thesis
    using assms(1) s by (auto simp: slotted_def push_slot_def intro: counted_push)
qed

lemma slotted_partition_table:
  assumes "\<And>r. safe_reader r \<Longrightarrow> children r \<noteq> Panic"
    and "\<And>r cs. children r = Ok cs \<Longrightarrow> \<exists>k slot. slotted r k (cs, slot)"
  shows "partition_table children"
proof (rule partition_table.intro)
  show "window_of r c" if "children r = Ok cs" "c \<in> set cs" for r cs c
    using assms(2) [OF that(1)] that(2) by (auto simp: slotted_def)
  show "distinct (map index cs)" if "children r = Ok cs" for r cs
    using assms(2) [OF that] by (auto simp: slotted_def intro: counted_distinct)
qed (rule assms(1))

end
