(* ===== verification/Detect.thy ===== *)
theory Detect
  imports Matching Tables
begin

text \<open>
  The detection tree of \<^verbatim>\<open>detect.rs\<close>: every format of the catalogue whose rule matches a
  reader becomes a node; a format that is a container has below it what is detected in
  each of its children, or the node \<open>data\<close> for a child in which nothing is recognised.
  The catalogue, the registry of containers and the regular expressions are parameters of
  the functions here; \<open>Registry\<close> and \<open>Catalogue\<close> give the crate's own.
\<close>

section \<open>The walk over the containers\<close>

datatype detect_node = DetectNode (node_format: string) (node_index: u32) (node_children: "detect_node list")

type_synonym format_db = "(string \<times> detect) list"
type_synonym registry = "string \<Rightarrow> container option"
type_synonym seen = "(string \<times> u64 \<times> string) set"

definition MAX_DEPTH :: nat where
  "MAX_DEPTH = 16"

definition DATA_FORMAT :: string where
  "DATA_FORMAT = ''data''"

definition is_transform :: "string \<Rightarrow> bool" where
  "is_transform format = (take 4 format = ''arc/'')"

text \<open>
  The function calls itself one level deeper; \<open>detect_inner\<close> is that call. A child in
  which nothing is detected yields \<open>data\<close>. The set of visited keys is threaded through
  the children of one container and dropped afterwards.
\<close>

type_synonym detect_fun = "reader \<Rightarrow> u32 \<Rightarrow> string \<Rightarrow> u64 \<Rightarrow> seen \<Rightarrow> (detect_node list \<times> seen) io"

definition detect_child :: "detect_fun \<Rightarrow> string \<Rightarrow> child \<Rightarrow> detect_node list \<times> seen \<Rightarrow> (detect_node list \<times> seen) io" where
  "detect_child detect_inner child_stream child = (\<lambda>(out, branch_seen).
     and_then (detect_inner (child_reader child) (index child) child_stream (offset child) branch_seen)
       (\<lambda>(detected, branch_seen').
          Ok (out @ (if detected = [] then [DetectNode DATA_FORMAT (index child) []] else detected), branch_seen')))"

definition detect_children :: "detect_fun \<Rightarrow> registry \<Rightarrow> reader \<Rightarrow> string \<Rightarrow> string \<Rightarrow> seen \<Rightarrow> detect_node list io" where
  "detect_children detect_inner containers reader format stream seen =
     (case containers format of
        None \<Rightarrow> Ok []
      | Some container \<Rightarrow>
          match_io (container reader)
            (\<lambda>kids.
               let child_stream = (if is_transform format then stream @ ''/'' @ format else stream)
               in and_then (for_each (detect_child detect_inner child_stream) kids ([], seen)) (\<lambda>(out, _). Ok out))
            (Ok []) Panic)"

definition detect_format ::
  "regex_engine \<Rightarrow> registry \<Rightarrow> detect_fun \<Rightarrow> reader \<Rightarrow> u32 \<Rightarrow> string \<Rightarrow> u64 \<Rightarrow> string \<times> detect \<Rightarrow>
     detect_node list \<times> seen \<Rightarrow> (detect_node list \<times> seen) io" where
  "detect_format rx containers detect_inner reader idx stream off = (\<lambda>(format, rule) (results, seen).
     and_then (matches_detect_dyn rx reader rule) (\<lambda>matched.
     if \<not> matched then Ok (results, seen)
     else if (stream, off, format) \<in> seen then Ok (results, seen)
     else let seen' = insert (stream, off, format) seen in
       and_then (detect_children detect_inner containers reader format stream seen') (\<lambda>children.
       Ok (results @ [DetectNode format idx children], seen'))))"

text \<open>The first argument is the number of levels left, \<^verbatim>\<open>MAX_DEPTH - depth\<close>.\<close>

primrec detect_tree_recursive ::
  "nat \<Rightarrow> regex_engine \<Rightarrow> registry \<Rightarrow> format_db \<Rightarrow> detect_fun" where
  "detect_tree_recursive 0 rx containers formats reader idx stream off seen = Ok ([], seen)"
| "detect_tree_recursive (Suc levels) rx containers formats reader idx stream off seen =
     for_each (detect_format rx containers (detect_tree_recursive levels rx containers formats)
       reader idx stream off) formats ([], seen)"

definition detect_tree :: "regex_engine \<Rightarrow> registry \<Rightarrow> format_db option \<Rightarrow> reader \<Rightarrow> detect_node list io" where
  "detect_tree rx containers formats reader =
     (case formats of
        None \<Rightarrow> Ok []
      | Some db \<Rightarrow> and_then (detect_tree_recursive MAX_DEPTH rx containers db reader 0 '''' 0 {})
                    (\<lambda>(nodes, _). Ok nodes))"

section \<open>What a tree says\<close>

text \<open>
  The meaning of a tree, with no order, no visited set and no depth: a node is true of a
  reader when its format matches it, and each node below it is true of a child of the
  container, or is the \<open>data\<close> node of a child.
\<close>

inductive describes :: "regex_engine \<Rightarrow> registry \<Rightarrow> format_db \<Rightarrow> reader \<Rightarrow> u32 \<Rightarrow> detect_node \<Rightarrow> bool"
  for rx containers formats where
  describes_format:
    "(format, rule) \<in> set formats \<Longrightarrow> matches_detect_dyn rx reader rule = Ok True \<Longrightarrow>
     (\<And>n. n \<in> set nodes \<Longrightarrow> \<exists>container kids c. containers format = Some container \<and> container reader = Ok kids \<and>
        c \<in> set kids \<and> (n = DetectNode DATA_FORMAT (index c) [] \<or>
          describes rx containers formats (child_reader c) (index c) n)) \<Longrightarrow>
     describes rx containers formats reader idx (DetectNode format idx nodes)"

inductive_cases describesE: "describes rx containers formats reader idx (DetectNode format i nodes)"

section \<open>Soundness\<close>

definition sound_inner :: "regex_engine \<Rightarrow> registry \<Rightarrow> format_db \<Rightarrow> detect_fun \<Rightarrow> bool" where
  "sound_inner rx containers formats inner \<longleftrightarrow> (\<forall>r i st off seen out seen'.
     inner r i st off seen = Ok (out, seen') \<longrightarrow> (\<forall>n\<in>set out. describes rx containers formats r i n))"

lemma sound_innerD:
  "sound_inner rx containers formats inner \<Longrightarrow> inner r i st off seen = Ok (out, seen') \<Longrightarrow> n \<in> set out \<Longrightarrow>
   describes rx containers formats r i n"
  unfolding sound_inner_def by blast

lemma detect_child_sound:
  assumes "sound_inner rx containers formats inner"
    and "detect_child inner st c (out, seen) = Ok (out', seen')" and "n \<in> set out'"
  shows "n \<in> set out \<or> n = DetectNode DATA_FORMAT (index c) [] \<or>
    describes rx containers formats (child_reader c) (index c) n"
  using assms(2,3) by (auto simp: detect_child_def ok_iff dest: sound_innerD [OF assms(1)] split: if_splits)

lemma detect_kids_sound:
  assumes "sound_inner rx containers formats inner"
    and "for_each (detect_child inner st) kids (out, seen) = Ok (out', seen')" and "n \<in> set out'"
  shows "n \<in> set out \<or> (\<exists>c\<in>set kids. n = DetectNode DATA_FORMAT (index c) [] \<or>
    describes rx containers formats (child_reader c) (index c) n)"
  using assms(2,3)
proof (induction kids arbitrary: out seen)
  case Nil
  then show ?case by simp
next
  case (Cons c kids)
  from Cons.prems(1) obtain out1 seen1 where one: "detect_child inner st c (out, seen) = Ok (out1, seen1)"
    and rest: "for_each (detect_child inner st) kids (out1, seen1) = Ok (out', seen')"
    by (auto simp: ok_iff)
  from Cons.IH [OF rest Cons.prems(2)] detect_child_sound [OF assms(1) one] show ?case by auto
qed

lemma detect_children_sound:
  assumes "sound_inner rx containers formats inner"
    and "detect_children inner containers r f st seen = Ok nodes" and "n \<in> set nodes"
  shows "\<exists>container kids c. containers f = Some container \<and> container r = Ok kids \<and> c \<in> set kids \<and>
    (n = DetectNode DATA_FORMAT (index c) [] \<or> describes rx containers formats (child_reader c) (index c) n)"
  using assms(2,3) detect_kids_sound [OF assms(1)]
  by (fastforce simp: detect_children_def Let_def ok_iff split: option.splits)

lemma detect_format_sound:
  assumes "sound_inner rx containers formats inner" and "fd \<in> set formats"
    and "detect_format rx containers inner r i st off fd (out, seen) = Ok (out', seen')"
    and "\<And>n. n \<in> set out \<Longrightarrow> describes rx containers formats r i n" and "n \<in> set out'"
  shows "describes rx containers formats r i n"
proof -
  obtain f d where fd: "fd = (f, d)" by fastforce
  have new: "describes rx containers formats r i (DetectNode f i nodes)"
    if "matches_detect_dyn rx r d = Ok True"
      "detect_children inner containers r f st s = Ok nodes" for nodes s
    using assms(2) fd that detect_children_sound [OF assms(1) that(2)]
    by (intro describes_format) auto
  from assms(3-5) new show ?thesis
    by (auto simp: detect_format_def fd Let_def ok_iff split: if_splits)
qed

lemma detect_recursive_sound: "sound_inner rx containers formats (detect_tree_recursive n rx containers formats)"
proof (induction n)
  case 0
  then show ?case by (simp add: sound_inner_def)
next
  case (Suc n)
  have "\<forall>m\<in>set out. describes rx containers formats r i m"
    if "for_each (detect_format rx containers (detect_tree_recursive n rx containers formats) r i st off)
      formats ([], seen) = Ok (out, seen')" for r i st off seen out seen'
  proof -
    have "\<forall>m\<in>set (fst (out, seen')). describes rx containers formats r i m"
      by (rule for_each_inv [OF that]) (use detect_format_sound [OF Suc] in \<open>force+\<close>)
    then show ?thesis by simp
  qed
  then show ?case by (simp add: sound_inner_def)
qed

section \<open>What a level reports\<close>

lemma detect_format_cases:
  assumes "detect_format rx containers inner r i st off (f, d) (out, seen) = Ok (out', seen')"
  obtains "matches_detect_dyn rx r d = Ok False" "out' = out" "seen' = seen"
  | "matches_detect_dyn rx r d = Ok True" "(st, off, f) \<in> seen" "out' = out" "seen' = seen"
  | nodes where "matches_detect_dyn rx r d = Ok True" "(st, off, f) \<notin> seen"
      "detect_children inner containers r f st (insert (st, off, f) seen) = Ok nodes"
      "out' = out @ [DetectNode f i nodes]" "seen' = insert (st, off, f) seen"
proof -
  from assms obtain m where "matches_detect_dyn rx r d = Ok m"
    by (auto simp: detect_format_def ok_iff)
  note step = assms [unfolded detect_format_def, simplified this]
  show thesis
  proof (cases m)
    case False
    with step \<open>matches_detect_dyn rx r d = Ok m\<close> show thesis by (intro that(1)) simp_all
  next
    case True
    note m = True \<open>matches_detect_dyn rx r d = Ok m\<close>
    show thesis
    proof (cases "(st, off, f) \<in> seen")
      case True
      with step m show thesis by (intro that(2)) simp_all
    next
      case False
      with step m obtain nodes
        where "detect_children inner containers r f st (insert (st, off, f) seen) = Ok nodes"
          "out' = out @ [DetectNode f i nodes]" "seen' = insert (st, off, f) seen"
        by (auto simp: Let_def and_then_Ok_iff)
      with False m show thesis by (intro that(3)) simp_all
    qed
  qed
qed

text \<open>The formats of a level: those that match and were not seen, in the order of the catalogue.\<close>

definition reported :: "regex_engine \<Rightarrow> reader \<Rightarrow> string \<Rightarrow> u64 \<Rightarrow> seen \<Rightarrow> format_db \<Rightarrow> string list" where
  "reported rx r st off seen formats =
     map fst (filter (\<lambda>(f, d). matches_detect_dyn rx r d = Ok True \<and> (st, off, f) \<notin> seen) formats)"

lemma reported_Cons:
  "reported rx r st off seen ((f, d) # formats) =
     (if matches_detect_dyn rx r d = Ok True \<and> (st, off, f) \<notin> seen then [f] else [])
     @ reported rx r st off seen formats"
  by (simp add: reported_def)

lemma reported_insert:
  "f \<notin> set (map fst formats) \<Longrightarrow> reported rx r st off (insert (st, off, f) seen) formats = reported rx r st off seen formats"
  by (induction formats) (auto simp: reported_def)

lemma detect_formats_reported:
  assumes "for_each (detect_format rx containers inner r i st off) formats (out, seen) = Ok (out', seen')"
    and "distinct (map fst formats)"
  shows "map node_format out' = map node_format out @ reported rx r st off seen formats \<and>
    seen' = seen \<union> (\<lambda>f. (st, off, f)) ` set (reported rx r st off seen formats) \<and>
    (\<forall>n\<in>set out'. n \<in> set out \<or> node_index n = i)"
  using assms
proof (induction formats arbitrary: out seen)
  case Nil
  then show ?case by (simp add: reported_def)
next
  case (Cons fd formats)
  obtain f d where fd: "fd = (f, d)" by fastforce
  from Cons.prems(1) obtain out1 seen1
    where one: "detect_format rx containers inner r i st off (f, d) (out, seen) = Ok (out1, seen1)"
      and rest: "for_each (detect_format rx containers inner r i st off) formats (out1, seen1) = Ok (out', seen')"
    by (auto simp: ok_iff fd)
  have dist: "f \<notin> set (map fst formats)" "distinct (map fst formats)"
    using Cons.prems(2) by (auto simp: fd)
  note ih = Cons.IH [OF rest dist(2)]
  from one show ?case
    by (rule detect_format_cases)
      (use ih in \<open>auto simp: fd reported_Cons reported_insert [OF dist(1)]\<close>)
qed

lemma detect_level_reported:
  assumes "detect_tree_recursive (Suc n) rx containers formats r i st off seen = Ok (out, seen')"
    and "distinct (map fst formats)"
  shows "map node_format out = reported rx r st off seen formats"
    and "seen' = seen \<union> (\<lambda>f. (st, off, f)) ` set (map node_format out)"
    and "\<And>n. n \<in> set out \<Longrightarrow> node_index n = i"
  using detect_formats_reported [of rx containers "detect_tree_recursive n rx containers formats" r i st off formats "[]"]
    assms by auto

text \<open>The formats at the root are exactly those whose rule matches, in catalogue order.\<close>

lemma detect_tree_roots:
  assumes "detect_tree rx containers (Some formats) r = Ok nodes" and "distinct (map fst formats)"
  shows "map node_format nodes = map fst (filter (\<lambda>(f, d). matches_detect_dyn rx r d = Ok True) formats)"
    and "\<And>n. n \<in> set nodes \<Longrightarrow> node_index n = 0"
proof -
  from assms(1) obtain seen where
    "detect_tree_recursive (Suc 15) rx containers formats r 0 '''' 0 {} = Ok (nodes, seen)"
    by (auto simp: detect_tree_def MAX_DEPTH_def ok_iff simp del: detect_tree_recursive.simps)
  from detect_level_reported [OF this assms(2)]
  show "map node_format nodes = map fst (filter (\<lambda>(f, d). matches_detect_dyn rx r d = Ok True) formats)"
    and "\<And>n. n \<in> set nodes \<Longrightarrow> node_index n = 0"
    by (auto simp: reported_def)
qed

section \<open>Depth\<close>

text \<open>\<open>levels_ok k n\<close>: below \<open>n\<close> are at most \<open>k\<close> levels, and the last holds only \<open>data\<close>.\<close>

primrec levels_ok :: "nat \<Rightarrow> detect_node \<Rightarrow> bool" where
  "levels_ok 0 n \<longleftrightarrow> node_format n = DATA_FORMAT \<and> node_children n = []"
| "levels_ok (Suc k) n \<longleftrightarrow> (\<forall>m\<in>set (node_children n). levels_ok k m)"

lemma levels_ok_data [simp]: "levels_ok k (DetectNode DATA_FORMAT i [])"
  by (cases k) simp_all

lemma detect_kids_levels:
  assumes inner: "\<And>r i st off seen out seen' n. inner r i st off seen = Ok (out, seen') \<Longrightarrow> n \<in> set out \<Longrightarrow> levels_ok k n"
    and "for_each (detect_child inner st) kids (out, seen) = Ok (out', seen')" and "\<forall>n\<in>set out. levels_ok k n"
  shows "\<forall>n\<in>set out'. levels_ok k n"
  using assms(2,3)
proof (induction kids arbitrary: out seen)
  case Nil
  then show ?case by simp
next
  case (Cons c kids)
  from Cons.prems(1) obtain out1 seen1 where one: "detect_child inner st c (out, seen) = Ok (out1, seen1)"
    and rest: "for_each (detect_child inner st) kids (out1, seen1) = Ok (out', seen')"
    by (auto simp: ok_iff)
  have "\<forall>n\<in>set out1. levels_ok k n"
    using one Cons.prems(2) by (auto simp: detect_child_def ok_iff dest: inner split: if_splits)
  then show ?case by (rule Cons.IH [OF rest])
qed

lemma detect_recursive_levels:
  "detect_tree_recursive k rx containers formats r i st off seen = Ok (out, seen') \<Longrightarrow> n \<in> set out \<Longrightarrow> levels_ok k n"
proof (induction k arbitrary: r i st off seen out seen' n)
  case 0
  then show ?case by simp
next
  case (Suc k)
  let ?inner = "detect_tree_recursive k rx containers formats"
  have kids: "levels_ok k n" if "detect_children ?inner containers r f st s = Ok nodes" "n \<in> set nodes" for f st s nodes n
    using that detect_kids_levels [OF Suc.IH]
    by (fastforce simp: detect_children_def Let_def ok_iff split: option.splits)
  from Suc.prems(1) have "for_each (detect_format rx containers ?inner r i st off) formats ([], seen) = Ok (out, seen')"
    by simp
  then have "\<forall>n\<in>set (fst (out, seen')). levels_ok (Suc k) n"
  proof (rule for_each_inv)
    show "\<forall>n\<in>set (fst u). levels_ok (Suc k) n \<Longrightarrow> detect_format rx containers ?inner r i st off fd u = Ok v \<Longrightarrow>
        \<forall>n\<in>set (fst v). levels_ok (Suc k) n" for fd u v
    proof -
      assume u: "\<forall>n\<in>set (fst u). levels_ok (Suc k) n"
        and v: "detect_format rx containers ?inner r i st off fd u = Ok v"
      obtain f d o1 s1 o2 s2 where eq: "fd = (f, d)" "u = (o1, s1)" "v = (o2, s2)"
        by (cases fd, cases u, cases v)
      from v [unfolded eq] show "\<forall>n\<in>set (fst v). levels_ok (Suc k) n"
        by (rule detect_format_cases) (use u eq kids in auto)
    qed
  qed simp
  with Suc.prems(2) show ?case by simp
qed

section \<open>No panic\<close>

text \<open>A registry whose containers, for the formats of a catalogue, keep the contract.\<close>

definition safe_registry :: "registry \<Rightarrow> format_db \<Rightarrow> bool" where
  "safe_registry containers formats \<longleftrightarrow> (\<forall>f\<in>fst ` set formats. \<forall>c. containers f = Some c \<longrightarrow> safe_container c)"

lemma for_each_returns: "(\<And>x u. x \<in> set xs \<Longrightarrow> \<exists>v. f x u = Ok v) \<Longrightarrow> \<exists>t. for_each f xs s = Ok t"
proof (induction xs arbitrary: s)
  case (Cons x xs)
  then obtain u where "f x s = Ok u" by (meson list.set_intros(1))
  with Cons show ?case by simp
qed simp

lemma detect_recursive_returns:
  assumes "safe_registry containers formats"
  shows "safe_reader r \<Longrightarrow> \<exists>v. detect_tree_recursive k rx containers formats r i st off seen = Ok v"
proof (induction k arbitrary: r i st off seen)
  case 0
  then show ?case by simp
next
  case (Suc k)
  let ?inner = "detect_tree_recursive k rx containers formats"
  have kids: "\<exists>v. detect_children ?inner containers r f st s = Ok v" if f: "f \<in> fst ` set formats" for f st s
  proof (cases "containers f")
    case (Some c)
    then have c: "safe_container c" using assms f unfolding safe_registry_def by blast
    have "\<exists>v. detect_child ?inner st' x u = Ok v" if ks: "c r = Ok ks" "x \<in> set ks" for st' x u ks
    proof -
      obtain out s' where "?inner (child_reader x) (index x) st' (offset x) (snd u) = Ok (out, s')"
        using Suc.IH [OF safe_container.child_safe [OF c Suc.prems ks]] by fastforce
      then show ?thesis by (simp add: detect_child_def split_beta)
    qed
    then have "\<exists>v. for_each (detect_child ?inner st') ks ([], s) = Ok v" if "c r = Ok ks" for st' ks
      using that by (intro for_each_returns) blast
    note loop = this
    show ?thesis
    proof (cases "c r")
      case (Ok ks)
      obtain out s' where "for_each (detect_child ?inner (if is_transform f then st @ ''/'' @ f else st)) ks ([], s) =
          Ok (out, s')"
        using loop [OF Ok] by fastforce
      with Some Ok show ?thesis by (simp add: detect_children_def Let_def)
    qed (use Some safe_container.no_panic [OF c Suc.prems] in \<open>simp_all add: detect_children_def\<close>)
  qed (simp add: detect_children_def)
  have "\<exists>v. detect_format rx containers ?inner r i st off fd u = Ok v" if fd: "fd \<in> set formats" for fd u
  proof -
    obtain f d out s where eq: "fd = (f, d)" "u = (out, s)" by (cases fd, cases u)
    have "f \<in> fst ` set formats" using fd eq(1) by force
    obtain m where "matches_detect_dyn rx r d = Ok m"
      using detect_decided [OF Suc.prems, of rx d] by (auto simp: decided_def)
    moreover obtain nodes where "detect_children ?inner containers r f st (insert (st, off, f) s) = Ok nodes"
      using kids \<open>f \<in> fst ` set formats\<close> by blast
    ultimately show ?thesis by (simp add: detect_format_def eq Let_def)
  qed
  then show ?case unfolding detect_tree_recursive.simps by (intro for_each_returns) blast
qed

text \<open>Detection always produces a tree.\<close>

lemma detect_tree_returns:
  assumes "\<And>db. formats = Some db \<Longrightarrow> safe_registry containers db" and "safe_reader r"
  shows "\<exists>nodes. detect_tree rx containers formats r = Ok nodes"
proof (cases formats)
  case (Some db)
  note safe = assms(1) [OF Some]
  obtain out s where "detect_tree_recursive MAX_DEPTH rx containers db r 0 [] 0 {} = Ok (out, s)"
    using detect_recursive_returns [OF safe assms(2)] by fastforce
  with Some show ?thesis by (simp add: detect_tree_def)
qed (simp add: detect_tree_def)

section \<open>Every child is reported\<close>

lemma describes_index: "describes rx containers formats r i n \<Longrightarrow> node_index n = i"
  by (erule describes.cases) simp

lemma detect_kids_cover:
  assumes "sound_inner rx containers formats inner"
    and "for_each (detect_child inner st) kids (out, seen) = Ok (out', seen')"
  shows "\<exists>groups. out' = out @ concat groups \<and>
    list_all2 (\<lambda>g c. g \<noteq> [] \<and> (\<forall>n\<in>set g. node_index n = index c)) groups kids"
  using assms(2)
proof (induction kids arbitrary: out seen)
  case Nil
  then show ?case by simp
next
  case (Cons c kids)
  from Cons.prems obtain out1 seen1 where one: "detect_child inner st c (out, seen) = Ok (out1, seen1)"
    and rest: "for_each (detect_child inner st) kids (out1, seen1) = Ok (out', seen')"
    by (auto simp: ok_iff)
  from one obtain found where found: "inner (child_reader c) (index c) st (offset c) seen = Ok (found, seen1)"
    and out1: "out1 = out @ (if found = [] then [DetectNode DATA_FORMAT (index c) []] else found)"
    by (auto simp: detect_child_def ok_iff)
  from Cons.IH [OF rest] obtain groups where "out' = out1 @ concat groups"
    "list_all2 (\<lambda>g c. g \<noteq> [] \<and> (\<forall>n\<in>set g. node_index n = index c)) groups kids" by blast
  moreover have "node_index n = index c" if "n \<in> set found" for n
    using describes_index [OF sound_innerD [OF assms(1) found that]] .
  ultimately show ?case
    using out1 by (intro exI [of _ "(if found = [] then [DetectNode DATA_FORMAT (index c) []] else found) # groups"]) auto
qed

lemma detect_children_cover:
  assumes "sound_inner rx containers formats inner"
    and "detect_children inner containers r f st seen = Ok nodes"
    and "containers f = Some container" and "container r = Ok kids"
  shows "\<exists>groups. nodes = concat groups \<and>
    list_all2 (\<lambda>g c. g \<noteq> [] \<and> (\<forall>n\<in>set g. node_index n = index c)) groups kids"
  using assms(2-4) detect_kids_cover [OF assms(1), of _ kids "[]"]
  by (fastforce simp: detect_children_def Let_def ok_iff)

lemma detect_formats_children:
  assumes "for_each (detect_format rx containers inner r i st off) formats (out, seen) = Ok (out', seen')"
    and "DetectNode f i nodes \<in> set out'"
  shows "DetectNode f i nodes \<in> set out \<or> (\<exists>s. detect_children inner containers r f st s = Ok nodes)"
  using assms
proof (induction formats arbitrary: out seen)
  case Nil
  then show ?case by simp
next
  case (Cons fd formats)
  obtain g d where fd: "fd = (g, d)" by fastforce
  from Cons.prems(1) obtain out1 seen1
    where one: "detect_format rx containers inner r i st off (g, d) (out, seen) = Ok (out1, seen1)"
      and rest: "for_each (detect_format rx containers inner r i st off) formats (out1, seen1) = Ok (out', seen')"
    by (auto simp: ok_iff fd)
  from one show ?case
    by (rule detect_format_cases) (use Cons.IH [OF rest Cons.prems(2)] in auto)
qed

lemma detect_tree_children:
  assumes "detect_tree rx containers (Some formats) r = Ok nodes" and "DetectNode f 0 below \<in> set nodes"
    and "containers f = Some container" and "container r = Ok kids"
  shows "\<exists>groups. below = concat groups \<and>
    list_all2 (\<lambda>g c. g \<noteq> [] \<and> (\<forall>n\<in>set g. node_index n = index c)) groups kids"
proof -
  from assms(1) obtain seen where
    "for_each (detect_format rx containers (detect_tree_recursive 15 rx containers formats) r 0 '''' 0)
       formats ([], {}) = Ok (nodes, seen)"
    by (auto simp: detect_tree_def MAX_DEPTH_def ok_iff eval_nat_numeral)
  from detect_formats_children [OF this assms(2)] obtain s where
    "detect_children (detect_tree_recursive 15 rx containers formats) containers r f '''' s = Ok below" by auto
  from detect_children_cover [OF detect_recursive_sound this] assms(3,4) show ?thesis .
qed

section \<open>The visited set between siblings\<close>

text \<open>
  The key of a visited format is the stream, the offset in the direct parent and the
  format. Two children of one container at the same offset share their keys, whatever
  their bytes are: a format reported for the first is not reported for the second.
\<close>

lemma siblings_clash:
  assumes "for_each (detect_child (detect_tree_recursive (Suc k) rx containers formats) st) [c1, c2] ([], seen) =
      Ok (nodes, seen')"
    and "distinct (map fst formats)" and "offset c1 = offset c2" and "index c1 \<noteq> index c2"
    and "n1 \<in> set nodes" "n2 \<in> set nodes" "node_index n1 = index c1" "node_index n2 = index c2"
    and "node_format n1 = node_format n2"
  shows "node_format n1 = DATA_FORMAT"
proof -
  let ?inner = "detect_tree_recursive (Suc k) rx containers formats"
  from assms(1) obtain o1 s1 o2 where
    one: "?inner (child_reader c1) (index c1) st (offset c1) seen = Ok (o1, s1)"
    and two: "?inner (child_reader c2) (index c2) st (offset c2) s1 = Ok (o2, seen')"
    and nodes: "nodes = (if o1 = [] then [DetectNode DATA_FORMAT (index c1) []] else o1)
      @ (if o2 = [] then [DetectNode DATA_FORMAT (index c2) []] else o2)"
    by (auto simp: detect_child_def ok_iff simp del: detect_tree_recursive.simps)
  note l1 = detect_level_reported [OF one assms(2)] and l2 = detect_level_reported [OF two assms(2)]
  have n1: "n1 \<in> set o1 \<or> node_format n1 = DATA_FORMAT"
    using assms(4,5,7) nodes l2(3) by (auto split: if_splits)
  have n2: "n2 \<in> set o2 \<or> node_format n2 = DATA_FORMAT"
    using assms(4,6,8) nodes l1(3) by (auto split: if_splits)
  have False if "n1 \<in> set o1" "n2 \<in> set o2"
  proof -
    have "(st, offset c1, node_format n1) \<in> s1" using l1(2) that(1) by auto
    moreover have "node_format n2 \<in> set (map node_format o2)" using that(2) by simp
    then have "(st, offset c2, node_format n2) \<notin> s1"
      unfolding l2(1) by (auto simp: reported_def)
    ultimately show False using assms(3,9) by simp
  qed
  with n1 n2 assms(9) show ?thesis by auto
qed

section \<open>The properties of the walk\<close>

text \<open>A catalogue with one container and one plain format, and an image of each.\<close>

definition byte_rule :: "u64 \<Rightarrow> detect" where
  "byte_rule v = DAll [Leaf 0 ''byte'' (Some (VUInt v)) None None None None None None None]"

definition two_formats :: format_db where
  "two_formats = [(''arc/one'', byte_rule 1), (''fs/two'', byte_rule 2)]"

definition one_container :: registry where
  "one_container format =
     (if format = ''arc/one''
      then Some (\<lambda>_. Ok [\<lparr>index = 3, offset = 0, child_reader = bytes_reader [2]\<rparr>,
                          \<lparr>index = 4, offset = 0, child_reader = bytes_reader [9]\<rparr>,
                          \<lparr>index = 5, offset = 0, child_reader = bytes_reader [2]\<rparr>])
      else None)"

abbreviation no_regex :: regex_engine where "no_regex \<equiv> (\<lambda>_ _. None)"

lemma resolve_offset_0 [simp]: "resolve_offset 0 sz = Some 0"
  by (simp add: resolve_offset_def)

lemma byte_rule_matches:
  "matches_detect_dyn no_regex (bytes_reader [b]) (byte_rule v) = Ok (ucast b = v)"
proof -
  have "rsize (bytes_reader [b]) = Some (word_of_nat (length [b]))" by (simp add: bytes_reader_def)
  then have "matches_detect_dyn no_regex (bytes_reader [b]) (byte_rule v) = Ok (detect_holds no_regex [b] (byte_rule v))"
    using rule_holds [OF bytes.exact_reader_axioms, of "[b]" no_regex]
    by (simp add: byte_rule_def matches_detect_dyn_def detect_holds_def all_io_pure del: matches_rule_dyn.simps holds.simps)
  also have "detect_holds no_regex [b] (byte_rule v) = (ucast b = v)"
    by (simp add: byte_rule_def detect_holds_def resolve_offset_def field_def number_at_def value_holds_def
        compare_def compare_num_def numeric_value_def apply_mask_def)
  finally show ?thesis .
qed

lemma two_formats_tree:
  "detect_tree no_regex one_container (Some two_formats) (bytes_reader [1]) =
     Ok [DetectNode ''arc/one'' 0
           [DetectNode ''fs/two'' 3 [], DetectNode ''data'' 4 [], DetectNode ''data'' 5 []]]"
proof -
  have "MAX_DEPTH = Suc (Suc 14)" by (simp add: MAX_DEPTH_def)
  then obtain k where depth: "MAX_DEPTH = Suc (Suc k)" ..
  show ?thesis unfolding detect_tree_def depth
    by (simp add: two_formats_def detect_format_def Let_def
        byte_rule_matches detect_children_def detect_child_def one_container_def is_transform_def DATA_FORMAT_def)
qed

text \<open>
  C1. Every node of a tree is true: its format matches the reader it was reported for,
  and each node below it is true of a child its container opened, or is the \<open>data\<close> of one.
\<close>

theorem detect_tree_sound:
  assumes "detect_tree rx containers (Some formats) reader = Ok nodes" and "n \<in> set nodes"
  shows "describes rx containers formats reader 0 n"
  using assms sound_innerD [OF detect_recursive_sound] by (auto simp: detect_tree_def ok_iff)

theorem detect_tree_sound_witness:
  "describes no_regex one_container two_formats (bytes_reader [1]) 0
     (DetectNode ''arc/one'' 0 [DetectNode ''fs/two'' 3 [], DetectNode ''data'' 4 [], DetectNode ''data'' 5 []])"
  by (rule detect_tree_sound [OF two_formats_tree]) simp

text \<open>
  C2. At the root nothing is left out and nothing is reported twice: the formats are exactly
  those of the catalogue whose rule matches, in the order of the catalogue.
\<close>

theorem detect_tree_complete:
  assumes "detect_tree rx containers (Some formats) reader = Ok nodes" and "distinct (map fst formats)"
  shows "map node_format nodes =
      map fst (filter (\<lambda>(f, rule). matches_detect_dyn rx reader rule = Ok True) formats) \<and>
    (\<forall>n\<in>set nodes. node_index n = 0)"
  using detect_tree_roots [OF assms] by blast

theorem detect_tree_complete_witness:
  "map fst (filter (\<lambda>(f, rule). matches_detect_dyn no_regex (bytes_reader [1]) rule = Ok True) two_formats) =
     [''arc/one'']"
  using detect_tree_complete [OF two_formats_tree] by (simp add: two_formats_def)

text \<open>
  C3. A tree has at most 16 levels of formats, whatever the containers return: below the
  last one there is only \<open>data\<close>. So detection ends on images that contain themselves.
\<close>

theorem detect_tree_depth:
  assumes "detect_tree rx containers formats reader = Ok nodes" and "n \<in> set nodes"
  shows "levels_ok 16 n"
  using assms detect_recursive_levels by (auto simp: detect_tree_def ok_iff MAX_DEPTH_def split: option.splits)

theorem detect_tree_depth_witness:
  "levels_ok 16 (DetectNode ''arc/one'' 0
     [DetectNode ''fs/two'' 3 [], DetectNode ''data'' 4 [], DetectNode ''data'' 5 []])"
  by (rule detect_tree_depth [OF two_formats_tree]) simp

text \<open>
  C4. No child of a detected container is lost: below its node is a group of nodes for
  every child, in the order of the children, none of them empty, each with the child's
  index.
\<close>

theorem detect_tree_all_children:
  assumes "detect_tree rx containers (Some formats) reader = Ok nodes" and "DetectNode f 0 below \<in> set nodes"
    and "containers f = Some container" and "container reader = Ok kids"
  shows "\<exists>groups. below = concat groups \<and>
    list_all2 (\<lambda>g c. g \<noteq> [] \<and> (\<forall>n\<in>set g. node_index n = index c)) groups kids"
  by (rule detect_tree_children [OF assms])

theorem detect_tree_all_children_witness:
  "\<exists>groups. [DetectNode ''fs/two'' 3 [], DetectNode ''data'' 4 [], DetectNode ''data'' 5 []] = concat groups \<and>
     list_all2 (\<lambda>g c. g \<noteq> [] \<and> (\<forall>n\<in>set g. node_index n = index c)) groups
       [\<lparr>index = 3, offset = 0, child_reader = bytes_reader [2]\<rparr>,
        \<lparr>index = 4, offset = 0, child_reader = bytes_reader [9]\<rparr>,
        \<lparr>index = 5, offset = 0, child_reader = bytes_reader [2]\<rparr>]"
  by (rule detect_tree_all_children [OF two_formats_tree]) (simp_all add: one_container_def)

text \<open>
  C6. Of two children of one container at the same offset, only one is recognised as a
  given format: the visited set has one key for both, whatever their bytes are. The
  volumes of a UBI image all have offset 0.
\<close>

theorem same_offset_siblings:
  assumes "for_each (detect_child (detect_tree_recursive (Suc levels) rx containers formats) stream) [c1, c2]
      ([], seen) = Ok (nodes, seen')"
    and "distinct (map fst formats)" and "offset c1 = offset c2" and "index c1 \<noteq> index c2"
    and "n1 \<in> set nodes" and "node_index n1 = index c1" and "node_format n1 \<noteq> DATA_FORMAT"
    and "n2 \<in> set nodes" and "node_index n2 = index c2"
  shows "node_format n2 \<noteq> node_format n1"
  using siblings_clash [OF assms(1-5,8,6,9)] assms(7) by auto

text \<open>Both children are the byte 2; the second is only \<open>data\<close>.\<close>

theorem same_offset_siblings_witness:
  "node_format (DetectNode ''data'' 4 []) \<noteq> node_format (DetectNode ''fs/two'' 3 []) \<and>
   matches_detect_dyn no_regex (bytes_reader [2]) (byte_rule 2) = Ok True"
proof -
  let ?c = "\<lambda>i. \<lparr>index = i, offset = 0, child_reader = bytes_reader [2]\<rparr>"
  have "for_each (detect_child (detect_tree_recursive (Suc 0) no_regex one_container two_formats) '''')
      [?c 3, ?c 4] ([], {}) =
      Ok ([DetectNode ''fs/two'' 3 [], DetectNode ''data'' 4 []], {('''', 0, ''fs/two'')})"
    by (simp add: two_formats_def detect_format_def byte_rule_matches detect_child_def detect_children_def
        one_container_def Let_def DATA_FORMAT_def)
  from same_offset_siblings [OF this, of "DetectNode ''fs/two'' 3 []" "DetectNode ''data'' 4 []"]
  show ?thesis by (simp add: two_formats_def DATA_FORMAT_def byte_rule_matches)
qed

end
