(* ===== verification/Utf8.thy ===== *)
theory Utf8
  imports Prelude
begin

text \<open>
  The text operations of the standard library that the table parsers use: decoding of UTF-8
  with the byte ranges of the Unicode standard (\<^verbatim>\<open>str::from_utf8\<close>), \<^verbatim>\<open>lines\<close>,
  \<^verbatim>\<open>split_whitespace\<close>, \<^verbatim>\<open>trim\<close> and the parser of unsigned decimal numbers. A \<^verbatim>\<open>&str\<close> is its
  list of code points.
\<close>

section \<open>Decoding\<close>

definition in_range :: "u8 \<Rightarrow> u8 \<Rightarrow> u8 \<Rightarrow> bool" where
  "in_range lo hi b \<longleftrightarrow> lo \<le> b \<and> b \<le> hi"

definition continuation :: "u8 \<Rightarrow> nat" where
  "continuation b = unat (b AND 0x3F)"

text \<open>The second byte of a three or four byte sequence has a range of its own.\<close>

definition second_ok :: "u8 \<Rightarrow> u8 \<Rightarrow> bool" where
  "second_ok b0 b1 \<longleftrightarrow>
     (if b0 = 0xE0 then in_range 0xA0 0xBF b1
      else if b0 = 0xED then in_range 0x80 0x9F b1
      else if b0 = 0xF0 then in_range 0x90 0xBF b1
      else if b0 = 0xF4 then in_range 0x80 0x8F b1
      else in_range 0x80 0xBF b1)"

fun utf8_decode :: "bytes \<Rightarrow> nat list option" where
  "utf8_decode [] = Some []"
| "utf8_decode (b0 # bs) =
     (if b0 < 0x80 then map_option ((#) (unat b0)) (utf8_decode bs)
      else if in_range 0xC2 0xDF b0 then
        (case bs of
           b1 # r \<Rightarrow> if second_ok b0 b1
             then map_option ((#) (64 * unat (b0 AND 0x1F) + continuation b1)) (utf8_decode r) else None
         | [] \<Rightarrow> None)
      else if in_range 0xE0 0xEF b0 then
        (case bs of
           b1 # b2 # r \<Rightarrow> if second_ok b0 b1 \<and> in_range 0x80 0xBF b2
             then map_option ((#) (4096 * unat (b0 AND 0x0F) + 64 * continuation b1 + continuation b2))
                    (utf8_decode r) else None
         | _ \<Rightarrow> None)
      else if in_range 0xF0 0xF4 b0 then
        (case bs of
           b1 # b2 # b3 # r \<Rightarrow> if second_ok b0 b1 \<and> in_range 0x80 0xBF b2 \<and> in_range 0x80 0xBF b3
             then map_option ((#) (262144 * unat (b0 AND 0x07) + 4096 * continuation b1
                    + 64 * continuation b2 + continuation b3)) (utf8_decode r) else None
         | _ \<Rightarrow> None)
      else None)"

definition code_points :: "string \<Rightarrow> nat list" where
  "code_points s = map of_char s"

lemma utf8_decode_ascii:
  "list_all (\<lambda>b. b < 0x80) bs \<Longrightarrow> utf8_decode bs = Some (map unat bs)"
  by (induction bs) simp_all

section \<open>Splitting\<close>

definition is_whitespace :: "nat \<Rightarrow> bool" where
  "is_whitespace c \<longleftrightarrow> 9 \<le> c \<and> c \<le> 13 \<or> 0x2000 \<le> c \<and> c \<le> 0x200A
     \<or> c \<in> {0x20, 0x85, 0xA0, 0x1680, 0x2028, 0x2029, 0x202F, 0x205F, 0x3000}"

text \<open>\<^verbatim>\<open>split_inclusive('\n')\<close> and the removal of the line ending.\<close>

fun split_inclusive :: "nat list \<Rightarrow> nat list list" where
  "split_inclusive [] = []"
| "split_inclusive (c # cs) =
     (if c = 10 then [c] # split_inclusive cs
      else case split_inclusive cs of
             [] \<Rightarrow> [[c]]
           | l # ls \<Rightarrow> (c # l) # ls)"

definition strip_ending :: "nat list \<Rightarrow> nat list" where
  "strip_ending l =
     (if l = [] \<or> last l \<noteq> 10 then l
      else let m = butlast l in if m = [] \<or> last m \<noteq> 13 then m else butlast m)"

definition str_lines :: "nat list \<Rightarrow> nat list list" where
  "str_lines s = map strip_ending (split_inclusive s)"

definition trim :: "nat list \<Rightarrow> nat list" where
  "trim s = rev (dropWhile is_whitespace (rev (dropWhile is_whitespace s)))"

definition trim_end_matches :: "nat \<Rightarrow> nat list \<Rightarrow> nat list" where
  "trim_end_matches c s = rev (dropWhile (\<lambda>x. x = c) (rev s))"

text \<open>\<open>split_words\<close> carries the word being read, reversed.\<close>

fun split_words :: "nat list \<Rightarrow> nat list \<Rightarrow> nat list list" where
  "split_words w [] = (if w = [] then [] else [rev w])"
| "split_words w (c # cs) =
     (if is_whitespace c then (if w = [] then [] else [rev w]) @ split_words [] cs
      else split_words (c # w) cs)"

definition split_whitespace :: "nat list \<Rightarrow> nat list list" where
  "split_whitespace s = split_words [] s"

section \<open>Numbers\<close>

definition parse_digit :: "nat \<Rightarrow> u64 option" where
  "parse_digit c = (if 48 \<le> c \<and> c \<le> 57 then Some (word_of_nat (c - 48)) else None)"

fun parse_digits :: "u64 \<Rightarrow> nat list \<Rightarrow> u64 option" where
  "parse_digits acc [] = Some acc"
| "parse_digits acc (c # cs) =
     (case parse_digit c of
        None \<Rightarrow> None
      | Some d \<Rightarrow>
          (case checked_mul acc 10 of
             None \<Rightarrow> None
           | Some m \<Rightarrow> (case checked_add m d of None \<Rightarrow> None | Some a \<Rightarrow> parse_digits a cs)))"

text \<open>\<^verbatim>\<open>str::parse::<u64>\<close>: a leading plus sign is allowed, an empty number is not.\<close>

definition parse_u64 :: "nat list \<Rightarrow> u64 option" where
  "parse_u64 s =
     (let digits = (case s of c # cs \<Rightarrow> if c = 43 then cs else s | [] \<Rightarrow> [])
      in if digits = [] then None else parse_digits 0 digits)"

text \<open>The parser is exact: it returns the number the digits denote, or refuses.\<close>

definition decimal :: "nat list \<Rightarrow> nat" where
  "decimal ds = foldl (\<lambda>a c. 10 * a + (c - 48)) 0 ds"

definition is_digit :: "nat \<Rightarrow> bool" where
  "is_digit c \<longleftrightarrow> 48 \<le> c \<and> c \<le> 57"

lemma foldl_decimal_mono: "a \<le> foldl (\<lambda>a c. 10 * a + (c - 48)) (a::nat) ds"
proof (induction ds arbitrary: a)
  case (Cons c ds)
  have "a \<le> 10 * a + (c - 48)" by simp
  also have "\<dots> \<le> foldl (\<lambda>a c. 10 * a + (c - 48)) (10 * a + (c - 48)) ds" by (rule Cons)
  finally show ?case by simp
qed simp

lemma unat_digit: "is_digit c \<Longrightarrow> unat (word_of_nat (c - 48) :: u64) = c - 48"
proof -
  assume "is_digit c"
  then have "c - 48 < 2 ^ 64" by (auto simp: is_digit_def)
  then show ?thesis by (subst unat_of_nat) simp
qed

lemma parse_digits_exact:
  "parse_digits acc ds =
     (let n = foldl (\<lambda>a c. 10 * a + (c - 48)) (unat acc) ds
      in if list_all is_digit ds \<and> n < 2 ^ 64 then Some (word_of_nat n) else None)"
proof (induction ds arbitrary: acc)
  case Nil
  then show ?case using unat_u64_less [of acc] by (simp add: Let_def)
next
  case (Cons c ds)
  show ?case
  proof (cases "is_digit c")
    case False
    then have "parse_digit c = None" by (auto simp: parse_digit_def is_digit_def)
    with False show ?thesis by (simp add: Let_def)
  next
    case digit: True
    let ?a = "10 * unat acc + (c - 48)"
    have d: "parse_digit c = Some (word_of_nat (c - 48))"
      using digit by (simp add: parse_digit_def is_digit_def)
    show ?thesis
    proof (cases "?a < 2 ^ 64")
      case True
      then have mul: "unat (acc * 10) = unat acc * 10"
        by (subst unat_mult_exact) simp_all
      then have sum: "unat (acc * 10 + word_of_nat (c - 48)) = ?a"
        using True unat_digit [OF digit] by (subst unat_add_exact) simp_all
      show ?thesis
        using True d digit Cons.IH [of "acc * 10 + word_of_nat (c - 48)"] mul sum unat_digit [OF digit]
        by (simp add: checked_mul_def checked_add_def Let_def)
    next
      case False
      then have "\<not> foldl (\<lambda>a c. 10 * a + (c - 48)) ?a ds < 2 ^ 64"
        using foldl_decimal_mono [of ?a ds] by simp
      moreover have "(case checked_mul acc 10 of None \<Rightarrow> None
          | Some m \<Rightarrow> checked_add m (word_of_nat (c - 48))) = None"
        using False unat_digit [OF digit]
        by (auto simp: checked_mul_def checked_add_def unat_mult_exact)
      ultimately show ?thesis
        using d by (auto simp: Let_def split: option.splits)
    qed
  qed
qed

lemma parse_u64_exact:
  "parse_u64 s =
     (let ds = (case s of c # cs \<Rightarrow> if c = 43 then cs else s | [] \<Rightarrow> [])
      in if ds \<noteq> [] \<and> list_all is_digit ds \<and> decimal ds < 2 ^ 64 then Some (word_of_nat (decimal ds))
         else None)"
  by (auto simp: parse_u64_def parse_digits_exact decimal_def Let_def)

section \<open>Lossy decoding\<close>

text \<open>
  \<^verbatim>\<open>String::from_utf8_lossy\<close>: every longest beginning of an ill-formed sequence becomes one
  replacement character.
\<close>

fun utf8_lossy :: "bytes \<Rightarrow> nat list" where
  "utf8_lossy [] = []"
| "utf8_lossy (b0 # bs) =
     (if b0 < 0x80 then unat b0 # utf8_lossy bs
      else if in_range 0xC2 0xDF b0 then
        (case bs of
           [] \<Rightarrow> [0xFFFD]
         | b1 # r1 \<Rightarrow>
             if second_ok b0 b1 then (64 * unat (b0 AND 0x1F) + continuation b1) # utf8_lossy r1
             else 0xFFFD # utf8_lossy bs)
      else if in_range 0xE0 0xEF b0 then
        (case bs of
           [] \<Rightarrow> [0xFFFD]
         | b1 # r1 \<Rightarrow>
             if \<not> second_ok b0 b1 then 0xFFFD # utf8_lossy bs
             else
               (case r1 of
                  [] \<Rightarrow> [0xFFFD]
                | b2 # r2 \<Rightarrow>
                    if in_range 0x80 0xBF b2
                    then (4096 * unat (b0 AND 0x0F) + 64 * continuation b1 + continuation b2) # utf8_lossy r2
                    else 0xFFFD # utf8_lossy r1))
      else if in_range 0xF0 0xF4 b0 then
        (case bs of
           [] \<Rightarrow> [0xFFFD]
         | b1 # r1 \<Rightarrow>
             if \<not> second_ok b0 b1 then 0xFFFD # utf8_lossy bs
             else
               (case r1 of
                  [] \<Rightarrow> [0xFFFD]
                | b2 # r2 \<Rightarrow>
                    if \<not> in_range 0x80 0xBF b2 then 0xFFFD # utf8_lossy r1
                    else
                      (case r2 of
                         [] \<Rightarrow> [0xFFFD]
                       | b3 # r3 \<Rightarrow>
                           if in_range 0x80 0xBF b3
                           then (262144 * unat (b0 AND 0x07) + 4096 * continuation b1 + 64 * continuation b2
                                 + continuation b3) # utf8_lossy r3
                           else 0xFFFD # utf8_lossy r2)))
      else 0xFFFD # utf8_lossy bs)"

lemma utf8_lossy_ascii: "list_all (\<lambda>b. b < 0x80) bs \<Longrightarrow> utf8_lossy bs = map unat bs"
  by (induction bs) simp_all

end
