(* ===== verification/Catalogue.thy ===== *)
theory Catalogue
  imports Detect Utf8
begin

text \<open>
  The catalogue of formats (\<^verbatim>\<open>format.rs\<close>) and the C interface (\<^verbatim>\<open>lib.rs\<close>). The
  catalogue is loaded once and then never changes; detection reports the tree to a
  callback, node by node. The file system is a parameter that gives the content of a
  path, the MessagePack decoder (\<^verbatim>\<open>rmp_serde\<close>) one that gives the table in the order in
  which its hash map is iterated.
\<close>

type_synonym file_system = "bytes \<Rightarrow> bytes option"
type_synonym catalogue_decoder = "bytes \<Rightarrow> format_db option"

section \<open>Loading\<close>

text \<open>\<^verbatim>\<open>CString::new\<close> refuses a name with a zero byte.\<close>

definition checked_name :: "string \<times> detect \<Rightarrow> (string \<times> detect) io" where
  "checked_name = (\<lambda>(name, rule). if CHR 0x00 \<in> set name then Err InvalidData else Ok (name, rule))"

definition from_slice :: "catalogue_decoder \<Rightarrow> bytes \<Rightarrow> format_db io" where
  "from_slice decode data =
     and_then (ok_or (decode data) InvalidData) (\<lambda>raw. traverse checked_name raw)"

definition load_file :: "file_system \<Rightarrow> catalogue_decoder \<Rightarrow> bytes \<Rightarrow> format_db io" where
  "load_file fs decode path = and_then (ok_or (fs path) OtherError) (from_slice decode)"

text \<open>The global \<^verbatim>\<open>FORMATS\<close> is the state.\<close>

definition load :: "file_system \<Rightarrow> catalogue_decoder \<Rightarrow> bytes \<Rightarrow> format_db option \<Rightarrow> unit io \<times> format_db option" where
  "load fs decode path formats =
     (if formats \<noteq> None then (Ok (), formats)
      else case load_file fs decode path of
             Ok db \<Rightarrow> (Ok (), Some db)
           | Err e \<Rightarrow> (Err e, formats)
           | Panic \<Rightarrow> (Panic, formats))"

section \<open>The C interface\<close>

text \<open>A regular file behind its lock: a seek past the range of a signed offset fails.\<close>

definition file_reader :: "bytes \<Rightarrow> reader" where
  "file_reader content =
     \<lparr>read_at = (\<lambda>off n. if unat off \<ge> 2 ^ 63 then Err OtherError
                        else Ok (take n (drop (unat off) content))),
      rsize = Some (word_of_nat (length content))\<rparr>"

text \<open>A path is a nullable C string; the outcome of a caught panic is \<open>False\<close>.\<close>

definition mountin_load_catalogue ::
  "file_system \<Rightarrow> catalogue_decoder \<Rightarrow> bytes option \<Rightarrow> format_db option \<Rightarrow> bool \<times> format_db option" where
  "mountin_load_catalogue fs decode path formats =
     (case path of
        None \<Rightarrow> (False, formats)
      | Some p \<Rightarrow>
          if utf8_decode p = None then (False, formats)
          else let (result, formats') = load fs decode p formats
               in (match_io result (\<lambda>_. True) False False, formats'))"

type_synonym event = "string \<times> u32 \<times> u32"

fun walk_node :: "u32 \<Rightarrow> detect_node \<Rightarrow> event list" where
  "walk_node depth (DetectNode format idx children) =
     (format, idx, depth) # concat (map (walk_node (depth + 1)) children)"

definition walk_tree :: "u32 \<Rightarrow> detect_node list \<Rightarrow> event list" where
  "walk_tree depth nodes = concat (map (walk_node depth) nodes)"

text \<open>The calls of the callback, in order; a panic before the walk leaves none.\<close>

definition mountin_detect_tree ::
  "file_system \<Rightarrow> regex_engine \<Rightarrow> registry \<Rightarrow> bytes option \<Rightarrow> format_db option \<Rightarrow> event list" where
  "mountin_detect_tree fs rx containers path formats =
     (case path of
        None \<Rightarrow> []
      | Some p \<Rightarrow>
          if utf8_decode p = None then []
          else case fs p of
                 None \<Rightarrow> []
               | Some content \<Rightarrow>
                   match_io (detect_tree rx containers formats (file_reader content)) (walk_tree 0) [] [])"

section \<open>The file behaves like its bytes\<close>

lemma file_reader_safe: "safe_reader (file_reader content)"
  by unfold_locales (auto simp: file_reader_def split: if_splits)

lemma resolved_below:
  assumes "resolve_offset off (Some sz) = Some x" and "unat sz < 2 ^ 63"
  shows "unat x < 2 ^ 63"
proof (cases "0 \<le> sint off")
  case True
  moreover have "sint off < 2 ^ 63"
    using sint_less [of off] by simp
  ultimately have "uint off = sint off"
    by (simp add: uint_sint take_bit_int_eq_self)
  with \<open>sint off < 2 ^ 63\<close> have "unat off < 2 ^ 63"
    by (simp add: unat_eq_nat_uint nat_less_iff)
  with True assms(1) show ?thesis by (simp add: resolve_offset_def)
next
  case False
  with assms show ?thesis by (auto simp: resolve_offset_def unat_saturating_sub)
qed

text \<open>
  Rules only look at positions below \<open>2 ^ 63\<close>, so on a file of that size they decide as
  they do on its bytes in memory.
\<close>

definition agree_low :: "reader \<Rightarrow> reader \<Rightarrow> bool" where
  "agree_low r r' \<longleftrightarrow> rsize r = rsize r' \<and> (\<forall>sz. rsize r = Some sz \<longrightarrow> unat sz < 2 ^ 63) \<and>
     rsize r \<noteq> None \<and> (\<forall>off n. unat off < 2 ^ 63 \<longrightarrow> read_at r off n = read_at r' off n)"

lemma leaf_agree:
  assumes "\<And>n. read_at r off n = read_at r' off n"
    and "\<And>rs x. ts = Some rs \<Longrightarrow> x \<in> set rs \<Longrightarrow> f x = f' x"
  shows "matches_leaf rx ob r off ty v op msk len ts alg key f = matches_leaf rx ob r' off ty v op msk len ts alg key f'"
proof -
  have num: "read_num r off n g = read_num r' off n g" for n g
    by (simp add: read_num_def read_bytes_generic_def assms(1))
  have val: "read_value_generic r off ty = read_value_generic r' off ty"
    unfolding read_value_generic_def num by (rule refl)
  have th: "then_check f ts m = then_check f' ts m" for m
    using assms(2) by (auto simp: then_check_def intro: all_io_cong split: option.split)
  have b: "match_bytes_generic r off e = match_bytes_generic r' off e" for e
    by (cases e) (simp_all add: match_bytes_generic_def assms(1))
  show ?thesis
    unfolding matches_leaf_def match_checksum_def match_xor_then_def match_ascii_regex_def val th b assms(1)
    by (rule refl)
qed

lemma rule_agree: "agree_low r r' \<Longrightarrow> matches_rule_dyn rx r x = matches_rule_dyn rx r' x"
proof (induction rx r x rule: matches_rule_dyn.induct)
  case (1 rx r any)
  then show ?case by (auto intro: any_io_cong)
next
  case (2 rx r all)
  then show ?case by (auto intro: all_io_cong)
next
  case (3 rx r off ty v op msk nm ts len alg key)
  show ?case
  proof (cases "resolve_offset off (rsize r)")
    case None
    with "3.prems" show ?thesis by (simp add: agree_low_def)
  next
    case (Some resolved)
    obtain sz where "rsize r = Some sz" "unat sz < 2 ^ 63"
      using "3.prems" unfolding agree_low_def by (cases "rsize r") blast+
    with Some have "unat resolved < 2 ^ 63" using resolved_below by metis
    then have "read_at r resolved n = read_at r' resolved n" for n
      using "3.prems" by (simp add: agree_low_def)
    moreover have "rsize r = rsize r'" using "3.prems" by (simp add: agree_low_def)
    ultimately show ?thesis
      using Some "3.IH" [OF Some _ _ "3.prems"] by (auto intro!: leaf_agree)
  qed
qed

lemma detect_agree: "agree_low r r' \<Longrightarrow> matches_detect_dyn rx r d = matches_detect_dyn rx r' d"
proof -
  assume "agree_low r r'"
  then have "matches_rule_dyn rx r = matches_rule_dyn rx r'" by (intro ext rule_agree)
  then show ?thesis by (cases d) (simp_all add: matches_detect_dyn_def)
qed

lemma file_agrees: "length content < 2 ^ 63 \<Longrightarrow> agree_low (file_reader content) (bytes_reader content)"
  by (auto simp: agree_low_def file_reader_def bytes_reader_def Let_def unat_of_nat take_min_drop not_le)

lemma file_matches:
  assumes "length content < 2 ^ 63"
  shows "matches_detect_dyn rx (file_reader content) d = Ok (detect_holds rx content d)"
proof -
  have "matches_rule_dyn rx (bytes_reader content) x = Ok (holds rx content x)" for x
    by (rule rule_holds [OF bytes.exact_reader_axioms]) (simp add: bytes_reader_def)
  then have "matches_detect_dyn rx (bytes_reader content) d = Ok (detect_holds rx content d)"
    by (cases d) (simp_all add: matches_detect_dyn_def detect_holds_def all_io_pure any_io_pure)
  with detect_agree [OF file_agrees [OF assms]] show ?thesis by simp
qed

section \<open>The catalogue is loaded once\<close>

lemma traverse_checked: "traverse checked_name raw = Ok db \<Longrightarrow> db = raw \<and> (\<forall>(n, d)\<in>set db. CHR 0x00 \<notin> set n)"
  by (induction raw arbitrary: db) (auto simp: checked_name_def ok_iff split: if_splits)

lemma traverse_checked_not_Panic: "traverse checked_name raw \<noteq> Panic"
  by (rule traverse_not_Panic) (auto simp: checked_name_def split: prod.split)

lemma load_file_not_Panic: "load_file fs decode p \<noteq> Panic"
  by (auto simp: load_file_def from_slice_def and_then_Panic_iff traverse_checked_not_Panic)

lemma load_file_Ok:
  "load_file fs decode p = Ok db \<longleftrightarrow>
     (\<exists>data. fs p = Some data \<and> decode data = Some db \<and> (\<forall>(n, d)\<in>set db. CHR 0x00 \<notin> set n))"
proof
  assume "load_file fs decode p = Ok db"
  then show "\<exists>data. fs p = Some data \<and> decode data = Some db \<and> (\<forall>(n, d)\<in>set db. CHR 0x00 \<notin> set n)"
    by (auto simp: load_file_def from_slice_def ok_iff dest: traverse_checked)
next
  assume "\<exists>data. fs p = Some data \<and> decode data = Some db \<and> (\<forall>(n, d)\<in>set db. CHR 0x00 \<notin> set n)"
  then obtain data where "fs p = Some data" "decode data = Some db" and names: "\<forall>(n, d)\<in>set db. CHR 0x00 \<notin> set n"
    by blast
  moreover have "traverse checked_name db = Ok (map id db)"
    by (rule traverse_pure) (use names in \<open>auto simp: checked_name_def\<close>)
  ultimately show "load_file fs decode p = Ok db" by (simp add: load_file_def from_slice_def)
qed

lemma load_catalogue_cases:
  "mountin_load_catalogue fs decode path formats =
     (case path of
        None \<Rightarrow> (False, formats)
      | Some p \<Rightarrow>
          if utf8_decode p = None then (False, formats)
          else if formats \<noteq> None then (True, formats)
          else (case load_file fs decode p of Ok db \<Rightarrow> (True, Some db) | _ \<Rightarrow> (False, None)))"
  using load_file_not_Panic
  by (auto simp: mountin_load_catalogue_def load_def Let_def split: option.split io.split)

section \<open>Concurrent loads\<close>

text \<open>
  Several threads may load at once. A load looks at \<open>FORMATS\<close>, reads the file outside of
  any lock, and then sets the cell, which keeps the first value. The steps of the threads
  interleave in any order.
\<close>

datatype loader = Asking bytes | Holding format_db | Returned bool

record process =
  cell :: "format_db option"
  thread :: "nat \<Rightarrow> loader"

inductive load_step :: "file_system \<Rightarrow> catalogue_decoder \<Rightarrow> process \<Rightarrow> process \<Rightarrow> bool"
  for fs decode where
  already: "thread w t = Asking p \<Longrightarrow> cell w \<noteq> None \<Longrightarrow>
     load_step fs decode w (w\<lparr>thread := (thread w)(t := Returned True)\<rparr>)"
| reads: "thread w t = Asking p \<Longrightarrow> cell w = None \<Longrightarrow> load_file fs decode p = Ok db \<Longrightarrow>
     load_step fs decode w (w\<lparr>thread := (thread w)(t := Holding db)\<rparr>)"
| fails: "thread w t = Asking p \<Longrightarrow> cell w = None \<Longrightarrow> load_file fs decode p = Err e \<Longrightarrow>
     load_step fs decode w (w\<lparr>thread := (thread w)(t := Returned False)\<rparr>)"
| sets: "thread w t = Holding db \<Longrightarrow>
     load_step fs decode w (w\<lparr>cell := (case cell w of None \<Rightarrow> Some db | Some old \<Rightarrow> Some old),
       thread := (thread w)(t := Returned True)\<rparr>)"

inductive_cases load_stepE: "load_step fs decode w w'"

inductive load_run :: "file_system \<Rightarrow> catalogue_decoder \<Rightarrow> process \<Rightarrow> process \<Rightarrow> bool"
  for fs decode where
  no_step: "load_run fs decode w w"
| more: "load_run fs decode w v \<Longrightarrow> load_step fs decode v u \<Longrightarrow> load_run fs decode w u"

definition started :: "process \<Rightarrow> bool" where
  "started w \<longleftrightarrow> cell w = None \<and> (\<forall>t. \<exists>p. thread w t = Asking p)"

text \<open>The invariant: what is held or set was loaded from a path, and success means it is set.\<close>

definition loads_ok :: "file_system \<Rightarrow> catalogue_decoder \<Rightarrow> process \<Rightarrow> bool" where
  "loads_ok fs decode w \<longleftrightarrow>
     (\<forall>db. cell w = Some db \<longrightarrow> (\<exists>p. load_file fs decode p = Ok db)) \<and>
     (\<forall>t db. thread w t = Holding db \<longrightarrow> (\<exists>p. load_file fs decode p = Ok db)) \<and>
     (\<forall>t. thread w t = Returned True \<longrightarrow> cell w \<noteq> None)"

lemma loads_ok_step: "load_step fs decode w w' \<Longrightarrow> loads_ok fs decode w \<Longrightarrow> loads_ok fs decode w'"
  by (erule load_stepE) (auto simp: loads_ok_def split: option.splits)

lemma loads_ok_run: "load_run fs decode w w' \<Longrightarrow> started w \<Longrightarrow> loads_ok fs decode w'"
proof (induction rule: load_run.induct)
  case (no_step w)
  then show ?case by (auto simp: loads_ok_def started_def) (metis loader.distinct(1,3))+
next
  case (more w v u)
  then show ?case by (blast intro: loads_ok_step)
qed

lemma cell_stable_step: "load_step fs decode w w' \<Longrightarrow> cell w = Some db \<Longrightarrow> cell w' = Some db"
  by (erule load_stepE) auto

lemma cell_stable_run: "load_run fs decode w w' \<Longrightarrow> cell w = Some db \<Longrightarrow> cell w' = Some db"
  by (induction rule: load_run.induct) (auto dest: cell_stable_step)

section \<open>The callbacks determine the tree\<close>

text \<open>
  A reader of the calls puts the tree together from the depths alone. The fuel is the
  number of calls and one more.
\<close>

fun rebuild :: "nat \<Rightarrow> u32 \<Rightarrow> event list \<Rightarrow> detect_node list \<times> event list" where
  "rebuild 0 depth events = ([], events)"
| "rebuild (Suc fuel) depth [] = ([], [])"
| "rebuild (Suc fuel) depth ((format, idx, d) # events) =
     (if d = depth then
        let (children, rest) = rebuild fuel (depth + 1) events;
            (siblings, rest') = rebuild fuel depth rest
        in (DetectNode format idx children # siblings, rest')
      else ([], (format, idx, d) # events))"

fun node_height :: "detect_node \<Rightarrow> nat" where
  "node_height (DetectNode format idx children) = Suc (fold max (map node_height children) 0)"

lemma fold_max_le: "fold max xs (a::nat) \<le> h \<longleftrightarrow> a \<le> h \<and> (\<forall>x\<in>set xs. x \<le> h)"
  by (induction xs arbitrary: a) auto

lemma node_height_levels: "levels_ok k n \<Longrightarrow> node_height n \<le> Suc k"
proof (induction k arbitrary: n)
  case 0
  then show ?case by (cases n) simp
next
  case (Suc k)
  then show ?case by (cases n) (auto simp: fold_max_le)
qed

lemma length_walk_node: "length (walk_node d n) \<ge> 1"
  by (cases n) simp

text \<open>What follows a forest at some depth is nothing, or a call closer to the root.\<close>

definition shallower :: "u32 \<Rightarrow> event list \<Rightarrow> bool" where
  "shallower depth events \<longleftrightarrow> (case events of [] \<Rightarrow> True | (_, _, d) # _ \<Rightarrow> unat d < unat depth)"

lemma rebuild_stop: "shallower depth events \<Longrightarrow> rebuild fuel depth events = ([], events)"
  by (cases fuel; cases events) (auto simp: shallower_def)

lemma rebuild_walk:
  assumes "length (walk_tree depth nodes) < fuel" and "shallower depth rest"
    and "\<forall>n\<in>set nodes. unat depth + node_height n < 2 ^ 32"
  shows "rebuild fuel depth (walk_tree depth nodes @ rest) = (nodes, rest)"
  using assms
proof (induction fuel arbitrary: depth nodes rest)
  case 0
  then show ?case by simp
next
  case (Suc fuel)
  show ?case
  proof (cases nodes)
    case Nil
    with Suc.prems(2) show ?thesis by (simp add: walk_tree_def rebuild_stop)
  next
    case (Cons n ns)
    obtain f i cs where n: "n = DetectNode f i cs" by (cases n)
    have h: "unat depth + node_height n < 2 ^ 32" using Suc.prems(3) Cons by simp
    then have next_depth: "unat (depth + 1) = unat depth + 1"
      by (subst unat_add_exact) (simp_all add: n)
    have heights: "\<forall>c\<in>set cs. unat (depth + 1) + node_height c < 2 ^ 32"
      using h fold_max_le [of "map node_height cs" 0 "node_height n - 1"] next_depth
      by (fastforce simp: n)
    let ?rest = "walk_tree depth ns @ rest"
    have "shallower (depth + 1) ?rest"
    proof (cases ns)
      case Nil
      with Suc.prems(2) next_depth show ?thesis
        by (auto simp: walk_tree_def shallower_def split: list.splits)
    next
      case (Cons m ms)
      then show ?thesis using next_depth by (cases m) (simp add: walk_tree_def shallower_def)
    qed
    moreover have "length (walk_tree (depth + 1) cs) < fuel"
      using Suc.prems(1) by (simp add: Cons n walk_tree_def)
    ultimately have "rebuild fuel (depth + 1) (walk_tree (depth + 1) cs @ ?rest) = (cs, ?rest)"
      using heights by (intro Suc.IH)
    moreover have "rebuild fuel depth ?rest = (ns, rest)"
      using Suc.prems Cons length_walk_node [of depth n] by (intro Suc.IH) (auto simp: walk_tree_def)
    ultimately show ?thesis
      by (simp add: Cons n walk_tree_def)
  qed
qed

section \<open>The properties of the interface\<close>



text \<open>What a path gives when nothing is loaded, and the state after a list of calls.\<close>

definition loadable :: "file_system \<Rightarrow> catalogue_decoder \<Rightarrow> bytes option \<Rightarrow> format_db option" where
  "loadable fs decode path =
     (case path of
        None \<Rightarrow> None
      | Some p \<Rightarrow> if utf8_decode p = None then None
                  else (case load_file fs decode p of Ok db \<Rightarrow> Some db | _ \<Rightarrow> None))"

definition after_loads :: "file_system \<Rightarrow> catalogue_decoder \<Rightarrow> bytes option list \<Rightarrow> format_db option \<Rightarrow> format_db option" where
  "after_loads fs decode paths formats =
     fold (\<lambda>path state. snd (mountin_load_catalogue fs decode path state)) paths formats"

lemma load_step_state:
  "snd (mountin_load_catalogue fs decode path formats) =
     (if formats \<noteq> None then formats else loadable fs decode path)"
  by (simp add: load_catalogue_cases loadable_def split: option.split io.split)

lemma after_loads_loaded: "after_loads fs decode paths (Some db) = Some db"
  by (induction paths) (simp_all add: after_loads_def load_step_state)

text \<open>
  The first catalogue that can be loaded is the one that stays: after any list of calls
  the state is that of the first call that succeeds from nothing, and a later call reports
  success exactly when its path is not null and valid UTF-8 and there is a catalogue after it.
\<close>

theorem first_load_stays:
  "after_loads fs decode (paths @ [path]) None =
     (case filter (\<lambda>p. loadable fs decode p \<noteq> None) (paths @ [path]) of
        [] \<Rightarrow> None | p # _ \<Rightarrow> loadable fs decode p) \<and>
   (fst (mountin_load_catalogue fs decode path (after_loads fs decode paths None)) \<longleftrightarrow>
      path \<noteq> None \<and> utf8_decode (the path) \<noteq> None \<and> after_loads fs decode (paths @ [path]) None \<noteq> None)"
proof (rule conjI)
  have "after_loads fs decode ps None =
      (case filter (\<lambda>p. loadable fs decode p \<noteq> None) ps of [] \<Rightarrow> None | p # _ \<Rightarrow> loadable fs decode p)" for ps
  proof (induction ps)
    case (Cons p ps)
    then show ?case
      using after_loads_loaded [of fs decode ps]
      by (cases "loadable fs decode p") (simp_all add: after_loads_def load_step_state)
  qed (simp add: after_loads_def)
  then show "after_loads fs decode (paths @ [path]) None =
     (case filter (\<lambda>p. loadable fs decode p \<noteq> None) (paths @ [path]) of
        [] \<Rightarrow> None | p # _ \<Rightarrow> loadable fs decode p)" .
  have "after_loads fs decode (paths @ [path]) None =
      snd (mountin_load_catalogue fs decode path (after_loads fs decode paths None))"
    by (simp add: after_loads_def)
  then show "fst (mountin_load_catalogue fs decode path (after_loads fs decode paths None)) \<longleftrightarrow>
      path \<noteq> None \<and> utf8_decode (the path) \<noteq> None \<and> after_loads fs decode (paths @ [path]) None \<noteq> None"
    by (cases path) (auto simp: load_catalogue_cases loadable_def load_step_state split: io.split)
qed

text \<open>
  C8. Whatever the interleaving of the threads that load, a thread that was told of success
  finds a catalogue, that catalogue is the content of some path, and it never changes any
  more.
\<close>

theorem concurrent_loads:
  assumes "started w" and "load_run fs decode w w'" and "thread w' t = Returned True"
  shows "\<exists>db p. cell w' = Some db \<and> load_file fs decode p = Ok db \<and>
    (\<forall>w''. load_run fs decode w' w'' \<longrightarrow> cell w'' = Some db)"
proof -
  have ok: "loads_ok fs decode w'" by (rule loads_ok_run [OF assms(2,1)])
  with assms(3) obtain db where db: "cell w' = Some db" by (auto simp: loads_ok_def)
  moreover from ok db obtain p where "load_file fs decode p = Ok db" by (auto simp: loads_ok_def)
  ultimately show ?thesis by (blast intro: cell_stable_run)
qed

text \<open>Two threads read before either of them sets the cell; the second setting has no effect.\<close>

definition two_paths :: file_system where
  "two_paths p = Some p"

definition named_by_path :: catalogue_decoder where
  "named_by_path content = Some [(map (\<lambda>b. char_of (unat b)) content, byte_rule 1)]"

theorem concurrent_loads_witness:
  "\<exists>w w'. started w \<and> load_run two_paths named_by_path w w' \<and> thread w' 0 = Returned True \<and>
     (\<exists>db p. cell w' = Some db \<and> load_file two_paths named_by_path p = Ok db \<and>
       (\<forall>w''. load_run two_paths named_by_path w' w'' \<longrightarrow> cell w'' = Some db))"
proof -
  let ?db = "\<lambda>b. [([char_of (unat (b :: u8))], byte_rule 1)]"
  let ?w = "\<lparr>cell = None, thread = (\<lambda>t. if t = 0 then Asking [65] else Asking [66])\<rparr>"
  have content: "load_file two_paths named_by_path [b] = Ok (?db b)" if "b = 65 \<or> b = 66" for b
    using that by (auto simp: load_file_Ok two_paths_def named_by_path_def char_of_def)
  have start: "started ?w" by (simp add: started_def)
  define v1 where "v1 = ?w\<lparr>thread := (thread ?w)(0 := Holding (?db 65))\<rparr>"
  define v2 where "v2 = v1\<lparr>thread := (thread v1)(1 := Holding (?db 66))\<rparr>"
  define v3 where "v3 = v2\<lparr>cell := (case cell v2 of None \<Rightarrow> Some (?db 66) | Some old \<Rightarrow> Some old),
     thread := (thread v2)(1 := Returned True)\<rparr>"
  define v4 where "v4 = v3\<lparr>cell := (case cell v3 of None \<Rightarrow> Some (?db 65) | Some old \<Rightarrow> Some old),
     thread := (thread v3)(0 := Returned True)\<rparr>"
  have s1: "load_step two_paths named_by_path ?w v1"
    unfolding v1_def by (rule load_step.reads [of _ _ "[65]"]) (simp_all add: content)
  have s2: "load_step two_paths named_by_path v1 v2"
    unfolding v2_def by (rule load_step.reads [of _ _ "[66]"]) (simp_all add: v1_def content)
  have s3: "load_step two_paths named_by_path v2 v3"
    unfolding v3_def by (rule load_step.sets) (simp add: v2_def)
  have s4: "load_step two_paths named_by_path v3 v4"
    unfolding v4_def by (rule load_step.sets) (simp add: v3_def v2_def v1_def)
  have run: "load_run two_paths named_by_path ?w v4"
    by (rule load_run.more [OF load_run.more [OF load_run.more [OF load_run.more [OF load_run.no_step s1] s2] s3] s4])
  moreover have told: "thread v4 0 = Returned True" by (simp add: v4_def)
  ultimately show ?thesis using start concurrent_loads [OF start run told] by blast
qed

text \<open>
  C9. The calls of the callback carry the whole tree: from the depths and the order of the
  calls a consumer rebuilds exactly the tree that was detected.
\<close>

theorem callbacks_rebuild:
  assumes "detect_tree rx containers formats reader = Ok nodes"
  shows "rebuild (Suc (length (walk_tree 0 nodes))) 0 (walk_tree 0 nodes) = (nodes, [])"
proof -
  have "levels_ok 16 n" if "n \<in> set nodes" for n
    using assms that detect_recursive_levels
    by (auto simp: detect_tree_def ok_iff MAX_DEPTH_def split: option.splits)
  then have "\<forall>n\<in>set nodes. unat (0 :: u32) + node_height n < 2 ^ 32"
    using node_height_levels by fastforce
  from rebuild_walk [of 0 nodes _ "[]", OF _ _ this] show ?thesis by (simp add: shallower_def)
qed

theorem callbacks_rebuild_witness:
  "walk_tree 0 [DetectNode ''arc/one'' 0
       [DetectNode ''fs/two'' 3 [], DetectNode ''data'' 4 [], DetectNode ''data'' 5 []]] =
     [(''arc/one'', 0, 0), (''fs/two'', 3, 1), (''data'', 4, 1), (''data'', 5, 1)] \<and>
   rebuild 5 0 [(''arc/one'', 0, 0), (''fs/two'', 3, 1), (''data'', 4, 1), (''data'', 5, 1)] =
     ([DetectNode ''arc/one'' 0 [DetectNode ''fs/two'' 3 [], DetectNode ''data'' 4 [], DetectNode ''data'' 5 []]], [])"
proof -
  let ?events = "[(''arc/one'', 0, 0), (''fs/two'', 3, 1), (''data'', 4, 1), (''data'', 5, 1)] :: event list"
  have walk: "walk_tree 0 [DetectNode ''arc/one'' 0
       [DetectNode ''fs/two'' 3 [], DetectNode ''data'' 4 [], DetectNode ''data'' 5 []]] = ?events"
    by (simp add: walk_tree_def)
  have "Suc (length ?events) = 5" by simp
  from callbacks_rebuild [OF two_formats_tree, unfolded walk this] walk show ?thesis by blast
qed

end
