(* ===== verification/Pt_Labels.thy ===== *)
theory Pt_Labels
  imports Tables
begin

text \<open>
  The partition tables that are one fixed array of entries behind a magic number: SGI,
  Ultrix, SYSV68, Rio Karma, Sun SPARC, PC-98, BSD disklabel, Solaris x86 VTOC and GPT
  (\<^verbatim>\<open>container/pt/{sgi,ultrix,sysv68,karma,sun_sparc,pc98,disklabel,solaris_x86_vtoc,gpt}.rs\<close>).
  Each is its check of the label and one function per table entry: \<open>None\<close> is an entry the
  loop skips. What they share is the locale \<open>indexed_table\<close>, interpreted for each.
\<close>

section \<open>SGI disk volume header\<close>

definition sgi_entry :: "reader \<Rightarrow> nat \<Rightarrow> child option io" where
  "sgi_entry reader i =
     (let entry_offset = 312 + word_of_nat (i * 12) in
      and_then (read_be32 reader entry_offset) (\<lambda>num_blocks.
      and_then (read_be32 reader (entry_offset + 4)) (\<lambda>first_block.
      and_then (read_be32 reader (entry_offset + 8)) (\<lambda>ptype.
      if num_blocks = 0 \<or> ptype = 0 \<or> ptype = 6 then Ok None
      else Ok (Some (slice_child reader (word_of_nat i) (ucast first_block * 512) (ucast num_blocks * 512)))))))"

definition sgi_children :: container where
  "sgi_children reader =
     and_then (read_be32 reader 0) (\<lambda>magic.
     if magic \<noteq> 0x0BE5A941 then Err InvalidData
     else collect (sgi_entry reader) [0..<16])"

section \<open>Ultrix\<close>

definition ultrix_entry :: "reader \<Rightarrow> nat \<Rightarrow> child option io" where
  "ultrix_entry reader i =
     (let table_offset = 16312 + 8; entry_offset = table_offset + word_of_nat (i * 8) in
      and_then (read_le32 reader entry_offset) (\<lambda>nblocks.
      and_then (read_le32 reader (entry_offset + 4)) (\<lambda>blkoff.
      if nblocks = 0 then Ok None
      else Ok (Some (slice_child reader (word_of_nat i) (ucast blkoff * 512) (ucast nblocks * 512))))))"

definition ultrix_children :: container where
  "ultrix_children reader =
     and_then (read_le32 reader 16312) (\<lambda>magic.
     and_then (read_le32 reader (16312 + 4)) (\<lambda>valid.
     if magic \<noteq> 0x032957 \<or> valid \<noteq> 1 then Err InvalidData
     else collect (ultrix_entry reader) [0..<8]))"

section \<open>SYSV68\<close>

definition sysv68_entry :: "u64 \<Rightarrow> reader \<Rightarrow> nat \<Rightarrow> child option io" where
  "sysv68_entry table_offset reader i =
     (let entry_offset = table_offset + word_of_nat (i * 8) in
      and_then (read_be32 reader entry_offset) (\<lambda>nblocks.
      and_then (read_be32 reader (entry_offset + 4)) (\<lambda>blkoff.
      if nblocks = 0 then Ok None
      else Ok (Some (slice_child reader (word_of_nat i) (ucast blkoff * 512) (ucast nblocks * 512))))))"

definition sysv68_children :: container where
  "sysv68_children reader =
     and_then (read_at reader 248 8) (\<lambda>magic.
     if length magic \<noteq> 8 then Err UnexpectedEof
     else if magic \<noteq> ascii ''MOTOROLA'' then Err InvalidData
     else
       and_then (read_be32 reader 0x180) (\<lambda>slc_blk32.
       and_then (read_be16 reader 0x184) (\<lambda>slc_cnt16.
       let slc_blk = ucast slc_blk32 :: u64; slc_cnt = unat slc_cnt16 in
       if slc_blk = 0 \<or> slc_cnt = 0 then Ok []
       else let slices = slc_cnt - 1; table_offset = slc_blk * 512
            in collect (sysv68_entry table_offset reader) [0..<slices])))"

section \<open>Rio Karma\<close>

definition karma_entry :: "reader \<Rightarrow> nat \<Rightarrow> child option io" where
  "karma_entry reader i =
     (let entry_offset = 270 + word_of_nat (i * 16) in
      and_then (read_u8 reader (entry_offset + 4)) (\<lambda>fstype.
      and_then (read_le32 reader (entry_offset + 8)) (\<lambda>start_sector.
      and_then (read_le32 reader (entry_offset + 12)) (\<lambda>size_sectors.
      if fstype \<noteq> 0x4D \<or> size_sectors = 0 then Ok None
      else Ok (Some (slice_child reader (word_of_nat i) (ucast start_sector * 512) (ucast size_sectors * 512)))))))"

definition karma_children :: container where
  "karma_children reader =
     and_then (read_le16 reader 510) (\<lambda>magic.
     if magic \<noteq> 0xAB56 then Err InvalidData
     else collect (karma_entry reader) [0..<2])"

section \<open>Sun SPARC VTOC8\<close>

definition sun_sparc_entry :: "u64 \<Rightarrow> reader \<Rightarrow> nat \<Rightarrow> child option io" where
  "sun_sparc_entry spc reader i =
     (let entry_offset = 444 + word_of_nat (i * 8) in
      and_then (read_be32 reader entry_offset) (\<lambda>start_cyl.
      and_then (read_be32 reader (entry_offset + 4)) (\<lambda>num_sectors.
      if num_sectors = 0 then Ok None
      else if i = 2 then Ok None
      else let start_sector = ucast start_cyl * spc
           in Ok (Some (slice_child reader (word_of_nat i) (start_sector * 512) (ucast num_sectors * 512))))))"

definition sun_sparc_children :: container where
  "sun_sparc_children reader =
     and_then (read_be16 reader 508) (\<lambda>magic.
     if magic \<noteq> 0xDABE then Err InvalidData
     else
       and_then (read_be16 reader 436) (\<lambda>ntrks.
       and_then (read_be16 reader 438) (\<lambda>nsect.
       let spc = ucast ntrks * ucast nsect :: u64 in
       if spc = 0 then Err InvalidData
       else collect (sun_sparc_entry spc reader) [0..<8])))"

section \<open>PC-98\<close>

text \<open>The fixed geometry is \<^verbatim>\<open>HEADS = 8\<close>, \<^verbatim>\<open>SECTORS_PER_TRACK = 16\<close>.\<close>

definition pc98_entry :: "reader \<Rightarrow> nat \<Rightarrow> child option io" where
  "pc98_entry reader i =
     (let entry_offset = 512 + word_of_nat (i * 32) in
      and_then (read_at reader entry_offset 32) (\<lambda>buf.
      if length buf \<noteq> 32 then Ok None
      else let mid = buf ! 0; sid = buf ! 1 in
        if mid = 0 \<or> sid = 0 then Ok None
        else let sector = ucast (buf ! 8) :: u64;
                 head = ucast (buf ! 9) :: u64;
                 cyl = ucast (from_le [buf ! 10, buf ! 11] :: u16) :: u64;
                 end_cyl = ucast (from_le [buf ! 14, buf ! 15] :: u16) :: u64;
                 start_sect = (cyl * 8 + head) * 16 + sector;
                 end_sect = (end_cyl + 1) * 8 * 16
             in if end_sect \<le> start_sect then Ok None
                else Ok (Some (slice_child reader (word_of_nat i) (start_sect * 512)
                       ((end_sect - start_sect) * 512)))))"

definition pc98_children :: container where
  "pc98_children reader =
     and_then (read_le16 reader 510) (\<lambda>magic.
     if magic \<noteq> 0xAA55 then Err InvalidData
     else collect (pc98_entry reader) [0..<16])"

section \<open>BSD disklabel\<close>

definition DISKLABEL_MAGIC :: u32 where
  "DISKLABEL_MAGIC = 0x82564557"

definition find_disklabel :: "reader \<Rightarrow> u64 io" where
  "find_disklabel reader =
     (let try512 = match_io (read_le32 reader 512)
            (\<lambda>magic. if magic = DISKLABEL_MAGIC then Ok 512 else Err InvalidData)
            (Err InvalidData) Panic
      in match_io (read_le32 reader 0)
           (\<lambda>magic. if magic = DISKLABEL_MAGIC then Ok 0 else try512) try512 Panic)"

definition disklabel_entry :: "u64 \<Rightarrow> u64 \<Rightarrow> reader \<Rightarrow> nat \<Rightarrow> child option io" where
  "disklabel_entry base sector_size reader i =
     (let entry_offset = base + 148 + word_of_nat i * 16 in
      and_then (read_le32 reader entry_offset) (\<lambda>size_sectors.
      and_then (read_le32 reader (entry_offset + 4)) (\<lambda>offset_sectors.
      and_then (read_u8 reader (entry_offset + 12)) (\<lambda>fstype.
      if fstype = 0 \<or> size_sectors = 0 \<or> i = 2 then Ok None
      else Ok (Some (slice_child reader (word_of_nat i) (ucast offset_sectors * sector_size)
             (ucast size_sectors * sector_size)))))))"

definition disklabel_children :: container where
  "disklabel_children reader =
     and_then (find_disklabel reader) (\<lambda>base.
     and_then (read_le32 reader base) (\<lambda>magic1.
     and_then (read_le32 reader (base + 132)) (\<lambda>magic2.
     if magic1 \<noteq> DISKLABEL_MAGIC \<or> magic2 \<noteq> DISKLABEL_MAGIC then Err InvalidData
     else
       and_then (read_le32 reader (base + 40)) (\<lambda>sector_size.
       and_then (read_le16 reader (base + 138)) (\<lambda>npart.
       let npartitions = min (unat npart) 22
       in collect (disklabel_entry base (ucast sector_size) reader) [0..<npartitions])))))"

section \<open>Solaris x86 VTOC\<close>

definition solaris_entry :: "reader \<Rightarrow> nat \<Rightarrow> child option io" where
  "solaris_entry reader i =
     (if i = 2 then Ok None
      else let entry = 512 + 72 + word_of_nat i * 12 in
        and_then (read_le32 reader (entry + 4)) (\<lambda>start_sector.
        and_then (read_le32 reader (entry + 8)) (\<lambda>sector_count.
        if sector_count = 0 then Ok None
        else
          and_then (ok_or (checked_mul (ucast start_sector) 512) InvalidData) (\<lambda>start.
          and_then (ok_or (checked_mul (ucast sector_count) 512) InvalidData) (\<lambda>length.
          and_then (ok_or (checked_add start length) InvalidData) (\<lambda>end.
          if (case rsize reader of Some sz \<Rightarrow> end > sz | None \<Rightarrow> False) then Err InvalidData
          else Ok (Some (slice_child reader (word_of_nat i) start length))))))))"

definition solaris_x86_vtoc_children :: container where
  "solaris_x86_vtoc_children reader =
     and_then (read_le32 reader (512 + 12)) (\<lambda>sanity.
     if sanity \<noteq> 0x600DDEEE then Err InvalidData
     else
       and_then (read_le16 reader (512 + 508)) (\<lambda>magic.
       if magic \<noteq> 0xDABE then Err InvalidData
       else
         and_then (read_le16 reader (512 + 30)) (\<lambda>count.
         if unat count \<noteq> 16 then Err InvalidData
         else
           and_then (collect (solaris_entry reader) [0..<16]) (\<lambda>children.
           if children = [] then Err InvalidData else Ok children))))"

section \<open>GUID partition table\<close>

definition gpt_entry :: "u64 \<Rightarrow> u32 \<Rightarrow> reader \<Rightarrow> nat \<Rightarrow> child option io" where
  "gpt_entry entries_offset entry_size reader i =
     (let entry_offset = entries_offset + word_of_nat i * ucast entry_size in
      and_then (read_at reader entry_offset 16) (\<lambda>type_guid.
      if length type_guid \<noteq> 16 then Ok None
      else if type_guid = replicate 16 0 then Ok None
      else
        and_then (read_le64 reader (entry_offset + 32)) (\<lambda>first_lba.
        and_then (read_le64 reader (entry_offset + 40)) (\<lambda>last_lba.
        if last_lba < first_lba then Ok None
        else Ok (Some (slice_child reader (word_of_nat i) (first_lba * 512)
               ((last_lba - first_lba + 1) * 512)))))))"

definition gpt_children :: container where
  "gpt_children reader =
     and_then (read_at reader 512 8) (\<lambda>sig.
     if length sig \<noteq> 8 \<or> sig \<noteq> ascii ''EFI PART'' then Err InvalidData
     else
       and_then (read_le64 reader (512 + 72)) (\<lambda>entries_lba.
       and_then (read_le32 reader (512 + 80)) (\<lambda>num_entries.
       and_then (read_le32 reader (512 + 84)) (\<lambda>entry_size.
       if entry_size < 128 \<or> num_entries > 256 then Err InvalidData
       else collect (gpt_entry (entries_lba * 512) entry_size reader) [0..<unat num_entries]))))"

section \<open>The contracts\<close>

text \<open>Every loop is an \<open>entry_table\<close>, every format a \<open>partition_table\<close>.\<close>

interpretation sgi_rows: entry_table sgi_entry
  by unfold_locales (auto simp: sgi_entry_def Let_def ok_iff panic_free split: if_splits)

interpretation ultrix_rows: entry_table ultrix_entry
  by unfold_locales (auto simp: ultrix_entry_def Let_def ok_iff panic_free split: if_splits)

interpretation sysv68_rows: entry_table "sysv68_entry base"
  for base
  by unfold_locales (auto simp: sysv68_entry_def Let_def ok_iff panic_free split: if_splits)

interpretation karma_rows: entry_table karma_entry
  by unfold_locales (auto simp: karma_entry_def Let_def ok_iff panic_free split: if_splits)

interpretation sun_sparc_rows: entry_table "sun_sparc_entry spc"
  for spc
  by unfold_locales (auto simp: sun_sparc_entry_def Let_def ok_iff panic_free split: if_splits)

interpretation pc98_rows: entry_table pc98_entry
  by unfold_locales (auto simp: pc98_entry_def Let_def ok_iff panic_free split: if_splits)

interpretation disklabel_rows: entry_table "disklabel_entry base ss"
  for base ss
  by unfold_locales (auto simp: disklabel_entry_def Let_def ok_iff panic_free split: if_splits)

interpretation solaris_rows: entry_table solaris_entry
  by unfold_locales (auto simp: solaris_entry_def Let_def ok_iff panic_free split: if_splits)

interpretation gpt_rows: entry_table "gpt_entry base sz"
  for base sz
  by unfold_locales (auto simp: gpt_entry_def Let_def ok_iff panic_free split: if_splits)

interpretation sgi: partition_table sgi_children
  by unfold_locales
    (auto simp: sgi_children_def Let_def ok_iff panic_free sgi_rows.rows_no_panic
      intro: sgi_rows.rows_windows sgi_rows.rows_distinct split: if_splits)

interpretation ultrix: partition_table ultrix_children
  by unfold_locales
    (auto simp: ultrix_children_def Let_def ok_iff panic_free ultrix_rows.rows_no_panic
      intro: ultrix_rows.rows_windows ultrix_rows.rows_distinct split: if_splits)

lemma slice_count_bound: "unat (cnt :: u16) - Suc 0 \<le> 2 ^ 32"
  using unat_u16_less [of cnt] by simp

interpretation sysv68: partition_table sysv68_children
  by unfold_locales
    (auto simp: sysv68_children_def Let_def ok_iff panic_free sysv68_rows.rows_no_panic
      intro: sysv68_rows.rows_windows sysv68_rows.rows_distinct [OF _ slice_count_bound] split: if_splits)

interpretation karma: partition_table karma_children
  by unfold_locales
    (auto simp: karma_children_def Let_def ok_iff panic_free karma_rows.rows_no_panic
      intro: karma_rows.rows_windows karma_rows.rows_distinct split: if_splits)

interpretation sun_sparc: partition_table sun_sparc_children
  by unfold_locales
    (auto simp: sun_sparc_children_def Let_def ok_iff panic_free sun_sparc_rows.rows_no_panic
      intro: sun_sparc_rows.rows_windows sun_sparc_rows.rows_distinct split: if_splits)

interpretation pc98: partition_table pc98_children
  by unfold_locales
    (auto simp: pc98_children_def Let_def ok_iff panic_free pc98_rows.rows_no_panic
      intro: pc98_rows.rows_windows pc98_rows.rows_distinct split: if_splits)

interpretation disklabel: partition_table disklabel_children
  by unfold_locales
    (auto simp: disklabel_children_def find_disklabel_def Let_def ok_iff panic_free disklabel_rows.rows_no_panic
      intro: disklabel_rows.rows_windows disklabel_rows.rows_distinct split: if_splits)

interpretation solaris: partition_table solaris_x86_vtoc_children
  by unfold_locales
    (auto simp: solaris_x86_vtoc_children_def Let_def ok_iff panic_free solaris_rows.rows_no_panic
      intro: solaris_rows.rows_windows solaris_rows.rows_distinct split: if_splits)

interpretation gpt: partition_table gpt_children
  by unfold_locales
    (auto simp: gpt_children_def Let_def ok_iff panic_free gpt_rows.rows_no_panic
        not_less word_le_nat_alt
      intro!: gpt_rows.rows_windows gpt_rows.rows_distinct split: if_splits)

section \<open>Properties\<close>


definition gpt_disk :: bytes where
  "gpt_disk = image_of 2560 (\<lambda>i.
     if 512 \<le> i \<and> i < 520 then ascii ''EFI PART'' ! (i - 512)
     else if i = 584 then 2 else if i = 592 then 1 else if i = 596 then 128
     else if i = 1024 then 0xA2 else if i = 1056 then 3 else if i = 1064 then 4 else 0)"

lemma gpt_disk_children: "gpt_children (bytes_reader gpt_disk) = Ok [slice_child (bytes_reader gpt_disk) 0 1536 1024]"
  by (simp add: gpt_children_def gpt_entry_def read_defs bytes.read_exactly_eq bytes.read_at_eq gpt_disk_def
      take_drop_image_of upt_rec from_le_def Let_def Cons_replicate_eq)


text \<open>
  The Solaris x86 table is never empty and never reaches past its image: when it is
  accepted, every slice is a nonempty window between the start and the end of a reader of
  known size, and the slice of the whole disk, number 2, is left out.
\<close>

theorem solaris_inside_image:
  assumes "solaris_x86_vtoc_children r = Ok cs" and "rsize r = Some sz"
  shows "cs \<noteq> [] \<and> (\<forall>c\<in>set cs. index c \<noteq> 2 \<and> window_of r c \<and> child_within c 0 (unat sz))"
proof -
  from assms(1) have rows: "collect (solaris_entry r) [0..<16] = Ok cs" and "cs \<noteq> []"
    by (auto simp: solaris_x86_vtoc_children_def ok_iff split: if_splits)
  have "index c \<noteq> 2 \<and> window_of r c \<and> child_within c 0 (unat sz)" if c: "c \<in> set cs" for c
  proof -
    from collect_mem [OF rows c] obtain i where i: "i < 16" and e: "solaris_entry r i = Ok (Some c)" by auto
    from e assms(2) obtain s n stop where c: "c = slice_child r (word_of_nat i) s n" and "i \<noteq> 2"
      and stop: "checked_add s n = Some stop" "\<not> stop > sz"
      by (auto simp: solaris_entry_def Let_def ok_iff split: if_splits)
    have "unat (word_of_nat i :: u32) = i" using i by (simp add: unat_of_nat)
    then have "word_of_nat i \<noteq> (2 :: u32)" using \<open>i \<noteq> 2\<close> by auto
    with c checked_add_Some [OF stop(1)] stop(2) show ?thesis by (simp add: not_less word_le_nat_alt)
  qed
  with \<open>cs \<noteq> []\<close> show ?thesis by blast
qed

definition solaris_disk :: bytes where
  "solaris_disk = image_of 1536 (\<lambda>i.
     if i = 524 then 0xEE else if i = 525 then 0xDE else if i = 526 then 0x0D else if i = 527 then 0x60
     else if i = 1020 then 0xBE else if i = 1021 then 0xDA else if i = 542 then 16
     else if i = 588 then 2 else if i = 592 then 1 else 0)"

lemma solaris_disk_children:
  "solaris_x86_vtoc_children (bytes_reader solaris_disk) = Ok [slice_child (bytes_reader solaris_disk) 0 1024 512]"
  by (simp add: solaris_x86_vtoc_children_def solaris_entry_def read_defs bytes.read_exactly_eq rsize_bytes_reader
      solaris_disk_def take_drop_image_of upt_rec from_le_def checked_mul_def checked_add_def Let_def)

theorem solaris_inside_image_witness:
  "child_within (slice_child (bytes_reader solaris_disk) 0 1024 512) 0 1536"
  using solaris_inside_image [OF solaris_disk_children, of 1536] by (simp add: bytes_reader_def solaris_disk_def)

end
