(* ===== verification/Pt_Mbr.thy ===== *)
theory Pt_Mbr
  imports Tables
begin

text \<open>
  \<^verbatim>\<open>container/pt/mbr.rs\<close>: the four slots of the master boot record and the chain of
  extended boot records behind a slot of type 5 or 15.
\<close>

section \<open>The table and the chain\<close>

record partition_entry =
  type_code :: u8
  lba_start :: u32
  sector_count :: u32

definition mbr_entry :: "reader \<Rightarrow> u64 \<Rightarrow> nat \<Rightarrow> partition_entry io" where
  "mbr_entry reader base i =
     (let entry_offset = base + 446 + word_of_nat i * 16 in
      and_then (read_u8 reader (entry_offset + 4)) (\<lambda>t.
      and_then (read_le32 reader (entry_offset + 8)) (\<lambda>s.
      and_then (read_le32 reader (entry_offset + 12)) (\<lambda>n.
      Ok \<lparr>type_code = t, lba_start = s, sector_count = n\<rparr>))))"

definition read_partition_table :: "reader \<Rightarrow> u64 \<Rightarrow> partition_entry list io" where
  "read_partition_table reader lba =
     (let base = lba * 512 in
      and_then (read_le16 reader (base + 510)) (\<lambda>sig.
      if sig \<noteq> 0xAA55 then Err InvalidData
      else traverse (mbr_entry reader base) [0..<4]))"

text \<open>
  One round of the chain at \<open>current\<close>: the child it pushes, if any, and the next record,
  \<open>None\<close> for a \<^verbatim>\<open>break\<close>.
\<close>

definition logical_child :: "reader \<Rightarrow> u64 \<Rightarrow> u64 \<Rightarrow> u64 \<Rightarrow> u32 \<Rightarrow> partition_entry \<Rightarrow> child option" where
  "logical_child parent ext_start ext_size current idx logical =
     (if type_code logical \<noteq> 0 \<and> lba_start logical > 0 \<and> sector_count logical > 0 then
        let partition_lba = current + ucast (lba_start logical);
            partition_end_lba = partition_lba + ucast (sector_count logical)
        in if partition_end_lba \<le> ext_start + ext_size
           then Some (slice_child parent idx (partition_lba * 512) (ucast (sector_count logical) * 512))
           else None
      else None)"

definition next_ebr :: "u64 \<Rightarrow> u64 \<Rightarrow> u64 \<Rightarrow> partition_entry \<Rightarrow> u64 option" where
  "next_ebr ext_start ext_size current e =
     (if type_code e = 0 \<or> lba_start e = 0 then None
      else let next_lba = ext_start + ucast (lba_start e) in
        if next_lba \<ge> ext_start + ext_size then None
        else if next_lba \<le> current then None
        else Some next_lba)"

text \<open>The loop runs at most \<^verbatim>\<open>MAX_LOGICAL\<close> rounds; a record that cannot be read ends it.\<close>

fun ebr_loop :: "nat \<Rightarrow> reader \<Rightarrow> u64 \<Rightarrow> u64 \<Rightarrow> u64 \<Rightarrow> u32 \<Rightarrow> child list \<Rightarrow> (child list \<times> u32) io" where
  "ebr_loop 0 reader ext_start ext_size current idx children = Ok (children, idx)"
| "ebr_loop (Suc rounds) reader ext_start ext_size current idx children =
     match_io (read_partition_table reader current)
       (\<lambda>entries.
          let (children', idx') =
            (case logical_child reader ext_start ext_size current idx (entries ! 0) of
               Some c \<Rightarrow> (children @ [c], idx + 1)
             | None \<Rightarrow> (children, idx))
          in (case next_ebr ext_start ext_size current (entries ! 1) of
                None \<Rightarrow> Ok (children', idx')
              | Some next_lba \<Rightarrow> ebr_loop rounds reader ext_start ext_size next_lba idx' children'))
       (Ok (children, idx)) Panic"

definition MAX_LOGICAL :: nat where
  "MAX_LOGICAL = 256"

definition parse_extended_chain :: "reader \<Rightarrow> u64 \<Rightarrow> u64 \<Rightarrow> u32 \<Rightarrow> (child list \<times> u32) io" where
  "parse_extended_chain reader ext_start ext_size idx =
     ebr_loop MAX_LOGICAL reader ext_start ext_size ext_start idx []"

definition mbr_slot :: "reader \<Rightarrow> (nat \<times> partition_entry) \<Rightarrow> child list \<times> u32 \<Rightarrow> (child list \<times> u32) io" where
  "mbr_slot reader = (\<lambda>(slot, entry) (children, logical_index).
     if type_code entry = 0 \<or> type_code entry = 0xEE then Ok (children, logical_index)
     else if type_code entry = 0x05 \<or> type_code entry = 0x0F then
       and_then (parse_extended_chain reader (ucast (lba_start entry)) (ucast (sector_count entry)) logical_index)
         (\<lambda>(logical, idx). Ok (children @ logical, idx))
     else if lba_start entry > 0 \<and> sector_count entry > 0
     then Ok (children @ [slice_child reader (word_of_nat slot) (ucast (lba_start entry) * 512)
                (ucast (sector_count entry) * 512)], logical_index)
     else Ok (children, logical_index))"

definition mbr_children :: container where
  "mbr_children reader =
     and_then (read_partition_table reader 0) (\<lambda>entries.
     and_then (for_each (mbr_slot reader) (List.enumerate 0 entries) ([], 4)) (\<lambda>(children, _). Ok children))"

section \<open>The chain stays inside the extended partition\<close>

lemma sector_sum:
  "unat (a :: u64) + unat b < 2 ^ 40 \<Longrightarrow> unat (a + b) = unat a + unat b"
  by (rule unat_add_exact) simp

lemma sector_bytes: "unat (a :: u64) < 2 ^ 40 \<Longrightarrow> unat (a * 512) = unat a * 512"
  by (subst unat_mult_exact) simp_all

lemma logical_child_placed:
  assumes "unat es < 2 ^ 32" "unat n < 2 ^ 32" "unat current \<le> unat es + unat n" "es \<le> current"
    and "logical_child r es n current idx e = Some c"
  shows "window_of r c \<and> index c = idx \<and> child_within c (512 * (unat es + 1)) (512 * (unat es + unat n))"
proof -
  let ?s = "ucast (lba_start e) :: u64" and ?m = "ucast (sector_count e) :: u64"
  have s: "unat ?s < 2 ^ 32" and m: "unat ?m < 2 ^ 32"
    using unat_u32_less [of "lba_start e"] unat_u32_less [of "sector_count e"] by simp_all
  have c: "c = slice_child r idx ((current + ?s) * 512) (?m * 512)" and pos: "lba_start e > 0"
    and le: "current + ?s + ?m \<le> es + n"
    using assms(5) by (auto simp: logical_child_def Let_def split: if_splits)
  have l: "unat (current + ?s) = unat current + unat ?s"
    using assms s by (intro sector_sum) simp
  then have e: "unat (current + ?s + ?m) = unat current + unat ?s + unat ?m"
    using assms s m by (subst sector_sum) simp_all
  have "unat (es + n) = unat es + unat n"
    using assms by (intro sector_sum) simp
  with le e have bound: "unat current + unat ?s + unat ?m \<le> unat es + unat n"
    by (simp add: word_le_nat_alt)
  have "unat ?s > 0" using pos by (simp add: word_less_nat_alt)
  moreover have "unat ((current + ?s) * 512) = (unat current + unat ?s) * 512"
    using assms s by (subst sector_bytes) (simp_all add: l)
  moreover have "unat (?m * 512) = unat ?m * 512"
    using m by (intro sector_bytes) simp
  ultimately show ?thesis
    using c bound assms(4) by (simp add: word_le_nat_alt)
qed

lemma next_ebr_forward:
  assumes "unat es < 2 ^ 32" "unat n < 2 ^ 32" and "next_ebr es n current e = Some x"
  shows "current < x \<and> es \<le> x \<and> unat x < unat es + unat n"
proof -
  let ?s = "ucast (lba_start e) :: u64"
  have s: "unat ?s < 2 ^ 32" using unat_u32_less [of "lba_start e"] by simp
  have "x = es + ?s" "x < es + n" "current < x"
    using assms(3) by (auto simp: next_ebr_def Let_def split: if_splits)
  moreover have "unat (es + ?s) = unat es + unat ?s" "unat (es + n) = unat es + unat n"
    using assms(1,2) s by (subst sector_sum; simp)+
  ultimately show ?thesis by (simp add: word_le_nat_alt word_less_nat_alt)
qed

text \<open>The children of a chain: numbered from \<open>idx\<close> on, each inside the extended partition.\<close>

definition chain_ok :: "reader \<Rightarrow> u64 \<Rightarrow> u64 \<Rightarrow> nat \<Rightarrow> child list \<Rightarrow> nat \<Rightarrow> bool" where
  "chain_ok r es n lo cs hi \<longleftrightarrow>
     map (unat \<circ> index) cs = [lo..<hi] \<and> lo \<le> hi \<and>
     (\<forall>c\<in>set cs. window_of r c \<and> child_within c (512 * (unat es + 1)) (512 * (unat es + unat n)))"

lemma chain_ok_push:
  assumes "chain_ok r es n lo cs (unat idx)" and "window_of r c" "index c = idx"
    "child_within c (512 * (unat es + 1)) (512 * (unat es + unat n))" and "unat idx + 1 < 2 ^ 32"
  shows "chain_ok r es n lo (cs @ [c]) (unat (idx + 1))"
proof -
  have "unat (idx + 1) = unat idx + 1"
    using assms(5) by (subst unat_add_exact) simp_all
  with assms show ?thesis by (auto simp: chain_ok_def)
qed

lemma ebr_loop_ok:
  assumes "ebr_loop k r es n current idx cs = Ok (cs', idx')"
    and "unat es < 2 ^ 32" "unat n < 2 ^ 32" "unat current \<le> unat es + unat n" "es \<le> current"
    and "chain_ok r es n lo cs (unat idx)" "unat idx + k < 2 ^ 32"
  shows "chain_ok r es n lo cs' (unat idx') \<and> unat idx' \<le> unat idx + k"
  using assms(1,4-7)
proof (induction k arbitrary: current idx cs)
  case 0
  then show ?case by simp
next
  case (Suc k)
  show ?case
  proof (cases "read_partition_table r current")
    case (Ok entries)
    let ?l = "logical_child r es n current idx (entries ! 0)"
    define cs1 where "cs1 = (case ?l of Some c \<Rightarrow> cs @ [c] | None \<Rightarrow> cs)"
    define idx1 where "idx1 = (case ?l of Some c \<Rightarrow> idx + 1 | None \<Rightarrow> idx)"
    have next_idx: "unat (idx + 1) = unat idx + 1"
      using Suc.prems(5) by (subst unat_add_exact) simp_all
    have ok1: "chain_ok r es n lo cs1 (unat idx1)" and idx1: "unat idx1 \<le> unat idx + 1"
      using Suc.prems(4,5) next_idx
        logical_child_placed [OF assms(2,3) Suc.prems(2,3)] chain_ok_push [OF Suc.prems(4)]
      by (auto simp: cs1_def idx1_def split: option.split)
    have step: "(case next_ebr es n current (entries ! 1) of
          None \<Rightarrow> Ok (cs1, idx1) | Some x \<Rightarrow> ebr_loop k r es n x idx1 cs1) = Ok (cs', idx')"
      using Suc.prems(1) Ok unfolding cs1_def idx1_def
      by (cases ?l; cases "next_ebr es n current (entries ! 1)") simp_all
    show ?thesis
    proof (cases "next_ebr es n current (entries ! 1)")
      case None
      with step ok1 idx1 show ?thesis by simp
    next
      case (Some x)
      with step have "ebr_loop k r es n x idx1 cs1 = Ok (cs', idx')" by simp
      from Suc.IH [OF this _ _ ok1] next_ebr_forward [OF assms(2,3) Some] idx1 Suc.prems(5)
      show ?thesis by simp
    qed
  qed (use Suc.prems in simp_all)
qed

lemma chain_children:
  assumes "parse_extended_chain r (ucast s) (ucast n) idx = Ok (cs, idx')" "unat idx + 256 < 2 ^ 32"
  shows "chain_ok r (ucast (s :: u32)) (ucast (n :: u32)) (unat idx) cs (unat idx') \<and> unat idx' \<le> unat idx + 256"
proof -
  have "chain_ok r (ucast s) (ucast n) (unat idx) [] (unat idx)"
    by (simp add: chain_ok_def)
  then show ?thesis
    using assms unat_u32_less [of s] unat_u32_less [of n]
    by (intro ebr_loop_ok [where current = "ucast s" and cs = "[]"])
      (simp_all add: parse_extended_chain_def MAX_LOGICAL_def)
qed

section \<open>No panic\<close>

lemma read_partition_table_no_panic: "safe_reader r \<Longrightarrow> read_partition_table r lba \<noteq> Panic"
  by (auto simp: read_partition_table_def mbr_entry_def Let_def panic_free intro!: traverse_not_Panic)

lemma ebr_loop_no_panic: "safe_reader r \<Longrightarrow> ebr_loop k r es n current idx cs \<noteq> Panic"
  by (induction k arbitrary: current idx cs)
    (auto simp: panic_free read_partition_table_no_panic split: option.split)

lemma mbr_slot_no_panic: "safe_reader r \<Longrightarrow> mbr_slot r x s \<noteq> Panic"
  by (auto simp: mbr_slot_def panic_free parse_extended_chain_def ebr_loop_no_panic split: prod.splits)

lemma mbr_children_no_panic: "safe_reader r \<Longrightarrow> mbr_children r \<noteq> Panic"
  by (auto simp: mbr_children_def panic_free read_partition_table_no_panic
      intro!: for_each_not_Panic mbr_slot_no_panic split: prod.splits)

section \<open>Where the children come from\<close>

definition is_extended :: "partition_entry \<Rightarrow> bool" where
  "is_extended e \<longleftrightarrow> type_code e = 0x05 \<or> type_code e = 0x0F"

definition is_primary :: "partition_entry \<Rightarrow> bool" where
  "is_primary e \<longleftrightarrow> type_code e \<notin> {0, 0xEE, 0x05, 0x0F} \<and> lba_start e \<noteq> 0 \<and> sector_count e \<noteq> 0"

text \<open>A child is the primary partition of a slot, or lies inside an extended one.\<close>

definition mbr_origin :: "reader \<Rightarrow> partition_entry list \<Rightarrow> child \<Rightarrow> bool" where
  "mbr_origin r es c \<longleftrightarrow> (\<exists>i<length es.
     is_primary (es ! i) \<and>
       c = slice_child r (word_of_nat i) (ucast (lba_start (es ! i)) * 512) (ucast (sector_count (es ! i)) * 512)
     \<or> is_extended (es ! i) \<and> 4 \<le> unat (index c) \<and> window_of r c \<and>
       child_within c (512 * (unat (lba_start (es ! i)) + 1))
         (512 * (unat (lba_start (es ! i)) + unat (sector_count (es ! i)))))"

definition slots_ok :: "reader \<Rightarrow> partition_entry list \<Rightarrow> nat \<Rightarrow> child list \<times> u32 \<Rightarrow> bool" where
  "slots_ok r es k = (\<lambda>(cs, li).
     distinct (map index cs) \<and> 4 \<le> unat li \<and> unat li \<le> 4 + 256 * k \<and>
     (\<forall>c\<in>set cs. mbr_origin r es c \<and>
        (unat (index c) < k \<or> 4 \<le> unat (index c) \<and> unat (index c) < unat li)))"

lemma slots_ok_later: "slots_ok r es k s \<Longrightarrow> slots_ok r es (Suc k) s"
  by (auto simp: slots_ok_def)

lemma slots_ok_primary:
  assumes "slots_ok r es k (cs, li)" and "k < 4" "index c = word_of_nat k" "mbr_origin r es c"
  shows "slots_ok r es (Suc k) (cs @ [c], li)"
proof -
  have k: "unat (word_of_nat k :: u32) = k"
    using assms(2) by (simp add: unat_of_nat)
  have "index c' \<noteq> word_of_nat k" if "c' \<in> set cs" for c'
    using assms(1,2) that k by (auto simp: slots_ok_def)
  with assms k show ?thesis by (auto simp: slots_ok_def)
qed

lemma slots_ok_chain:
  assumes "slots_ok r es k (cs, li)" and "k < 4" "k < length es" "is_extended (es ! k)"
    and "chain_ok r (ucast (lba_start (es ! k))) (ucast (sector_count (es ! k))) (unat li) l (unat li')"
    and "unat li' \<le> unat li + 256"
  shows "slots_ok r es (Suc k) (cs @ l, li')"
proof -
  have idx: "map (unat \<circ> index) l = [unat li..<unat li']" and le: "unat li \<le> unat li'"
    and l: "\<And>c. c \<in> set l \<Longrightarrow> window_of r c \<and> child_within c (512 * (unat (lba_start (es ! k)) + 1))
         (512 * (unat (lba_start (es ! k)) + unat (sector_count (es ! k))))"
    using assms(5) by (auto simp: chain_ok_def)
  have range: "unat li \<le> unat (index c) \<and> unat (index c) < unat li'" if "c \<in> set l" for c
    using arg_cong [OF idx, of set] that by auto
  have "distinct (map unat (map index l))"
    using idx by simp
  then have d: "distinct (map index l)"
    by (simp only: distinct_map)
  have o: "mbr_origin r es c" if "c \<in> set l" for c
    unfolding mbr_origin_def using assms(1,3,4) l [OF that] range [OF that]
    by (intro exI [of _ k]) (auto simp: slots_ok_def)
  have disj: "index c \<noteq> index c'" if "c \<in> set cs" "c' \<in> set l" for c c'
    using assms(1,2) that range [of c'] by (auto simp: slots_ok_def)
  show ?thesis
    using assms(1,2,6) d o range le disj by (fastforce simp: slots_ok_def)
qed

lemma mbr_slot_ok:
  assumes "mbr_slot r (k, es ! k) s = Ok t" and "k < 4" "length es = 4" "slots_ok r es k s"
  shows "slots_ok r es (Suc k) t"
proof -
  obtain cs li where s: "s = (cs, li)" by fastforce
  consider "type_code (es ! k) = 0 \<or> type_code (es ! k) = 0xEE" | "is_extended (es ! k)"
    | "\<not> is_extended (es ! k)" "\<not> (type_code (es ! k) = 0 \<or> type_code (es ! k) = 0xEE)" by blast
  then show ?thesis
  proof cases
    case 1
    with assms(1,4) show ?thesis by (simp add: mbr_slot_def s slots_ok_later)
  next
    case 2
    then obtain l li' where l: "parse_extended_chain r (ucast (lba_start (es ! k)))
        (ucast (sector_count (es ! k))) li = Ok (l, li')" and t: "t = (cs @ l, li')"
      using assms(1) by (auto simp: mbr_slot_def s is_extended_def ok_iff split: if_splits)
    have "unat li + 256 < 2 ^ 32"
      using assms(2,4) by (auto simp: slots_ok_def s)
    then show ?thesis
      using chain_children [OF l] slots_ok_chain [OF assms(4) [unfolded s] assms(2) _ 2] assms(2,3) t by simp
  next
    case 3
    show ?thesis
    proof (cases "lba_start (es ! k) > 0 \<and> sector_count (es ! k) > 0")
      case True
      let ?c = "slice_child r (word_of_nat k) (ucast (lba_start (es ! k)) * 512) (ucast (sector_count (es ! k)) * 512)"
      have "mbr_origin r es ?c"
        unfolding mbr_origin_def using 3 True assms(2,3)
        by (intro exI [of _ k]) (auto simp: is_primary_def is_extended_def)
      then have "slots_ok r es (Suc k) (cs @ [?c], li)"
        using assms(2,4) s by (intro slots_ok_primary) simp_all
      with 3 True assms(1) show ?thesis by (auto simp: mbr_slot_def s is_extended_def)
    next
      case False
      with 3 assms(1,4) show ?thesis by (auto simp: mbr_slot_def s is_extended_def slots_ok_later split: if_splits)
    qed
  qed
qed

lemma read_partition_table_length: "read_partition_table r lba = Ok es \<Longrightarrow> length es = 4"
  by (auto simp: read_partition_table_def Let_def ok_iff dest: traverse_length split: if_splits)

lemma mbr_children_ok:
  assumes "mbr_children r = Ok cs"
  obtains es li where "read_partition_table r 0 = Ok es" "slots_ok r es 4 (cs, li)"
proof -
  obtain es li where es: "read_partition_table r 0 = Ok es"
    and loop: "for_each (mbr_slot r) (List.enumerate 0 es) ([], 4) = Ok (cs, li)"
    using assms by (auto simp: mbr_children_def ok_iff)
  have len: "length es = 4" using es by (rule read_partition_table_length)
  have "slots_ok r es (0 + length es) (cs, li)"
  proof (rule for_each_enumerate_inv [OF loop, of "slots_ok r es"])
    show "slots_ok r es 0 ([], 4)" by (simp add: slots_ok_def)
    show "slots_ok r es (Suc (0 + i)) v"
      if "i < length es" "slots_ok r es (0 + i) u" "mbr_slot r (0 + i, es ! i) u = Ok v" for i u v
      using that len mbr_slot_ok [of r i es u v] by simp
  qed
  with es len that show thesis by simp
qed

lemma mbr_origin_window: "mbr_origin r es c \<Longrightarrow> window_of r c"
  unfolding mbr_origin_def by (elim exE conjE disjE) auto

interpretation mbr: partition_table mbr_children
proof (rule partition_table.intro)
  show "mbr_children r \<noteq> Panic" if "safe_reader r" for r
    using that by (rule mbr_children_no_panic)
  show "window_of r c" if "mbr_children r = Ok cs" "c \<in> set cs" for r cs c
    using that by (elim mbr_children_ok) (auto simp: slots_ok_def dest: mbr_origin_window)
  show "distinct (map index cs)" if "mbr_children r = Ok cs" for r cs
    using that by (auto elim!: mbr_children_ok simp: slots_ok_def)
qed

section \<open>Properties\<close>

text \<open>A boot record with given entries, the way a partitioning tool writes it.\<close>

definition encode_entry :: "partition_entry \<Rightarrow> bytes" where
  "encode_entry e = [0, 0, 0, 0, type_code e, 0, 0, 0] @ to_le (lba_start e) @ to_le (sector_count e)"

definition encode_table :: "partition_entry list \<Rightarrow> bytes" where
  "encode_table es = replicate 446 0 @ concat (map encode_entry es) @ [0x55, 0xAA]"

lemma encode_entry_list:
  obtains a b c d u v w x where "encode_entry e = [0, 0, 0, 0, type_code e, 0, 0, 0, a, b, c, d, u, v, w, x]"
    "from_le [a, b, c, d] = lba_start e" "from_le [u, v, w, x] = sector_count e"
proof -
  obtain a b c d where s: "to_le (lba_start e) = [a, b, c, d]" using word32_list by blast
  obtain u v w x where n: "to_le (sector_count e) = [u, v, w, x]" using word32_list by blast
  have "from_le [a, b, c, d] = lba_start e" "from_le [u, v, w, x] = sector_count e"
    using from_to_le [of "lba_start e"] from_to_le [of "sector_count e"] by (simp_all add: s n)
  with that show thesis by (simp add: encode_entry_def s n)
qed

lemma encoded_table_read:
  assumes "length es = 4"
  shows "read_partition_table (bytes_reader (encode_table es @ rest)) 0 = Ok es"
proof -
  obtain e1 e2 e3 e4 where es: "es = [e1, e2, e3, e4]"
    using assms by (auto simp: numeral_eq_Suc length_Suc_conv)
  obtain a1 b1 c1 d1 u1 v1 w1 x1 where l1: "encode_entry e1 = [0, 0, 0, 0, type_code e1, 0, 0, 0, a1, b1, c1, d1, u1, v1, w1, x1]"
    "from_le [a1, b1, c1, d1] = lba_start e1" "from_le [u1, v1, w1, x1] = sector_count e1" by (rule encode_entry_list)
  obtain a2 b2 c2 d2 u2 v2 w2 x2 where l2: "encode_entry e2 = [0, 0, 0, 0, type_code e2, 0, 0, 0, a2, b2, c2, d2, u2, v2, w2, x2]"
    "from_le [a2, b2, c2, d2] = lba_start e2" "from_le [u2, v2, w2, x2] = sector_count e2" by (rule encode_entry_list)
  obtain a3 b3 c3 d3 u3 v3 w3 x3 where l3: "encode_entry e3 = [0, 0, 0, 0, type_code e3, 0, 0, 0, a3, b3, c3, d3, u3, v3, w3, x3]"
    "from_le [a3, b3, c3, d3] = lba_start e3" "from_le [u3, v3, w3, x3] = sector_count e3" by (rule encode_entry_list)
  obtain a4 b4 c4 d4 u4 v4 w4 x4 where l4: "encode_entry e4 = [0, 0, 0, 0, type_code e4, 0, 0, 0, a4, b4, c4, d4, u4, v4, w4, x4]"
    "from_le [a4, b4, c4, d4] = lba_start e4" "from_le [u4, v4, w4, x4] = sector_count e4" by (rule encode_entry_list)
  have sig: "from_le [0x55, 0xAA] = (0xAA55 :: u16)" by (simp add: from_le_def)
  show ?thesis
    by (simp add: read_partition_table_def mbr_entry_def read_defs bytes.read_exactly_eq encode_table_def es
        l1 l2 l3 l4 sig upt_rec Let_def)
qed

text \<open>
  C14. A boot record read back gives the entries it was written with, whatever they are,
  and whatever follows the record on the disk.
\<close>

theorem mbr_table_roundtrip:
  assumes "length es = 4"
  shows "read_partition_table (bytes_reader (encode_table es @ rest)) 0 = Ok es"
  using assms by (rule encoded_table_read)

definition one_linux :: "partition_entry list" where
  "one_linux = [\<lparr>type_code = 0x83, lba_start = 1, sector_count = 2\<rparr>, \<lparr>type_code = 0, lba_start = 0, sector_count = 0\<rparr>,
     \<lparr>type_code = 0, lba_start = 0, sector_count = 0\<rparr>, \<lparr>type_code = 0, lba_start = 0, sector_count = 0\<rparr>]"

theorem mbr_table_roundtrip_witness:
  "read_partition_table (bytes_reader (encode_table one_linux @ [1, 2, 3])) 0 = Ok one_linux"
  by (rule mbr_table_roundtrip) (simp add: one_linux_def)

lemma one_linux_children:
  assumes "read_partition_table r 0 = Ok one_linux"
  shows "mbr_children r = Ok [slice_child r 0 512 1024]"
  using assms by (simp add: mbr_children_def mbr_slot_def one_linux_def)

lemma slots_ok_length:
  assumes "slots_ok r es 4 (cs, li)" shows "length cs \<le> 1028"
proof -
  have d: "distinct (map index cs)" and b: "\<And>c. c \<in> set cs \<Longrightarrow> unat (index c) < 1028"
    using assms by (auto simp: slots_ok_def)
  have "distinct (map unat (map index cs))"
    using d by (simp only: distinct_map) (auto simp: inj_on_def word_unat_eq_iff)
  moreover have "set (map unat (map index cs)) \<subseteq> {..<1028}" using b by auto
  ultimately have "length (map unat (map index cs)) \<le> card {..<1028::nat}"
    by (metis card_mono distinct_card finite_lessThan)
  then show ?thesis by simp
qed


lemma one_linux_read: "read_partition_table (bytes_reader (encode_table one_linux @ rest)) 0 = Ok one_linux"
  by (rule encoded_table_read) (simp add: one_linux_def)


lemma mbr_origin_end:
  assumes "mbr_origin r es c" and "rsize (child_reader c) = Some n"
  shows "unat (offset c) + unat n \<le> 2 ^ 64"
proof -
  have b: "unat (w :: u32) < 4294967296" for w by (rule unat_u32_less)
  from assms(1) obtain i where "is_primary (es ! i) \<and>
       c = slice_child r (word_of_nat i) (ucast (lba_start (es ! i)) * 512) (ucast (sector_count (es ! i)) * 512) \<or>
     child_within c (512 * (unat (lba_start (es ! i)) + 1))
         (512 * (unat (lba_start (es ! i)) + unat (sector_count (es ! i))))"
    unfolding mbr_origin_def by blast
  then have "unat (offset c) + unat n \<le> 512 * (unat (lba_start (es ! i)) + unat (sector_count (es ! i)))"
    using assms(2) by (auto simp: sector_bound slice_reader_def child_within_def)
  also have "\<dots> \<le> 2 ^ 64" using b [of "lba_start (es ! i)"] b [of "sector_count (es ! i)"] by simp
  finally show ?thesis .
qed

text \<open>
  What is read from a partition of a boot record are exactly the bytes of the disk in
  its extent: no arithmetic on sector numbers wraps around, for primary and for logical
  partitions.
\<close>

theorem mbr_partition_content:
  assumes "exact_reader r d" and "mbr_children r = Ok cs" and "c \<in> set cs"
    and "rsize (child_reader c) = Some n"
  shows "exact_reader (child_reader c) (take (unat n) (drop (unat (offset c)) d))"
proof -
  obtain es li where "slots_ok r es 4 (cs, li)"
    using assms(2) by (rule mbr_children_ok)
  with assms(3) have "mbr_origin r es c" by (auto simp: slots_ok_def)
  from mbr.partition_bytes [OF assms mbr_origin_end [OF this assms(4)]] show ?thesis .
qed

lemma length_encode_one_linux: "length (encode_table one_linux) = 512"
  by (simp add: encode_table_def encode_entry_def one_linux_def)

theorem mbr_partition_content_witness:
  "exact_reader (slice_reader (bytes_reader (encode_table one_linux @ [9, 8, 7])) 512 1024) [9, 8, 7]"
  using mbr_partition_content [OF bytes.exact_reader_axioms one_linux_children [OF one_linux_read [of "[9, 8, 7]"]],
      of "slice_child (bytes_reader (encode_table one_linux @ [9, 8, 7])) 0 512 1024" 1024]
    length_encode_one_linux
  by (simp add: slice_reader_def)

end
