(* ===== verification/Pt_Chains.thy ===== *)
theory Pt_Chains
  imports Tables Utf8
begin

text \<open>
  The partition tables that are followed rather than indexed: the linked blocks of the
  Amiga RDB (\<^verbatim>\<open>container/pt/rdb.rs\<close>), the self-describing Apple partition map
  (\<^verbatim>\<open>apm.rs\<close>) and the Atari root sector with its XGM chain and ICD table (\<^verbatim>\<open>atari.rs\<close>).
\<close>

section \<open>Amiga rigid disk block\<close>

definition rdb_search :: "reader \<Rightarrow> u64 option io" where
  "rdb_search reader =
     for_break (\<lambda>blk _.
       let off = word_of_nat blk * 512 in
       and_then (read_at reader off 4) (\<lambda>sig.
       if length sig \<noteq> 4 then Ok (Break None)
       else if sig = ascii ''RDSK'' then Ok (Break (Some off))
       else Ok (Continue None))) [0..<16] None"

text \<open>Every round pushes a child, so the limit of 256 children bounds the rounds.\<close>

function rdb_partitions :: "reader \<Rightarrow> u64 \<Rightarrow> u64 \<Rightarrow> u32 \<Rightarrow> child list \<Rightarrow> child list io" where
  "rdb_partitions reader block_size cyl_blks part_blk children =
     (if part_blk \<noteq> 0xFFFFFFFF \<and> length children < 256 then
        let part_offset = ucast part_blk * block_size in
        and_then (read_at reader part_offset 4) (\<lambda>sig.
        if length sig \<noteq> 4 \<or> sig \<noteq> ascii ''PART'' then Ok children
        else
          and_then (read_be32 reader (part_offset + 16)) (\<lambda>next_blk.
          and_then (read_be32 reader (part_offset + 164)) (\<lambda>low.
          and_then (read_be32 reader (part_offset + 168)) (\<lambda>high.
          let low_cyl = ucast low; high_cyl = ucast high;
              start = low_cyl * cyl_blks * block_size;
              len = (high_cyl - low_cyl + 1) * cyl_blks * block_size
          in rdb_partitions reader block_size cyl_blks next_blk (push_slice reader children start len)))))
      else Ok children)"
  by pat_completeness auto
termination
  by (relation "measure (\<lambda>(reader, bs, cb, blk, children). 256 - length children)") auto

declare rdb_partitions.simps [simp del]

definition rdb_children :: container where
  "rdb_children reader =
     and_then (rdb_search reader) (\<lambda>found.
     and_then (ok_or found InvalidData) (\<lambda>rdb_offset.
     and_then (read_be32 reader (rdb_offset + 16)) (\<lambda>block_size.
     and_then (read_be32 reader (rdb_offset + 28)) (\<lambda>part_list.
     and_then (read_be32 reader (rdb_offset + 144)) (\<lambda>cyl_blks.
     rdb_partitions reader (ucast block_size) (ucast cyl_blks) part_list [])))))"

section \<open>Apple partition map\<close>

definition starts_with :: "nat list \<Rightarrow> nat list \<Rightarrow> bool" where
  "starts_with s p \<longleftrightarrow> take (length p) s = p"

text \<open>The buffer is zeroed, and the count of the read is not looked at.\<close>

definition apm_type :: "bytes \<Rightarrow> nat list" where
  "apm_type got =
     trim_end_matches 0
       (case utf8_decode (got @ replicate (32 - length got) 0) of None \<Rightarrow> [] | Some s \<Rightarrow> s)"

definition apm_skipped :: "nat list \<Rightarrow> bool" where
  "apm_skipped s \<longleftrightarrow> s = code_points ''Apple_partition_map''
     \<or> starts_with s (code_points ''Apple_Driver'') \<or> s = code_points ''Apple_Free''"

definition apm_round :: "reader \<Rightarrow> u64 \<Rightarrow> nat \<Rightarrow> child list \<Rightarrow> child list flow io" where
  "apm_round reader block_size i children =
     (let entry_offset = word_of_nat i * block_size in
      and_then (read_be16 reader entry_offset) (\<lambda>sig.
      if sig \<noteq> 0x504D then Ok (Break children)
      else
        and_then (read_be32 reader (entry_offset + 8)) (\<lambda>pblock_start.
        and_then (read_be32 reader (entry_offset + 12)) (\<lambda>pblock_count.
        and_then (read_at reader (entry_offset + 48) 32) (\<lambda>ptype.
        if apm_skipped (apm_type ptype) then Ok (Continue children)
        else Ok (Continue (push_slice reader children (ucast pblock_start * block_size)
               (ucast pblock_count * block_size))))))))"

definition apm_children :: container where
  "apm_children reader =
     and_then (read_be16 reader 0) (\<lambda>ddm_sig.
     if ddm_sig \<noteq> 0x4552 then Err InvalidData
     else
       and_then (read_be16 reader 2) (\<lambda>bs.
       let block_size = ucast bs :: u64 in
       and_then (read_be16 reader block_size) (\<lambda>pm_sig.
       if pm_sig \<noteq> 0x504D then Err InvalidData
       else
         and_then (read_be32 reader (block_size + 4)) (\<lambda>entries.
         let map_entries = min (unat entries) 64
         in for_break (apm_round reader block_size) [1..<Suc map_entries] []))))"

section \<open>Atari AHDI\<close>

record atari_entry =
  flags :: u8
  part_id :: bytes
  start_sector :: u32
  part_sectors :: u32

definition is_ascii_alphanumeric :: "u8 \<Rightarrow> bool" where
  "is_ascii_alphanumeric c \<longleftrightarrow>
     0x30 \<le> c \<and> c \<le> 0x39 \<or> 0x41 \<le> c \<and> c \<le> 0x5A \<or> 0x61 \<le> c \<and> c \<le> 0x7A"

definition is_valid_partition :: "atari_entry \<Rightarrow> u32 \<Rightarrow> bool" where
  "is_valid_partition entry hd_siz =
     (if flags entry AND 0x01 = 0 then False
      else if \<not> list_all is_ascii_alphanumeric (part_id entry) then False
      else if start_sector entry > hd_siz then False
      else if saturating_add (start_sector entry) (part_sectors entry) > hd_siz then False
      else True)"

definition read_partition_entry :: "reader \<Rightarrow> u64 \<Rightarrow> atari_entry io" where
  "read_partition_entry reader off =
     and_then (read_u8 reader off) (\<lambda>f.
     and_then (read_exactly reader (off + 1) 3) (\<lambda>i.
     and_then (read_be32 reader (off + 4)) (\<lambda>s.
     and_then (read_be32 reader (off + 8)) (\<lambda>n.
     Ok \<lparr>flags = f, part_id = i, start_sector = s, part_sectors = n\<rparr>))))"

definition add_partition :: "reader \<Rightarrow> atari_entry \<Rightarrow> child list \<Rightarrow> u32 \<Rightarrow> child list" where
  "add_partition parent entry children idx =
     (if start_sector entry = 0 \<or> part_sectors entry = 0 then children
      else children @ [slice_child parent idx (ucast (start_sector entry) * 512)
             (ucast (part_sectors entry) * 512)])"

text \<open>The chain: the state is the children pushed so far and the partition index.\<close>

definition xgm_child :: "reader \<Rightarrow> u32 \<Rightarrow> u64 \<Rightarrow> atari_entry \<Rightarrow> child list \<times> u32 \<Rightarrow> child list \<times> u32" where
  "xgm_child parent hd_siz current_sect entry0 = (\<lambda>(children, idx).
     if flags entry0 AND 0x01 \<noteq> 0 \<and> start_sector entry0 > 0 \<and> part_sectors entry0 > 0 then
       let abs_start = current_sect + ucast (start_sector entry0)
       in if abs_start + ucast (part_sectors entry0) \<le> ucast hd_siz
          then (children @ [slice_child parent idx (abs_start * 512) (ucast (part_sectors entry0) * 512)], idx + 1)
          else (children, idx)
     else (children, idx))"

fun xgm_loop :: "nat \<Rightarrow> reader \<Rightarrow> u64 \<Rightarrow> u32 \<Rightarrow> u64 \<Rightarrow> child list \<times> u32 \<Rightarrow> (child list \<times> u32) io" where
  "xgm_loop 0 reader extension_sect hd_siz current_sect s = Ok s"
| "xgm_loop (Suc rounds) reader extension_sect hd_siz current_sect s =
     (let base = current_sect * 512 in
      and_then (read_partition_entry reader (base + 0x1c6)) (\<lambda>entry0.
      and_then (read_partition_entry reader (base + 0x1c6 + 12)) (\<lambda>entry1.
      let s' = xgm_child reader hd_siz current_sect entry0 s in
      if part_id entry1 \<noteq> ascii ''XGM'' \<or> start_sector entry1 = 0 then Ok s'
      else let next_sect = extension_sect + ucast (start_sector entry1) in
        if next_sect \<le> current_sect \<or> next_sect \<ge> ucast hd_siz then Ok s'
        else xgm_loop rounds reader extension_sect hd_siz next_sect s')))"

definition parse_xgm_chain :: "reader \<Rightarrow> u32 \<Rightarrow> u32 \<Rightarrow> child list \<times> u32 \<Rightarrow> (child list \<times> u32) io" where
  "parse_xgm_chain reader xgm_start hd_siz = xgm_loop 256 reader (ucast xgm_start) hd_siz (ucast xgm_start)"

definition atari_primary ::
  "reader \<Rightarrow> u32 \<Rightarrow> nat \<Rightarrow> (child list \<times> u32) \<times> bool \<Rightarrow> ((child list \<times> u32) \<times> bool) io" where
  "atari_primary reader hd_siz i = (\<lambda>((children, idx), has_xgm).
     and_then (read_partition_entry reader (0x1c6 + word_of_nat i * 12)) (\<lambda>entry.
     if \<not> is_valid_partition entry hd_siz then Ok ((children, idx), has_xgm)
     else if part_id entry = ascii ''XGM'' then
       and_then (parse_xgm_chain reader (start_sector entry) hd_siz (children, idx)) (\<lambda>s. Ok (s, True))
     else Ok ((add_partition reader entry children idx, idx + 1), has_xgm)))"

definition icd_round :: "reader \<Rightarrow> u32 \<Rightarrow> nat \<Rightarrow> child list \<times> u32 \<Rightarrow> (child list \<times> u32) io" where
  "icd_round reader hd_siz i = (\<lambda>(children, idx).
     and_then (read_partition_entry reader (0x156 + word_of_nat i * 12)) (\<lambda>entry.
     if \<not> is_valid_partition entry hd_siz then Ok (children, idx)
     else Ok (add_partition reader entry children idx, idx + 1)))"

definition parse_icd_partitions :: "reader \<Rightarrow> u32 \<Rightarrow> child list \<times> u32 \<Rightarrow> (child list \<times> u32) io" where
  "parse_icd_partitions reader hd_siz s =
     and_then (read_partition_entry reader 0x156) (\<lambda>first_entry.
     if part_id first_entry \<notin> set (map ascii [''GEM'', ''BGM'', ''LNX'', ''SWP'', ''RAW'']) then Ok s
     else for_each (icd_round reader hd_siz) [0..<8] s)"

definition atari_children :: container where
  "atari_children reader =
     and_then (read_be32 reader 0x1c2) (\<lambda>hd_siz.
     and_then (for_each (atari_primary reader hd_siz) [0..<4] (([], 0), False)) (\<lambda>(s, has_xgm).
     if has_xgm then Ok (fst s)
     else and_then (parse_icd_partitions reader hd_siz s) (\<lambda>t. Ok (fst t))))"

section \<open>Contracts of the RDB and of the Apple map\<close>

lemma rdb_search_not_Panic: "safe_reader r \<Longrightarrow> rdb_search r \<noteq> Panic"
  by (auto simp: rdb_search_def Let_def panic_free intro!: for_break_not_Panic
      split: if_splits)

lemma rdb_partitions_inv:
  assumes "rdb_partitions r bs cb blk cs = Ok cs'" and "P cs"
    and "\<And>cs s n. P cs \<Longrightarrow> length cs < 256 \<Longrightarrow> P (push_slice r cs s n)"
  shows "P cs'"
  using assms
proof (induction r bs cb blk cs rule: rdb_partitions.induct)
  case (1 r bs cb blk cs)
  from "1.prems" show ?case
    by (subst (asm) rdb_partitions.simps)
      (auto simp: Let_def ok_iff split: if_splits intro!: "1.IH")
qed

lemma rdb_partitions_ok:
  "rdb_partitions r bs cb blk [] = Ok cs \<Longrightarrow> pushed r cs \<and> length cs \<le> 256"
  by (erule rdb_partitions_inv) auto

lemma rdb_partitions_not_Panic: "safe_reader r \<Longrightarrow> rdb_partitions r bs cb blk cs \<noteq> Panic"
proof (induction r bs cb blk cs rule: rdb_partitions.induct)
  case (1 r bs cb blk cs)
  from "1.prems" show ?case
    by (subst rdb_partitions.simps) (auto simp: Let_def panic_free "1.IH")
qed

lemma rdb_children_ok: "rdb_children r = Ok cs \<Longrightarrow> pushed r cs \<and> length cs \<le> 256"
  using rdb_partitions_ok by (fastforce simp: rdb_children_def ok_iff)

lemma rdb_children_not_Panic: "safe_reader r \<Longrightarrow> rdb_children r \<noteq> Panic"
  by (auto simp: rdb_children_def panic_free rdb_search_not_Panic rdb_partitions_not_Panic)

interpretation rdb: partition_table rdb_children
  by (rule pushed_partition_table [OF rdb_children_not_Panic]) (auto dest: rdb_children_ok)

lemma apm_round_ok:
  "apm_round r bs i cs = Ok (Continue cs') \<Longrightarrow> cs' = cs \<or> (\<exists>s n. cs' = push_slice r cs s n)"
  "apm_round r bs i cs = Ok (Break cs') \<Longrightarrow> cs' = cs"
  by (auto simp: apm_round_def Let_def ok_iff split: if_splits)

lemma apm_rounds_ok:
  assumes "for_break (apm_round r bs) xs [] = Ok cs"
  shows "pushed r cs \<and> length cs \<le> length xs"
proof
  show "pushed r cs"
    by (rule for_break_inv [OF assms]) (auto simp: pushed_def dest!: apm_round_ok)
  show "length cs \<le> length xs"
    using for_break_growth [OF assms, of length] apm_round_ok by fastforce
qed

lemma apm_children_ok: "apm_children r = Ok cs \<Longrightarrow> pushed r cs \<and> length cs \<le> 64"
  using apm_rounds_ok by (fastforce simp: apm_children_def Let_def ok_iff split: if_splits)

lemma apm_children_not_Panic: "safe_reader r \<Longrightarrow> apm_children r \<noteq> Panic"
  by (auto simp: apm_children_def apm_round_def Let_def panic_free intro!: for_break_not_Panic
      split: if_splits)

interpretation apm: partition_table apm_children
  by (rule pushed_partition_table [OF apm_children_not_Panic]) (auto dest: apm_children_ok)

section \<open>The Atari disk\<close>

text \<open>
  The partitions lie inside the disk size of the root sector. The size \<open>0xFFFFFFFF\<close> is
  excluded: against it the saturated sum of \<open>is_valid_partition\<close> never exceeds the limit.
\<close>

definition inside_disk :: "reader \<Rightarrow> u32 \<Rightarrow> child \<Rightarrow> bool" where
  "inside_disk r hd_siz c \<longleftrightarrow>
     window_of r c \<and> (hd_siz \<noteq> - 1 \<longrightarrow> child_within c 512 (512 * unat hd_siz))"

definition atari_ok :: "reader \<Rightarrow> u32 \<Rightarrow> nat \<Rightarrow> child list \<times> u32 \<Rightarrow> bool" where
  "atari_ok r hd_siz k = (\<lambda>(cs, idx).
     counted cs idx \<and> unat idx \<le> k \<and> (\<forall>c\<in>set cs. inside_disk r hd_siz c))"

lemma index_step: "unat (idx :: u32) < 2 ^ 32 - 1 \<Longrightarrow> unat (idx + 1) = unat idx + 1 \<and> idx < idx + 1"
  by (simp add: unat_add_exact word_less_nat_alt)

lemma atari_ok_push:
  assumes "atari_ok r hsz k (cs, idx)" "k < 2 ^ 32 - 1" "inside_disk r hsz c" "index c = idx"
  shows "atari_ok r hsz (Suc k) (cs @ [c], idx + 1)"
  using assms index_step [of idx] by (auto simp: atari_ok_def intro: counted_push)

lemma atari_ok_skip:
  assumes "atari_ok r hsz k (cs, idx)" "k < 2 ^ 32 - 1"
  shows "atari_ok r hsz (Suc k) (cs, idx + 1)"
  using assms index_step [of idx] by (auto simp: atari_ok_def intro: counted_skip)

lemma atari_ok_mono: "atari_ok r hsz k s \<Longrightarrow> k \<le> k' \<Longrightarrow> atari_ok r hsz k' s"
  by (auto simp: atari_ok_def)

lemma add_partition_ok:
  assumes "atari_ok r hsz k (cs, idx)" "k < 2 ^ 32 - 1" "is_valid_partition e hsz"
  shows "atari_ok r hsz (Suc k) (add_partition r e cs idx, idx + 1)"
proof (cases "start_sector e = 0 \<or> part_sectors e = 0")
  case True
  with assms show ?thesis by (auto simp: add_partition_def intro: atari_ok_skip)
next
  case False
  let ?c = "slice_child r idx (ucast (start_sector e) * 512) (ucast (part_sectors e) * 512)"
  have "saturating_add (start_sector e) (part_sectors e) \<le> hsz"
    using assms(3) by (auto simp: is_valid_partition_def split: if_splits)
  then have "hsz \<noteq> - 1 \<Longrightarrow> unat (start_sector e) + unat (part_sectors e) \<le> unat hsz"
    by (rule saturating_add_le)
  moreover have "unat (start_sector e) > 0"
    using False by (simp add: unat_gt_0)
  ultimately have "inside_disk r hsz ?c"
    by (auto simp: inside_disk_def sector_bound)
  with False assms(1,2) show ?thesis by (auto simp: add_partition_def intro: atari_ok_push)
qed

lemma xgm_child_ok:
  assumes "atari_ok r hsz k s" "k < 2 ^ 32 - 1" "unat cur < 2 ^ 32"
  shows "atari_ok r hsz (Suc k) (xgm_child r hsz cur e s)"
proof -
  obtain cs idx where s: "s = (cs, idx)" by fastforce
  let ?a = "ucast (start_sector e) :: u64" and ?n = "ucast (part_sectors e) :: u64"
  have bounds: "unat ?a < 2 ^ 32" "unat ?n < 2 ^ 32"
    using unat_u32_less [of "start_sector e"] unat_u32_less [of "part_sectors e"] by simp_all
  have abs: "unat (cur + ?a) = unat cur + unat ?a"
    using assms(3) bounds by (intro unat_add_exact) simp
  have tot: "unat (cur + ?a + ?n) = unat cur + unat ?a + unat ?n"
    using assms(3) bounds abs by (subst unat_add_exact) simp_all
  show ?thesis
  proof (cases "start_sector e > 0 \<and> cur + ?a + ?n \<le> ucast hsz")
    case True
    then have "unat cur + unat ?a + unat ?n \<le> unat hsz" and pos: "unat ?a > 0"
      using tot by (simp_all add: word_le_nat_alt word_less_nat_alt)
    moreover have "unat ((cur + ?a) * 512) = (unat cur + unat ?a) * 512"
      using assms(3) bounds abs by (subst unat_mult_exact) simp_all
    ultimately have "inside_disk r hsz (slice_child r idx ((cur + ?a) * 512) (?n * 512))"
      by (auto simp: inside_disk_def sector_bound)
    then have "atari_ok r hsz (Suc k) (cs @ [slice_child r idx ((cur + ?a) * 512) (?n * 512)], idx + 1)"
      using assms(1,2) s by (auto intro: atari_ok_push)
    then show ?thesis
      using assms(1) s by (auto simp: xgm_child_def Let_def intro: atari_ok_mono)
  next
    case False
    then show ?thesis
      using assms(1) s by (auto simp: xgm_child_def Let_def intro: atari_ok_mono)
  qed
qed

lemma xgm_loop_ok:
  assumes "xgm_loop n r ext hsz cur s = Ok t"
    and "atari_ok r hsz k s" "k + n < 2 ^ 32" "unat cur < 2 ^ 32"
  shows "atari_ok r hsz (k + n) t"
  using assms
proof (induction n arbitrary: cur s k)
  case 0
  then show ?case by simp
next
  case (Suc n)
  obtain e0 e1 where reads: "read_partition_entry r (cur * 512 + 0x1c6) = Ok e0"
      "read_partition_entry r (cur * 512 + 0x1c6 + 12) = Ok e1"
    using Suc.prems(1) by (auto simp: Let_def ok_iff)
  let ?s = "xgm_child r hsz cur e0 s" and ?next = "ext + ucast (start_sector e1)"
  have s: "atari_ok r hsz (Suc k) ?s"
    using Suc.prems by (intro xgm_child_ok) simp_all
  show ?case
  proof (cases "t = ?s")
    case True
    with s Suc.prems(3) show ?thesis by (auto intro: atari_ok_mono)
  next
    case False
    then have rest: "xgm_loop n r ext hsz ?next ?s = Ok t" and lt: "?next < ucast hsz"
      using Suc.prems(1) reads by (auto simp: Let_def split: if_splits)
    have "unat ?next < 2 ^ 32"
      using lt unat_u32_less [of hsz] by (simp add: word_less_nat_alt)
    then have "atari_ok r hsz (Suc k + n) t"
      using Suc.IH [OF rest s] Suc.prems(3) by simp
    then show ?thesis by simp
  qed
qed

lemma atari_primary_ok:
  assumes "atari_primary r hsz i (s, x) = Ok (t, x')" and "atari_ok r hsz k s" "k + 256 < 2 ^ 32"
  shows "atari_ok r hsz (k + 256) t"
proof -
  obtain cs idx e where s: "s = (cs, idx)"
    and e: "read_partition_entry r (0x1c6 + word_of_nat i * 12) = Ok e"
    using assms(1) by (cases s) (auto simp: atari_primary_def ok_iff)
  consider "t = s" | "parse_xgm_chain r (start_sector e) hsz s = Ok t"
    | "is_valid_partition e hsz" "t = (add_partition r e cs idx, idx + 1)"
    using assms(1) e by (auto simp: atari_primary_def s ok_iff split: if_splits)
  then show ?thesis
  proof cases
    case 1
    with assms(2) show ?thesis by (auto intro: atari_ok_mono)
  next
    case 2
    then have "xgm_loop 256 r (ucast (start_sector e)) hsz (ucast (start_sector e)) s = Ok t"
      by (simp add: parse_xgm_chain_def)
    from xgm_loop_ok [OF this assms(2,3)] show ?thesis
      using unat_u32_less [of "start_sector e"] by simp
  next
    case 3
    then have "atari_ok r hsz (Suc k) t"
      using assms(2,3) s by (auto intro: add_partition_ok)
    then show ?thesis by (rule atari_ok_mono) simp
  qed
qed

lemma icd_round_ok:
  assumes "icd_round r hsz i s = Ok t" and "atari_ok r hsz k s" "k < 2 ^ 32 - 1"
  shows "atari_ok r hsz (Suc k) t"
  using assms
  by (auto simp: icd_round_def ok_iff split: if_splits prod.splits intro: add_partition_ok atari_ok_mono)

lemma parse_icd_ok:
  assumes "parse_icd_partitions r hsz s = Ok t" and "atari_ok r hsz 1024 s"
  shows "atari_ok r hsz 1032 t"
proof (cases "t = s")
  case True
  with assms(2) show ?thesis by (auto intro: atari_ok_mono)
next
  case False
  then have loop: "for_each (icd_round r hsz) [0..<8] s = Ok t"
    using assms(1) by (auto simp: parse_icd_partitions_def ok_iff split: if_splits)
  have "atari_ok r hsz (1024 + 1 * length [0..<8]) t"
  proof (rule for_each_count [OF loop, of "atari_ok r hsz"])
    show "atari_ok r hsz (1024 + 1 * Suc j) v"
      if "j < length [0..<8]" "atari_ok r hsz (1024 + 1 * j) u" "icd_round r hsz i u = Ok v" for i u v j
      using icd_round_ok [OF that(3,2)] that(1) by simp
  qed (rule assms(2))
  then show ?thesis by simp
qed

lemma atari_children_ok:
  assumes "atari_children r = Ok cs"
  obtains hsz idx where "read_be32 r 0x1c2 = Ok hsz" "atari_ok r hsz 1032 (cs, idx)"
proof -
  obtain hsz s x where hsz: "read_be32 r 0x1c2 = Ok hsz"
    and loop: "for_each (atari_primary r hsz) [0..<4] (([], 0), False) = Ok (s, x)"
    and rest: "(if x then Ok (fst s) else and_then (parse_icd_partitions r hsz s) (\<lambda>t. Ok (fst t))) = Ok cs"
    using assms by (auto simp: atari_children_def ok_iff)
  have "atari_ok r hsz (0 + 256 * length [0..<4]) (fst (s, x))"
  proof (rule for_each_count [OF loop, of "\<lambda>k u. atari_ok r hsz k (fst u)"])
    show "atari_ok r hsz 0 (fst (([], 0), False))" by (simp add: atari_ok_def)
    show "atari_ok r hsz (0 + 256 * Suc j) (fst v)"
      if "j < length [0..<4]" "atari_ok r hsz (0 + 256 * j) (fst u)" "atari_primary r hsz i u = Ok v" for i u v j
      using atari_primary_ok [of r hsz i "fst u" "snd u" "fst v" "snd v" "256 * j"] that
      by (simp add: ac_simps)
  qed
  then have s: "atari_ok r hsz 1024 s" by simp
  show thesis
  proof (cases x)
    case True
    with rest s have "atari_ok r hsz 1032 (cs, snd s)" by (auto intro: atari_ok_mono)
    with hsz that show thesis by blast
  next
    case False
    then obtain t where "parse_icd_partitions r hsz s = Ok t" "cs = fst t"
      using rest by (auto simp: ok_iff)
    with s parse_icd_ok have "atari_ok r hsz 1032 (cs, snd t)" by fastforce
    with hsz that show thesis by blast
  qed
qed

lemma read_partition_entry_not_Panic: "safe_reader r \<Longrightarrow> read_partition_entry r off \<noteq> Panic"
  by (simp add: read_partition_entry_def panic_free)

lemma xgm_loop_not_Panic: "safe_reader r \<Longrightarrow> xgm_loop n r ext hsz cur s \<noteq> Panic"
  by (induction n arbitrary: cur s) (auto simp: Let_def panic_free read_partition_entry_not_Panic)

lemma atari_children_not_Panic: "safe_reader r \<Longrightarrow> atari_children r \<noteq> Panic"
  by (auto simp: atari_children_def atari_primary_def parse_icd_partitions_def icd_round_def
      parse_xgm_chain_def xgm_loop_not_Panic read_partition_entry_not_Panic panic_free
      intro!: for_each_not_Panic split: if_splits prod.splits)

interpretation atari: partition_table atari_children
proof (rule partition_table.intro)
  show "atari_children r \<noteq> Panic" if "safe_reader r" for r
    using that by (rule atari_children_not_Panic)
  show "window_of r c" if "atari_children r = Ok cs" "c \<in> set cs" for r cs c
    using that by (elim atari_children_ok) (auto simp: atari_ok_def inside_disk_def)
  show "distinct (map index cs)" if "atari_children r = Ok cs" for r cs
    using that by (elim atari_children_ok) (auto simp: atari_ok_def intro: counted_distinct)
qed

section \<open>Properties\<close>

text \<open>
  C16. The partitions of an Atari disk, primary, in an XGM chain or in the ICD table, have
  different numbers and lie behind the root sector and inside the disk size it states. The
  one size this does not hold for is \<open>0xFFFFFFFF\<close>, where the check saturates at the limit.
\<close>

theorem atari_partitions:
  assumes "atari_children r = Ok cs"
  shows "\<exists>hd_siz. read_be32 r 0x1c2 = Ok hd_siz \<and> distinct (map index cs) \<and>
    (\<forall>c\<in>set cs. window_of r c \<and> (hd_siz \<noteq> 0xFFFFFFFF \<longrightarrow> child_within c 512 (512 * unat hd_siz)))"
proof -
  obtain hsz idx where "read_be32 r 0x1c2 = Ok hsz" and ok: "atari_ok r hsz 1032 (cs, idx)"
    using assms by (rule atari_children_ok)
  moreover have "(0xFFFFFFFF :: u32) = - 1" by simp
  ultimately show ?thesis
    by (auto simp: atari_ok_def inside_disk_def intro: counted_distinct)
qed

definition atari_disk :: bytes where
  "atari_disk = image_of 2048 (\<lambda>i.
     if i = 0x1c5 then 4 else if i = 0x1c6 then 1
     else if 0x1c7 \<le> i \<and> i < 0x1ca then ascii ''GEM'' ! (i - 0x1c7)
     else if i = 0x1cd then 2 else if i = 0x1d1 then 1 else 0)"

lemma atari_disk_children:
  "atari_children (bytes_reader atari_disk) = Ok [slice_child (bytes_reader atari_disk) 0 1024 512]"
  by (simp add: atari_children_def atari_primary_def parse_icd_partitions_def read_partition_entry_def
      is_valid_partition_def is_ascii_alphanumeric_def saturating_add_def add_partition_def read_defs
      bytes.read_exactly_eq atari_disk_def take_drop_image_of upt_rec from_be_def Let_def)

theorem atari_partitions_witness:
  "\<exists>hd_siz. read_be32 (bytes_reader atari_disk) 0x1c2 = Ok hd_siz \<and>
    (hd_siz \<noteq> 0xFFFFFFFF \<longrightarrow> child_within (slice_child (bytes_reader atari_disk) 0 1024 512) 512 (512 * unat hd_siz))"
  using atari_partitions [OF atari_disk_children] by auto

end
