(* ===== verification/Pt_Text.thy ===== *)
theory Pt_Text
  imports Tables Utf8
begin

text \<open>
  The textual table of Plan 9 (\<^verbatim>\<open>container/pt/plan9.rs\<close>) and the EBCDIC labels of IBM
  DASD volumes (\<^verbatim>\<open>container/pt/dasd.rs\<close>).
\<close>

section \<open>Plan 9\<close>

definition parse_sector :: "nat list \<Rightarrow> u64 io" where
  "parse_sector v = ok_or (parse_u64 v) InvalidData"

definition plan9_line :: "reader \<Rightarrow> nat list \<Rightarrow> child list \<Rightarrow> child list io" where
  "plan9_line reader line children =
     (if length children = 32 then Err InvalidData
      else let fields = split_whitespace line in
        if length fields \<noteq> 4 \<or> fields ! 0 \<noteq> code_points ''part'' then Err InvalidData
        else
          and_then (parse_sector (fields ! 2)) (\<lambda>start_sector.
          and_then (parse_sector (fields ! 3)) (\<lambda>end_sector.
          if start_sector \<ge> end_sector then Err InvalidData
          else
            and_then (ok_or (checked_mul start_sector 512) InvalidData) (\<lambda>start.
            and_then (ok_or (checked_mul end_sector 512) InvalidData) (\<lambda>end.
            if (case rsize reader of Some sz \<Rightarrow> end > sz | None \<Rightarrow> False) then Err InvalidData
            else Ok (push_slice reader children start (end - start)))))))"

definition plan9_children :: container where
  "plan9_children reader =
     and_then (read_exactly reader 512 512) (\<lambda>table.
     and_then (ok_or (utf8_decode (takeWhile (\<lambda>b. b \<noteq> 0) table)) InvalidData) (\<lambda>text.
     and_then (for_each (plan9_line reader) (filter (\<lambda>line. trim line \<noteq> []) (str_lines text)) [])
       (\<lambda>children. if children = [] then Err InvalidData else Ok children)))"

section \<open>IBM DASD\<close>

definition parse_vol1 :: "child list io" where
  "parse_vol1 = Ok []"

definition parse_lnx1 :: "reader \<Rightarrow> u64 \<Rightarrow> u64 \<Rightarrow> child list io" where
  "parse_lnx1 reader label_offset label_sector =
     and_then (read_u8 reader (label_offset + 0x0A)) (\<lambda>version.
     and_then (if version = 0xF2 then read_be64 reader (label_offset + 0x0B) else Ok 0) (\<lambda>size_sectors.
     if size_sectors = 0 then Ok []
     else let start = (label_sector + 1) * 512; len = size_sectors * 512 - start
          in Ok [slice_child reader 0 start len]))"

definition parse_cms1 :: "reader \<Rightarrow> u64 \<Rightarrow> u64 \<Rightarrow> child list io" where
  "parse_cms1 reader label_offset label_sector =
     and_then (read_be32 reader (label_offset + 0x0C)) (\<lambda>block_size.
     and_then (read_be32 reader (label_offset + 0x10)) (\<lambda>disk_offset.
     and_then (read_be32 reader (label_offset + 0x14)) (\<lambda>block_count.
     if block_size = 0 \<or> block_count = 0 then Ok []
     else let secperblk = block_size div 512;
              (start, len) =
                (if disk_offset \<noteq> 0 then
                   (ucast disk_offset * ucast secperblk * 512 :: u64,
                    ucast (block_count - 1) * ucast secperblk * 512)
                 else let start = (if label_sector = 1 then 2 * ucast secperblk * 512
                                   else (label_sector + ucast secperblk) * 512)
                      in (start, ucast block_count * ucast secperblk * 512 - start))
          in Ok [slice_child reader 0 start len])))"

definition dasd_label :: "reader \<Rightarrow> u64 \<Rightarrow> child list option \<Rightarrow> child list option flow io" where
  "dasd_label reader label_sector _ =
     (let label_offset = label_sector * 512 in
      and_then (read_be32 reader label_offset) (\<lambda>magic.
      if magic = 0xE5D6D3F1 then and_then parse_vol1 (\<lambda>cs. Ok (Break (Some cs)))
      else if magic = 0xD3D5E7F1 then
        and_then (parse_lnx1 reader label_offset label_sector) (\<lambda>cs. Ok (Break (Some cs)))
      else if magic = 0xC3D4E2F1 then
        and_then (parse_cms1 reader label_offset label_sector) (\<lambda>cs. Ok (Break (Some cs)))
      else Ok (Continue None)))"

definition dasd_children :: container where
  "dasd_children reader =
     and_then (for_break (dasd_label reader) [1, 2] None) (\<lambda>found. ok_or found InvalidData)"

section \<open>Contracts\<close>

lemma plan9_line_ok:
  assumes "plan9_line r line cs = Ok cs'"
  obtains s n where "cs' = push_slice r cs s n" "length cs \<noteq> 32" "0 < unat n"
    "\<And>sz. rsize r = Some sz \<Longrightarrow> unat s + unat n \<le> unat sz"
proof -
  from assms obtain a b start "end" where
    ab: "a < b" and s: "checked_mul a 512 = Some start" and e: "checked_mul b 512 = Some end"
    and fits: "\<not> (case rsize r of Some sz \<Rightarrow> end > sz | None \<Rightarrow> False)"
    and cs': "cs' = push_slice r cs start (end - start)" and room: "length cs \<noteq> 32"
    by (auto simp: plan9_line_def Let_def ok_iff not_le split: if_splits)
  have lt: "unat start < unat end"
    using ab checked_mul_Some [OF s] checked_mul_Some [OF e] by (simp add: word_less_nat_alt)
  then have len: "unat (end - start) = unat end - unat start"
    by (simp add: unat_sub word_le_nat_alt)
  show thesis
  proof (rule that [OF cs' room])
    show "0 < unat (end - start)" using lt len by simp
    show "unat start + unat (end - start) \<le> unat sz" if "rsize r = Some sz" for sz
      using fits that lt len by (simp add: word_less_nat_alt)
  qed
qed

definition plan9_ok :: "reader \<Rightarrow> child list \<Rightarrow> bool" where
  "plan9_ok r cs \<longleftrightarrow> pushed r cs \<and> length cs \<le> 32 \<and>
     (\<forall>sz c. rsize r = Some sz \<longrightarrow> c \<in> set cs \<longrightarrow> child_within c 0 (unat sz))"

lemma plan9_children_ok: "plan9_children r = Ok cs \<Longrightarrow> plan9_ok r cs \<and> cs \<noteq> []"
proof -
  assume "plan9_children r = Ok cs"
  then obtain ls where loop: "for_each (plan9_line r) ls [] = Ok cs" and "cs \<noteq> []"
    by (auto simp: plan9_children_def ok_iff split: if_splits)
  have step: "plan9_ok r v" if u: "plan9_ok r u" and v: "plan9_line r x u = Ok v" for x u v
    by (rule plan9_line_ok [OF v]) (use u in \<open>auto simp: plan9_ok_def\<close>)
  have "plan9_ok r []" by (simp add: plan9_ok_def)
  with loop have "plan9_ok r cs" by (rule for_each_inv) (rule step)
  with \<open>cs \<noteq> []\<close> show ?thesis by simp
qed

lemma plan9_children_not_Panic: "safe_reader r \<Longrightarrow> plan9_children r \<noteq> Panic"
  by (auto simp: plan9_children_def plan9_line_def parse_sector_def Let_def panic_free
      intro!: for_each_not_Panic split: if_splits)

interpretation plan9: partition_table plan9_children
  by (rule pushed_partition_table [OF plan9_children_not_Panic])
    (auto dest!: plan9_children_ok simp: plan9_ok_def)

text \<open>A DASD volume has at most one partition.\<close>

definition single :: "reader \<Rightarrow> child list \<Rightarrow> bool" where
  "single r cs \<longleftrightarrow> cs = [] \<or> (\<exists>s n. cs = [slice_child r 0 s n])"

lemma label_single:
  "parse_lnx1 r off l = Ok cs \<Longrightarrow> single r cs" "parse_cms1 r off l = Ok cs \<Longrightarrow> single r cs"
  by (auto simp: parse_lnx1_def parse_cms1_def single_def Let_def ok_iff split: if_splits)

lemma dasd_label_single:
  "dasd_label r l u = Ok (Continue v) \<Longrightarrow> v = None"
  "dasd_label r l u = Ok (Break v) \<Longrightarrow> pred_option (single r) v"
  by (auto simp: dasd_label_def parse_vol1_def Let_def ok_iff split: if_splits dest: label_single)
    (simp add: single_def)

lemma dasd_children_ok:
  assumes "dasd_children r = Ok cs"
  shows "single r cs"
proof -
  have "for_break (dasd_label r) [1, 2] None = Ok (Some cs)"
    using assms by (auto simp: dasd_children_def ok_iff)
  then have "pred_option (single r) (Some cs)"
    by (rule for_break_inv) (auto dest: dasd_label_single)
  then show ?thesis by simp
qed

lemma dasd_label_not_Panic: "safe_reader r \<Longrightarrow> dasd_label r l u \<noteq> Panic"
  by (auto simp: dasd_label_def parse_vol1_def parse_lnx1_def parse_cms1_def Let_def
      panic_free split: if_splits)

lemma dasd_children_not_Panic:
  assumes "safe_reader r" shows "dasd_children r \<noteq> Panic"
proof -
  have "for_break (dasd_label r) [1, 2] None \<noteq> Panic"
    by (rule for_break_not_Panic) (rule dasd_label_not_Panic [OF assms])
  then show ?thesis by (simp add: dasd_children_def and_then_Panic_iff)
qed

interpretation dasd: partition_table dasd_children
  by (rule pushed_partition_table [OF dasd_children_not_Panic])
    (auto dest!: dasd_children_ok simp: single_def pushed_def numbered_def)

section \<open>Properties\<close>

text \<open>
  A sector number of a Plan 9 table is read exactly: what is accepted is a nonempty
  run of decimal digits, with at most one plus sign in front, of a value below \<open>2 ^ 64\<close>, and the
  result is that value; anything else is an error, never a truncated number.
\<close>

theorem plan9_sector_numbers:
  "parse_sector v =
     (let ds = (case v of c # cs \<Rightarrow> if c = 43 then cs else v | [] \<Rightarrow> [])
      in if ds \<noteq> [] \<and> list_all is_digit ds \<and> decimal ds < 2 ^ 64 then Ok (word_of_nat (decimal ds))
         else Err InvalidData)"
  by (simp add: parse_sector_def parse_u64_exact Let_def)

text \<open>
  A Plan 9 table that is accepted has between one and 32 partitions, numbered in the
  order of their lines; each is a nonempty window, and inside an image of known size.
\<close>

theorem plan9_partitions:
  assumes "plan9_children r = Ok cs"
  shows "0 < length cs \<and> length cs \<le> 32 \<and> map index cs = map word_of_nat [0..<length cs] \<and>
    (\<forall>c\<in>set cs. window_of r c \<and> (\<forall>sz. rsize r = Some sz \<longrightarrow> child_within c 0 (unat sz)))"
  using plan9_children_ok [OF assms] by (auto simp: plan9_ok_def pushed_def numbered_def)

definition plan9_disk :: bytes where
  "plan9_disk = replicate 512 0 @ ascii ''part a 2 3'' @ [10] @ ascii ''part b 1 +2'' @ replicate 2000 0"

lemma plan9_disk_children:
  "plan9_children (bytes_reader plan9_disk) =
     Ok [slice_child (bytes_reader plan9_disk) 0 1024 512, slice_child (bytes_reader plan9_disk) 1 512 512]"
proof -
  have "take 512 (drop 512 plan9_disk) = ascii ''part a 2 3'' @ [10] @ ascii ''part b 1 +2'' @ replicate 490 0"
    by (simp add: plan9_disk_def)
  moreover have len: "length plan9_disk = 2534" by (simp add: plan9_disk_def)
  ultimately have table: "read_exactly (bytes_reader plan9_disk) 512 512 =
      Ok (ascii ''part a 2 3'' @ [10] @ ascii ''part b 1 +2'' @ replicate 490 0)"
    by (simp add: bytes.read_exactly_eq)
  show ?thesis
    unfolding plan9_children_def table
    by (simp add: plan9_line_def parse_sector_def parse_u64_def parse_digit_def code_points_def str_lines_def
        strip_ending_def trim_def is_whitespace_def split_whitespace_def checked_mul_def checked_add_def
        rsize_bytes_reader len push_slice_def word_le_nat_alt Let_def)
qed

theorem plan9_partitions_witness:
  "map index [slice_child (bytes_reader plan9_disk) 0 1024 512, slice_child (bytes_reader plan9_disk) 1 512 512] = [0, 1] \<and>
   child_within (slice_child (bytes_reader plan9_disk) 0 1024 512) 0 2534"
  using plan9_partitions [OF plan9_disk_children] by (simp add: rsize_bytes_reader plan9_disk_def)

end
