(* ===== verification/Pt_Aix.thy ===== *)
theory Pt_Aix
  imports Tables
begin

text \<open>
  The AIX logical volume manager (\<^verbatim>\<open>container/pt/aix.rs\<close>): a scan over the physical
  partition entries of a disk that finds the logical volumes laid out contiguously.
\<close>

section \<open>The scan\<close>

definition MAX_LVS :: nat where
  "MAX_LVS = 256"

text \<open>The tuple of \<^verbatim>\<open>lv_state\<close>, and the local variables of the loop.\<close>

record lv =
  first_pp :: "nat option"
  lps_found :: u16
  is_contiguous :: bool

record scan =
  lv_state :: "lv list"
  cur_lv_ix :: "nat option"
  next_lp_ix :: u16

definition scan_start :: scan where
  "scan_start =
     \<lparr>lv_state = replicate MAX_LVS \<lparr>first_pp = None, lps_found = 0, is_contiguous = True\<rparr>,
      cur_lv_ix = None, next_lp_ix = 1\<rparr>"

definition update_lv :: "nat \<Rightarrow> (lv \<Rightarrow> lv) \<Rightarrow> scan \<Rightarrow> scan" where
  "update_lv j f s = s\<lparr>lv_state := (lv_state s)[j := f (lv_state s ! j)]\<rparr>"

text \<open>The loop body for entry \<open>i\<close>, which names logical partition \<open>lp_ix\<close> of volume \<open>lv_ix\<close>.\<close>

definition scan_step :: "nat \<Rightarrow> u16 \<Rightarrow> u16 \<Rightarrow> scan \<Rightarrow> scan" where
  "scan_step i lv_ix lp_ix s =
     (if lp_ix = 0 then s\<lparr>cur_lv_ix := None, next_lp_ix := 1\<rparr>
      else let lv_idx = unat lv_ix - 1 in
        if lv_idx \<ge> MAX_LVS then s\<lparr>cur_lv_ix := None\<rparr>
        else let s1 = update_lv lv_idx (\<lambda>l. l\<lparr>lps_found := lps_found l + 1\<rparr>) s in
          if lp_ix = 1 then
            (update_lv lv_idx (\<lambda>l. l\<lparr>first_pp := Some i\<rparr>) s1)\<lparr>cur_lv_ix := Some lv_idx, next_lp_ix := 2\<rparr>
          else if Some lv_idx = cur_lv_ix s1 \<and> lp_ix = next_lp_ix s1 then
            s1\<lparr>next_lp_ix := next_lp_ix s1 + 1\<rparr>
          else
            (update_lv lv_idx (\<lambda>l. l\<lparr>is_contiguous := False\<rparr>) s1)\<lparr>cur_lv_ix := None, next_lp_ix := 1\<rparr>)"

definition read_ppe :: "reader \<Rightarrow> u64 \<Rightarrow> nat \<Rightarrow> (u16 \<times> u16) io" where
  "read_ppe reader ppe_base i =
     (let ppe_offset = ppe_base + word_of_nat (i * 32) in
      and_then (read_be16 reader ppe_offset) (\<lambda>lv_ix.
      and_then (read_be16 reader (ppe_offset + 6)) (\<lambda>lp_ix.
      Ok (lv_ix, lp_ix))))"

definition scan_round :: "reader \<Rightarrow> u64 \<Rightarrow> nat \<Rightarrow> scan \<Rightarrow> scan io" where
  "scan_round reader ppe_base i s =
     and_then (read_ppe reader ppe_base i) (\<lambda>(lv_ix, lp_ix). Ok (scan_step i lv_ix lp_ix s))"

definition aix_entry ::
  "scan \<Rightarrow> u16 list \<Rightarrow> u64 \<Rightarrow> u64 \<Rightarrow> u64 \<Rightarrow> reader \<Rightarrow> nat \<Rightarrow> child option io" where
  "aix_entry s lv_num_lps psn_part1 pp_blocks pp_bytes reader lv_idx =
     Ok (let l = lv_state s ! lv_idx in
         case first_pp l of
           None \<Rightarrow> None
         | Some first \<Rightarrow>
             if \<not> is_contiguous l \<or> lps_found l = 0 then None
             else if lps_found l \<noteq> lv_num_lps ! lv_idx then None
             else let start_sector = psn_part1 + word_of_nat first * pp_blocks
                  in Some (slice_child reader (word_of_nat lv_idx) (start_sector * 512)
                       (ucast (lps_found l) * pp_bytes)))"

text \<open>The descriptors past \<^verbatim>\<open>numlvs\<close> keep the zero they were allocated with.\<close>

definition aix_children :: container where
  "aix_children reader =
     (let lvm_offset = 7 * 512 in
      and_then (read_exactly reader lvm_offset 4) (\<lambda>magic.
      if magic \<noteq> ascii ''_LVM'' then Err InvalidData
      else
        and_then (read_be16 reader (lvm_offset + 0x2E)) (\<lambda>pp_size_log2.
        and_then (read_be32 reader (lvm_offset + 0x1C)) (\<lambda>vgda.
        let vgda_sector = ucast vgda :: u64 in
        if vgda_sector = 0 \<or> pp_size_log2 > 30 then Ok []
        else let pp_bytes = push_bit (unat pp_size_log2) 1 :: u64;
                 pp_blocks = pp_bytes div 512;
                 vgda_offset = vgda_sector * 512
        in and_then (read_be16 reader (vgda_offset + 0x18)) (\<lambda>n.
        let numlvs = unat n in
        if numlvs = 0 \<or> numlvs > MAX_LVS then Ok []
        else let lvd_offset = (vgda_sector + 1) * 512 in
        and_then (traverse (\<lambda>i. read_be16 reader (lvd_offset + word_of_nat (i * 32) + 0x0E)) [0..<numlvs]) (\<lambda>lps.
        let lv_num_lps = lps @ replicate (MAX_LVS - numlvs) 0;
            pvd_offset = (vgda_sector + 17) * 512
        in and_then (read_be16 reader (pvd_offset + 0x10)) (\<lambda>pp_count.
        and_then (read_be32 reader (pvd_offset + 0x14)) (\<lambda>psn_part1.
        and_then (for_each (scan_round reader (pvd_offset + 0x20)) [0..<min (unat pp_count) 1016] scan_start) (\<lambda>s.
        collect (aix_entry s lv_num_lps (ucast psn_part1) pp_blocks pp_bytes reader) [0..<MAX_LVS])))))))))"

section \<open>The contract\<close>

interpretation aix_rows: entry_table "aix_entry s nums psn blocks bytes" for s nums psn blocks bytes
  by unfold_locales (auto simp: aix_entry_def Let_def split: option.splits if_splits)

lemma read_ppe_not_Panic: "safe_reader r \<Longrightarrow> read_ppe r b i \<noteq> Panic"
  by (simp add: read_ppe_def Let_def panic_free)

lemma scan_round_not_Panic: "safe_reader r \<Longrightarrow> scan_round r b i s \<noteq> Panic"
  by (auto simp: scan_round_def read_ppe_not_Panic panic_free)

lemma aix_children_not_Panic:
  assumes "safe_reader r" shows "aix_children r \<noteq> Panic"
proof -
  have "for_each (scan_round r b) xs s \<noteq> Panic" for b xs s
    using scan_round_not_Panic [OF assms] by (rule for_each_not_Panic)
  moreover have "traverse (\<lambda>i. read_be16 r (f i)) xs \<noteq> Panic" for f and xs :: "nat list"
    using assms by (intro traverse_not_Panic) (simp add: panic_free)
  ultimately show ?thesis
    using assms aix_rows.rows_no_panic
    by (auto simp: aix_children_def Let_def panic_free split: if_splits)
qed

lemma aix_children_rows:
  assumes "aix_children r = Ok cs"
  shows "cs = [] \<or> (\<exists>s nums psn blocks bytes.
    collect (aix_entry s nums psn blocks bytes r) [0..<MAX_LVS] = Ok cs)"
  using assms by (auto simp: aix_children_def Let_def ok_iff split: if_splits)

interpretation aix: partition_table aix_children
proof (rule partition_table.intro)
  show "aix_children r \<noteq> Panic" if "safe_reader r" for r
    using that by (rule aix_children_not_Panic)
  show "window_of r c" if "aix_children r = Ok cs" "c \<in> set cs" for r cs c
    using aix_children_rows [OF that(1)] that(2) aix_rows.rows_windows by fastforce
  show "distinct (map index cs)" if "aix_children r = Ok cs" for r cs
    using aix_children_rows [OF that] aix_rows.rows_distinct [of _ _ _ _ _ r MAX_LVS]
    by (auto simp: MAX_LVS_def)
qed

section \<open>What the scan finds\<close>

text \<open>The entries of volume \<open>j\<close>, and the scan as a function of the list of all entries.\<close>

definition of_volume :: "nat \<Rightarrow> u16 \<times> u16 \<Rightarrow> bool" where
  "of_volume j = (\<lambda>(lv_ix, lp_ix). lp_ix \<noteq> 0 \<and> unat lv_ix - 1 = j)"

definition occupied :: "(u16 \<times> u16) list \<Rightarrow> nat \<Rightarrow> nat set" where
  "occupied ppes j = {i. i < length ppes \<and> of_volume j (ppes ! i)}"

definition scan_all :: "(u16 \<times> u16) list \<Rightarrow> scan" where
  "scan_all ppes = fold (\<lambda>(i, lv_ix, lp_ix). scan_step i lv_ix lp_ix) (List.enumerate 0 ppes) scan_start"

text \<open>No volume has its first partition twice.\<close>

definition starts_once :: "(u16 \<times> u16) list \<Rightarrow> bool" where
  "starts_once ppes \<longleftrightarrow> (\<forall>i<length ppes. \<forall>k<length ppes.
     snd (ppes ! i) = 1 \<longrightarrow> snd (ppes ! k) = 1 \<longrightarrow>
     unat (fst (ppes ! i)) - 1 = unat (fst (ppes ! k)) - 1 \<longrightarrow> i = k)"

text \<open>Volume \<open>j\<close> is one run of entries from \<open>f\<close> on, its partitions numbered from 1.\<close>

definition run_at :: "(u16 \<times> u16) list \<Rightarrow> nat \<Rightarrow> nat \<Rightarrow> nat \<Rightarrow> bool" where
  "run_at ppes j f m \<longleftrightarrow> 0 < m \<and> occupied ppes j = {f..<f + m} \<and>
     (\<forall>k<m. snd (ppes ! (f + k)) = word_of_nat (Suc k))"

definition lv_ok :: "(u16 \<times> u16) list \<Rightarrow> nat \<Rightarrow> lv \<Rightarrow> bool" where
  "lv_ok ppes j l \<longleftrightarrow> unat (lps_found l) = card (occupied ppes j) \<and>
     (is_contiguous l \<longrightarrow>
        (case first_pp l of None \<Rightarrow> occupied ppes j = {} | Some f \<Rightarrow> \<exists>m. run_at ppes j f m))"

text \<open>The volume being followed runs up to the last entry read.\<close>

definition cur_ok :: "(u16 \<times> u16) list \<Rightarrow> scan \<Rightarrow> bool" where
  "cur_ok ppes s \<longleftrightarrow> (\<forall>j. cur_lv_ix s = Some j \<longrightarrow> j < MAX_LVS \<and>
     (is_contiguous (lv_state s ! j) \<longrightarrow>
        (\<exists>f m. first_pp (lv_state s ! j) = Some f \<and> run_at ppes j f m \<and> f + m = length ppes \<and>
           next_lp_ix s = word_of_nat (Suc m))))"

definition scan_ok :: "(u16 \<times> u16) list \<Rightarrow> scan \<Rightarrow> bool" where
  "scan_ok ppes s \<longleftrightarrow> length (lv_state s) = MAX_LVS \<and>
     (\<forall>j<MAX_LVS. lv_ok ppes j (lv_state s ! j)) \<and> cur_ok ppes s"

lemma finite_occupied [simp]: "finite (occupied ppes j)"
  by (simp add: occupied_def)

lemma card_occupied: "card (occupied ppes j) \<le> length ppes"
  using card_mono [of "{..<length ppes}" "occupied ppes j"] by (auto simp: occupied_def)

lemma occupied_snoc:
  "occupied (ppes @ [x]) j = (if of_volume j x then insert (length ppes) (occupied ppes j) else occupied ppes j)"
  by (auto simp: occupied_def nth_append less_Suc_eq)

lemma occupied_last [simp]: "length ppes \<notin> occupied ppes j"
  by (simp add: occupied_def)

lemma scan_all_snoc:
  "scan_all (ppes @ [(lv_ix, lp_ix)]) = scan_step (length ppes) lv_ix lp_ix (scan_all ppes)"
  by (simp add: scan_all_def enumerate_append_eq)

lemma run_at_length:
  assumes "run_at ppes j f m" shows "f + m \<le> length ppes"
proof -
  have "f + m - 1 \<in> occupied ppes j" using assms by (auto simp: run_at_def)
  then show ?thesis by (auto simp: occupied_def)
qed

lemma run_at_snoc_other:
  assumes "run_at ppes j f m" and "\<not> of_volume j x"
  shows "run_at (ppes @ [x]) j f m"
  using assms run_at_length [OF assms(1)] by (auto simp: run_at_def occupied_snoc nth_append)

lemma run_at_snoc:
  assumes "run_at ppes j f m" "f + m = length ppes" and "of_volume j (v, word_of_nat (Suc m))"
  shows "run_at (ppes @ [(v, word_of_nat (Suc m))]) j f (Suc m)"
  using assms by (auto simp: run_at_def occupied_snoc nth_append less_Suc_eq)

lemma run_at_start:
  assumes "occupied ppes j = {}" and "of_volume j (v, 1)"
  shows "run_at (ppes @ [(v, 1)]) j (length ppes) 1"
  using assms by (auto simp: run_at_def occupied_snoc)

lemma lv_ok_other: "lv_ok ppes j l \<Longrightarrow> \<not> of_volume j x \<Longrightarrow> lv_ok (ppes @ [x]) j l"
  by (auto simp: lv_ok_def occupied_snoc run_at_snoc_other split: option.splits)
    (use run_at_snoc_other in blast)

lemma count_snoc:
  assumes "lv_ok ppes j l" "of_volume j x" "length ppes < 2 ^ 16 - 1"
  shows "unat (lps_found l + 1) = card (occupied (ppes @ [x]) j)"
proof -
  have "unat (lps_found l) = card (occupied ppes j)" using assms(1) by (simp add: lv_ok_def)
  moreover from this have "unat (lps_found l + 1) = unat (lps_found l) + 1"
    using card_occupied [of ppes j] assms(3) by (subst unat_add_exact) simp_all
  ultimately show ?thesis using assms(2) by (simp add: occupied_snoc)
qed

lemma no_run_before_start:
  assumes "lv_ok ppes j l" "is_contiguous l" "of_volume j (v, 1)" "starts_once (ppes @ [(v, 1)])"
  shows "occupied ppes j = {}"
proof (cases "first_pp l")
  case None
  with assms show ?thesis by (simp add: lv_ok_def)
next
  case (Some f)
  with assms obtain m where run: "run_at ppes j f m" by (auto simp: lv_ok_def)
  then have f: "f \<in> occupied ppes j" and one: "snd (ppes ! f) = 1"
    by (auto simp: run_at_def dest: spec [of _ 0])
  have len: "f < length ppes" using f by (simp add: occupied_def)
  have "unat (fst (ppes ! f)) - 1 = unat v - 1"
    using f assms(3) by (auto simp: occupied_def of_volume_def split: prod.splits)
  with assms(4) one len have "f = length ppes"
    by (auto simp: starts_once_def nth_append dest!: spec [of _ f] spec [of _ "length ppes"])
  with len show ?thesis by simp
qed

text \<open>The three outcomes for an entry of volume \<open>j\<close>.\<close>

lemma lv_ok_start:
  assumes "lv_ok ppes j l" "of_volume j (v, 1)" "length ppes < 2 ^ 16 - 1" "starts_once (ppes @ [(v, 1)])"
  shows "lv_ok (ppes @ [(v, 1)]) j (l\<lparr>lps_found := lps_found l + 1, first_pp := Some (length ppes)\<rparr>)"
  using count_snoc [OF assms(1-3)] no_run_before_start [OF assms(1) _ assms(2,4)] run_at_start [OF _ assms(2)]
  by (auto simp: lv_ok_def)

lemma lv_ok_continue:
  assumes "lv_ok ppes j l" "of_volume j (v, w)" "length ppes < 2 ^ 16 - 1"
    and "is_contiguous l \<Longrightarrow> \<exists>f m. first_pp l = Some f \<and> run_at ppes j f m \<and> f + m = length ppes \<and> w = word_of_nat (Suc m)"
  shows "lv_ok (ppes @ [(v, w)]) j (l\<lparr>lps_found := lps_found l + 1\<rparr>)"
  using count_snoc [OF assms(1-3)] assms(2,4) run_at_snoc [of ppes j _ _ v]
  by (fastforce simp: lv_ok_def)

lemma lv_ok_break:
  assumes "lv_ok ppes j l" "of_volume j x" "length ppes < 2 ^ 16 - 1"
  shows "lv_ok (ppes @ [x]) j (l\<lparr>lps_found := lps_found l + 1, is_contiguous := False\<rparr>)"
  using count_snoc [OF assms(1-3)] by (simp add: lv_ok_def)

lemma update_lv_sel [simp]:
  "length (lv_state (update_lv j f s)) = length (lv_state s)"
  "cur_lv_ix (update_lv j f s) = cur_lv_ix s" "next_lp_ix (update_lv j f s) = next_lp_ix s"
  "k < length (lv_state s) \<Longrightarrow>
     lv_state (update_lv j f s) ! k = (if k = j then f (lv_state s ! j) else lv_state s ! k)"
  by (simp_all add: update_lv_def nth_list_update)

lemma scan_step_ok:
  assumes "scan_ok ppes s" "length ppes < 2 ^ 16 - 1" "starts_once (ppes @ [(v, w)])"
  shows "scan_ok (ppes @ [(v, w)]) (scan_step (length ppes) v w s)"
proof -
  have len: "length (lv_state s) = MAX_LVS" and ok: "\<And>j. j < MAX_LVS \<Longrightarrow> lv_ok ppes j (lv_state s ! j)"
    and cur: "cur_ok ppes s"
    using assms(1) by (auto simp: scan_ok_def)
  define j where "j = unat v - 1"
  then have jv: "unat v - Suc 0 = j" by simp
  have vol: "of_volume k (v, w) \<longleftrightarrow> w \<noteq> 0 \<and> k = j" for k
    by (auto simp: of_volume_def j_def)
  have others: "lv_ok (ppes @ [(v, w)]) k (lv_state s ! k)" if "k < MAX_LVS" "k \<noteq> j \<or> w = 0" for k
    using ok [OF that(1)] that(2) vol by (auto intro: lv_ok_other)
  consider "w = 0" | "w \<noteq> 0" "j \<ge> MAX_LVS" | "w = 1" "j < MAX_LVS"
    | "w \<noteq> 0" "w \<noteq> 1" "j < MAX_LVS" "cur_lv_ix s = Some j" "w = next_lp_ix s"
    | "w \<noteq> 0" "w \<noteq> 1" "j < MAX_LVS" "\<not> (cur_lv_ix s = Some j \<and> w = next_lp_ix s)"
    by fastforce
  then show ?thesis
  proof cases
    case 1
    then show ?thesis using len others by (simp add: scan_ok_def cur_ok_def scan_step_def)
  next
    case 2
    then show ?thesis
      using len others by (auto simp: scan_ok_def cur_ok_def scan_step_def Let_def jv)
  next
    case 3
    then have "of_volume j (v, 1)" using vol by simp
    note start = lv_ok_start [OF ok [OF 3(2)] this assms(2) assms(3) [unfolded 3(1)]]
    have run: "run_at (ppes @ [(v, 1)]) j (length ppes) 1" if "is_contiguous (lv_state s ! j)"
      using no_run_before_start [OF ok [OF 3(2)] that \<open>of_volume j (v, 1)\<close>] assms(3) 3(1)
        run_at_start [OF _ \<open>of_volume j (v, 1)\<close>] by simp
    show ?thesis
      using 3 len others start run
      by (auto simp: scan_ok_def cur_ok_def scan_step_def Let_def jv)
  next
    case 4
    then have "of_volume j (v, w)" using vol by simp
    have follow: "\<exists>f m. first_pp (lv_state s ! j) = Some f \<and> run_at ppes j f m \<and> f + m = length ppes \<and>
        w = word_of_nat (Suc m)" if "is_contiguous (lv_state s ! j)"
      using cur 4 that by (auto simp: cur_ok_def)
    note cont = lv_ok_continue [OF ok [OF 4(3)] \<open>of_volume j (v, w)\<close> assms(2) follow]
    have run: "\<exists>f m. first_pp (lv_state s ! j) = Some f \<and> run_at (ppes @ [(v, w)]) j f m \<and>
        f + m = Suc (length ppes) \<and> w + 1 = word_of_nat (Suc m)" if "is_contiguous (lv_state s ! j)"
    proof -
      from follow [OF that] obtain f m where "first_pp (lv_state s ! j) = Some f" "run_at ppes j f m"
        "f + m = length ppes" and w: "w = word_of_nat (Suc m)" by blast
      with run_at_snoc [of ppes j f m v] \<open>of_volume j (v, w)\<close> show ?thesis
        by (intro exI [of _ f] exI [of _ "Suc m"]) simp
    qed
    show ?thesis
      using 4 len others cont run
      by (auto simp: scan_ok_def cur_ok_def scan_step_def Let_def jv)
  next
    case 5
    then have "of_volume j (v, w)" using vol by simp
    from lv_ok_break [OF ok [OF 5(3)] this assms(2)] show ?thesis
      using 5 len others
      by (auto simp: scan_ok_def cur_ok_def scan_step_def Let_def jv)
  qed
qed

lemma scan_all_ok: "starts_once ppes \<Longrightarrow> length ppes < 2 ^ 16 \<Longrightarrow> scan_ok ppes (scan_all ppes)"
proof (induction ppes rule: rev_induct)
  case Nil
  then show ?case
    by (simp add: scan_all_def scan_start_def scan_ok_def lv_ok_def cur_ok_def occupied_def MAX_LVS_def)
next
  case (snoc x ppes)
  have "starts_once ppes"
    using snoc.prems(1) by (fastforce simp: starts_once_def nth_append)
  then show ?case
    using scan_step_ok [of ppes "scan_all ppes" "fst x" "snd x"] snoc scan_all_snoc [of ppes "fst x" "snd x"]
    by simp
qed

section \<open>The loop is the scan\<close>

lemma scan_round_Ok:
  "scan_round r b x s = Ok t \<longleftrightarrow> (\<exists>p. read_ppe r b x = Ok p \<and> t = scan_step x (fst p) (snd p) s)"
  by (auto simp: scan_round_def and_then_Ok_iff)

lemma scan_rounds:
  assumes "for_each (scan_round r b) xs s = Ok t"
  shows "\<exists>ppes. traverse (read_ppe r b) xs = Ok ppes \<and>
    t = fold (\<lambda>(i, lv_ix, lp_ix). scan_step i lv_ix lp_ix) (zip xs ppes) s"
  using assms
proof (induction xs arbitrary: s)
  case Nil
  then show ?case by simp
next
  case (Cons x xs)
  then obtain p where p: "read_ppe r b x = Ok p"
    and rest: "for_each (scan_round r b) xs (scan_step x (fst p) (snd p) s) = Ok t"
    by (auto simp: and_then_Ok_iff scan_round_Ok)
  from Cons.IH [OF rest] p show ?case by (auto simp: split_beta)
qed

lemma scan_rounds_all:
  assumes "for_each (scan_round r b) [0..<n] scan_start = Ok t"
  shows "\<exists>ppes. traverse (read_ppe r b) [0..<n] = Ok ppes \<and> length ppes = n \<and> t = scan_all ppes"
proof -
  obtain ppes where ppes: "traverse (read_ppe r b) [0..<n] = Ok ppes"
    and t: "t = fold (\<lambda>(i, lv_ix, lp_ix). scan_step i lv_ix lp_ix) (zip [0..<n] ppes) scan_start"
    using scan_rounds [OF assms] by blast
  have "length ppes = n" using traverse_length [OF ppes] by simp
  with ppes t show ?thesis by (auto simp: scan_all_def enumerate_eq_zip)
qed

lemma aix_scan:
  assumes "aix_children r = Ok cs" and "c \<in> set cs"
  shows "\<exists>vgda ppes lps psn ppb. read_be32 r (7 * 512 + 0x1C) = Ok vgda \<and> length ppes \<le> 1016 \<and>
    traverse (read_ppe r ((ucast vgda + 17) * 512 + 0x20)) [0..<length ppes] = Ok ppes \<and>
    collect (aix_entry (scan_all ppes) lps psn (ppb div 512) ppb r) [0..<MAX_LVS] = Ok cs"
proof -
  from assms obtain vgda n s lps psn k where v: "read_be32 r 3612 = Ok vgda"
    and loop: "for_each (scan_round r (8736 + ucast vgda * 512)) [0..<min n 1016] scan_start = Ok s"
    and rows: "collect (aix_entry s lps psn (2 ^ k div 512) (2 ^ k) r) [0..<MAX_LVS] = Ok cs"
    by (auto simp: aix_children_def Let_def ok_iff split: if_splits)
  from scan_rounds_all [OF loop] obtain ppes where "length ppes = min n 1016" "s = scan_all ppes"
    "traverse (read_ppe r (8736 + ucast vgda * 512)) [0..<min n 1016] = Ok ppes" by blast
  moreover have "(ucast vgda + 17) * 512 + 0x20 = (8736 + ucast vgda * 512 :: u64)" by simp
  ultimately show ?thesis
    using v rows by (intro exI [of _ vgda] exI [of _ ppes] exI [of _ lps] exI [of _ psn]
        exI [of _ "2 ^ k"]) simp
qed

lemma aix_volume_run:
  assumes "aix_children r = Ok cs" and "c \<in> set cs"
  shows "\<exists>vgda ppes f m psn ppb. read_be32 r (7 * 512 + 0x1C) = Ok vgda \<and>
    traverse (read_ppe r ((ucast vgda + 17) * 512 + 0x20)) [0..<length ppes] = Ok ppes \<and>
    c = slice_child r (index c) ((psn + word_of_nat f * (ppb div 512)) * 512) (word_of_nat m * ppb) \<and>
    (starts_once ppes \<longrightarrow> run_at ppes (unat (index c)) f m)"
proof -
  from aix_scan [OF assms] obtain vgda ppes lps psn ppb where
    v: "read_be32 r (7 * 512 + 0x1C) = Ok vgda" and len: "length ppes \<le> 1016"
    and ppes: "traverse (read_ppe r ((ucast vgda + 17) * 512 + 0x20)) [0..<length ppes] = Ok ppes"
    and rows: "collect (aix_entry (scan_all ppes) lps psn (ppb div 512) ppb r) [0..<MAX_LVS] = Ok cs"
    by blast
  define j where "j = unat (index c)"
  define l where "l = lv_state (scan_all ppes) ! j"
  have j: "j < MAX_LVS"
    using aix_rows.rows_below [OF rows _ assms(2)] by (simp add: j_def MAX_LVS_def)
  have "aix_entry (scan_all ppes) lps psn (ppb div 512) ppb r j = Ok (Some c)"
    using aix_rows.rows_at [OF rows _ assms(2)] by (simp add: j_def MAX_LVS_def)
  then obtain f where f: "first_pp l = Some f" "is_contiguous l"
    and c: "c = slice_child r (index c) ((psn + word_of_nat f * (ppb div 512)) * 512) (ucast (lps_found l) * ppb)"
    by (auto simp: aix_entry_def Let_def l_def j_def split: option.splits if_splits)
  have lps: "(ucast (lps_found l) :: u64) = word_of_nat (unat (lps_found l))"
    by simp
  have "run_at ppes j f (unat (lps_found l))" if "starts_once ppes"
  proof -
    have "lv_ok ppes j l"
      using scan_all_ok [OF that] len j by (simp add: scan_ok_def l_def)
    with f show ?thesis by (auto simp: lv_ok_def run_at_def)
  qed
  with v ppes c lps show ?thesis
    unfolding j_def by metis
qed

section \<open>Properties\<close>


definition aix_disk :: bytes where
  "aix_disk = image_of 16000 (\<lambda>i.
     if 3584 \<le> i \<and> i < 3588 then ascii ''_LVM'' ! (i - 3584)
     else if i = 3631 then 9 else if i = 3615 then 8 else if i = 4121 then 1 else if i = 4623 then 1
     else if i = 12817 then 1 else if i = 12823 then 30 else if i = 12833 then 1 else if i = 12839 then 1 else 0)"

lemma aix_disk_children:
  "\<exists>cs. aix_children (bytes_reader aix_disk) = Ok cs \<and> slice_child (bytes_reader aix_disk) 0 15360 512 \<in> set cs"
proof -
  let ?r = "bytes_reader aix_disk"
  let ?s = "scan_step 0 1 1 scan_start"
  define nums where "nums = (1 :: u16) # replicate 255 0"
  have rows: "collect (aix_entry ?s nums 30 1 512 ?r) [0..<MAX_LVS] =
      Ok (List.map_filter (\<lambda>j. case aix_entry ?s nums 30 1 512 ?r j of Ok v \<Rightarrow> v | _ \<Rightarrow> None) [0..<MAX_LVS])"
    by (rule collect_pure) (simp add: aix_entry_def Let_def)
  have "aix_entry ?s nums 30 1 512 ?r 0 = Ok (Some (slice_child ?r 0 15360 512))"
    by (simp add: aix_entry_def nums_def scan_step_def scan_start_def update_lv_def MAX_LVS_def Let_def)
  from collect_complete [OF rows _ this] have mem: "slice_child ?r 0 15360 512 \<in>
      set (List.map_filter (\<lambda>j. case aix_entry ?s nums 30 1 512 ?r j of Ok v \<Rightarrow> v | _ \<Rightarrow> None) [0..<MAX_LVS])"
    by (simp add: MAX_LVS_def)
  have reads: "read_exactly ?r 3584 4 = Ok (ascii ''_LVM'')" "read_be16 ?r 3630 = Ok 9" "read_be32 ?r 3612 = Ok 8"
    "read_be16 ?r 4120 = Ok 1" "read_be16 ?r 4622 = Ok 1" "read_be16 ?r 12816 = Ok 1" "read_be32 ?r 12820 = Ok 30"
    "read_be16 ?r 12832 = Ok 1" "read_be16 ?r 12838 = Ok 1"
    by (simp_all add: read_defs bytes.read_exactly_eq aix_disk_def take_drop_image_of upt_rec from_be_def)
  have "aix_children ?r = collect (aix_entry ?s nums 30 1 512 ?r) [0..<MAX_LVS]"
    by (simp add: aix_children_def reads scan_round_def read_ppe_def nums_def Let_def MAX_LVS_def)
  with rows mem show ?thesis by auto
qed


end
