(* ===== verification/Blocks.thy ===== *)
theory Blocks
  imports Tables
begin

text \<open>
  What the readers of block-mapped images share. The content of such an image is cut into
  blocks of one size; a table says for each block where it is: nowhere (it reads as
  zeros), at a position of the parent, in memory (a decompressed block), or outside of
  the table. One read serves one block. The locale \<open>block_reader\<close> states this law, each
  image format interprets it, and its lemmas give the content of the virtual disk.
\<close>

datatype source = Zeros | Stored u64 | Inline bytes | Missing

section \<open>The virtual content\<close>

definition block_source :: "(u64 \<Rightarrow> source io) \<Rightarrow> nat \<Rightarrow> source" where
  "block_source locate i = (case locate (word_of_nat i) of Ok s \<Rightarrow> s | _ \<Rightarrow> Missing)"

definition flat_byte :: "bytes \<Rightarrow> nat \<Rightarrow> (u64 \<Rightarrow> source io) \<Rightarrow> nat \<Rightarrow> u8" where
  "flat_byte data bs locate p =
     (case block_source locate (p div bs) of
        Stored b \<Rightarrow> data ! (unat b + p mod bs)
      | Inline d \<Rightarrow> d ! (p mod bs)
      | _ \<Rightarrow> 0)"

definition flat :: "bytes \<Rightarrow> nat \<Rightarrow> nat \<Rightarrow> (u64 \<Rightarrow> source io) \<Rightarrow> bytes" where
  "flat data bs sz locate = map (flat_byte data bs locate) [0..<sz]"

text \<open>Every block of the disk is there: the table covers it and the parent holds it.\<close>

definition backed :: "bytes \<Rightarrow> nat \<Rightarrow> nat \<Rightarrow> (u64 \<Rightarrow> source io) \<Rightarrow> bool" where
  "backed data bs sz locate \<longleftrightarrow> (\<forall>i. i * bs < sz \<longrightarrow>
     (case locate (word_of_nat i) of
        Ok Zeros \<Rightarrow> True
      | Ok (Stored b) \<Rightarrow> unat b + min bs (sz - i * bs) \<le> length data \<and> unat b + bs \<le> 2 ^ 64
      | Ok (Inline d) \<Rightarrow> min bs (sz - i * bs) \<le> length d
      | _ \<Rightarrow> False))"

lemma length_flat [simp]: "length (flat data bs sz locate) = sz"
  by (simp add: flat_def)

lemma within_block:
  assumes "a mod b + j < (b :: nat)"
  shows "(a + j) div b = a div b \<and> (a + j) mod b = a mod b + j"
proof -
  have split: "a + j = (a mod b + j) + (a div b) * b" by simp
  have "b \<noteq> 0" using assms by (cases b) auto
  then have "(a + j) div b = a div b + (a mod b + j) div b"
    by (subst split, subst div_mult_self1) simp_all
  moreover have "(a + j) mod b = (a mod b + j) mod b"
    by (subst split, subst mod_mult_self1) simp
  ultimately show ?thesis using assms by simp
qed

lemma take_drop_map: "a + k \<le> length xs \<Longrightarrow> take k (drop a xs) = map (\<lambda>j. xs ! (a + j)) [0..<k]"
  by (rule nth_equalityI) auto

section \<open>Disks made of given blocks\<close>

text \<open>A source that gives the bytes of a block, and a table that gives those of every block.\<close>

definition source_is :: "bytes \<Rightarrow> source \<Rightarrow> bytes \<Rightarrow> bool" where
  "source_is data s b =
     (case s of
        Zeros \<Rightarrow> \<forall>x\<in>set b. x = 0
      | Stored p \<Rightarrow> unat p + length b \<le> length data \<and> take (length b) (drop (unat p) data) = b \<and> unat p + length b \<le> 2 ^ 64
      | Inline x \<Rightarrow> x = b
      | Missing \<Rightarrow> False)"

definition serves :: "bytes \<Rightarrow> (u64 \<Rightarrow> source io) \<Rightarrow> bytes list \<Rightarrow> bool" where
  "serves data locate blocks \<longleftrightarrow>
     (\<forall>i < length blocks. \<exists>s. locate (word_of_nat i) = Ok s \<and> source_is data s (blocks ! i))"

lemma nth_concat_even:
  assumes "\<forall>b\<in>set bs. length b = k" and "p < length bs * k"
  shows "concat bs ! p = bs ! (p div k) ! (p mod k)"
  using assms
proof (induction bs arbitrary: p)
  case (Cons b bs)
  show ?case
  proof (cases "p < k")
    case False
    then have "k \<noteq> 0" using Cons.prems by (cases k) auto
    then have "p div k = Suc ((p - k) div k)" "p mod k = (p - k) mod k"
      using False by (simp_all add: le_div_geq le_mod_geq)
    moreover have "concat bs ! (p - k) = bs ! ((p - k) div k) ! ((p - k) mod k)"
      using Cons.prems False by (intro Cons.IH) auto
    ultimately show ?thesis using Cons.prems False by (simp add: nth_append)
  qed (use Cons.prems in \<open>simp add: nth_append\<close>)
qed simp

lemma length_concat_even: "\<forall>b\<in>set bs. length b = k \<Longrightarrow> length (concat bs) = length bs * k"
  by (induction bs) simp_all

lemma source_byte:
  assumes "source_is data s b" and "j < length b"
  shows "(case s of Stored p \<Rightarrow> data ! (unat p + j) | Inline x \<Rightarrow> x ! j | _ \<Rightarrow> 0) = b ! j"
proof (cases s)
  case Zeros
  then show ?thesis using assms by (simp add: source_is_def)
next
  case (Stored p)
  then have "take (length b) (drop (unat p) data) = b" "unat p + length b \<le> length data"
    using assms(1) by (simp_all add: source_is_def)
  then have "b ! j = drop (unat p) data ! j" using assms(2) by (metis nth_take)
  then show ?thesis using Stored \<open>unat p + length b \<le> length data\<close> by simp
qed (use assms in \<open>simp_all add: source_is_def\<close>)

lemma serves_flat:
  assumes "serves data locate blocks" and even: "\<forall>b\<in>set blocks. length b = k" and "0 < k"
  shows "backed data k (length blocks * k) locate" and "flat data k (length blocks * k) locate = concat blocks"
proof -
  let ?n = "length blocks"
  have len: "length (blocks ! i) = k" if "i < ?n" for i using that even by simp
  show "backed data k (?n * k) locate"
    unfolding backed_def
  proof (intro allI impI)
    fix i assume "i * k < ?n * k"
    then have i: "i < ?n" by simp
    then obtain s where "locate (word_of_nat i) = Ok s" "source_is data s (blocks ! i)"
      using assms(1) by (auto simp: serves_def)
    then show "case locate (word_of_nat i) of
        Ok Zeros \<Rightarrow> True
      | Ok (Stored b) \<Rightarrow> unat b + min k (?n * k - i * k) \<le> length data \<and> unat b + k \<le> 2 ^ 64
      | Ok (Inline x) \<Rightarrow> min k (?n * k - i * k) \<le> length x
      | _ \<Rightarrow> False"
      using len [OF i] by (cases s) (auto simp: source_is_def)
  qed
  show "flat data k (?n * k) locate = concat blocks"
  proof (rule nth_equalityI)
    show "length (flat data k (?n * k) locate) = length (concat blocks)"
      using length_concat_even [OF even] by simp
    fix p assume "p < length (flat data k (?n * k) locate)"
    then have p: "p < ?n * k" by simp
    then have i: "p div k < ?n" using assms(3) by (simp add: div_less_iff_less_mult)
    then obtain s where s: "locate (word_of_nat (p div k)) = Ok s" "source_is data s (blocks ! (p div k))"
      using assms(1) by (auto simp: serves_def)
    have "p mod k < length (blocks ! (p div k))" using len [OF i] assms(3) by simp
    from source_byte [OF s(2) this] s(1) p nth_concat_even [OF even p]
    show "flat data k (?n * k) locate ! p = concat blocks ! p"
      by (simp add: flat_def flat_byte_def block_source_def)
  qed
qed

section \<open>The law\<close>

locale block_reader =
  fixes parent r :: reader and bs sz :: u64 and locate :: "u64 \<Rightarrow> source io"
  assumes block_size: "off < sz \<Longrightarrow> bs \<noteq> 0"
    and read_block: "read_at r off n =
      (if off \<ge> sz then Ok []
       else let k = min (min n (unat (bs - off mod bs))) (unat (sz - off)) in
         and_then (locate (off div bs)) (\<lambda>s.
           case s of
             Zeros \<Rightarrow> Ok (replicate k 0)
           | Stored b \<Rightarrow> read_at parent (b + off mod bs) k
           | Inline d \<Rightarrow> Ok (take k (drop (unat (off mod bs)) d))
           | Missing \<Rightarrow> Ok []))"
begin

lemma block_safe:
  assumes "safe_reader parent" and "\<And>i. locate i \<noteq> Panic"
  shows "safe_reader r"
proof (rule safe_reader.intro)
  show "read_at r off n \<noteq> Panic" for off n
    using assms by (auto simp: read_block Let_def panic_free split: source.splits)
  show "length d \<le> n" if d: "read_at r off n = Ok d" for off n d
  proof (cases "off \<ge> sz")
    case True
    with d show ?thesis by (simp add: read_block)
  next
    case False
    with d obtain s where s: "locate (off div bs) = Ok s"
      by (auto simp: read_block Let_def ok_iff)
    from False d s show ?thesis
      by (cases s) (auto simp: read_block Let_def dest: safe_reader.read_bounded [OF assms(1)])
  qed
qed

text \<open>Within one block, \<open>k\<close> bytes from \<open>off\<close> on are the bytes of the flat content.\<close>

lemma one_block:
  assumes "unat off < unat sz" and "k \<le> unat bs - unat off mod unat bs" and "k \<le> unat sz - unat off"
  shows "take k (drop (unat off) (flat data (unat bs) (unat sz) locate)) =
    map (\<lambda>j. case block_source locate (unat off div unat bs) of
               Stored b \<Rightarrow> data ! (unat b + (unat off mod unat bs + j))
             | Inline d \<Rightarrow> d ! (unat off mod unat bs + j)
             | _ \<Rightarrow> 0) [0..<k]"
proof (rule nth_equalityI)
  show "length (take k (drop (unat off) (flat data (unat bs) (unat sz) locate))) =
      length (map (\<lambda>j. case block_source locate (unat off div unat bs) of
               Stored b \<Rightarrow> data ! (unat b + (unat off mod unat bs + j))
             | Inline d \<Rightarrow> d ! (unat off mod unat bs + j)
             | _ \<Rightarrow> 0) [0..<k])"
    using assms(3) by simp
next
  fix j assume "j < length (take k (drop (unat off) (flat data (unat bs) (unat sz) locate)))"
  then have j: "j < k" by simp
  have "unat off mod unat bs + j < unat bs"
    using j assms(2) by simp
  from within_block [OF this] j assms(3) show "take k (drop (unat off) (flat data (unat bs) (unat sz) locate)) ! j =
      map (\<lambda>j. case block_source locate (unat off div unat bs) of
               Stored b \<Rightarrow> data ! (unat b + (unat off mod unat bs + j))
             | Inline d \<Rightarrow> d ! (unat off mod unat bs + j)
             | _ \<Rightarrow> 0) [0..<k] ! j"
    by (cases "block_source locate (unat off div unat bs)") (simp_all add: flat_def flat_byte_def)
qed

definition count_at :: "u64 \<Rightarrow> nat \<Rightarrow> nat" where
  "count_at off n = min (min n (unat bs - unat off mod unat bs)) (unat sz - unat off)"

lemma read_backed:
  assumes "exact_reader parent data" and "backed data (unat bs) (unat sz) locate" and "off < sz"
  shows "read_at r off n = Ok (take (count_at off n) (drop (unat off) (flat data (unat bs) (unat sz) locate)))"
proof -
  let ?i = "unat off div unat bs" and ?in = "unat off mod unat bs" and ?k = "count_at off n"
  have bs: "unat bs > 0" using block_size [OF assms(3)] by (simp add: unat_gt_0)
  have lt: "unat off < unat sz" using assms(3) by (simp add: word_less_nat_alt)
  have "unat (off mod bs) = ?in" by (simp add: unat_mod)
  then have k: "min (min n (unat (bs - off mod bs))) (unat (sz - off)) = ?k"
    using bs lt by (simp add: count_at_def unat_sub word_le_nat_alt less_imp_le)
  have i: "word_of_nat ?i = off div bs"
    by (simp flip: unat_div)
  have split: "?i * unat bs + ?in = unat off" by simp
  then have "?i * unat bs < unat sz" using lt by linarith
  with assms(2) have here: "case locate (off div bs) of
        Ok Zeros \<Rightarrow> True
      | Ok (Stored b) \<Rightarrow> unat b + min (unat bs) (unat sz - ?i * unat bs) \<le> length data \<and> unat b + unat bs \<le> 2 ^ 64
      | Ok (Inline d) \<Rightarrow> min (unat bs) (unat sz - ?i * unat bs) \<le> length d | _ \<Rightarrow> False"
    unfolding backed_def i [symmetric] by blast
  then obtain s where s: "locate (off div bs) = Ok s"
    by (cases "locate (off div bs)") auto
  from here s have ok: "case s of Zeros \<Rightarrow> True
      | Stored b \<Rightarrow> unat b + min (unat bs) (unat sz - ?i * unat bs) \<le> length data \<and> unat b + unat bs \<le> 2 ^ 64
      | Inline d \<Rightarrow> min (unat bs) (unat sz - ?i * unat bs) \<le> length d | Missing \<Rightarrow> False"
    by (cases s) auto
  have src: "block_source locate ?i = s" by (simp add: block_source_def i s)
  have k_in: "?in + ?k \<le> unat bs" "?i * unat bs + ?in + ?k \<le> unat sz"
    using bs lt split mod_less_divisor [OF bs, of "unat off"] by (auto simp: count_at_def)
  then have k_le: "?in + ?k \<le> min (unat bs) (unat sz - ?i * unat bs)" by linarith
  have flat: "take ?k (drop (unat off) (flat data (unat bs) (unat sz) locate)) =
      map (\<lambda>j. case s of Stored b \<Rightarrow> data ! (unat b + (?in + j)) | Inline d \<Rightarrow> d ! (?in + j) | _ \<Rightarrow> 0) [0..<?k]"
    using one_block [OF lt, of ?k data] src by (simp add: count_at_def)
  have read: "read_at r off n = (case s of
             Zeros \<Rightarrow> Ok (replicate ?k 0)
           | Stored b \<Rightarrow> read_at parent (b + off mod bs) ?k
           | Inline d \<Rightarrow> Ok (take ?k (drop ?in d))
           | Missing \<Rightarrow> Ok [])"
    using assms(3) by (cases s) (simp_all add: read_block Let_def k s unat_mod not_le [symmetric])
  show ?thesis
  proof (cases s)
    case Zeros
    then show ?thesis using read flat by (simp add: map_replicate_trivial)
  next
    case (Stored b)
    have "?in < unat bs" using bs by simp
    then have "unat (b + off mod bs) = unat b + ?in"
      using ok Stored by (subst unat_add_exact) (simp_all add: unat_mod)
    moreover have "unat b + ?in + ?k \<le> length data"
    proof -
      have "unat b + min (unat bs) (unat sz - ?i * unat bs) \<le> length data" using ok Stored by simp
      with k_le show ?thesis by linarith
    qed
    ultimately show ?thesis
      using read flat Stored take_drop_map [of "unat b + ?in" ?k data]
      by (simp add: exact_reader.read_at_eq [OF assms(1)] add.assoc)
  next
    case (Inline d)
    then have "min (unat bs) (unat sz - ?i * unat bs) \<le> length d" using ok by simp
    with k_le have "?in + ?k \<le> length d" by linarith
    then show ?thesis
      using read flat Inline take_drop_map [of ?in ?k d] by simp
  next
    case Missing
    with ok show ?thesis by simp
  qed
qed

text \<open>A fully backed image is a reader of its flat content.\<close>

lemma flat_positional:
  assumes "exact_reader parent data" and "backed data (unat bs) (unat sz) locate"
  shows "positional_reader r (flat data (unat bs) (unat sz) locate)"
proof -
  let ?d = "flat data (unat bs) (unat sz) locate"
  have past: "read_at r off n = Ok []" if "off \<ge> sz" for off n
    using that by (simp add: read_block)
  have read: "read_at r off n = Ok (take (count_at off n) (drop (unat off) ?d))" for off n
  proof (cases "off < sz")
    case True
    then show ?thesis by (rule read_backed [OF assms])
  next
    case False
    then show ?thesis using past [of off n] by (simp add: not_less word_le_nat_alt)
  qed
  show ?thesis
  proof unfold_locales
    show "read_at r off n \<noteq> Panic" "\<exists>bs. read_at r off n = Ok bs" for off n
      using read [of off n] by simp_all
    show "length xs \<le> n" if "read_at r off n = Ok xs" for off n xs
      using that read [of off n] by (auto simp: count_at_def)
    show "xs = take (length xs) (drop (unat off) ?d)" if "read_at r off n = Ok xs" for off n xs
      using that read [of off n] by (auto simp: count_at_def min.commute)
    show "n = 0 \<or> length ?d \<le> unat off" if "read_at r off n = Ok []" for off n
    proof (cases "off < sz")
      case True
      then have "unat bs > 0" using block_size by (simp add: unat_gt_0)
      then have "unat off mod unat bs < unat bs" by simp
      moreover have "count_at off n = 0 \<or> unat sz \<le> unat off"
        using that read [of off n] by simp
      ultimately show ?thesis by (auto simp: count_at_def min_def split: if_splits)
    qed (simp add: word_less_nat_alt)
  qed
qed

lemma flat_read_all:
  assumes "exact_reader parent data" and "backed data (unat bs) (unat sz) locate" and "unat sz \<le> MAX_SIZE"
  shows "read_all r = Ok (flat data (unat bs) (unat sz) locate)"
  using positional_reader.read_all_eq [OF flat_positional [OF assms(1,2)]] assms(3) by simp

end

section \<open>Disk images\<close>

text \<open>The single child of a disk image: \<^verbatim>\<open>Child { index: 0, offset: 0, reader }\<close>.\<close>

definition virtual_child :: "reader \<Rightarrow> child" where
  "virtual_child r = \<lparr>index = 0, offset = 0, child_reader = r\<rparr>"

lemma virtual_child_sel [simp]:
  "index (virtual_child r) = 0" "offset (virtual_child r) = 0" "child_reader (virtual_child r) = r"
  by (simp_all add: virtual_child_def)

text \<open>
  A container that opens the image (its header and table, \<^verbatim>\<open>...Reader::new\<close>) and shows one
  child, the block-mapped reader of what it opened.
\<close>

locale block_disk =
  fixes children :: container and open_disk :: "reader \<Rightarrow> 'd io"
    and reader_of :: "reader \<Rightarrow> 'd \<Rightarrow> reader" and bs sz :: "'d \<Rightarrow> u64"
    and locate :: "reader \<Rightarrow> 'd \<Rightarrow> u64 \<Rightarrow> source io"
  assumes children_eq: "children r = and_then (open_disk r) (\<lambda>d. Ok [virtual_child (reader_of r d)])"
    and open_not_Panic: "safe_reader r \<Longrightarrow> open_disk r \<noteq> Panic"
    and locate_not_Panic: "safe_reader r \<Longrightarrow> locate r d i \<noteq> Panic"
    and opened: "open_disk r = Ok d \<Longrightarrow> block_reader r (reader_of r d) (bs d) (sz d) (locate r d)"
    and disk_size: "rsize (reader_of r d) = Some (sz d)"
begin

lemma disk_safe: "safe_reader r \<Longrightarrow> open_disk r = Ok d \<Longrightarrow> safe_reader (reader_of r d)"
  by (rule block_reader.block_safe [OF opened]) (simp_all add: locate_not_Panic)

lemma disk_content:
  assumes "exact_reader r data" and "open_disk r = Ok d"
    and "backed data (unat (bs d)) (unat (sz d)) (locate r d)"
  shows "children r = Ok [virtual_child (reader_of r d)]"
    and "positional_reader (reader_of r d) (flat data (unat (bs d)) (unat (sz d)) (locate r d))"
  using block_reader.flat_positional [OF opened [OF assms(2)] assms(1,3)] assms(2)
  by (simp_all add: children_eq)

end

sublocale block_disk \<subseteq> safe_container
proof (rule safe_container.intro)
  show "children r \<noteq> Panic" if "safe_reader r" for r
    using that by (simp add: children_eq and_then_Panic_iff open_not_Panic)
  show "distinct (map index cs)" if "children r = Ok cs" for r cs
    using that by (auto simp: children_eq and_then_Ok_iff)
  show "safe_reader (child_reader c)" if "safe_reader r" "children r = Ok cs" "c \<in> set cs" for r cs c
    using that by (auto simp: children_eq and_then_Ok_iff disk_safe)
qed

text \<open>\<^verbatim>\<open>buf\<close> after a call that stored \<open>bs\<close> into it: the rest of the buffer is still zero.\<close>

definition zero_filled :: "nat \<Rightarrow> bytes \<Rightarrow> bytes" where
  "zero_filled n bs = bs @ replicate (n - length bs) 0"

end
