(* ===== verification/Pt_Ubi.thy ===== *)
theory Pt_Ubi
  imports Blocks
begin

text \<open>
  Unsorted block images of raw flash (\<^verbatim>\<open>container/pt/ubi.rs\<close>): a scan over the physical
  erase blocks that finds for each volume where its logical erase blocks lie, and the
  reader that puts a volume together. A \<^verbatim>\<open>BTreeMap\<close> is the list of its entries in the
  order of the keys, the order in which it is iterated.
\<close>

section \<open>Ordered maps\<close>

fun btree_insert :: "'k::linorder \<Rightarrow> 'v \<Rightarrow> ('k \<times> 'v) list \<Rightarrow> ('k \<times> 'v) list" where
  "btree_insert k v [] = [(k, v)]"
| "btree_insert k v ((k', v') # m) =
     (if k < k' then (k, v) # (k', v') # m
      else if k = k' then (k, v) # m
      else (k', v') # btree_insert k v m)"

definition btree_get :: "('k \<times> 'v) list \<Rightarrow> 'k \<Rightarrow> 'v option" where
  "btree_get m k = map_of m k"

definition btree_max :: "('k::linorder \<times> 'v) list \<Rightarrow> 'k option" where
  "btree_max m = (case map fst m of [] \<Rightarrow> None | k # ks \<Rightarrow> Some (fold max ks k))"

definition btree :: "('k::linorder \<times> 'v) list \<Rightarrow> bool" where
  "btree m \<longleftrightarrow> sorted_wrt (<) (map fst m)"

lemma btree_Nil [simp]: "btree []"
  by (simp add: btree_def)

lemma keys_insert: "set (map fst (btree_insert k v m)) = insert k (set (map fst m))"
  by (induction k v m rule: btree_insert.induct) auto

lemma btree_insert_btree: "btree m \<Longrightarrow> btree (btree_insert k v m)"
proof (induction k v m rule: btree_insert.induct)
  case (2 k v k' v' m)
  then show ?case
    using keys_insert [of k v m] by (auto simp: btree_def)
qed (simp add: btree_def)

lemma btree_get_insert: "btree m \<Longrightarrow> btree_get (btree_insert k v m) j = (if j = k then Some v else btree_get m j)"
  by (induction k v m rule: btree_insert.induct) (auto simp: btree_get_def btree_def)

section \<open>The scan\<close>

type_synonym leb_map = "(u32 \<times> (u64 \<times> u64)) list"

definition EC_HDR_MAGIC :: u32 where "EC_HDR_MAGIC = 0x55424923"
definition VID_HDR_MAGIC :: u32 where "VID_HDR_MAGIC = 0x55424921"
definition UBI_INTERNAL_VOL_START :: u32 where "UBI_INTERNAL_VOL_START = 0x7FFFEFFF"

definition PEB_SIZES :: "u64 list" where
  "PEB_SIZES = [128 * 1024, 256 * 1024, 512 * 1024, 64 * 1024, 1024 * 1024]"

definition probe_peb_size :: "reader \<Rightarrow> u64 \<Rightarrow> u64 option \<Rightarrow> u64 option flow io" where
  "probe_peb_size reader peb_size _ =
     match_io (read_be32 reader peb_size)
       (\<lambda>magic. if magic = EC_HDR_MAGIC then
            match_io (read_be32 reader (peb_size * 2))
              (\<lambda>magic2. if magic2 = EC_HDR_MAGIC then Ok (Break (Some peb_size)) else Ok (Break (Some peb_size)))
              (Ok (Break (Some peb_size))) Panic
          else Ok (Continue None))
       (Ok (Continue None)) Panic"

definition detect_peb_size :: "reader \<Rightarrow> u64 io" where
  "detect_peb_size reader =
     and_then (read_be32 reader 0) (\<lambda>magic.
     if magic \<noteq> EC_HDR_MAGIC then Err InvalidData
     else and_then (for_break (probe_peb_size reader) PEB_SIZES None)
            (\<lambda>found. Ok (case found of Some peb_size \<Rightarrow> peb_size | None \<Rightarrow> 128 * 1024)))"

record ubi_scan =
  vol_maps :: "(u32 \<times> leb_map) list"
  vid_hdr_offset :: u64
  data_offset :: u64

definition add_leb :: "u32 \<Rightarrow> u32 \<Rightarrow> u64 \<times> u64 \<Rightarrow> ubi_scan \<Rightarrow> ubi_scan" where
  "add_leb vol_id lnum place s =
     (let leb_map = (case btree_get (vol_maps s) vol_id of Some m \<Rightarrow> m | None \<Rightarrow> [])
      in s\<lparr>vol_maps := btree_insert vol_id (btree_insert lnum place leb_map) (vol_maps s)\<rparr>)"

definition scan_peb :: "reader \<Rightarrow> u64 \<Rightarrow> nat \<Rightarrow> ubi_scan \<Rightarrow> ubi_scan flow io" where
  "scan_peb reader peb_size peb_num s =
     (let peb_start = word_of_nat peb_num * peb_size in
      match_io (read_be32 reader peb_start)
        (\<lambda>magic. if magic \<noteq> EC_HDR_MAGIC then Ok (Continue s)
          else
            and_then (read_be32 reader (peb_start + 0x10)) (\<lambda>vid.
            and_then (read_be32 reader (peb_start + 0x14)) (\<lambda>dat.
            let peb_vid_offset = ucast vid :: u64; peb_data_offset = ucast dat :: u64;
                s1 = (if vid_hdr_offset s = 0
                      then s\<lparr>vid_hdr_offset := peb_vid_offset, data_offset := peb_data_offset\<rparr> else s);
                vid_start = peb_start + peb_vid_offset
            in match_io (read_be32 reader vid_start)
                 (\<lambda>vid_magic. if vid_magic \<noteq> VID_HDR_MAGIC then Ok (Continue s1)
                   else
                     and_then (read_be32 reader (vid_start + 0x08)) (\<lambda>vol_id.
                     and_then (read_be32 reader (vid_start + 0x0C)) (\<lambda>lnum.
                     and_then (read_be32 reader (vid_start + 0x14)) (\<lambda>data_size.
                     Ok (Continue (add_leb vol_id lnum (peb_start + peb_data_offset, ucast data_size) s1))))))
                 (Ok (Continue s1)) Panic)))
        (Ok (Break s)) Panic)"

definition scan_pebs :: "reader \<Rightarrow> u64 \<Rightarrow> ubi_scan io" where
  "scan_pebs reader peb_size =
     and_then (for_break (scan_peb reader peb_size) [0..<65536]
                \<lparr>vol_maps = [], vid_hdr_offset = 0, data_offset = 0\<rparr>) (\<lambda>s.
     if vol_maps s = [] then Err InvalidData else Ok s)"

text \<open>The volume table is read for its errors only; the name stays the raw bytes.\<close>

record volume_info =
  vol_name :: bytes
  vol_type :: u8
  reserved_pebs :: u32

definition read_volume_record :: "reader \<Rightarrow> u64 \<Rightarrow> nat \<Rightarrow> volume_info option io" where
  "read_volume_record reader base i =
     (let rec_offset = base + word_of_nat (i * 172) in
      match_io (read_be32 reader rec_offset)
        (\<lambda>reserved. if reserved = 0 then Ok None
          else match_io (read_u8 reader (rec_offset + 12))
            (\<lambda>vtype. match_io (read_be16 reader (rec_offset + 14))
              (\<lambda>len. let name_len = unat len in
                 and_then (if name_len > 0 \<and> name_len \<le> 127
                    then and_then (read_at reader (rec_offset + 16) name_len)
                           (\<lambda>name. Ok (if length name = name_len then name else []))
                    else Ok [])
                 (\<lambda>name. Ok (Some \<lparr>vol_name = name, vol_type = vtype, reserved_pebs = reserved\<rparr>)))
              (Ok None) Panic)
            (Ok None) Panic)
        (Ok None) Panic)"

definition read_volume_table :: "reader \<Rightarrow> (u32 \<times> leb_map) list \<Rightarrow> u64 \<Rightarrow> volume_info option list io" where
  "read_volume_table reader maps leb_size =
     (case btree_get maps UBI_INTERNAL_VOL_START of
        None \<Rightarrow> Ok (replicate 128 None)
      | Some layout_map \<Rightarrow>
          (case btree_get layout_map 0 of
             None \<Rightarrow> Ok (replicate 128 None)
           | Some (base, _) \<Rightarrow>
               let num_records = min (unat leb_size div 172) 128
               in and_then (traverse (read_volume_record reader base) [0..<num_records])
                    (\<lambda>vs. Ok (vs @ replicate (128 - num_records) None))))"

section \<open>The volume reader\<close>

definition ubi_virtual_size :: "leb_map \<Rightarrow> u64 \<Rightarrow> u64" where
  "ubi_virtual_size leb_map leb_size =
     (case btree_max leb_map of Some max_leb \<Rightarrow> (ucast max_leb + 1) * leb_size | None \<Rightarrow> 0)"

text \<open>The division by a zero \<^verbatim>\<open>leb_size\<close> would unwind.\<close>

definition ubi_volume_reader :: "reader \<Rightarrow> leb_map \<Rightarrow> u64 \<Rightarrow> reader" where
  "ubi_volume_reader parent leb_map leb_size =
     (let virtual_size = ubi_virtual_size leb_map leb_size in
      \<lparr>read_at = (\<lambda>off n.
         if off \<ge> virtual_size then Ok []
         else if leb_size = 0 then Panic
         else let leb_num = ucast (off div leb_size) :: u32;
                  in_leb = off mod leb_size;
                  remaining_in_leb = leb_size - in_leb;
                  remaining_in_vol = virtual_size - off;
                  to_read = min (min n (unat remaining_in_leb)) (unat remaining_in_vol)
              in (case btree_get leb_map leb_num of
                    Some (base, _) \<Rightarrow> read_at parent (base + in_leb) to_read
                  | None \<Rightarrow> Ok (replicate to_read 0))),
       rsize = Some virtual_size\<rparr>)"

definition ubi_child :: "reader \<Rightarrow> u64 \<Rightarrow> u32 \<times> leb_map \<Rightarrow> child option" where
  "ubi_child reader leb_size = (\<lambda>(vol_id, leb_map).
     if vol_id \<ge> UBI_INTERNAL_VOL_START then None
     else Some \<lparr>index = vol_id, offset = 0, child_reader = ubi_volume_reader reader leb_map leb_size\<rparr>)"

definition ubi_children :: container where
  "ubi_children reader =
     and_then (detect_peb_size reader) (\<lambda>peb_size.
     and_then (scan_pebs reader peb_size) (\<lambda>s.
     let leb_size = peb_size - data_offset s in
     and_then (read_volume_table reader (vol_maps s) leb_size) (\<lambda>_.
     Ok (sort_key index (List.map_filter (ubi_child reader leb_size) (vol_maps s))))))"

section \<open>The volume reader is block-mapped\<close>

definition ubi_locate :: "leb_map \<Rightarrow> u64 \<Rightarrow> source io" where
  "ubi_locate leb_map i =
     Ok (case btree_get leb_map (ucast i) of Some (base, _) \<Rightarrow> Stored base | None \<Rightarrow> Zeros)"

lemma ubi_leb_size: "off < ubi_virtual_size m ls \<Longrightarrow> ls \<noteq> 0"
  by (auto simp: ubi_virtual_size_def split: option.splits)

interpretation ubi_volume: block_reader parent "ubi_volume_reader parent m ls" ls "ubi_virtual_size m ls"
    "ubi_locate m" for parent m ls
proof unfold_locales
  fix off n
  show "off < ubi_virtual_size m ls \<Longrightarrow> ls \<noteq> 0" by (rule ubi_leb_size)
  show "read_at (ubi_volume_reader parent m ls) off n =
      (if off \<ge> ubi_virtual_size m ls then Ok []
       else let k = min (min n (unat (ls - off mod ls))) (unat (ubi_virtual_size m ls - off)) in
         and_then (ubi_locate m (off div ls)) (\<lambda>s.
           case s of
             Zeros \<Rightarrow> Ok (replicate k 0)
           | Stored b \<Rightarrow> read_at parent (b + off mod ls) k
           | Inline d \<Rightarrow> Ok (take k (drop (unat (off mod ls)) d))
           | Missing \<Rightarrow> Ok []))"
    using ubi_leb_size [of off m ls]
    by (auto simp: ubi_volume_reader_def ubi_locate_def Let_def not_le split: option.split)
qed

lemma ubi_volume_safe: "safe_reader parent \<Longrightarrow> safe_reader (ubi_volume_reader parent m ls)"
  by (rule ubi_volume.block_safe) (simp_all add: ubi_locate_def)

section \<open>The scan keeps the maps ordered\<close>

definition maps_ok :: "ubi_scan \<Rightarrow> bool" where
  "maps_ok s \<longleftrightarrow> btree (vol_maps s) \<and> (\<forall>(v, m)\<in>set (vol_maps s). btree m)"

lemma btree_get_mem: "btree_get m k = Some v \<Longrightarrow> (k, v) \<in> set m"
  by (simp add: btree_get_def map_of_SomeD)

lemma set_btree_insert: "set (btree_insert k v m) \<subseteq> insert (k, v) (set m)"
  by (induction k v m rule: btree_insert.induct) auto

lemma add_leb_ok:
  assumes "maps_ok s" shows "maps_ok (add_leb v l p s)"
proof -
  let ?old = "case btree_get (vol_maps s) v of Some m \<Rightarrow> m | None \<Rightarrow> []"
  have "btree ?old"
    using assms by (auto simp: maps_ok_def dest: btree_get_mem split: option.split)
  then have new: "btree (btree_insert l p ?old)" by (rule btree_insert_btree)
  have all: "btree m" if "(w, m) \<in> set (btree_insert v (btree_insert l p ?old) (vol_maps s))" for w m
    using that set_btree_insert [of v "btree_insert l p ?old" "vol_maps s"] new assms
    by (auto simp: maps_ok_def)
  have "btree (btree_insert v (btree_insert l p ?old) (vol_maps s))"
    using assms by (simp add: maps_ok_def btree_insert_btree)
  with all show ?thesis by (auto simp: maps_ok_def add_leb_def Let_def)
qed

text \<open>A block read later replaces the place of an earlier one, and touches no other block.\<close>

definition leb_place :: "ubi_scan \<Rightarrow> u32 \<Rightarrow> u32 \<Rightarrow> (u64 \<times> u64) option" where
  "leb_place s v l = Option.bind (btree_get (vol_maps s) v) (\<lambda>m. btree_get m l)"

lemma add_leb_place:
  assumes "maps_ok s"
  shows "leb_place (add_leb v l p s) w k = (if w = v \<and> k = l then Some p else leb_place s w k)"
proof -
  let ?old = "case btree_get (vol_maps s) v of Some m \<Rightarrow> m | None \<Rightarrow> []"
  have old: "btree ?old"
    using assms by (auto simp: maps_ok_def dest: btree_get_mem split: option.split)
  have "btree_get [] k = None" by (simp add: btree_get_def)
  then show ?thesis
    using assms btree_get_insert [OF old, of l p k]
    by (auto simp: leb_place_def add_leb_def Let_def maps_ok_def btree_get_insert split: option.splits)
qed

lemma scan_peb_ok:
  assumes "maps_ok s" and "scan_peb r ps i s = Ok (Continue t) \<or> scan_peb r ps i s = Ok (Break t)"
  shows "maps_ok t"
proof -
  have upd: "maps_ok (s\<lparr>vid_hdr_offset := a, data_offset := b\<rparr>)" for a b
    using assms(1) by (simp add: maps_ok_def)
  from assms show ?thesis
    by (auto simp: scan_peb_def Let_def ok_iff split: if_splits intro!: add_leb_ok upd)
qed

lemma scan_pebs_ok:
  assumes "scan_pebs r ps = Ok s" shows "maps_ok s"
proof -
  have "for_break (scan_peb r ps) [0..<65536] \<lparr>vol_maps = [], vid_hdr_offset = 0, data_offset = 0\<rparr> = Ok s"
    using assms by (auto simp: scan_pebs_def ok_iff split: if_splits)
  then show ?thesis
  proof (rule for_break_inv)
    show "maps_ok \<lparr>vol_maps = [], vid_hdr_offset = 0, data_offset = 0\<rparr>" by (simp add: maps_ok_def)
  qed (auto intro: scan_peb_ok)
qed

section \<open>The contract\<close>

lemma probe_not_Panic: "safe_reader r \<Longrightarrow> probe_peb_size r ps x \<noteq> Panic"
  by (auto simp: probe_peb_size_def panic_free split: if_splits)

lemma detect_peb_size_not_Panic: "safe_reader r \<Longrightarrow> detect_peb_size r \<noteq> Panic"
  using for_break_not_Panic [of PEB_SIZES "probe_peb_size r" None] probe_not_Panic [of r]
  by (auto simp: detect_peb_size_def panic_free split: if_splits)

lemma scan_peb_not_Panic: "safe_reader r \<Longrightarrow> scan_peb r ps i s \<noteq> Panic"
  by (auto simp: scan_peb_def Let_def panic_free split: if_splits)

lemma scan_pebs_not_Panic: "safe_reader r \<Longrightarrow> scan_pebs r ps \<noteq> Panic"
  using for_break_not_Panic [of "[0..<65536]" "scan_peb r ps"] scan_peb_not_Panic [of r ps]
  by (auto simp: scan_pebs_def and_then_Panic_iff split: if_splits)

lemma volume_table_not_Panic:
  assumes "safe_reader r" shows "read_volume_table r m ls \<noteq> Panic"
proof -
  have "read_volume_record r b i \<noteq> Panic" for b i
    using assms by (auto simp: read_volume_record_def Let_def panic_free split: if_splits)
  then have "traverse (read_volume_record r b) xs \<noteq> Panic" for b xs
    by (intro traverse_not_Panic)
  then show ?thesis
    by (auto simp: read_volume_table_def Let_def and_then_Panic_iff split: option.splits)
qed

lemma ubi_children_form:
  assumes "ubi_children r = Ok cs"
  obtains maps ls where "btree maps" "cs = sort_key index (List.map_filter (ubi_child r ls) maps)"
  using assms by (auto simp: ubi_children_def Let_def ok_iff dest!: scan_pebs_ok simp: maps_ok_def)

lemma ubi_child_indices:
  "btree maps \<Longrightarrow> distinct (map index (List.map_filter (ubi_child r ls) maps))"
proof (induction maps)
  case (Cons x maps)
  have "index c \<in> set (map fst maps)" if "c \<in> set (List.map_filter (ubi_child r ls) maps)" for c
    using that by (force simp: List.map_filter_def ubi_child_def split: if_splits)
  moreover have "index c = fst x" if "ubi_child r ls x = Some c" for c
    using that by (auto simp: ubi_child_def split: prod.splits if_splits)
  moreover have "fst x \<notin> set (map fst maps)" and "btree maps"
    using Cons.prems by (auto simp: btree_def)
  ultimately show ?case
    using Cons.IH by (cases "ubi_child r ls x") (auto simp: List.map_filter_simps)
qed (simp add: List.map_filter_simps)

interpretation ubi: safe_container ubi_children
proof (rule safe_container.intro)
  show "ubi_children r \<noteq> Panic" if "safe_reader r" for r
    using that detect_peb_size_not_Panic scan_pebs_not_Panic volume_table_not_Panic
    by (auto simp: ubi_children_def Let_def and_then_Panic_iff)
next
  fix r cs c assume r: "safe_reader r" and cs: "ubi_children r = Ok cs" "c \<in> set cs"
  then obtain m ls where "child_reader c = ubi_volume_reader r m ls"
    by (auto elim!: ubi_children_form simp: List.map_filter_def ubi_child_def split: if_splits)
  with r show "safe_reader (child_reader c)" by (simp add: ubi_volume_safe)
next
  fix r cs assume "ubi_children r = Ok cs"
  then obtain maps ls where "btree maps" and cs: "cs = sort_key index (List.map_filter (ubi_child r ls) maps)"
    by (rule ubi_children_form)
  then have "distinct (map index (List.map_filter (ubi_child r ls) maps))"
    by (simp add: ubi_child_indices)
  then show "distinct (map index cs)"
    using cs by (simp add: distinct_map distinct_sort)
qed

section \<open>Properties\<close>


definition ubi_flash :: bytes where
  "ubi_flash = image_of 256 (\<lambda>i.
     if 128 \<le> i \<and> i < 132 then [0x55, 0x42, 0x49, 0x23] ! (i - 128)
     else if i = 147 then 64 else if i = 151 then 96
     else if 192 \<le> i \<and> i < 196 then [0x55, 0x42, 0x49, 0x21] ! (i - 192)
     else if i = 203 then 5 else if i = 207 then 2 else if i = 215 then 9 else 0)"

definition ubi_before :: ubi_scan where
  "ubi_before = \<lparr>vol_maps = [(5, [(2, (7, 7)), (3, (8, 8))])], vid_hdr_offset = 64, data_offset = 96\<rparr>"


text \<open>
  C19. Reading a whole volume gives, logical block by logical block, the bytes of the
  physical block the scan chose, and zeros for a logical block that has none: the reader
  that puts a volume together is a reader of that content.
\<close>

theorem ubi_volume_content:
  assumes "exact_reader parent data"
    and "backed data (unat leb_size) (unat (ubi_virtual_size leb_map leb_size)) (ubi_locate leb_map)"
    and "unat (ubi_virtual_size leb_map leb_size) \<le> MAX_SIZE"
  shows "read_all (ubi_volume_reader parent leb_map leb_size) =
    Ok (flat data (unat leb_size) (unat (ubi_virtual_size leb_map leb_size)) (ubi_locate leb_map))"
  by (rule ubi_volume.flat_read_all [OF assms])

theorem ubi_volume_content_witness:
  "read_all (ubi_volume_reader (bytes_reader [1, 2, 3, 4, 5, 6]) [(0, (4, 0)), (2, (1, 0))] 2) = Ok [5, 6, 0, 0, 2, 3]"
proof -
  have vs: "ubi_virtual_size [(0, (4, 0)), (2, (1, 0))] 2 = 6"
    by (simp add: ubi_virtual_size_def btree_max_def)
  have three: "i * 2 < 6 \<Longrightarrow> i = 0 \<or> i = 1 \<or> i = (2 :: nat)" for i by auto
  have backed: "backed [1, 2, 3, 4, 5, 6] 2 6 (ubi_locate [(0, (4, 0)), (2, (1, 0))])"
    unfolding backed_def by (auto dest!: three simp: ubi_locate_def btree_get_def)
  have "flat [1, 2, 3, 4, 5, 6] 2 6 (ubi_locate [(0, (4, 0)), (2, (1, 0))]) = [5, 6, 0, 0, 2, 3]"
    by (simp add: flat_def flat_byte_def block_source_def ubi_locate_def btree_get_def upt_rec)
  with ubi_volume_content [OF bytes.exact_reader_axioms, of "[1, 2, 3, 4, 5, 6]" 2 "[(0, (4, 0)), (2, (1, 0))]"]
  show ?thesis using vs backed by (simp add: MAX_SIZE_def)
qed

text \<open>
  The probe for the size of an erase block stops at the first candidate that carries a
  header, and 128 KiB comes first: on flash with blocks of 64 KiB, whose every second block
  starts at a multiple of 128 KiB, it answers 128 KiB, and 64 KiB is never found.
\<close>

theorem ubi_small_blocks_missed:
  assumes "read_be32 r 0 = Ok EC_HDR_MAGIC" and "read_be32 r 65536 = Ok EC_HDR_MAGIC"
    and "read_be32 r 131072 = Ok EC_HDR_MAGIC"
  shows "detect_peb_size r \<noteq> Ok 65536 \<and> (safe_reader r \<longrightarrow> detect_peb_size r = Ok 131072)"
proof (cases "read_be32 r 262144")
  case Panic
  then show ?thesis
    using assms safe_reader.fixed_reads_not_Panic(6) [of r]
    by (auto simp: detect_peb_size_def PEB_SIZES_def probe_peb_size_def)
qed (use assms in \<open>auto simp: detect_peb_size_def PEB_SIZES_def probe_peb_size_def\<close>)

definition headers_everywhere :: reader where
  "headers_everywhere = \<lparr>read_at = (\<lambda>off n. Ok (take n [0x55, 0x42, 0x49, 0x23])), rsize = None\<rparr>"

theorem ubi_small_blocks_missed_witness: "detect_peb_size headers_everywhere = Ok 131072"
proof -
  have safe: "safe_reader headers_everywhere"
    by unfold_locales (auto simp: headers_everywhere_def)
  have "read_be32 headers_everywhere off = Ok EC_HDR_MAGIC" for off
    by (simp add: headers_everywhere_def read_defs read_exactly_def from_be_def EC_HDR_MAGIC_def)
  with ubi_small_blocks_missed [of headers_everywhere] safe show ?thesis by simp
qed

end
