(* ===== verification/Pt_Acorn.thy ===== *)
theory Pt_Acorn
  imports Tables Checksum
begin

text \<open>
  The Acorn partition schemes (\<^verbatim>\<open>container/pt/acorn/*.rs\<close>): PowerTec, ICS, EESOX, the
  Cumana chain and ADFS with its RISCiX and Linux tables. Each works on whole sectors of
  512 bytes; the fixed positions it reads in a sector are inside of it.
\<close>

section \<open>Sectors and disc records\<close>

definition read_sector :: "reader \<Rightarrow> u64 \<Rightarrow> bytes io" where
  "read_sector reader sector = read_exactly reader (sector * 512) 512"

definition sector_le32 :: "bytes \<Rightarrow> nat \<Rightarrow> u32" where
  "sector_le32 data off = from_le [data ! off, data ! (off + 1), data ! (off + 2), data ! (off + 3)]"

definition eesox_decrypt :: "bytes \<Rightarrow> bytes" where
  "eesox_decrypt data = xor_decrypt data (ascii ''Neil Critchell  '')"

record disc_record =
  secspertrack :: u8
  heads :: u8
  lowsector :: u8
  disc_size :: u32
  disc_size_high :: u32

definition disc_record_parse :: "bytes \<Rightarrow> disc_record option" where
  "disc_record_parse data =
     (if length data < 0x1c0 + 48 then None
      else let dr = drop 0x1c0 data in
        Some \<lparr>secspertrack = dr ! 1, heads = dr ! 2, lowsector = dr ! 8,
              disc_size = from_le [dr ! 16, dr ! 17, dr ! 18, dr ! 19],
              disc_size_high = from_le [dr ! 36, dr ! 37, dr ! 38, dr ! 39]\<rparr>)"

definition sectors :: "disc_record \<Rightarrow> u64" where
  "sectors dr = push_bit 23 (ucast (disc_size_high dr)) OR drop_bit 9 (ucast (disc_size dr))"

definition effective_heads :: "disc_record \<Rightarrow> u64" where
  "effective_heads dr = ucast (heads dr) + (if lowsector dr AND 0x40 \<noteq> 0 then 1 else 0)"

definition boot_cylinder :: "bytes \<Rightarrow> u64" where
  "boot_cylinder boot = push_bit 8 (ucast (boot ! 0x1fe)) OR ucast (boot ! 0x1fd)"

section \<open>PowerTec\<close>

definition powertec_round :: "reader \<Rightarrow> bytes \<Rightarrow> nat \<Rightarrow> child list \<times> u32 \<Rightarrow> (child list \<times> u32) flow io" where
  "powertec_round reader sector i s =
     (let entry_off = i * 28 in
      if entry_off + 28 > 512 then Ok (Break s)
      else let start = sector_le32 sector (entry_off + 8); sz = sector_le32 sector (entry_off + 12)
        in if sz > 0 then Ok (Continue (push_slot reader (ucast start * 512) (ucast sz * 512) s))
           else Ok (Continue s))"

definition powertec_children :: container where
  "powertec_children reader =
     and_then (read_sector reader 0) (\<lambda>sector.
     if \<not> powertec sector then Err InvalidData
     else and_then (for_break (powertec_round reader sector) [0..<12] ([], 0)) (\<lambda>s. Ok (fst s)))"

section \<open>ICS\<close>

text \<open>The size is signed: a negative one is not ADFS, and may start with a marker sector.\<close>

definition ics_extent :: "reader \<Rightarrow> u32 \<Rightarrow> u32 \<Rightarrow> (u32 \<times> u32) io" where
  "ics_extent reader start sz =
     (let negative = sint sz < 0; magnitude = (if negative then - sz else sz) in
      if negative \<and> magnitude > 1 then
        match_io (read_sector reader (ucast start))
          (\<lambda>part_sector. if take 9 part_sector = ascii ''LinuxPart''
             then Ok (start + 1, magnitude - 1) else Ok (start, magnitude))
          (Ok (start, magnitude)) Panic
      else Ok (start, magnitude))"

function ics_loop :: "reader \<Rightarrow> bytes \<Rightarrow> nat \<Rightarrow> child list \<times> u32 \<Rightarrow> (child list \<times> u32) io" where
  "ics_loop reader sector off s =
     (if off + 8 \<le> 508 then
        let start = sector_le32 sector off; sz = sector_le32 sector (off + 4) in
        if sz = 0 then Ok s
        else and_then (ics_extent reader start sz) (\<lambda>(actual_start, actual_size).
          ics_loop reader sector (off + 8)
            (if actual_size > 0
             then push_slot reader (ucast actual_start * 512) (ucast actual_size * 512) s else s))
      else Ok s)"
  by pat_completeness auto
termination
  by (relation "measure (\<lambda>(reader, sector, off, s). 508 - off)") auto

declare ics_loop.simps [simp del]

definition ics_children :: container where
  "ics_children reader =
     and_then (read_sector reader 0) (\<lambda>sector.
     if \<not> ics sector then Err InvalidData
     else and_then (ics_loop reader sector 0 ([], 0)) (\<lambda>s. Ok (fst s)))"

section \<open>EESOX\<close>

definition eesox_start :: "bytes \<Rightarrow> nat \<Rightarrow> u64 list \<Rightarrow> u64 list flow io" where
  "eesox_start decrypted i partitions =
     (let entry_off = i * 32 in
      if entry_off + 32 > 256 then Ok (Break partitions)
      else if take 5 (drop entry_off decrypted) \<noteq> ascii ''Eesox'' then Ok (Break partitions)
      else Ok (Continue (partitions @ [ucast (sector_le32 decrypted (entry_off + 16))])))"

text \<open>The last partition has no end: it reaches up to the last sector an offset can name.\<close>

definition eesox_entry :: "u64 list \<Rightarrow> reader \<Rightarrow> nat \<Rightarrow> child option io" where
  "eesox_entry partitions reader i =
     (let start = partitions ! i;
          end_sect = (if i + 1 < length partitions then partitions ! (i + 1) else - 1 div 512);
          sz = saturating_sub end_sect start
      in if sz > 0 then Ok (Some (slice_child reader (word_of_nat i) (start * 512) (sz * 512)))
         else Ok None)"

definition eesox_children :: container where
  "eesox_children reader =
     and_then (read_sector reader 7) (\<lambda>sector.
     and_then (for_break (eesox_start (eesox_decrypt (take 256 sector))) [0..<8] []) (\<lambda>partitions.
     if partitions = [] then Err InvalidData
     else collect (eesox_entry partitions reader) [0..<length partitions]))"

section \<open>RISCiX and Linux tables\<close>

definition RISCIX_MAGIC :: u32 where "RISCIX_MAGIC = 0x4a657320"
definition LINUX_NATIVE_MAGIC :: u32 where "LINUX_NATIVE_MAGIC = 0xdeafa1de"
definition LINUX_SWAP_MAGIC :: u32 where "LINUX_SWAP_MAGIC = 0xdeafab1e"

definition riscix_entry :: "reader \<Rightarrow> bytes \<Rightarrow> nat \<Rightarrow> child list \<times> u32 \<Rightarrow> child list \<times> u32" where
  "riscix_entry reader sector i s =
     (let entry_off = 8 + i * 28;
          part_start = sector_le32 sector entry_off;
          len = sector_le32 sector (entry_off + 4);
          one = sector_le32 sector (entry_off + 8);
          name = take 16 (drop (entry_off + 12) sector)
      in if one = 0 \<or> take 4 name = ascii ''All'' @ [0] then s
         else if part_start > 0 \<and> len > 0 then push_slot reader (ucast part_start * 512) (ucast len * 512) s
         else s)"

definition riscix_entries :: "reader \<Rightarrow> bytes \<Rightarrow> child list \<times> u32 \<Rightarrow> child list \<times> u32" where
  "riscix_entries reader sector s = fold (riscix_entry reader sector) [0..<8] s"

function linux_entries :: "reader \<Rightarrow> u64 \<Rightarrow> bytes \<Rightarrow> nat \<Rightarrow> child list \<times> u32 \<Rightarrow> child list \<times> u32" where
  "linux_entries reader start_sect sector off s =
     (if off + 12 > 512 then s
      else let magic = sector_le32 sector off in
        if magic \<noteq> LINUX_NATIVE_MAGIC \<and> magic \<noteq> LINUX_SWAP_MAGIC then s
        else let part_start = sector_le32 sector (off + 4); part_size = sector_le32 sector (off + 8)
          in linux_entries reader start_sect sector (off + 12)
               (if part_start > 0 \<and> part_size > 0
                then push_slot reader ((start_sect + ucast part_start) * 512) (ucast part_size * 512) s
                else s))"
  by pat_completeness auto
termination
  by (relation "measure (\<lambda>(reader, st, sector, off, s). 512 - off)") auto

declare linux_entries.simps [simp del]

section \<open>Cumana\<close>

definition parse_riscix_cumana :: "reader \<Rightarrow> u64 \<Rightarrow> child list \<times> u32 \<Rightarrow> (child list \<times> u32) io" where
  "parse_riscix_cumana reader start_sect s =
     and_then (read_sector reader start_sect) (\<lambda>sector.
     let s1 = push_slot reader (start_sect * 512) (2 * 512) s in
     if sector_le32 sector 0 \<noteq> RISCIX_MAGIC then Ok s1
     else Ok (riscix_entries reader sector s1))"

definition parse_linux_cumana :: "reader \<Rightarrow> u64 \<Rightarrow> child list \<times> u32 \<Rightarrow> (child list \<times> u32) io" where
  "parse_linux_cumana reader start_sect s =
     and_then (read_sector reader start_sect) (\<lambda>sector.
     Ok (linux_entries reader start_sect sector 0 (push_slot reader (start_sect * 512) (2 * 512) s)))"

text \<open>The state: children and slot, the block of the next boot block, the next first sector.\<close>

type_synonym cumana_state = "(child list \<times> u32) \<times> u64 \<times> u64"

definition cumana_adfs :: "reader \<Rightarrow> disc_record \<Rightarrow> u64 \<Rightarrow> child list \<times> u32 \<Rightarrow> child list \<times> u32" where
  "cumana_adfs reader dr first_sector s =
     (let nr_sects = sectors dr in
      if nr_sects > 0 then push_slot reader (first_sector * 512) (nr_sects * 512) s else s)"

definition cumana_round :: "reader \<Rightarrow> nat \<Rightarrow> cumana_state \<Rightarrow> cumana_state flow io" where
  "cumana_round reader _ = (\<lambda>(s, start_blk, first_sector).
     let stop = Ok (Break (s, start_blk, first_sector)) in
     match_io (read_sector reader (start_blk * 2 + 6))
       (\<lambda>boot.
          if \<not> adfs boot then stop
          else (case disc_record_parse boot of
             None \<Rightarrow> stop
           | Some dr \<Rightarrow>
               if disc_size dr = 0 \<and> disc_size_high dr = 0 then stop
               else let s1 = cumana_adfs reader dr first_sector s;
                        sectscyl = ucast (secspertrack dr) * effective_heads dr;
                        next_sects = boot_cylinder boot * sectscyl
                 in if next_sects = 0 then Ok (Break (s1, start_blk, first_sector))
                    else let first' = first_sector + next_sects;
                             blk' = start_blk + drop_bit 1 next_sects;
                             part_type = boot ! 0x1fc AND 0x0f
                      in if part_type = 0 then Ok (Continue (s1, blk', first'))
                         else if part_type = 1 \<or> part_type = 2 then
                           and_then (parse_riscix_cumana reader first' s1) (\<lambda>t. Ok (Break (t, blk', first')))
                         else if part_type = 9 then
                           and_then (parse_linux_cumana reader first' s1) (\<lambda>t. Ok (Break (t, blk', first')))
                         else Ok (Break (s1, blk', first'))))
       stop Panic)"

definition cumana_children :: container where
  "cumana_children reader =
     and_then (for_break (cumana_round reader) [0..<64] (([], 0), 0, 0)) (\<lambda>(s, _). Ok (fst s))"

section \<open>ADFS\<close>

definition parse_riscix :: "reader \<Rightarrow> u64 \<Rightarrow> child list \<Rightarrow> child list io" where
  "parse_riscix reader start_sect children =
     and_then (read_sector reader start_sect) (\<lambda>sector.
     if sector_le32 sector 0 \<noteq> RISCIX_MAGIC then
       let start = start_sect * 512 in Ok (children @ [slice_child reader 1 start (- 1 - start)])
     else Ok (fst (riscix_entries reader sector
            (children @ [slice_child reader 1 (start_sect * 512) (2 * 512)], 2))))"

definition parse_linux :: "reader \<Rightarrow> u64 \<Rightarrow> child list \<Rightarrow> child list io" where
  "parse_linux reader start_sect children =
     and_then (read_sector reader start_sect) (\<lambda>sector.
     Ok (fst (linux_entries reader start_sect sector 0
            (children @ [slice_child reader 1 (start_sect * 512) (2 * 512)], 2))))"

definition adfs_children :: container where
  "adfs_children reader =
     and_then (read_sector reader 6) (\<lambda>boot.
     if \<not> adfs boot then Err InvalidData
     else
       and_then (ok_or (disc_record_parse boot) InvalidData) (\<lambda>dr.
       if disc_size dr = 0 \<and> disc_size_high dr = 0 then Err InvalidData
       else let nr_sects = sectors dr;
                children = (if nr_sects > 0 then [slice_child reader 0 0 (nr_sects * 512)] else []);
                part_type = boot ! 0x1fc AND 0x0f
         in if part_type = 0 then Ok children
            else let sectscyl = ucast (secspertrack dr) * effective_heads dr;
                     start_sect = boot_cylinder boot * sectscyl
              in if start_sect = 0 then Ok children
                 else let start = start_sect * 512 in
                   if part_type = 1 \<or> part_type = 2 then parse_riscix reader start_sect children
                   else if part_type = 9 then parse_linux reader start_sect children
                   else Ok (children @ [slice_child reader 1 start (- 1 - start)])))"

section \<open>Contracts\<close>

lemma slotted_if:
  "slotted r k s \<Longrightarrow> k < 2 ^ 32 - 1 \<Longrightarrow> slotted r (Suc k) (if b then push_slot r x n s else s)"
  by (auto intro: slotted_push slotted_mono)

lemma read_sector_not_Panic [panic_free]: "safe_reader r \<Longrightarrow> read_sector r n \<noteq> Panic"
  by (simp add: read_sector_def panic_free)

text \<open>PowerTec: at most twelve entries.\<close>

lemma powertec_round_slotted:
  assumes "slotted r k s" "k < 2 ^ 32 - 1"
    and "powertec_round r sec i s = Ok (Continue t) \<or> powertec_round r sec i s = Ok (Break t)"
  shows "slotted r (Suc k) t"
  using assms slotted_push [OF assms(1,2)] slotted_mono [OF assms(1), of "Suc k"]
  by (auto simp: powertec_round_def Let_def split: if_splits)

lemma for_break_slotted:
  assumes "for_break f xs s = Ok t" and "slotted r k s" "k + length xs < 2 ^ 32"
    and "\<And>j x u v. slotted r j u \<Longrightarrow> j < 2 ^ 32 - 1 \<Longrightarrow>
      f x u = Ok (Continue v) \<or> f x u = Ok (Break v) \<Longrightarrow> slotted r (Suc j) v"
  shows "slotted r (k + length xs) t"
  using assms
proof (induction xs arbitrary: s k)
  case Nil
  then show ?case by simp
next
  case (Cons x xs)
  from Cons.prems(1) obtain c where c: "f x s = Ok c"
    and rest: "(case c of Continue u \<Rightarrow> for_break f xs u | Break u \<Rightarrow> Ok u) = Ok t"
    by (auto elim: and_then_Ok_E)
  have room: "k < 2 ^ 32 - 1" using Cons.prems(3) by simp
  show ?case
  proof (cases c)
    case (Continue u)
    have "slotted r (Suc k) u"
      using Cons.prems(4) [OF Cons.prems(2) room] c Continue by blast
    then have "slotted r (Suc k + length xs) t"
      using Cons.IH [of u "Suc k"] Cons.prems(3,4) rest Continue by simp
    then show ?thesis by simp
  next
    case (Break u)
    have "slotted r (Suc k) u"
      using Cons.prems(4) [OF Cons.prems(2) room] c Break by blast
    with Break rest show ?thesis by (auto intro: slotted_mono)
  qed
qed

lemma powertec_slotted:
  assumes "powertec_children r = Ok cs" shows "\<exists>slot. slotted r 12 (cs, slot)"
proof -
  from assms obtain sec slot where "for_break (powertec_round r sec) [0..<12] ([], 0) = Ok (cs, slot)"
    by (auto simp: powertec_children_def ok_iff split: if_splits)
  from for_break_slotted [OF this, of r 0] powertec_round_slotted show ?thesis by fastforce
qed

lemma powertec_children_not_Panic: "safe_reader r \<Longrightarrow> powertec_children r \<noteq> Panic"
  using for_break_not_Panic [of "[0..<12]" "powertec_round r _"]
  by (auto simp: powertec_children_def powertec_round_def Let_def panic_free
      intro!: for_break_not_Panic split: if_splits)

interpretation powertec: partition_table powertec_children
  by (rule slotted_partition_table [OF powertec_children_not_Panic], assumption, rule exI [of _ 12])
    (rule powertec_slotted)

text \<open>ICS: one step of the loop.\<close>

lemma ics_loop_slotted:
  assumes "ics_loop r sec off s = Ok t" and "slotted r k s" "k + (508 - off) < 2 ^ 32 - 1"
  shows "slotted r (k + (508 - off)) t"
  using assms
proof (induction r sec off s arbitrary: k rule: ics_loop.induct)
  case (1 r sec off s)
  show ?case
  proof (cases "off + 8 \<le> 508 \<and> sector_le32 sec (off + 4) \<noteq> 0")
    case False
    with "1.prems"(1) have "t = s"
      by (subst (asm) ics_loop.simps) (simp add: Let_def split: if_splits)
    with "1.prems"(2) show ?thesis by (auto intro: slotted_mono)
  next
    case True
    define next_s where "next_s = (\<lambda>(a :: u32, n :: u32). if n > 0 then push_slot r (ucast a * 512) (ucast n * 512) s else s)"
    from True "1.prems"(1) obtain an where an: "ics_extent r (sector_le32 sec off) (sector_le32 sec (off + 4)) = Ok an"
      and rest: "ics_loop r sec (off + 8) (next_s an) = Ok t"
      by (subst (asm) ics_loop.simps) (auto simp: Let_def and_then_Ok_iff next_s_def)
    have "slotted r (Suc k) (next_s an)"
      using "1.prems"(2,3) True slotted_push [OF "1.prems"(2)] slotted_mono [OF "1.prems"(2), of "Suc k"]
      unfolding next_s_def by (cases an) auto
    moreover have "slotted r (Suc k + (508 - (off + 8))) t" if "slotted r (Suc k) (next_s an)"
      using "1.IH" [OF conjunct1 [OF True] refl refl conjunct2 [OF True] an, of "fst an" "snd an" "Suc k"]
        that rest True "1.prems"(3) by (simp add: next_s_def split_beta)
    ultimately show ?thesis using True by (auto intro: slotted_mono)
  qed
qed

lemma ics_extent_not_Panic [panic_free]: "safe_reader r \<Longrightarrow> ics_extent r start n \<noteq> Panic"
  by (auto simp: ics_extent_def Let_def panic_free split: if_splits)

lemma ics_loop_not_Panic: "safe_reader r \<Longrightarrow> ics_loop r sec off s \<noteq> Panic"
proof (induction r sec off s rule: ics_loop.induct)
  case (1 r sec off s)
  from "1.prems" show ?case
    by (subst ics_loop.simps) (auto simp: Let_def panic_free "1.IH" split: if_splits)
qed

lemma ics_slotted: "ics_children r = Ok cs \<Longrightarrow> \<exists>slot. slotted r 508 (cs, slot)"
  using ics_loop_slotted [of r _ 0 "([], 0)" _ 0]
  by (fastforce simp: ics_children_def ok_iff split: if_splits)

lemma ics_children_not_Panic: "safe_reader r \<Longrightarrow> ics_children r \<noteq> Panic"
  by (auto simp: ics_children_def panic_free ics_loop_not_Panic split: if_splits)

interpretation ics: partition_table ics_children
  by (rule slotted_partition_table [OF ics_children_not_Panic], assumption, rule exI [of _ 508])
    (rule ics_slotted)

text \<open>EESOX: at most eight starts, one entry each.\<close>

interpretation eesox_rows: entry_table "eesox_entry partitions" for partitions
  by unfold_locales (auto simp: eesox_entry_def Let_def split: if_splits)

lemma eesox_start_growth:
  "eesox_start d i u = Ok (Continue v) \<or> eesox_start d i u = Ok (Break v) \<Longrightarrow> length v \<le> Suc (length u)"
  by (auto simp: eesox_start_def Let_def split: if_splits)

lemma eesox_starts_length:
  assumes "for_break (eesox_start d) [0..<8] [] = Ok ps" shows "length ps \<le> 8"
  using for_break_growth [OF assms, of length] eesox_start_growth by fastforce

lemma eesox_rows_of:
  assumes "eesox_children r = Ok cs"
  obtains ps where "length ps \<le> 8" "collect (eesox_entry ps r) [0..<length ps] = Ok cs"
  using assms eesox_starts_length by (auto simp: eesox_children_def ok_iff split: if_splits)

lemma eesox_children_not_Panic: "safe_reader r \<Longrightarrow> eesox_children r \<noteq> Panic"
  using eesox_rows.rows_no_panic
  by (auto simp: eesox_children_def eesox_start_def Let_def panic_free
      intro!: for_break_not_Panic split: if_splits)

interpretation eesox: partition_table eesox_children
proof (rule partition_table.intro)
  show "eesox_children r \<noteq> Panic" if "safe_reader r" for r
    using that by (rule eesox_children_not_Panic)
  show "window_of r c" if "eesox_children r = Ok cs" "c \<in> set cs" for r cs c
    using that by (auto elim!: eesox_rows_of intro: eesox_rows.rows_windows)
  show "distinct (map index cs)" if "eesox_children r = Ok cs" for r cs
    using that by (auto elim!: eesox_rows_of intro: eesox_rows.rows_distinct)
qed

text \<open>The tables inside of a sector.\<close>

lemma riscix_entry_slotted:
  "slotted r k s \<Longrightarrow> k < 2 ^ 32 - 1 \<Longrightarrow> slotted r (Suc k) (riscix_entry r sec i s)"
  using slotted_push [of r k s] slotted_mono [of r k s "Suc k"] by (auto simp: riscix_entry_def Let_def)

lemma riscix_fold_slotted:
  "slotted r k s \<Longrightarrow> k + length xs < 2 ^ 32 \<Longrightarrow> slotted r (k + length xs) (fold (riscix_entry r sec) xs s)"
proof (induction xs arbitrary: k s)
  case (Cons x xs)
  then have "slotted r (Suc k) (riscix_entry r sec x s)" by (intro riscix_entry_slotted) simp_all
  from Cons.IH [OF this] Cons.prems(2) show ?case by simp
qed simp

lemma riscix_slotted: "slotted r k s \<Longrightarrow> k < 2 ^ 31 \<Longrightarrow> slotted r (k + 8) (riscix_entries r sec s)"
  using riscix_fold_slotted [of r k s "[0..<8]" sec] by (simp add: riscix_entries_def)

lemma linux_slotted:
  assumes "slotted r k s" and "k + (512 - off) < 2 ^ 32 - 1"
  shows "slotted r (k + (512 - off)) (linux_entries r st sec off s)"
  using assms
proof (induction r st sec off s arbitrary: k rule: linux_entries.induct)
  case (1 r st sec off s)
  show ?case
  proof (cases "linux_entries r st sec off s = s")
    case True
    with "1.prems"(1) show ?thesis by (auto intro: slotted_mono)
  next
    case False
    let ?s = "if sector_le32 sec (off + 4) > 0 \<and> sector_le32 sec (off + 8) > 0
      then push_slot r ((st + ucast (sector_le32 sec (off + 4))) * 512) (ucast (sector_le32 sec (off + 8)) * 512) s else s"
    have off: "\<not> off + 12 > 512"
      and m: "\<not> (sector_le32 sec off \<noteq> LINUX_NATIVE_MAGIC \<and> sector_le32 sec off \<noteq> LINUX_SWAP_MAGIC)"
      using False by (subst (asm) linux_entries.simps, simp add: Let_def split: if_splits)+
    have eq: "linux_entries r st sec off s = linux_entries r st sec (off + 12) ?s"
      by (subst linux_entries.simps) (simp only: Let_def if_not_P [OF off] if_not_P [OF m])
    have "slotted r (Suc k) ?s"
      using "1.prems" off by (intro slotted_if) simp_all
    then have "slotted r (Suc k + (512 - (off + 12))) (linux_entries r st sec (off + 12) ?s)"
      using "1.IH" [OF off refl m refl refl, of "Suc k"] "1.prems"(2) off by simp
    then show ?thesis unfolding eq by (rule slotted_mono) (use off in simp)
  qed
qed

text \<open>Cumana: every round pushes its own partition and at most one table.\<close>

definition cumana_ok :: "reader \<Rightarrow> nat \<Rightarrow> cumana_state \<Rightarrow> bool" where
  "cumana_ok r k = (\<lambda>(s, _). slotted r k s)"

lemma cumana_parts_slotted:
  assumes "slotted r k s" "k < 2 ^ 31"
  shows "parse_riscix_cumana r st s = Ok t \<Longrightarrow> slotted r (k + 513) t"
    and "parse_linux_cumana r st s = Ok t \<Longrightarrow> slotted r (k + 513) t"
proof -
  have s1: "slotted r (Suc k) (push_slot r (st * 512) 1024 s)"
    using assms by (intro slotted_push) simp_all
  have entries: "slotted r (Suc k + 8) (riscix_entries r sec (push_slot r (st * 512) 1024 s))" for sec
    using s1 assms(2) riscix_fold_slotted [of r "Suc k" _ "[0..<8]" sec] by (simp add: riscix_entries_def)
  then show "slotted r (k + 513) t" if "parse_riscix_cumana r st s = Ok t"
    using that by (auto simp: parse_riscix_cumana_def Let_def ok_iff
        intro: slotted_mono [OF s1] slotted_mono [OF entries] split: if_splits)
  have entries: "slotted r (Suc k + 512) (linux_entries r st sec 0 (push_slot r (st * 512) 1024 s))" for sec
    using linux_slotted [OF s1, of 0 st sec] assms(2) by simp
  then show "slotted r (k + 513) t" if "parse_linux_cumana r st s = Ok t"
    using that by (auto simp: parse_linux_cumana_def ok_iff intro: slotted_mono [OF entries])
qed

lemma cumana_round_ok:
  assumes "cumana_ok r k s" "k < 2 ^ 30"
    and "cumana_round r i s = Ok (Continue t) \<or> cumana_round r i s = Ok (Break t)"
  shows "cumana_ok r (k + 514) t"
proof -
  obtain u blk first where s: "s = (u, blk, first)" by (cases s) auto
  have u: "slotted r k u" using assms(1) by (simp add: cumana_ok_def s)
  have adfs: "slotted r (Suc k) (cumana_adfs r dr first u)" for dr
    using u assms(2) slotted_push [OF u] slotted_mono [OF u, of "Suc k"] by (auto simp: cumana_adfs_def Let_def)
  have parts: "slotted r (k + 514) v"
    if "parse_riscix_cumana r st (cumana_adfs r dr first u) = Ok v
      \<or> parse_linux_cumana r st (cumana_adfs r dr first u) = Ok v" for st dr v
  proof -
    have "Suc k < 2 ^ 31" using assms(2) by simp
    with that have "slotted r (Suc k + 513) v"
      using cumana_parts_slotted [OF adfs] by blast
    moreover have "Suc k + 513 = k + 514" by simp
    ultimately show ?thesis by (simp only:)
  qed
  have own: "slotted r (k + 514) v" if "cumana_adfs r dr first u = v" for dr v
    using slotted_mono [OF adfs, of "k + 514" dr] that by simp
  note step = slotted_mono [OF u, of "k + 514"] slotted_mono [OF adfs, of "k + 514"] own
    parts [OF disjI1] parts [OF disjI2]
  show ?thesis
    using assms(3) unfolding cumana_round_def cumana_ok_def s
    by (auto simp: Let_def ok_iff intro: step split: if_splits option.splits)
qed

lemma cumana_slotted:
  assumes "cumana_children r = Ok cs" shows "\<exists>slot. slotted r 32896 (cs, slot)"
proof -
  from assms obtain t where t: "for_break (cumana_round r) [0..<64] (([], 0), 0, 0) = Ok t" and cs: "cs = fst (fst t)"
    by (auto simp: cumana_children_def ok_iff split_beta)
  have "cumana_ok r (0 + 514 * length [0..<64]) t"
  proof (rule for_break_count [OF t, of "cumana_ok r"])
    show "cumana_ok r 0 (([], 0), 0, 0)" by (simp add: cumana_ok_def)
    show "cumana_ok r (j + 514) u" if "cumana_ok r j u" for j u
      using that by (auto simp: cumana_ok_def intro: slotted_mono)
    show "cumana_ok r (0 + 514 * Suc j) v"
      if "j < length [0..<64]" "cumana_ok r (0 + 514 * j) u"
        "cumana_round r x u = Ok (Continue v) \<or> cumana_round r x u = Ok (Break v)" for x u v j
      using cumana_round_ok [OF that(2) _ that(3)] that(1) by (simp add: ac_simps)
  qed
  with cs show ?thesis by (cases t) (auto simp: cumana_ok_def)
qed

lemma cumana_round_not_Panic: "safe_reader r \<Longrightarrow> cumana_round r i s \<noteq> Panic"
  by (auto simp: cumana_round_def parse_riscix_cumana_def parse_linux_cumana_def Let_def panic_free
      split: if_splits option.splits prod.splits)

lemma cumana_children_not_Panic: "safe_reader r \<Longrightarrow> cumana_children r \<noteq> Panic"
  using for_break_not_Panic [of "[0..<64]" "cumana_round r"] cumana_round_not_Panic [of r]
  by (auto simp: cumana_children_def and_then_Panic_iff)

interpretation cumana: partition_table cumana_children
  by (rule slotted_partition_table [OF cumana_children_not_Panic], assumption, rule exI [of _ 32896])
    (rule cumana_slotted)

text \<open>ADFS: index 0 is the ADFS partition, index 1 the area behind it.\<close>

lemma counted_pair [simp]: "counted [c] k \<longleftrightarrow> index c < k"
  "counted [c, d] k \<longleftrightarrow> index c < index d \<and> index c < k \<and> index d < k"
  by (auto simp: counted_def)

definition adfs_primary :: "reader \<Rightarrow> child list \<Rightarrow> bool" where
  "adfs_primary r cs \<longleftrightarrow> cs = [] \<or> (\<exists>n. cs = [slice_child r 0 0 n])"

lemma adfs_second: "adfs_primary r cs \<Longrightarrow> slotted r 2 (cs @ [slice_child r 1 s n], 2)"
  by (auto simp: adfs_primary_def slotted_def)

lemma adfs_tables_slotted:
  assumes "adfs_primary r cs"
  shows "parse_riscix r st cs = Ok ds \<Longrightarrow> \<exists>slot. slotted r 514 (ds, slot)"
    and "parse_linux r st cs = Ok ds \<Longrightarrow> \<exists>slot. slotted r 514 (ds, slot)"
proof -
  show "\<exists>slot. slotted r 514 (ds, slot)" if "parse_riscix r st cs = Ok ds"
  proof -
    from that consider s n where "ds = cs @ [slice_child r 1 s n]"
      | sec s n where "ds = fst (riscix_entries r sec (cs @ [slice_child r 1 s n], 2))"
      by (auto simp: parse_riscix_def Let_def ok_iff split: if_splits)
    then show ?thesis
    proof cases
      case 1
      then have "slotted r 514 (ds, 2)"
        using slotted_mono [OF adfs_second [OF assms], of 514] by simp
      then show ?thesis by blast
    next
      case 2
      have "slotted r 514 (riscix_entries r sec (cs @ [slice_child r 1 s n], 2))"
        by (rule slotted_mono [OF riscix_slotted [OF adfs_second [OF assms]]]) simp_all
      then have "slotted r 514 (ds, snd (riscix_entries r sec (cs @ [slice_child r 1 s n], 2)))"
        using 2 by simp
      then show ?thesis by blast
    qed
  qed
  show "\<exists>slot. slotted r 514 (ds, slot)" if "parse_linux r st cs = Ok ds"
  proof -
    from that obtain sec where ds: "ds = fst (linux_entries r st sec 0 (cs @ [slice_child r 1 (st * 512) 1024], 2))"
      by (auto simp: parse_linux_def ok_iff)
    have "slotted r (2 + (512 - 0)) (linux_entries r st sec 0 (cs @ [slice_child r 1 (st * 512) 1024], 2))"
      by (rule linux_slotted [OF adfs_second [OF assms]]) simp
    with ds show ?thesis by (intro exI [of _ "snd (linux_entries r st sec 0 (cs @ [slice_child r 1 (st * 512) 1024], 2))"]) simp
  qed
qed

lemma adfs_slotted:
  assumes "adfs_children r = Ok cs" shows "\<exists>slot. slotted r 514 (cs, slot)"
proof -
  from assms obtain boot dr where boot: "read_sector r 6 = Ok boot" and dr: "disc_record_parse boot = Some dr"
    by (auto simp: adfs_children_def ok_iff split: if_splits)
  define prim where "prim = (if sectors dr > 0 then [slice_child r 0 0 (sectors dr * 512)] else [])"
  have prim: "adfs_primary r prim" by (auto simp: prim_def adfs_primary_def)
  have one: "slotted r 514 (prim, 2)"
    using prim by (auto simp: adfs_primary_def slotted_def)
  have two: "slotted r 514 (prim @ [slice_child r 1 s n], 2)" for s n
    using adfs_second [OF prim] by (rule slotted_mono) simp
  show ?thesis
    using assms boot dr one two adfs_tables_slotted [OF prim]
    by (auto simp: adfs_children_def Let_def prim_def [symmetric] split: if_splits)
qed

lemma adfs_children_not_Panic: "safe_reader r \<Longrightarrow> adfs_children r \<noteq> Panic"
  by (auto simp: adfs_children_def parse_riscix_def parse_linux_def Let_def panic_free split: if_splits)

interpretation adfs: partition_table adfs_children
  by (rule slotted_partition_table [OF adfs_children_not_Panic], assumption, rule exI [of _ 514])
    (rule adfs_slotted)

section \<open>Properties\<close>

lemma eesox_starts_small:
  assumes "for_break (eesox_start d) xs [] = Ok ps" and "p \<in> set ps"
  shows "unat p < 2 ^ 32"
proof -
  have "\<forall>p\<in>set ps. unat p < 2 ^ 32"
    using assms(1)
    by (rule for_break_inv)
      (auto simp: eesox_start_def Let_def unat_u32_less split: if_splits)
  with assms(2) show ?thesis by blast
qed

text \<open>
  EESOX stores only where partitions start: of two partitions with neighbouring
  numbers the first ends exactly where the second begins, without a gap or an overlap.
\<close>

theorem eesox_partitions_adjacent:
  assumes "eesox_children r = Ok cs" and "c \<in> set cs" and "c' \<in> set cs"
    and "unat (index c') = unat (index c) + 1" and "rsize (child_reader c) = Some n"
  shows "unat (offset c) + unat n = unat (offset c') \<and> 0 < unat n"
proof -
  from assms(1) obtain d ps where ps: "for_break (eesox_start d) [0..<8] [] = Ok ps"
    and rows: "collect (eesox_entry ps r) [0..<length ps] = Ok cs"
    by (auto simp: eesox_children_def ok_iff split: if_splits)
  let ?i = "unat (index c)"
  have len: "length ps \<le> 2 ^ 32" using eesox_starts_length [OF ps] by simp
  note below = eesox_rows.rows_below [OF rows len] and at = eesox_rows.rows_at [OF rows len]
  have i: "Suc ?i < length ps" using below [OF assms(3)] assms(4) by simp
  then have small: "unat (ps ! ?i) < 2 ^ 32" "unat (ps ! Suc ?i) < 2 ^ 32"
    using eesox_starts_small [OF ps] by simp_all
  from at [OF assms(2)] i have c: "c = slice_child r (index c) (ps ! ?i * 512) ((ps ! Suc ?i - ps ! ?i) * 512)"
    and lt: "ps ! ?i < ps ! Suc ?i"
    by (auto simp: eesox_entry_def saturating_sub_def Let_def order_le_less split: if_splits)
  from at [OF assms(3)] assms(4) have c': "offset c' = ps ! Suc ?i * 512"
    by (auto simp: eesox_entry_def Let_def split: if_splits)
  have off: "offset c = ps ! ?i * 512" and n: "n = (ps ! Suc ?i - ps ! ?i) * 512"
    using arg_cong [OF c, of offset] arg_cong [OF c, of "\<lambda>c. rsize (child_reader c)"] assms(5)
    by (simp_all add: slice_reader_def)
  have diff: "unat (ps ! Suc ?i - ps ! ?i) = unat (ps ! Suc ?i) - unat (ps ! ?i)"
    using lt by (simp add: unat_sub less_imp_le)
  have times: "unat (w * 512) = unat w * 512" if "unat w < 2 ^ 32" for w :: u64
    using that by (subst unat_mult_exact) simp_all
  have "unat n = (unat (ps ! Suc ?i) - unat (ps ! ?i)) * 512"
    using times [of "ps ! Suc ?i - ps ! ?i"] small(2) by (simp add: n diff)
  then show ?thesis
    using times [OF small(1)] times [OF small(2)] lt by (simp add: off c' word_less_nat_alt)
qed

definition eesox_plain :: bytes where
  "eesox_plain = image_of 256 (\<lambda>i.
     if i < 5 then ascii ''Eesox'' ! i else if i = 16 then 10
     else if 32 \<le> i \<and> i < 37 then ascii ''Eesox'' ! (i - 32) else if i = 48 then 30 else 0)"

definition eesox_disk :: bytes where
  "eesox_disk = replicate 3584 0 @ eesox_decrypt eesox_plain @ replicate 256 0"

lemma eesox_disk_children:
  "eesox_children (bytes_reader eesox_disk) =
     Ok [slice_child (bytes_reader eesox_disk) 0 5120 10240,
         slice_child (bytes_reader eesox_disk) 1 15360 (saturating_sub (- 1 div 512) 30 * 512)]"
proof -
  have len: "length (eesox_decrypt eesox_plain) = 256"
    by (simp add: eesox_decrypt_def eesox_plain_def)
  then have sector: "read_sector (bytes_reader eesox_disk) 7 = Ok (eesox_decrypt eesox_plain @ replicate 256 0)"
    by (simp add: read_sector_def bytes.read_exactly_eq eesox_disk_def)
  have plain: "eesox_decrypt (take 256 (eesox_decrypt eesox_plain @ replicate 256 0)) = eesox_plain"
    using len by (simp add: eesox_decrypt_def xor_decrypt_twice)
  have starts: "for_break (eesox_start eesox_plain) [0..<8] [] = Ok [10, 30]"
    by (simp add: eesox_start_def eesox_plain_def take_drop_image_of [of _ 0, simplified] take_drop_image_of
        sector_le32_def from_le_def upt_rec Let_def)
  have "eesox_children (bytes_reader eesox_disk) = collect (eesox_entry [10, 30] (bytes_reader eesox_disk)) [0..<2]"
    unfolding eesox_children_def sector and_then.simps plain starts by (simp add: upt_rec)
  then show ?thesis
    by (simp add: eesox_entry_def saturating_sub_def upt_rec Let_def)
qed

theorem eesox_partitions_adjacent_witness:
  "unat (5120 :: u64) + unat (10240 :: u64) = unat (15360 :: u64)"
proof -
  let ?r = "bytes_reader eesox_disk"
  have "unat (offset (slice_child ?r 0 5120 10240)) + unat (10240 :: u64) =
      unat (offset (slice_child ?r 1 15360 (saturating_sub (- 1 div 512) 30 * 512))) \<and> 0 < unat (10240 :: u64)"
    by (rule eesox_partitions_adjacent [OF eesox_disk_children]) (simp_all add: slice_reader_def)
  then show ?thesis by simp
qed

end
