(* ===== verification/Arc.thy ===== *)
theory Arc
  imports Tables
begin

text \<open>
  The compressed streams of \<^verbatim>\<open>container/arc\<close>: a container with a single child, the
  decompressed content. The decoders are crates and arguments of the models; the code's own
  part is the bound on what a decoder may produce, the errors, and the header of
  \<^verbatim>\<open>compress\<close>. The locale \<open>stream_container\<close> is the shape all of them have.
\<close>

section \<open>The containers\<close>

text \<open>The child of a transformation: it is no slice, its offset is \<^verbatim>\<open>u64::MAX\<close>.\<close>

definition transformed :: "bytes \<Rightarrow> child" where
  "transformed out = \<lparr>index = 0, offset = - 1, child_reader = bytes_reader out\<rparr>"

definition bzip2_children :: "pull_decoder \<Rightarrow> container" where
  "bzip2_children bz_decoder reader =
     and_then (read_all reader) (\<lambda>compressed.
     and_then (read_to_end_limited (bz_decoder compressed)) (\<lambda>decompressed.
     Ok [transformed decompressed]))"

definition gzip_children :: "pull_decoder \<Rightarrow> container" where
  "gzip_children gz_decoder reader =
     and_then (read_all reader) (\<lambda>compressed.
     and_then (read_to_end_limited (gz_decoder compressed)) (\<lambda>decompressed.
     Ok [transformed decompressed]))"

definition lz4_children :: "pull_decoder \<Rightarrow> container" where
  "lz4_children frame_decoder reader =
     and_then (read_all reader) (\<lambda>compressed.
     and_then (read_to_end_limited (frame_decoder compressed)) (\<lambda>decompressed.
     Ok [transformed decompressed]))"

text \<open>The constructor of the zstd decoder can fail by itself.\<close>

definition zstd_children :: "(bytes \<Rightarrow> error_kind + (bytes \<times> error_kind option)) \<Rightarrow> container" where
  "zstd_children zstd_new reader =
     and_then (read_all reader) (\<lambda>compressed.
     and_then (case zstd_new compressed of Inl e \<Rightarrow> Err e | Inr d \<Rightarrow> Ok d) (\<lambda>decoder.
     and_then (read_to_end_limited decoder) (\<lambda>decompressed.
     Ok [transformed decompressed])))"

definition lzma_children :: "push_decoder \<Rightarrow> container" where
  "lzma_children lzma_decompress reader =
     and_then (read_all reader) (\<lambda>compressed.
     and_then (decode_into_limited (lzma_decompress compressed)) (\<lambda>decompressed.
     Ok [transformed decompressed]))"

definition xz_children :: "push_decoder \<Rightarrow> container" where
  "xz_children xz_decompress reader =
     and_then (read_all reader) (\<lambda>compressed.
     and_then (decode_into_limited (xz_decompress compressed)) (\<lambda>decompressed.
     Ok [transformed decompressed]))"

text \<open>\<^verbatim>\<open>Decoder::new(BitOrder::Lsb, max_bits)\<close> run over the bytes after the header.\<close>

definition compress_decode :: "(u8 \<Rightarrow> push_decoder) \<Rightarrow> bytes \<Rightarrow> bytes io" where
  "compress_decode lzw compressed =
     (if length compressed < 3 then Err InvalidData
      else if compressed ! 0 \<noteq> 0x1F \<or> compressed ! 1 \<noteq> 0x9D then Err InvalidData
      else let flags = compressed ! 2; max_bits = flags AND 0x1F in
        if \<not> (9 \<le> max_bits \<and> max_bits \<le> 16) then Err InvalidData
        else if max_bits > 12 then Err Unsupported
        else decode_into_limited (lzw max_bits (drop 3 compressed)))"

definition compress_children :: "(u8 \<Rightarrow> push_decoder) \<Rightarrow> container" where
  "compress_children lzw reader =
     and_then (read_all reader) (\<lambda>compressed.
     and_then (compress_decode lzw compressed) (\<lambda>decompressed.
     Ok [transformed decompressed]))"

section \<open>The bound\<close>

lemma read_to_end_limited_cases:
  "read_to_end_limited (out, e) =
    (if length out > MAX_SIZE then Err InvalidData else case e of Some k \<Rightarrow> Err k | None \<Rightarrow> Ok out)"
  by simp

lemma limited_writes:
  assumes "length data \<le> MAX_SIZE"
  shows "for_each (\<lambda>buf data. limited_write data buf) bufs data =
    (if length data + length (concat bufs) \<le> MAX_SIZE then Ok (data @ concat bufs) else Err InvalidData)"
  using assms by (induction bufs arbitrary: data) (auto simp: limited_write_def)

lemma decode_into_limited_cases:
  "decode_into_limited (bufs, e) =
    (if length (concat bufs) > MAX_SIZE \<or> e \<noteq> None then Err InvalidData else Ok (concat bufs))"
  by (auto simp: limited_writes split: option.splits)

section \<open>The shape\<close>

locale stream_container =
  fixes children :: container and decode :: "bytes \<Rightarrow> bytes io"
  assumes children_eq: "children r =
      and_then (read_all r) (\<lambda>c. and_then (decode c) (\<lambda>out. Ok [transformed out]))"
    and decode_not_Panic: "decode c \<noteq> Panic"
    and decode_bounded: "decode c = Ok out \<Longrightarrow> length out \<le> MAX_SIZE"
begin

text \<open>The child is there exactly when the decoder ends well within the limit.\<close>

lemma stream_children:
  assumes "positional_reader r d" and "length d \<le> MAX_SIZE"
  shows "children r = and_then (decode d) (\<lambda>out. Ok [transformed out])"
  using positional_reader.read_all_eq [OF assms(1)] assms(2) by (simp add: children_eq)

lemma stream_content:
  assumes "children r = Ok cs"
  obtains out where "cs = [transformed out]" and "length out \<le> MAX_SIZE"
  using assms decode_bounded by (auto simp: children_eq ok_iff)

end

sublocale stream_container \<subseteq> safe_container
proof (rule safe_container.intro)
  show "children r \<noteq> Panic" if "safe_reader r" for r
    using that decode_not_Panic by (auto simp: children_eq and_then_Panic_iff safe_reader.read_all_not_Panic)
  show "distinct (map index cs)" if "children r = Ok cs" for r cs
    using that by (auto elim: stream_content)
next
  fix r cs c assume "children r = Ok cs" "c \<in> set cs"
  then obtain out where "child_reader c = bytes_reader out"
    by (auto elim!: stream_content simp: transformed_def)
  then show "safe_reader (child_reader c)" by (simp add: bytes.safe_reader_axioms)
qed

lemma pull_not_Panic: "read_to_end_limited p \<noteq> Panic"
  by (cases p) (auto split: option.splits)

lemma pull_bounded: "read_to_end_limited p = Ok out \<Longrightarrow> length out \<le> MAX_SIZE"
  by (cases p) (auto split: option.splits if_splits)

lemma push_not_Panic: "decode_into_limited p \<noteq> Panic"
  by (cases p) (simp add: decode_into_limited_cases del: decode_into_limited.simps)

lemma push_bounded: "decode_into_limited p = Ok out \<Longrightarrow> length out \<le> MAX_SIZE"
  by (cases p) (auto simp: decode_into_limited_cases simp del: decode_into_limited.simps split: if_splits)

interpretation bzip2: stream_container "bzip2_children dec" "\<lambda>c. read_to_end_limited (dec c)" for dec
  by unfold_locales (simp_all add: bzip2_children_def pull_not_Panic pull_bounded)

interpretation gzip: stream_container "gzip_children dec" "\<lambda>c. read_to_end_limited (dec c)" for dec
  by unfold_locales (simp_all add: gzip_children_def pull_not_Panic pull_bounded)

interpretation lz4: stream_container "lz4_children dec" "\<lambda>c. read_to_end_limited (dec c)" for dec
  by unfold_locales (simp_all add: lz4_children_def pull_not_Panic pull_bounded)

interpretation zstd: stream_container "zstd_children dec"
    "\<lambda>c. and_then (case dec c of Inl e \<Rightarrow> Err e | Inr d \<Rightarrow> Ok d) read_to_end_limited" for dec
  by unfold_locales
    (auto simp: zstd_children_def and_then_assoc pull_not_Panic and_then_Panic_iff and_then_Ok_iff
      simp del: read_to_end_limited.simps dest: pull_bounded split: sum.splits)

interpretation lzma: stream_container "lzma_children dec" "\<lambda>c. decode_into_limited (dec c)" for dec
  by unfold_locales (simp_all add: lzma_children_def push_not_Panic push_bounded)

interpretation xz: stream_container "xz_children dec" "\<lambda>c. decode_into_limited (dec c)" for dec
  by unfold_locales (simp_all add: xz_children_def push_not_Panic push_bounded)

interpretation compress: stream_container "compress_children lzw" "compress_decode lzw" for lzw
  by unfold_locales
    (auto simp: compress_children_def compress_decode_def Let_def push_not_Panic
      intro: push_bounded split: if_splits)

section \<open>The property of a stream\<close>

text \<open>
  C40. A gzip member shows exactly what its decoder produced. The content of the container is
  read completely, whatever the sizes of the reads; the child holds the whole output if the
  decoder ends well within the limit of 1 GiB; output past the limit is refused, and an
  error of the decoder is the error of the container.
\<close>

theorem gzip_stream:
  assumes "positional_reader reader d" and "length d \<le> MAX_SIZE" and "gz d = (out, result)"
  shows "if length out > MAX_SIZE then gzip_children gz reader = Err InvalidData
    else case result of
      Some e \<Rightarrow> gzip_children gz reader = Err e
    | None \<Rightarrow> (\<exists>c. gzip_children gz reader = Ok [c] \<and> index c = 0 \<and> offset c = - 1 \<and>
        read_all (child_reader c) = Ok out)"
proof -
  have "read_all (bytes_reader out) = Ok out" if "length out \<le> MAX_SIZE"
    using positional_reader.read_all_eq [OF bytes.positional_reader_axioms, of out] that by simp
  then show ?thesis
    using gzip.stream_children [OF assms(1,2), of gz] assms(3)
    by (simp add: read_to_end_limited_cases transformed_def split: option.split)
qed

theorem gzip_stream_witness:
  "gzip_children (\<lambda>c. ([], Some UnexpectedEof)) (bytes_reader [31, 139]) = Err UnexpectedEof \<and>
   (\<exists>c. gzip_children (\<lambda>c. ([4, 5], None)) (bytes_reader [31, 139, 8]) = Ok [c] \<and> index c = 0 \<and> offset c = - 1 \<and>
      read_all (child_reader c) = Ok [4, 5])"
  using gzip_stream [OF bytes.positional_reader_axioms, of "[31, 139]" "\<lambda>c. ([], Some UnexpectedEof)" "[]" "Some UnexpectedEof"]
    gzip_stream [OF bytes.positional_reader_axioms, of "[31, 139, 8]" "\<lambda>c. ([4, 5], None)" "[4, 5]" None]
  by (simp add: MAX_SIZE_def)

end
