(* ===== verification/Disk_Flat.thy ===== *)
theory Disk_Flat
  imports Arc
begin

text \<open>
  Floppy images. \<^verbatim>\<open>atr.rs\<close> and \<^verbatim>\<open>twoimg.rs\<close> strip a header and show the rest of the file as
  a window; \<^verbatim>\<open>scl.rs\<close> and \<^verbatim>\<open>apridisk.rs\<close> rebuild the raw disk in memory from a packed
  file, and are streams in the sense of \<open>stream_container\<close>.
\<close>

definition read_header :: "reader \<Rightarrow> nat \<Rightarrow> bytes io" where
  "read_header reader n =
     and_then (read_at reader 0 n) (\<lambda>hdr. if length hdr \<noteq> n then Err InvalidData else Ok hdr)"

lemma read_header_not_Panic [panic_free]: "safe_reader r \<Longrightarrow> read_header r n \<noteq> Panic"
  by (simp add: read_header_def and_then_Panic_iff safe_reader.read_not_Panic)

section \<open>ATR\<close>

definition ATR_MAGIC :: u16 where "ATR_MAGIC = 0x0296"

definition atr_parse_header :: "reader \<Rightarrow> u64 io" where
  "atr_parse_header reader =
     and_then (read_header reader 16) (\<lambda>hdr.
     if le16_at hdr 0 \<noteq> ATR_MAGIC then Err InvalidData
     else
       let paragraphs = (ucast (le16_at hdr 2) OR push_bit 16 (ucast (le16_at hdr 6)) :: u64);
           data_len = paragraphs * 16
       in if data_len = 0 then Err InvalidData
          else if (case rsize reader of Some file \<Rightarrow> 16 + data_len > file | None \<Rightarrow> False)
          then Err InvalidData
          else Ok data_len)"

definition atr_children :: container where
  "atr_children reader =
     and_then (atr_parse_header reader) (\<lambda>data_len. Ok [slice_child reader 0 16 data_len])"

section \<open>2IMG\<close>

definition TWOIMG_MAGIC :: bytes where "TWOIMG_MAGIC = ascii ''2IMG''"

definition twoimg_parse_header :: "reader \<Rightarrow> (u64 \<times> u64) io" where
  "twoimg_parse_header reader =
     and_then (read_header reader 0x20) (\<lambda>hdr.
     if take 4 hdr \<noteq> TWOIMG_MAGIC then Err InvalidData
     else
       let data_off = ucast (le32_at hdr 0x18) :: u64; data_len = ucast (le32_at hdr 0x1C) :: u64
       in if data_len = 0 then Err InvalidData
          else if (case rsize reader of
                     Some file \<Rightarrow> data_off \<ge> file \<or> data_off + data_len > file | None \<Rightarrow> False)
          then Err InvalidData
          else Ok (data_off, data_len))"

definition twoimg_children :: container where
  "twoimg_children reader =
     and_then (twoimg_parse_header reader) (\<lambda>(data_off, data_len).
       Ok [slice_child reader 0 data_off data_len])"

interpretation atr: partition_table atr_children
proof (rule partition_table.intro)
  show "atr_children r \<noteq> Panic" if "safe_reader r" for r
    using read_header_not_Panic [OF that]
    by (simp add: atr_children_def atr_parse_header_def Let_def and_then_Panic_iff)
qed (auto simp: atr_children_def ok_iff)

interpretation twoimg: partition_table twoimg_children
proof (rule partition_table.intro)
  show "twoimg_children r \<noteq> Panic" if "safe_reader r" for r
    using read_header_not_Panic [OF that]
    by (simp add: twoimg_children_def twoimg_parse_header_def Let_def and_then_Panic_iff split: prod.splits)
qed (auto simp: twoimg_children_def ok_iff)

text \<open>The header lies before the window, and the window inside the file.\<close>

lemma paragraphs_bound:
  "unat (ucast (a :: u16) OR push_bit 16 (ucast (b :: u16)) :: u64) < 2 ^ 32"
proof -
  let ?x = "ucast a OR push_bit 16 (ucast b) :: u64"
  have "take_bit 32 ?x = ?x"
    by (rule bit_eqI) (auto simp: bit_simps dest: bit_imp_le_length)
  then have "unat ?x = take_bit 32 (unat ?x)"
    by (simp flip: unsigned_take_bit_eq)
  also have "\<dots> < 2 ^ 32" by (rule take_bit_nat_less_exp)
  finally show ?thesis .
qed

lemma atr_window:
  assumes "atr_children r = Ok cs" and "c \<in> set cs" and "rsize r = Some file"
  shows "child_within c 16 (unat file)"
proof -
  from assms obtain n where c: "c = slice_child r 0 16 n" and hdr: "atr_parse_header r = Ok n"
    by (auto simp: atr_children_def ok_iff)
  from hdr assms(3) obtain a b :: u16 where n: "n = (ucast a OR push_bit 16 (ucast b)) * 16"
    and le: "\<not> 16 + n > file"
    by (auto simp: atr_parse_header_def Let_def ok_iff split: if_splits)
  have "unat n = unat (ucast a OR push_bit 16 (ucast b) :: u64) * 16"
    using paragraphs_bound [of a b] unfolding n by (subst unat_mult_exact) simp_all
  then have "unat n < 2 ^ 36" using paragraphs_bound [of a b] by simp
  then have "unat (16 + n) = 16 + unat n" by (subst unat_add_exact) simp_all
  with le have "16 + unat n \<le> unat file" by (simp add: not_less word_le_nat_alt)
  with c show ?thesis by simp
qed

lemma twoimg_window:
  assumes "twoimg_children r = Ok cs" and "c \<in> set cs" and "rsize r = Some file"
  shows "child_within c 0 (unat file)"
proof -
  from assms obtain a b where c: "c = slice_child r 0 a b" and hdr: "twoimg_parse_header r = Ok (a, b)"
    by (auto simp: twoimg_children_def ok_iff)
  from hdr assms(3) obtain x y :: u32 where xy: "a = ucast x" "b = ucast y" and le: "\<not> a + b > file"
    by (auto simp: twoimg_parse_header_def Let_def ok_iff split: if_splits)
  have "unat (a + b) = unat a + unat b"
    using unat_u32_less [of x] unat_u32_less [of y] xy by (subst unat_add_exact) simp_all
  with le have "unat a + unat b \<le> unat file" by (simp add: not_less word_le_nat_alt)
  with c show ?thesis by simp
qed

end
