(* ===== verification/Disk_Scl.thy ===== *)
theory Disk_Scl
  imports Arc
begin

text \<open>
  Sinclair TR-DOS archives (\<^verbatim>\<open>container/disk/scl.rs\<close>): the archive holds catalogue entries
  and the sectors of the files, one after another; the reconstruction puts them onto an
  empty disk of 160 tracks of 16 sectors. The lemmas show where every file ends up, that
  later files leave earlier ones alone, and that no slice of the code is out of range.
\<close>

section \<open>The reconstruction\<close>

definition SCL_MAGIC :: bytes where "SCL_MAGIC = ascii ''SINCLAIR''"
definition SCL_HEADER_LEN :: nat where "SCL_HEADER_LEN = 9"
definition SCL_ENTRY_LEN :: nat where "SCL_ENTRY_LEN = 14"
definition SECTOR :: nat where "SECTOR = 256"
definition SECTORS_PER_TRACK :: nat where "SECTORS_PER_TRACK = 16"
definition LOGICAL_TRACKS :: nat where "LOGICAL_TRACKS = 160"
definition TRD_SIZE :: nat where "TRD_SIZE = LOGICAL_TRACKS * SECTORS_PER_TRACK * SECTOR"
definition MAX_FILES :: nat where "MAX_FILES = 128"
definition CATALOG_ENTRY_LEN :: nat where "CATALOG_ENTRY_LEN = 16"
definition SYSTEM_SECTOR :: nat where "SYSTEM_SECTOR = 8"
definition DATA_START_SECTOR :: nat where "DATA_START_SECTOR = SECTORS_PER_TRACK"
definition FREE_SECTORS_TOTAL :: nat where
  "FREE_SECTORS_TOTAL = LOGICAL_TRACKS * SECTORS_PER_TRACK - SECTORS_PER_TRACK"
definition DISK_TYPE_DS80 :: u8 where "DISK_TYPE_DS80 = 0x16"
definition TRDOS_ID :: u8 where "TRDOS_ID = 0x10"

lemmas scl_consts = SCL_HEADER_LEN_def SCL_ENTRY_LEN_def SECTOR_def SECTORS_PER_TRACK_def
  LOGICAL_TRACKS_def TRD_SIZE_def MAX_FILES_def CATALOG_ENTRY_LEN_def SYSTEM_SECTOR_def
  DATA_START_SECTOR_def FREE_SECTORS_TOTAL_def

record scl_state =
  trd :: bytes
  data_pos :: nat
  next_sector :: nat
  used_sectors :: nat

definition scl_file :: "bytes \<Rightarrow> nat \<Rightarrow> scl_state \<Rightarrow> scl_state io" where
  "scl_file data i s =
     and_then (get_range data (SCL_HEADER_LEN + i * SCL_ENTRY_LEN) (length data)) (\<lambda>rest.
     and_then (get_range rest 0 SCL_ENTRY_LEN) (\<lambda>entry.
     let sectors = unat (entry ! 13); nbytes = sectors * SECTOR in
     if data_pos s + nbytes > length data then Err InvalidData
     else if next_sector s + sectors > LOGICAL_TRACKS * SECTORS_PER_TRACK then Err InvalidData
     else
       let trd_off = next_sector s * SECTOR in
       and_then (get_range data (data_pos s) (data_pos s + nbytes)) (\<lambda>file.
       and_then (put_range (trd s) trd_off (trd_off + nbytes) file) (\<lambda>t1.
       let cat_off = i * CATALOG_ENTRY_LEN in
       and_then (put_range t1 cat_off (cat_off + SCL_ENTRY_LEN) entry) (\<lambda>t2.
       and_then (put_at t2 (cat_off + 14) (word_of_nat (next_sector s mod SECTORS_PER_TRACK))) (\<lambda>t3.
       and_then (put_at t3 (cat_off + 15) (word_of_nat (next_sector s div SECTORS_PER_TRACK))) (\<lambda>t4.
       Ok \<lparr>trd = t4, data_pos = data_pos s + nbytes, next_sector = next_sector s + sectors,
           used_sectors = used_sectors s + sectors\<rparr>)))))))"

definition put_all :: "bytes \<Rightarrow> (nat \<times> u8) list \<Rightarrow> bytes io" where
  "put_all t ps = for_each (\<lambda>(i, v) t. put_at t i v) ps t"

definition disk_specification :: "nat \<Rightarrow> nat \<Rightarrow> nat \<Rightarrow> (nat \<times> u8) list" where
  "disk_specification count next free =
     (let sys = SYSTEM_SECTOR * SECTOR in
      [(sys + 0xE1, word_of_nat (next mod SECTORS_PER_TRACK)),
       (sys + 0xE2, word_of_nat (next div SECTORS_PER_TRACK)),
       (sys + 0xE3, DISK_TYPE_DS80),
       (sys + 0xE4, word_of_nat count),
       (sys + 0xE5, word_of_nat (free mod 256)),
       (sys + 0xE6, word_of_nat (free div 256 mod 256)),
       (sys + 0xE7, TRDOS_ID),
       (sys + 0xF4, 0)]
      @ map (\<lambda>k. (sys + k, 0x20)) [0xF5..<0xFD])"

definition reconstruct_trd :: "bytes \<Rightarrow> bytes io" where
  "reconstruct_trd data =
     (if length data < SCL_HEADER_LEN \<or> take 8 data \<noteq> SCL_MAGIC then Err InvalidData
      else
        let count = unat (data ! 8) in
        if count > MAX_FILES then Err InvalidData
        else
          let dir_end = SCL_HEADER_LEN + count * SCL_ENTRY_LEN in
          if length data < dir_end then Err InvalidData
          else
            and_then (for_each (scl_file data) [0..<count]
              \<lparr>trd = replicate TRD_SIZE 0, data_pos = dir_end, next_sector = DATA_START_SECTOR,
               used_sectors = 0\<rparr>) (\<lambda>s.
            if used_sectors s > FREE_SECTORS_TOTAL then Err InvalidData
            else put_all (trd s)
              (disk_specification count (next_sector s) (FREE_SECTORS_TOTAL - used_sectors s))))"

definition scl_children :: container where
  "scl_children reader =
     and_then (read_all reader) (\<lambda>data.
     and_then (reconstruct_trd data) (\<lambda>trd. Ok [transformed trd]))"

section \<open>Where the files are\<close>

text \<open>
  The archive's view: entry \<open>j\<close>, its size in sectors, and the sectors of the files before
  it, which is both the place in the archive and the place on the disk.
\<close>

definition scl_entry :: "bytes \<Rightarrow> nat \<Rightarrow> bytes" where
  "scl_entry data j = take 14 (drop (9 + j * 14) data)"

definition scl_sectors :: "bytes \<Rightarrow> nat \<Rightarrow> nat" where
  "scl_sectors data j = unat (scl_entry data j ! 13)"

definition scl_before :: "bytes \<Rightarrow> nat \<Rightarrow> nat" where
  "scl_before data j = (\<Sum>k<j. scl_sectors data k)"

text \<open>File \<open>j\<close> of an archive of \<open>count\<close> files is on the disk \<open>t\<close>: its entry, its address, its bytes.\<close>

definition file_placed :: "bytes \<Rightarrow> nat \<Rightarrow> bytes \<Rightarrow> nat \<Rightarrow> bool" where
  "file_placed data count t j \<longleftrightarrow>
     (\<forall>k<14. t ! (16 * j + k) = scl_entry data j ! k) \<and>
     t ! (16 * j + 14) = word_of_nat ((16 + scl_before data j) mod 16) \<and>
     t ! (16 * j + 15) = word_of_nat ((16 + scl_before data j) div 16) \<and>
     (\<forall>k < 256 * scl_sectors data j.
        t ! (256 * (16 + scl_before data j) + k) = data ! (9 + count * 14 + 256 * scl_before data j + k))"

lemma scl_before_Suc: "scl_before data (Suc j) = scl_before data j + scl_sectors data j"
  by (simp add: scl_before_def)

lemma scl_before_mono: "j \<le> i \<Longrightarrow> scl_before data j \<le> scl_before data i"
  unfolding scl_before_def by (rule sum_mono2) auto

lemma scl_before_next: "j < i \<Longrightarrow> scl_before data j + scl_sectors data j \<le> scl_before data i"
  using scl_before_mono [of "Suc j" i data] by (simp add: scl_before_Suc)

definition scl_inv :: "bytes \<Rightarrow> nat \<Rightarrow> nat \<Rightarrow> scl_state \<Rightarrow> bool" where
  "scl_inv data count i s \<longleftrightarrow>
     length (trd s) = 655360 \<and>
     next_sector s = 16 + scl_before data i \<and>
     used_sectors s = scl_before data i \<and>
     data_pos s = 9 + count * 14 + 256 * scl_before data i \<and>
     next_sector s \<le> 2560 \<and>
     (\<forall>j<i. file_placed data count (trd s) j)"

text \<open>One round, in the terms of the archive.\<close>

lemma scl_file_cases:
  assumes "scl_inv data count i s" and "9 + count * 14 \<le> length data" and "i < count" and "count \<le> 128"
  shows "scl_file data i s = Err InvalidData \<or>
    16 + scl_before data (Suc i) \<le> 2560 \<and>
    9 + count * 14 + 256 * scl_before data (Suc i) \<le> length data \<and>
    scl_file data i s =
      Ok \<lparr>trd = (overwrite
             (overwrite (trd s) (256 * (16 + scl_before data i))
                (take (256 * scl_sectors data i) (drop (9 + count * 14 + 256 * scl_before data i) data)))
             (16 * i) (scl_entry data i))
           [16 * i + 14 := word_of_nat ((16 + scl_before data i) mod 16),
            16 * i + 15 := word_of_nat ((16 + scl_before data i) div 16)],
          data_pos = 9 + count * 14 + 256 * scl_before data (Suc i),
          next_sector = 16 + scl_before data (Suc i),
          used_sectors = scl_before data (Suc i)\<rparr>"
proof -
  have i: "9 + i * 14 + 14 \<le> length data" using assms(2,3) by (simp add: mult.commute)
  have entry: "take 14 (drop (9 + i * 14) data) = scl_entry data i"
    by (simp add: scl_entry_def)
  have len: "length (scl_entry data i) = 14" using i by (simp add: scl_entry_def)
  have inv: "length (trd s) = 655360" "next_sector s = 16 + scl_before data i"
    "used_sectors s = scl_before data i" "data_pos s = 9 + count * 14 + 256 * scl_before data i"
    using assms(1) by (simp_all add: scl_inv_def)
  have sec: "unat (scl_entry data i ! 13) = scl_sectors data i" by (simp add: scl_sectors_def)
  have le: "16 * i + 16 \<le> 2048" using assms(3,4) by simp
  show ?thesis
    using i len le entry inv sec
    by (simp add: scl_file_def scl_consts get_range_def put_range_def put_at_def Let_def
        scl_before_Suc algebra_simps take_drop)
qed

lemma nth_lay_down:
  assumes "length t = 655360" and "i < 128" and "start + length f \<le> 655360" and "4096 \<le> start"
    and "length e = 14" and "p < 655360"
  shows "(overwrite (overwrite t start f) (16 * i) e)[16 * i + 14 := a, 16 * i + 15 := b] ! p =
    (if p = 16 * i + 15 then b else if p = 16 * i + 14 then a
     else if 16 * i \<le> p \<and> p < 16 * i + 14 then e ! (p - 16 * i)
     else if start \<le> p \<and> p < start + length f then f ! (p - start)
     else t ! p)"
  using assms by (simp add: nth_list_update nth_overwrite)

lemma scl_file_inv:
  assumes "scl_inv data count i s" and "9 + count * 14 \<le> length data" and "i < count" and "count \<le> 128"
    and "scl_file data i s = Ok s'"
  shows "scl_inv data count (Suc i) s'"
proof -
  let ?B = "scl_before data i" and ?S = "scl_sectors data i"
  let ?file = "take (256 * ?S) (drop (9 + count * 14 + 256 * ?B) data)"
  let ?t = "(overwrite (overwrite (trd s) (256 * (16 + ?B)) ?file) (16 * i) (scl_entry data i))
           [16 * i + 14 := word_of_nat ((16 + ?B) mod 16), 16 * i + 15 := word_of_nat ((16 + ?B) div 16)]"
  from scl_file_cases [OF assms(1-4)] assms(5)
  have room: "16 + scl_before data (Suc i) \<le> 2560" "9 + count * 14 + 256 * scl_before data (Suc i) \<le> length data"
    and s': "s' = \<lparr>trd = ?t, data_pos = 9 + count * 14 + 256 * scl_before data (Suc i),
          next_sector = 16 + scl_before data (Suc i), used_sectors = scl_before data (Suc i)\<rparr>"
    by auto
  have len: "length (trd s) = 655360" and old: "\<And>j. j < i \<Longrightarrow> file_placed data count (trd s) j"
    using assms(1) by (simp_all add: scl_inv_def)
  have e: "length (scl_entry data i) = 14" using assms(2,3) by (simp add: scl_entry_def)
  have f: "length ?file = 256 * ?S" using room(2) by (simp add: scl_before_Suc)
  have i: "i < 128" using assms(3,4) by simp
  have fits: "256 * (16 + ?B) + length ?file \<le> 655360" using f room(1) by (simp add: scl_before_Suc)
  note nth = nth_lay_down [OF len i fits _ e]
  have new: "file_placed data count ?t i"
    unfolding file_placed_def
  proof (intro conjI allI impI)
    show "?t ! (16 * i + k) = scl_entry data i ! k" if "k < 14" for k
      using that i by (subst nth) simp_all
    show "?t ! (16 * i + 14) = word_of_nat ((16 + ?B) mod 16)"
      using i by (subst nth) simp_all
    show "?t ! (16 * i + 15) = word_of_nat ((16 + ?B) div 16)"
      using i by (subst nth) simp_all
    show "?t ! (256 * (16 + ?B) + k) = data ! (9 + count * 14 + 256 * ?B + k)" if "k < 256 * ?S" for k
      using that i f fits room by (subst nth) (simp_all add: scl_before_Suc)
  qed
  have "file_placed data count ?t j" if "j < i" for j
  proof -
    have before: "scl_before data j + scl_sectors data j \<le> ?B" using that by (rule scl_before_next)
    have B: "16 + ?B \<le> 2560" using room(1) by (simp add: scl_before_Suc)
    have keep: "?t ! p = trd s ! p" if "p < 655360" "p < 16 * i \<or> 16 * i + 16 \<le> p" "p < 256 * (16 + ?B)" for p
      using that by (subst nth) auto
    note old [OF that, unfolded file_placed_def]
    moreover have "?t ! (16 * j + k) = trd s ! (16 * j + k)" if "k < 16" for k
      using that \<open>j < i\<close> i by (intro keep) auto
    moreover have "?t ! (256 * (16 + scl_before data j) + k) = trd s ! (256 * (16 + scl_before data j) + k)"
      if "k < 256 * scl_sectors data j" for k
    proof -
      have "256 * (16 + scl_before data j) + k < 256 * (16 + ?B)" using that mult_le_mono2 [OF before, of 256] by (simp add: algebra_simps)
      with i B show ?thesis by (intro keep) auto
    qed
    ultimately show ?thesis unfolding file_placed_def by simp
  qed
  with new have "\<forall>j<Suc i. file_placed data count ?t j" by (auto simp: less_Suc_eq)
  moreover have "length ?t = 655360" using fits i e len by simp
  ultimately show ?thesis using s' room(1) by (simp add: scl_inv_def)
qed

section \<open>The whole disk\<close>

lemma scl_file_not_Panic:
  assumes "scl_inv data count i s" and "9 + count * 14 \<le> length data" and "i < count" and "count \<le> 128"
  shows "scl_file data i s \<noteq> Panic"
  using scl_file_cases [OF assms] by auto

lemma scl_files:
  assumes "9 + count * 14 \<le> length data" and "count \<le> 128" and "n \<le> count" and "scl_inv data count (count - n) s"
  shows "for_each (scl_file data) [count - n..<count] s \<noteq> Panic \<and>
    (\<forall>t. for_each (scl_file data) [count - n..<count] s = Ok t \<longrightarrow> scl_inv data count count t)"
  using assms(3,4)
proof (induction n arbitrary: s)
  case 0
  then show ?case by simp
next
  case (Suc n)
  let ?i = "count - Suc n"
  have i: "?i < count" and next_i: "Suc ?i = count - n" using Suc.prems(1) by simp_all
  have split: "[?i..<count] = ?i # [count - n..<count]"
    using upt_conv_Cons [OF i] next_i by simp
  show ?case
  proof (cases "scl_file data ?i s")
    case (Ok u)
    then have "scl_inv data count (count - n) u"
      using scl_file_inv [OF Suc.prems(2) assms(1) i assms(2)] next_i by simp
    with Suc.IH Suc.prems(1) show ?thesis by (simp add: split Ok)
  next
    case (Err e)
    then show ?thesis by (simp add: split)
  next
    case Panic
    then show ?thesis using scl_file_not_Panic [OF Suc.prems(2) assms(1) i assms(2)] by simp
  qed
qed

lemma put_all_Ok:
  assumes "\<And>i v. (i, v) \<in> set ps \<Longrightarrow> i < length t"
  shows "\<exists>t'. put_all t ps = Ok t' \<and> length t' = length t \<and>
    (\<forall>p. p \<notin> fst ` set ps \<longrightarrow> t' ! p = t ! p) \<and> (distinct (map fst ps) \<longrightarrow> (\<forall>(i, v)\<in>set ps. t' ! i = v))"
  using assms
proof (induction ps arbitrary: t)
  case Nil
  then show ?case by (simp add: put_all_def)
next
  case (Cons x ps)
  obtain i v where x: "x = (i, v)" by fastforce
  have i: "i < length t" using Cons.prems x by auto
  have "\<exists>t'. put_all (t[i := v]) ps = Ok t' \<and> length t' = length (t[i := v]) \<and>
    (\<forall>p. p \<notin> fst ` set ps \<longrightarrow> t' ! p = t[i := v] ! p) \<and>
    (distinct (map fst ps) \<longrightarrow> (\<forall>(j, w)\<in>set ps. t' ! j = w))"
    using Cons.prems x by (intro Cons.IH) auto
  then obtain t' where t': "put_all (t[i := v]) ps = Ok t'" "length t' = length t"
    "\<And>p. p \<notin> fst ` set ps \<Longrightarrow> t' ! p = t[i := v] ! p"
    "distinct (map fst ps) \<Longrightarrow> \<forall>(j, w)\<in>set ps. t' ! j = w"
    by auto
  then show ?case
    using i by (intro exI [of _ t']) (auto simp: x put_all_def put_at_def)
qed

lemma disk_specification_places: "(p, v) \<in> set (disk_specification c n f) \<Longrightarrow> 2048 \<le> p \<and> p < 4096"
  by (auto simp: disk_specification_def Let_def scl_consts)

lemma disk_specification_distinct: "distinct (map fst (disk_specification c n f))"
  by (simp add: disk_specification_def Let_def scl_consts upt_rec)

lemma placed_cong:
  assumes "file_placed data count t j" and "j < 128"
    and "\<And>p. p < 2048 \<or> 4096 \<le> p \<Longrightarrow> t' ! p = t ! p"
  shows "file_placed data count t' j"
proof -
  have "t' ! (16 * j + k) = t ! (16 * j + k)" if "k < 16" for k
    using that assms(2) by (intro assms(3)) auto
  moreover have "t' ! (256 * (16 + scl_before data j) + k) = t ! (256 * (16 + scl_before data j) + k)" for k
    by (intro assms(3)) auto
  ultimately show ?thesis using assms(1) unfolding file_placed_def by simp
qed

lemma scl_start:
  "scl_inv data count 0 \<lparr>trd = replicate TRD_SIZE 0, data_pos = SCL_HEADER_LEN + count * SCL_ENTRY_LEN,
     next_sector = DATA_START_SECTOR, used_sectors = 0\<rparr>"
  by (simp add: scl_inv_def scl_consts scl_before_def)

lemma reconstruct_spec:
  "reconstruct_trd data \<noteq> Panic \<and>
   (\<forall>t. reconstruct_trd data = Ok t \<longrightarrow>
      (let count = unat (data ! 8); used = scl_before data count in
       length t = 655360 \<and> count \<le> 128 \<and> used \<le> 2544 \<and>
       (\<forall>j<count. file_placed data count t j) \<and>
       (\<forall>(p, v)\<in>set (disk_specification count (16 + used) (2544 - used)). t ! p = v)))"
proof (cases "length data < 9 \<or> take 8 data \<noteq> SCL_MAGIC \<or> unat (data ! 8) > 128 \<or>
    length data < 9 + unat (data ! 8) * 14")
  case True
  then show ?thesis by (auto simp: reconstruct_trd_def Let_def scl_consts)
next
  case False
  let ?count = "unat (data ! 8)"
  let ?s0 = "\<lparr>trd = replicate TRD_SIZE 0, data_pos = SCL_HEADER_LEN + ?count * SCL_ENTRY_LEN,
     next_sector = DATA_START_SECTOR, used_sectors = 0\<rparr>"
  have files: "for_each (scl_file data) [0..<?count] ?s0 \<noteq> Panic \<and>
    (\<forall>t. for_each (scl_file data) [0..<?count] ?s0 = Ok t \<longrightarrow> scl_inv data ?count ?count t)"
    using scl_files [of ?count data ?count ?s0] scl_start [of data ?count] False by simp
  have eq: "reconstruct_trd data =
      and_then (for_each (scl_file data) [0..<?count] ?s0) (\<lambda>s.
        if used_sectors s > FREE_SECTORS_TOTAL then Err InvalidData
        else put_all (trd s) (disk_specification ?count (next_sector s) (FREE_SECTORS_TOTAL - used_sectors s)))"
    using False by (simp add: reconstruct_trd_def Let_def scl_consts)
  show ?thesis
  proof (cases "for_each (scl_file data) [0..<?count] ?s0")
    case (Ok s)
    with files have inv: "scl_inv data ?count ?count s" by simp
    then have s: "length (trd s) = 655360" "next_sector s = 16 + scl_before data ?count"
      "used_sectors s = scl_before data ?count" "scl_before data ?count \<le> 2544"
      and placed: "\<And>j. j < ?count \<Longrightarrow> file_placed data ?count (trd s) j"
      by (auto simp: scl_inv_def)
    let ?ps = "disk_specification ?count (16 + scl_before data ?count) (2544 - scl_before data ?count)"
    have in_range: "p < length (trd s)" if "(p, v) \<in> set ?ps" for p v
      using disk_specification_places [OF that] s(1) by simp
    have "\<exists>t. put_all (trd s) ?ps = Ok t \<and> length t = length (trd s) \<and>
      (\<forall>p. p \<notin> fst ` set ?ps \<longrightarrow> t ! p = trd s ! p) \<and>
      (distinct (map fst ?ps) \<longrightarrow> (\<forall>(i, v)\<in>set ?ps. t ! i = v))"
      by (rule put_all_Ok) (rule in_range)
    then obtain t where t: "put_all (trd s) ?ps = Ok t" "length t = length (trd s)"
      and same: "\<forall>p. p \<notin> fst ` set ?ps \<longrightarrow> t ! p = trd s ! p"
      and written: "distinct (map fst ?ps) \<longrightarrow> (\<forall>(i, v)\<in>set ?ps. t ! i = v)"
      by blast
    have "t ! p = trd s ! p" if "p < 2048 \<or> 4096 \<le> p" for p
    proof -
      have "p \<notin> fst ` set ?ps" using that by (auto dest: disk_specification_places)
      with same show ?thesis by blast
    qed
    then have "file_placed data ?count t j" if "j < ?count" for j
      using placed [OF that] that False by (intro placed_cong [of data ?count "trd s" j t]) simp_all
    moreover have "reconstruct_trd data = Ok t"
      using s t(1) by (simp add: eq Ok FREE_SECTORS_TOTAL_def LOGICAL_TRACKS_def SECTORS_PER_TRACK_def)
    ultimately show ?thesis
      using t(2) s(1,4) False mp [OF written disk_specification_distinct] by (simp add: Let_def)
  qed (use files eq in simp_all)
qed

interpretation scl: stream_container scl_children reconstruct_trd
proof (rule stream_container.intro)
  show "length out \<le> MAX_SIZE" if "reconstruct_trd data = Ok out" for data out
    using that reconstruct_spec [of data] by (simp add: Let_def MAX_SIZE_def)
qed (simp_all add: scl_children_def reconstruct_spec)

section \<open>Every well-formed archive is rebuilt\<close>

text \<open>An archive: the magic, at most 128 entries, and the sectors of all files, which fit on the disk.\<close>

definition scl_fits :: "bytes \<Rightarrow> bool" where
  "scl_fits data \<longleftrightarrow>
     take 8 data = SCL_MAGIC \<and> length data \<ge> 9 \<and>
     (let count = unat (data ! 8); used = (\<Sum>j\<leftarrow>[0..<count]. scl_sectors data j)
      in count \<le> 128 \<and> used \<le> 2544 \<and> length data \<ge> 9 + count * 14 + 256 * used)"

lemma scl_before_list: "scl_before data n = (\<Sum>j\<leftarrow>[0..<n]. scl_sectors data j)"
  by (induction n) (simp_all add: scl_before_def)

lemma scl_file_fits:
  assumes "scl_inv data count i s" and "i < count" and "count \<le> 128"
    and "16 + scl_before data count \<le> 2560" and "9 + count * 14 + 256 * scl_before data count \<le> length data"
  shows "scl_file data i s \<noteq> Err e"
proof -
  have i: "9 + i * 14 + 14 \<le> length data" using assms(2,5) by (simp add: mult.commute)
  have before: "scl_before data i + scl_sectors data i \<le> scl_before data count"
    using assms(2) by (rule scl_before_next)
  have len: "length (scl_entry data i) = 14" using i by (simp add: scl_entry_def)
  have sec: "unat (scl_entry data i ! 13) = scl_sectors data i" by (simp add: scl_sectors_def)
  have "9 + count * 14 + 256 * scl_before data i + 256 * scl_sectors data i \<le> length data"
    using assms(5) before by linarith
  then show ?thesis
    using assms i len before sec
    by (simp add: scl_inv_def scl_file_def scl_consts get_range_def put_range_def put_at_def Let_def
        algebra_simps take_drop scl_entry_def)
qed

lemma scl_files_fit:
  assumes "count \<le> 128" and "16 + scl_before data count \<le> 2560"
    and "9 + count * 14 + 256 * scl_before data count \<le> length data"
    and "n \<le> count" and "scl_inv data count (count - n) s"
  shows "for_each (scl_file data) [count - n..<count] s \<noteq> Err e"
  using assms(4,5)
proof (induction n arbitrary: s)
  case 0
  then show ?case by simp
next
  case (Suc n)
  let ?i = "count - Suc n"
  have i: "?i < count" and next_i: "Suc ?i = count - n" using Suc.prems(1) by simp_all
  have dir: "9 + count * 14 \<le> length data" using assms(3) by simp
  show ?case
  proof (cases "scl_file data ?i s")
    case (Ok u)
    have "scl_inv data count (count - n) u"
      using scl_file_inv [OF Suc.prems(2) dir i assms(1) Ok] next_i by simp
    with Suc.IH Suc.prems(1) show ?thesis
      using upt_conv_Cons [OF i] next_i Ok by simp
  qed (use scl_file_fits [OF Suc.prems(2) i assms(1-3)] upt_conv_Cons [OF i] in simp_all)
qed

lemma reconstruct_total:
  assumes "scl_fits data" shows "\<exists>t. reconstruct_trd data = Ok t"
proof -
  let ?count = "unat (data ! 8)"
  let ?s0 = "\<lparr>trd = replicate TRD_SIZE 0, data_pos = SCL_HEADER_LEN + ?count * SCL_ENTRY_LEN,
     next_sector = DATA_START_SECTOR, used_sectors = 0\<rparr>"
  have fits: "take 8 data = SCL_MAGIC" "length data \<ge> 9" "?count \<le> 128" "scl_before data ?count \<le> 2544"
    "9 + ?count * 14 + 256 * scl_before data ?count \<le> length data"
    using assms by (simp_all add: scl_fits_def Let_def scl_before_list)
  then have files: "for_each (scl_file data) [0..<?count] ?s0 \<noteq> Err e" for e
    using scl_files_fit [of ?count data ?count ?s0] scl_start [of data ?count] by simp
  have inv: "for_each (scl_file data) [0..<?count] ?s0 \<noteq> Panic \<and>
    (\<forall>t. for_each (scl_file data) [0..<?count] ?s0 = Ok t \<longrightarrow> scl_inv data ?count ?count t)"
    using scl_files [of ?count data ?count ?s0] scl_start [of data ?count] fits by simp
  with files obtain s where s: "for_each (scl_file data) [0..<?count] ?s0 = Ok s" by (meson io.exhaust)
  then have st: "used_sectors s \<le> 2544" "length (trd s) = 655360" using inv fits(4) by (auto simp: scl_inv_def)
  let ?ps = "disk_specification ?count (next_sector s) (FREE_SECTORS_TOTAL - used_sectors s)"
  have in_range: "p < length (trd s)" if "(p, v) \<in> set ?ps" for p v
    using disk_specification_places [OF that] st(2) by simp
  have "\<exists>t. put_all (trd s) ?ps = Ok t \<and> length t = length (trd s) \<and>
      (\<forall>p. p \<notin> fst ` set ?ps \<longrightarrow> t ! p = trd s ! p) \<and>
      (distinct (map fst ?ps) \<longrightarrow> (\<forall>(i, v)\<in>set ?ps. t ! i = v))"
    by (rule put_all_Ok) (rule in_range)
  then obtain t where "put_all (trd s) ?ps = Ok t" by blast
  with st(1) show ?thesis
    using s fits by (auto simp: reconstruct_trd_def Let_def scl_consts)
qed


text \<open>An archive of one file of one sector.\<close>

definition one_file :: bytes where
  "one_file = SCL_MAGIC @ [1] @ replicate 13 65 @ [1] @ replicate 256 7"


end
