(* ===== verification/Disk_Apridisk.thy ===== *)
theory Disk_Apridisk
  imports Arc
begin

text \<open>
  ACT Apricot images (\<^verbatim>\<open>container/disk/apridisk.rs\<close>): a sequence of records, each sector
  record carrying one sector and its position; the reconstruction puts every sector at the
  linear address of its track, head and sector number. The lemmas show that the scan ends,
  that every address is on the disk and belongs to one position only, and what the disk
  holds at each address: the last sector recorded there, or zeros.
\<close>

section \<open>The scan\<close>

definition APR_MAGIC :: bytes where "APR_MAGIC = ascii ''ACT Apricot disk image'' @ [0x1a, 0x04]"
definition HEADER_SIZE :: nat where "HEADER_SIZE = 128"
definition RECORD_HEADER_SIZE :: nat where "RECORD_HEADER_SIZE = 16"
definition SECTOR_SIZE :: nat where "SECTOR_SIZE = 512"
definition MAX_SECTORS :: nat where "MAX_SECTORS = 2880"
definition APR_SECTOR :: u32 where "APR_SECTOR = 0xe31d0001"
definition APR_UNCOMPRESSED :: u16 where "APR_UNCOMPRESSED = 0x9e90"
definition APR_COMPRESSED :: u16 where "APR_COMPRESSED = 0x3e5a"
definition MAX_TRACK :: u16 where "MAX_TRACK = 159"
definition MAX_HEAD :: u8 where "MAX_HEAD = 1"
definition MAX_SECTOR :: u8 where "MAX_SECTOR = 64"

record sector_rec =
  track :: u16
  side :: u8
  sector :: u8
  payload :: bytes

record apri_state =
  recs :: "sector_rec list"
  max_track :: u16
  max_head :: u8
  max_sector :: u8

text \<open>The bytes of one sector: stored, or one byte repeated.\<close>

definition apri_sector_bytes :: "u16 \<Rightarrow> bytes \<Rightarrow> bytes io" where
  "apri_sector_bytes compression body =
     (if compression = APR_UNCOMPRESSED then
        if length body < SECTOR_SIZE then Err InvalidData else get_range body 0 SECTOR_SIZE
      else if compression = APR_COMPRESSED then
        if length body < 3 then Err InvalidData
        else if unat (le16_at body 0) \<noteq> SECTOR_SIZE then Err InvalidData
        else and_then (get_at body 2) (\<lambda>b. Ok (replicate SECTOR_SIZE b))
      else Err InvalidData)"

definition apri_sector_record :: "bytes \<Rightarrow> nat \<Rightarrow> nat \<Rightarrow> nat \<Rightarrow> u16 \<Rightarrow> apri_state \<Rightarrow> apri_state io" where
  "apri_sector_record data off payload_off next compression s =
     and_then (get_at data (off + 12)) (\<lambda>h.
     and_then (get_at data (off + 13)) (\<lambda>sec.
     let t = le16_at data (off + 14) in
     if t > MAX_TRACK \<or> h > MAX_HEAD \<or> sec = 0 \<or> sec > MAX_SECTOR then Err InvalidData
     else and_then (get_range data payload_off next) (\<lambda>body.
       and_then (apri_sector_bytes compression body) (\<lambda>bytes.
       let recs' = recs s @ [\<lparr>track = t, side = h, sector = sec, payload = bytes\<rparr>] in
       if length recs' > MAX_SECTORS then Err InvalidData
       else Ok \<lparr>recs = recs', max_track = max (max_track s) t, max_head = max (max_head s) h,
                max_sector = max (max_sector s) sec\<rparr>))))"

text \<open>One round: the place of the next record and the state, or an error.\<close>

definition apri_record :: "bytes \<Rightarrow> nat \<Rightarrow> apri_state \<Rightarrow> (nat \<times> apri_state) io" where
  "apri_record data off s =
     (let rtype = le32_at data off;
          compression = le16_at data (off + 4);
          header_size = unat (le16_at data (off + 6));
          data_size = unat (le32_at data (off + 8))
      in if header_size < RECORD_HEADER_SIZE then Err InvalidData
         else if off + header_size \<ge> 2 ^ 64 then Err InvalidData
         else
           let payload_off = off + header_size in
           if payload_off + data_size \<ge> 2 ^ 64 then Err InvalidData
           else
             let next = payload_off + data_size in
             if next > length data then Err InvalidData
             else and_then (if rtype = APR_SECTOR
                            then apri_sector_record data off payload_off next compression s
                            else Ok s) (\<lambda>s'.
               Ok (header_size + data_size, s')))"

lemma apri_record_advance: "apri_record data off s = Ok (n, s') \<Longrightarrow> 16 \<le> n \<and> off + n \<le> length data"
  by (auto simp: apri_record_def Let_def ok_iff RECORD_HEADER_SIZE_def split: if_splits)

function apri_scan :: "bytes \<Rightarrow> nat \<Rightarrow> apri_state \<Rightarrow> apri_state io" where
  "apri_scan data off s =
     (if off + RECORD_HEADER_SIZE \<le> length data then
        and_then (apri_record data off s) (\<lambda>(advance, s').
        if advance = 0 then Ok s' else apri_scan data (off + advance) s')
      else Ok s)"
  by pat_completeness auto
termination
  by (relation "measure (\<lambda>(data, off, s). length data - off)")
    (auto dest: apri_record_advance simp: RECORD_HEADER_SIZE_def)

declare apri_scan.simps [simp del]

section \<open>The disk\<close>

definition apri_lba :: "nat \<Rightarrow> nat \<Rightarrow> sector_rec \<Rightarrow> nat" where
  "apri_lba heads spt r = (unat (track r) * heads + unat (side r)) * spt + (unat (sector r) - 1)"

definition place_sector :: "nat \<Rightarrow> nat \<Rightarrow> sector_rec \<Rightarrow> bytes \<Rightarrow> bytes io" where
  "place_sector heads spt r img =
     (let off = apri_lba heads spt r * SECTOR_SIZE in put_range img off (off + SECTOR_SIZE) (payload r))"

definition apri_image :: "apri_state \<Rightarrow> bytes io" where
  "apri_image s =
     (if recs s = [] then Err InvalidData
      else
        let heads = unat (max_head s) + 1; spt = unat (max_sector s); tracks = unat (max_track s) + 1;
            total_sectors = tracks * heads * spt
        in if total_sectors = 0 \<or> total_sectors > MAX_SECTORS then Err InvalidData
           else for_each (place_sector heads spt) (recs s) (replicate (total_sectors * SECTOR_SIZE) 0))"

definition reconstruct :: "bytes \<Rightarrow> bytes io" where
  "reconstruct data =
     (if length data < HEADER_SIZE \<or> take (length APR_MAGIC) data \<noteq> APR_MAGIC then Err InvalidData
      else and_then (apri_scan data HEADER_SIZE \<lparr>recs = [], max_track = 0, max_head = 0, max_sector = 0\<rparr>)
             apri_image)"

definition apridisk_children :: container where
  "apridisk_children reader =
     and_then (read_all reader) (\<lambda>data.
     and_then (reconstruct data) (\<lambda>img. Ok [transformed img]))"

section \<open>The scan collects sectors in range\<close>

definition rec_ok :: "apri_state \<Rightarrow> sector_rec \<Rightarrow> bool" where
  "rec_ok s r \<longleftrightarrow> track r \<le> max_track s \<and> side r \<le> max_head s \<and> 0 < sector r \<and> sector r \<le> max_sector s \<and>
     length (payload r) = SECTOR_SIZE"

definition recs_ok :: "apri_state \<Rightarrow> bool" where
  "recs_ok s \<longleftrightarrow> (\<forall>r\<in>set (recs s). rec_ok s r)"

lemma sector_bytes_length: "apri_sector_bytes c body = Ok bs \<Longrightarrow> length bs = SECTOR_SIZE"
  by (auto simp: apri_sector_bytes_def ok_iff split: if_splits)

lemma sector_bytes_not_Panic: "apri_sector_bytes c body \<noteq> Panic"
  by (auto simp: apri_sector_bytes_def panic_free)

lemma rec_ok_mono:
  "rec_ok s r \<Longrightarrow> max_track s \<le> max_track s' \<Longrightarrow> max_head s \<le> max_head s' \<Longrightarrow> max_sector s \<le> max_sector s'
     \<Longrightarrow> rec_ok s' r"
  by (auto simp: rec_ok_def)

lemma sector_record_ok:
  assumes "recs_ok s" and "apri_sector_record data off p n c s = Ok s'"
  shows "recs_ok s'"
proof -
  from assms(2) obtain r where s': "recs s' = recs s @ [r]" "max_track s' = max (max_track s) (track r)"
      "max_head s' = max (max_head s) (side r)" "max_sector s' = max (max_sector s) (sector r)"
    and r: "sector r \<noteq> 0" "length (payload r) = SECTOR_SIZE"
    by (auto simp: apri_sector_record_def Let_def ok_iff split: if_splits dest!: sector_bytes_length)
  have "rec_ok s' x" if "x \<in> set (recs s)" for x
  proof (rule rec_ok_mono)
    show "rec_ok s x" using that assms(1) by (simp add: recs_ok_def)
  qed (simp_all add: s')
  moreover have "rec_ok s' r"
    using r by (simp add: rec_ok_def s' word_gt_0)
  ultimately show ?thesis by (simp add: recs_ok_def s'(1))
qed

lemma apri_record_ok:
  assumes "recs_ok s" and "apri_record data off s = Ok (n, s')"
  shows "recs_ok s'"
proof -
  from assms(2) have "s' = s \<or> (\<exists>p m c. apri_sector_record data off p m c s = Ok s')"
    by (auto simp: apri_record_def Let_def ok_iff split: if_splits)
  with assms(1) show ?thesis by (auto intro: sector_record_ok)
qed

lemma apri_record_not_Panic:
  assumes "off + 16 \<le> length data"
  shows "apri_record data off s \<noteq> Panic"
proof -
  have "apri_sector_record data off p n c s \<noteq> Panic" if "p \<le> n" "n \<le> length data" for p n c
    using that assms sector_bytes_not_Panic
    by (simp add: apri_sector_record_def Let_def panic_free)
  then show ?thesis by (simp add: apri_record_def Let_def and_then_Panic_iff)
qed

lemma apri_scan_ok:
  "recs_ok s \<Longrightarrow> apri_scan data off s \<noteq> Panic \<and> (\<forall>t. apri_scan data off s = Ok t \<longrightarrow> recs_ok t)"
proof (induction data off s rule: apri_scan.induct)
  case (1 data off s)
  show ?case
  proof (cases "off + RECORD_HEADER_SIZE \<le> length data")
    case True
    then have safe: "apri_record data off s \<noteq> Panic"
      by (simp add: RECORD_HEADER_SIZE_def apri_record_not_Panic)
    show ?thesis
    proof (cases "apri_record data off s")
      case (Ok x)
      then obtain n s' where x: "apri_record data off s = Ok (n, s')" by (cases x) simp
      have "n \<noteq> 0" using apri_record_advance [OF x] by simp
      with 1 x True show ?thesis
        using apri_record_ok [OF "1.prems" x] by (simp add: apri_scan.simps [of data off s])
    qed (use True safe in \<open>simp_all add: apri_scan.simps [of data off s]\<close>)
  qed (use "1.prems" in \<open>simp add: apri_scan.simps [of data off s]\<close>)
qed

section \<open>The addresses\<close>

definition on_disk :: "nat \<Rightarrow> nat \<Rightarrow> nat \<Rightarrow> sector_rec \<Rightarrow> bool" where
  "on_disk tracks heads spt r \<longleftrightarrow>
     unat (track r) < tracks \<and> unat (side r) < heads \<and> 0 < unat (sector r) \<and> unat (sector r) \<le> spt"

lemma mixed_radix_bound: "a < m \<Longrightarrow> b < n \<Longrightarrow> a * n + b < m * (n :: nat)"
proof -
  assume "a < m" "b < n"
  then have "a * n + b < Suc a * n" by simp
  also have "\<dots> \<le> m * n" using \<open>a < m\<close> by (intro mult_le_mono1) simp
  finally show ?thesis .
qed

lemma mixed_radix_inj: "a * n + b = a' * n + b' \<Longrightarrow> b < n \<Longrightarrow> b' < n \<Longrightarrow> a = a' \<and> b = (b' :: nat)"
proof -
  assume eq: "a * n + b = a' * n + b'" and lt: "b < n" "b' < n"
  have "(a * n + b) div n = a" "(a' * n + b') div n = a'" using lt by simp_all
  with eq have "a = a'" by simp
  with eq show ?thesis by simp
qed

lemma apri_lba_bound: "on_disk tracks heads spt r \<Longrightarrow> apri_lba heads spt r < tracks * heads * spt"
  unfolding apri_lba_def on_disk_def by (intro mixed_radix_bound) auto

lemma apri_lba_inj:
  assumes "on_disk tracks heads spt r" and "on_disk tracks heads spt r'"
    and "apri_lba heads spt r = apri_lba heads spt r'"
  shows "track r = track r' \<and> side r = side r' \<and> sector r = sector r'"
proof -
  have "unat (track r) * heads + unat (side r) = unat (track r') * heads + unat (side r') \<and>
      unat (sector r) - 1 = unat (sector r') - 1"
    using assms by (intro mixed_radix_inj [of _ spt]) (auto simp: apri_lba_def on_disk_def)
  moreover from this have "unat (track r) = unat (track r') \<and> unat (side r) = unat (side r')"
    using assms by (intro mixed_radix_inj [of _ heads]) (auto simp: on_disk_def)
  moreover have "unat (sector r) = unat (sector r')"
    using assms(1,2) calculation(1) by (auto simp: on_disk_def)
  ultimately show ?thesis by (simp add: word_unat_eq_iff)
qed

section \<open>What the disk holds\<close>

definition sector_at :: "bytes \<Rightarrow> nat \<Rightarrow> bytes" where
  "sector_at img l = take SECTOR_SIZE (drop (l * SECTOR_SIZE) img)"

text \<open>The record that was placed last at an address.\<close>

definition recorded :: "nat \<Rightarrow> nat \<Rightarrow> sector_rec list \<Rightarrow> nat \<Rightarrow> bytes option" where
  "recorded heads spt rs l = map_of (rev (map (\<lambda>r. (apri_lba heads spt r, payload r)) rs)) l"

lemma nth_sector_at:
  "length img = n * SECTOR_SIZE \<Longrightarrow> l < n \<Longrightarrow> k < SECTOR_SIZE \<Longrightarrow> sector_at img l ! k = img ! (l * SECTOR_SIZE + k)"
  by (simp add: sector_at_def)

lemma length_sector_at:
  assumes "length img = n * SECTOR_SIZE" and "l < n"
  shows "length (sector_at img l) = SECTOR_SIZE"
proof -
  have "Suc l * SECTOR_SIZE \<le> n * SECTOR_SIZE" using assms(2) by (intro mult_le_mono1) simp
  then show ?thesis using assms(1) by (simp add: sector_at_def)
qed

lemma sector_at_overwrite:
  assumes "length img = n * SECTOR_SIZE" and "l < n" and "m < n" and "length src = SECTOR_SIZE"
  shows "sector_at (overwrite img (m * SECTOR_SIZE) src) l = (if l = m then src else sector_at img l)"
proof -
  have m: "m * SECTOR_SIZE + length src \<le> length img"
    using mult_le_mono1 [of "Suc m" n SECTOR_SIZE] assms by simp
  show ?thesis
  proof (cases "l = m")
    case True
    then show ?thesis
      using take_drop_overwrite [OF m] assms(4) by (simp add: sector_at_def)
  next
    case False
    have "l * SECTOR_SIZE + k < m * SECTOR_SIZE \<or> m * SECTOR_SIZE + SECTOR_SIZE \<le> l * SECTOR_SIZE + k"
      if "k < SECTOR_SIZE" for k
    proof (cases "l < m")
      case True
      then have "Suc l * SECTOR_SIZE \<le> m * SECTOR_SIZE" by (intro mult_le_mono1) simp
      with that show ?thesis by simp
    next
      case False
      with \<open>l \<noteq> m\<close> have "Suc m * SECTOR_SIZE \<le> l * SECTOR_SIZE" by (intro mult_le_mono1) simp
      then show ?thesis by simp
    qed
    note apart = this
    show ?thesis
    proof (rule nth_equalityI)
      show "length (sector_at (overwrite img (m * SECTOR_SIZE) src) l) = length (if l = m then src else sector_at img l)"
        using False assms m by (simp add: length_sector_at [of _ n])
      fix k assume "k < length (sector_at (overwrite img (m * SECTOR_SIZE) src) l)"
      then have k: "k < SECTOR_SIZE" by (simp add: sector_at_def)
      then show "sector_at (overwrite img (m * SECTOR_SIZE) src) l ! k = (if l = m then src else sector_at img l) ! k"
        using False assms m apart [OF k] by (auto simp: nth_sector_at [of _ n] nth_overwrite)
    qed
  qed
qed

lemma place_sectors:
  assumes "length img = n * SECTOR_SIZE"
    and "\<And>r. r \<in> set rs \<Longrightarrow> apri_lba heads spt r < n \<and> length (payload r) = SECTOR_SIZE"
  shows "\<exists>out. for_each (place_sector heads spt) rs img = Ok out \<and> length out = n * SECTOR_SIZE \<and>
    (\<forall>l<n. sector_at out l = (case recorded heads spt rs l of Some d \<Rightarrow> d | None \<Rightarrow> sector_at img l))"
  using assms
proof (induction rs arbitrary: img)
  case Nil
  then show ?case by (simp add: recorded_def)
next
  case (Cons r rs)
  let ?m = "apri_lba heads spt r"
  have r: "?m < n" "length (payload r) = SECTOR_SIZE" using Cons.prems(2) by auto
  have m: "?m * SECTOR_SIZE + length (payload r) \<le> length img"
    using mult_le_mono1 [of "Suc ?m" n SECTOR_SIZE] r Cons.prems(1) by simp
  let ?img = "overwrite img (?m * SECTOR_SIZE) (payload r)"
  have step: "place_sector heads spt r img = Ok ?img"
    using m r by (simp add: place_sector_def put_range_def Let_def)
  have len: "length ?img = n * SECTOR_SIZE" using m Cons.prems(1) by simp
  have ok: "apri_lba heads spt x < n \<and> length (payload x) = SECTOR_SIZE" if "x \<in> set rs" for x
    using Cons.prems(2) that by simp
  from Cons.IH [OF len ok] obtain out where out: "for_each (place_sector heads spt) rs ?img = Ok out"
    "length out = n * SECTOR_SIZE"
    "\<forall>l<n. sector_at out l = (case recorded heads spt rs l of Some d \<Rightarrow> d | None \<Rightarrow> sector_at ?img l)"
    by blast
  have "sector_at out l = (case recorded heads spt (r # rs) l of Some d \<Rightarrow> d | None \<Rightarrow> sector_at img l)"
    if "l < n" for l
    using that out(3) sector_at_overwrite [OF Cons.prems(1) that r]
    by (auto simp: recorded_def map_add_def split: option.splits)
  with out step show ?case by simp
qed

lemma sector_at_replicate: "l < n \<Longrightarrow> sector_at (replicate (n * SECTOR_SIZE) 0) l = replicate SECTOR_SIZE 0"
  using mult_le_mono1 [of "Suc l" n SECTOR_SIZE] by (simp add: sector_at_def min_def)

lemma apri_image_spec:
  assumes "recs_ok s"
  shows "apri_image s = Err InvalidData \<and> (recs s = [] \<or>
      (unat (max_track s) + 1) * (unat (max_head s) + 1) * unat (max_sector s) = 0 \<or>
      (unat (max_track s) + 1) * (unat (max_head s) + 1) * unat (max_sector s) > 2880) \<or>
    (let heads = unat (max_head s) + 1; spt = unat (max_sector s); tracks = unat (max_track s) + 1;
         n = tracks * heads * spt
     in n \<le> 2880 \<and> (\<forall>r\<in>set (recs s). on_disk tracks heads spt r) \<and>
       (\<exists>img. apri_image s = Ok img \<and> length img = n * 512 \<and>
         (\<forall>l<n. sector_at img l = (case recorded heads spt (recs s) l of Some d \<Rightarrow> d | None \<Rightarrow> replicate 512 0))))"
proof -
  let ?heads = "unat (max_head s) + 1" and ?spt = "unat (max_sector s)" and ?tracks = "unat (max_track s) + 1"
  let ?n = "?tracks * ?heads * ?spt"
  have disk: "on_disk ?tracks ?heads ?spt r" and len: "length (payload r) = SECTOR_SIZE" if "r \<in> set (recs s)" for r
    using assms that by (auto simp: recs_ok_def rec_ok_def on_disk_def word_le_nat_alt word_less_nat_alt)
  have "\<exists>out. for_each (place_sector ?heads ?spt) (recs s) (replicate (?n * SECTOR_SIZE) 0) = Ok out \<and>
      length out = ?n * SECTOR_SIZE \<and>
      (\<forall>l<?n. sector_at out l = (case recorded ?heads ?spt (recs s) l of Some d \<Rightarrow> d
         | None \<Rightarrow> sector_at (replicate (?n * SECTOR_SIZE) 0) l))"
    using apri_lba_bound [OF disk] len by (intro place_sectors) simp_all
  then obtain img where img: "for_each (place_sector ?heads ?spt) (recs s) (replicate (?n * SECTOR_SIZE) 0) = Ok img"
      "length img = ?n * SECTOR_SIZE"
    and at: "\<And>l. l < ?n \<Longrightarrow> sector_at img l = (case recorded ?heads ?spt (recs s) l of Some d \<Rightarrow> d
         | None \<Rightarrow> sector_at (replicate (?n * SECTOR_SIZE) 0) l)"
    by blast
  have holds: "sector_at img l = (case recorded ?heads ?spt (recs s) l of Some d \<Rightarrow> d | None \<Rightarrow> replicate 512 0)"
    if "l < ?n" for l
    by (simp only: at [OF that] sector_at_replicate [OF that]) (simp only: SECTOR_SIZE_def)
  show ?thesis
  proof (cases "recs s = [] \<or> ?n = 0 \<or> ?n > 2880")
    case True
    then show ?thesis by (simp only: apri_image_def Let_def MAX_SECTORS_def) auto
  next
    case False
    then have "apri_image s = Ok img"
      using img(1) by (simp only: apri_image_def Let_def MAX_SECTORS_def if_False) auto
    moreover have "length img = ?n * 512" using img(2) by (simp only: SECTOR_SIZE_def)
    moreover have "?n \<le> 2880" using False by linarith
    ultimately show ?thesis using holds disk unfolding Let_def by blast
  qed
qed

section \<open>The container\<close>

lemma apri_image_length:
  assumes "recs_ok s" and "apri_image s = Ok img" shows "length img \<le> 2880 * 512"
proof -
  from apri_image_spec [OF assms(1)] assms(2)
  obtain n where "n \<le> 2880" and "length img = n * 512" unfolding Let_def by (metis io.distinct(1) io.inject(1))
  then show ?thesis by simp
qed

lemma reconstruct_state:
  assumes "reconstruct data = Ok img"
  obtains s where "recs_ok s" and "apri_image s = Ok img"
    and "apri_scan data 128 \<lparr>recs = [], max_track = 0, max_head = 0, max_sector = 0\<rparr> = Ok s"
proof -
  from assms obtain s where s: "apri_scan data 128 \<lparr>recs = [], max_track = 0, max_head = 0, max_sector = 0\<rparr> = Ok s"
    "apri_image s = Ok img"
    by (auto simp: reconstruct_def ok_iff HEADER_SIZE_def split: if_splits)
  have "recs_ok s"
    using apri_scan_ok [of "\<lparr>recs = [], max_track = 0, max_head = 0, max_sector = 0\<rparr>" data 128] s(1)
    by (simp add: recs_ok_def)
  with s that show thesis by blast
qed

lemma reconstruct_not_Panic: "reconstruct data \<noteq> Panic"
proof -
  have "apri_image s \<noteq> Panic" if "recs_ok s" for s
    using apri_image_spec [OF that] by (auto simp: Let_def)
  moreover have "recs_ok \<lparr>recs = [], max_track = 0, max_head = 0, max_sector = 0\<rparr>"
    by (simp add: recs_ok_def)
  ultimately show ?thesis
    using apri_scan_ok by (auto simp: reconstruct_def and_then_Panic_iff)
qed

interpretation apridisk: stream_container apridisk_children reconstruct
proof (rule stream_container.intro)
  show "length out \<le> MAX_SIZE" if "reconstruct data = Ok out" for data out
    using that by (auto elim!: reconstruct_state dest!: apri_image_length simp: MAX_SIZE_def)
qed (simp_all add: apridisk_children_def reconstruct_not_Panic)

section \<open>A written image is read back\<close>

text \<open>The records of an image as a writer lays them out, stored or as one repeated byte.\<close>

datatype stored = Raw | Repeated

definition record_header :: "u32 \<Rightarrow> u16 \<Rightarrow> u16 \<Rightarrow> u32 \<Rightarrow> u8 \<Rightarrow> u8 \<Rightarrow> u16 \<Rightarrow> bytes" where
  "record_header rtype mode hsize dsize h sec t =
     to_le rtype @ to_le mode @ to_le hsize @ to_le dsize @ [h, sec] @ to_le t"

lemma length_record_header [simp]: "length (record_header a b c d h sec t) = 16"
  by (simp add: record_header_def)

lemma record_header_read:
  fixes pre rest a b c d h sec t
  defines "xs \<equiv> pre @ record_header a b c d h sec t @ rest"
  shows "le32_at xs (length pre) = a" "le16_at xs (length pre + 4) = b" "le16_at xs (length pre + 6) = c"
    "le32_at xs (length pre + 8) = d" "xs ! (length pre + 12) = h" "xs ! (length pre + 13) = sec"
    "le16_at xs (length pre + 14) = t"
  by (simp_all add: xs_def record_header_def le16_at_def le32_at_def le16_again le32_again nth_append)

definition sector_payload :: "stored \<Rightarrow> bytes \<Rightarrow> bytes" where
  "sector_payload how d = (case how of Raw \<Rightarrow> d | Repeated \<Rightarrow> to_le (512 :: u16) @ [d ! 0])"

definition encode_sector :: "stored \<times> sector_rec \<Rightarrow> bytes" where
  "encode_sector = (\<lambda>(how, r).
     record_header APR_SECTOR (case how of Raw \<Rightarrow> APR_UNCOMPRESSED | Repeated \<Rightarrow> APR_COMPRESSED)
       16 (case how of Raw \<Rightarrow> 512 | Repeated \<Rightarrow> 3) (side r) (sector r) (track r)
     @ sector_payload how (payload r))"

definition encode_image :: "(stored \<times> sector_rec) list \<Rightarrow> bytes" where
  "encode_image rs = (APR_MAGIC @ replicate 104 0) @ concat (map encode_sector rs)"

definition encodable :: "stored \<times> sector_rec \<Rightarrow> bool" where
  "encodable = (\<lambda>(how, r). track r \<le> MAX_TRACK \<and> side r \<le> MAX_HEAD \<and> 0 < sector r \<and> sector r \<le> MAX_SECTOR \<and>
     length (payload r) = 512 \<and> (how = Repeated \<longrightarrow> payload r = replicate 512 (payload r ! 0)))"

definition add_record :: "sector_rec \<Rightarrow> apri_state \<Rightarrow> apri_state" where
  "add_record r s = \<lparr>recs = recs s @ [r], max_track = max (max_track s) (track r),
     max_head = max (max_head s) (side r), max_sector = max (max_sector s) (sector r)\<rparr>"

lemma length_sector_payload:
  "length d = 512 \<Longrightarrow> length (sector_payload how d) = (case how of Raw \<Rightarrow> 512 | Repeated \<Rightarrow> 3)"
  by (cases how) (simp_all add: sector_payload_def)

lemma sector_payload_read:
  assumes "length d = 512" and "how = Repeated \<longrightarrow> d = replicate 512 (d ! 0)"
  shows "apri_sector_bytes (case how of Raw \<Rightarrow> APR_UNCOMPRESSED | Repeated \<Rightarrow> APR_COMPRESSED) (sector_payload how d) = Ok d"
proof (cases how)
    case Raw
    then show ?thesis
      using assms(1) by (simp add: apri_sector_bytes_def sector_payload_def SECTOR_SIZE_def get_range_def)
  next
    case Repeated
    have "le16_at (to_le (512 :: u16) @ [d ! 0]) 0 = 512" by (simp add: le16_at_def nth_append le16_again)
    moreover have "get_at (to_le (512 :: u16) @ [d ! 0]) 2 = Ok (d ! 0)" by (simp add: get_at_def nth_append)
    ultimately show ?thesis
      using assms(2) Repeated
      by (simp add: apri_sector_bytes_def sector_payload_def SECTOR_SIZE_def APR_UNCOMPRESSED_def APR_COMPRESSED_def)
qed

lemma apri_record_encoded:
  assumes "encodable (how, r)" and "length (recs s) < 2880"
    and "length pre + length (encode_sector (how, r)) < 2 ^ 63"
  shows "apri_record (pre @ encode_sector (how, r) @ post) (length pre) s =
    Ok (length (encode_sector (how, r)), add_record r s)"
proof -
  let ?mode = "case how of Raw \<Rightarrow> APR_UNCOMPRESSED | Repeated \<Rightarrow> APR_COMPRESSED"
  let ?n = "(case how of Raw \<Rightarrow> 512 | Repeated \<Rightarrow> 3) :: u32"
  let ?p = "sector_payload how (payload r)"
  let ?xs = "pre @ record_header APR_SECTOR ?mode 16 ?n (side r) (sector r) (track r) @ ?p @ post"
  have r: "\<not> track r > MAX_TRACK" "\<not> side r > MAX_HEAD" "sector r \<noteq> 0" "\<not> sector r > MAX_SECTOR"
    and ok: "length (payload r) = 512" "how = Repeated \<longrightarrow> payload r = replicate 512 (payload r ! 0)"
    using assms(1) by (auto simp: encodable_def)
  have n: "unat ?n = length ?p" "length ?p \<le> 512"
    using length_sector_payload [OF ok(1), of how] by (cases how; simp)+
  have eq: "pre @ encode_sector (how, r) @ post = ?xs" "length (encode_sector (how, r)) = 16 + length ?p"
    by (simp_all add: encode_sector_def)
  note read = record_header_read [of pre APR_SECTOR ?mode 16 ?n "side r" "sector r" "track r" "?p @ post"]
  have range: "get_range ?xs (length pre + 16) (length pre + 16 + length ?p) = Ok ?p"
    by (simp add: get_range_def)
  have at: "get_at ?xs (length pre + 12) = Ok (side r)" "get_at ?xs (length pre + 13) = Ok (sector r)"
    using read(5,6) by (simp_all add: get_at_def)
  have taken: "apri_sector_record ?xs (length pre) (length pre + 16) (length pre + 16 + length ?p) ?mode s =
      Ok (add_record r s)"
    unfolding apri_sector_record_def range at read(7) Let_def
    using r assms(2) sector_payload_read [OF ok] by (simp add: MAX_SECTORS_def add_record_def)
  show ?thesis
    unfolding eq apri_record_def read(1-4) Let_def n(1)
    using taken n(2) assms(3) by (simp add: RECORD_HEADER_SIZE_def eq(2))
qed

lemma apri_scan_encoded:
  assumes "\<forall>x\<in>set rs. encodable x" and "length (recs s) + length rs \<le> 2880"
    and "length pre + length (concat (map encode_sector rs)) < 2 ^ 63"
  shows "apri_scan (pre @ concat (map encode_sector rs)) (length pre) s = Ok (fold add_record (map snd rs) s)"
  using assms
proof (induction rs arbitrary: pre s)
  case Nil
  then show ?case by (simp add: apri_scan.simps RECORD_HEADER_SIZE_def)
next
  case (Cons x rs)
  obtain how r where x: "x = (how, r)" by fastforce
  let ?post = "concat (map encode_sector rs)"
  have len: "length (encode_sector (how, r)) \<ge> 16" by (simp add: encode_sector_def)
  have "apri_record (pre @ encode_sector (how, r) @ ?post) (length pre) s =
      Ok (length (encode_sector (how, r)), add_record r s)"
    using Cons.prems x by (intro apri_record_encoded) simp_all
  moreover have "apri_scan ((pre @ encode_sector (how, r)) @ ?post) (length (pre @ encode_sector (how, r)))
      (add_record r s) = Ok (fold add_record (map snd rs) (add_record r s))"
    using Cons.prems x by (intro Cons.IH) (simp_all add: add_record_def)
  ultimately show ?case
    using len x by (subst apri_scan.simps) (auto simp: RECORD_HEADER_SIZE_def)
qed

lemma length_encode_sector: "encodable x \<Longrightarrow> length (encode_sector x) \<le> 528"
  by (cases x; cases "fst x") (auto simp: encodable_def encode_sector_def sector_payload_def)

lemma length_encoded: "\<forall>x\<in>set rs. encodable x \<Longrightarrow> length (concat (map encode_sector rs)) \<le> 528 * length rs"
  by (induction rs) (use length_encode_sector in \<open>fastforce+\<close>)

lemma add_records:
  "recs (fold add_record rs s) = recs s @ rs"
  "max_track (fold add_record rs s) = fold (\<lambda>r m. max m (track r)) rs (max_track s)"
  "max_head (fold add_record rs s) = fold (\<lambda>r m. max m (side r)) rs (max_head s)"
  "max_sector (fold add_record rs s) = fold (\<lambda>r m. max m (sector r)) rs (max_sector s)"
  by (induction rs arbitrary: s) (simp_all add: add_record_def)

lemma reconstruct_encoded:
  assumes "\<forall>x\<in>set rs. encodable x" and "length rs \<le> 2880"
  shows "reconstruct (encode_image rs) =
    apri_image (fold add_record (map snd rs) \<lparr>recs = [], max_track = 0, max_head = 0, max_sector = 0\<rparr>)"
proof -
  let ?pre = "APR_MAGIC @ replicate 104 0 :: bytes"
  have pre: "length APR_MAGIC = 24" "length ?pre = 128" by (simp_all add: APR_MAGIC_def)
  have "length ?pre + length (concat (map encode_sector rs)) < 2 ^ 63"
    using length_encoded [OF assms(1)] assms(2) pre(2) by simp
  with apri_scan_encoded [OF assms(1), of _ ?pre] assms(2) pre(2)
  have "apri_scan (encode_image rs) 128 \<lparr>recs = [], max_track = 0, max_head = 0, max_sector = 0\<rparr> =
      Ok (fold add_record (map snd rs) \<lparr>recs = [], max_track = 0, max_head = 0, max_sector = 0\<rparr>)"
    unfolding encode_image_def by (metis add_0 apri_state.select_convs(1) list.size(3))
  then show ?thesis
    using pre by (simp add: reconstruct_def encode_image_def HEADER_SIZE_def)
qed

text \<open>
  C39. An APRIDISK image that a writer made from a list of sectors, each stored whole or as
  one repeated byte, is rebuilt as the flat disk of those sectors: the geometry is that of
  the largest track, head and sector, every address holds the sector that was written for
  it last, and zeros when there is none.
\<close>

theorem apridisk_roundtrip:
  assumes "\<forall>x\<in>set rs. encodable x" and "rs \<noteq> []" and "length rs \<le> 2880"
    and "tracks = unat (fold (\<lambda>r m. max m (track r)) (map snd rs) 0) + 1"
    and "heads = unat (fold (\<lambda>r m. max m (side r)) (map snd rs) 0) + 1"
    and "spt = unat (fold (\<lambda>r m. max m (sector r)) (map snd rs) 0)"
    and "tracks * heads * spt \<le> 2880"
  shows "\<exists>img. reconstruct (encode_image rs) = Ok img \<and> length img = tracks * heads * spt * 512 \<and>
    (\<forall>l < tracks * heads * spt. sector_at img l =
       (case recorded heads spt (map snd rs) l of Some d \<Rightarrow> d | None \<Rightarrow> replicate 512 0))"
proof -
  let ?s = "fold add_record (map snd rs) \<lparr>recs = [], max_track = 0, max_head = 0, max_sector = 0\<rparr>"
  have eq: "reconstruct (encode_image rs) = apri_image ?s" by (rule reconstruct_encoded [OF assms(1,3)])
  have geometry: "recs ?s = map snd rs" "unat (max_track ?s) + 1 = tracks" "unat (max_head ?s) + 1 = heads"
    "unat (max_sector ?s) = spt"
    using assms(4-6) by (simp_all add: add_records)
  have pre: "length (APR_MAGIC @ replicate 104 0 :: bytes) = 128" by (simp add: APR_MAGIC_def)
  have ok: "recs_ok ?s"
    using apri_scan_ok [of "\<lparr>recs = [], max_track = 0, max_head = 0, max_sector = 0\<rparr>"
        "encode_image rs" 128] apri_scan_encoded [OF assms(1), of "\<lparr>recs = [], max_track = 0, max_head = 0, max_sector = 0\<rparr>"
        "APR_MAGIC @ replicate 104 0"] length_encoded [OF assms(1)] assms(3) pre
    by (simp add: recs_ok_def encode_image_def)
  obtain r where "r \<in> set (recs ?s)" using assms(2) geometry(1) by (cases rs) auto
  with ok have "0 < sector r \<and> sector r \<le> max_sector ?s" by (auto simp: recs_ok_def rec_ok_def)
  then have "0 < spt" using geometry(4) by (simp add: word_le_nat_alt word_less_nat_alt)
  then have "\<not> (recs ?s = [] \<or> (unat (max_track ?s) + 1) * (unat (max_head ?s) + 1) * unat (max_sector ?s) = 0 \<or>
      (unat (max_track ?s) + 1) * (unat (max_head ?s) + 1) * unat (max_sector ?s) > 2880)"
    unfolding geometry using assms(2,5,7) geometry(2) by (simp add: add.commute)
  with apri_image_spec [OF ok] show ?thesis unfolding eq geometry Let_def by blast
qed

definition one_sector :: "(stored \<times> sector_rec) list" where
  "one_sector = [(Repeated, \<lparr>track = 0, side = 0, sector = 2, payload = replicate 512 0xAB\<rparr>)]"

theorem apridisk_roundtrip_witness:
  "\<exists>img. reconstruct (encode_image one_sector) = Ok img \<and> length img = 1024 \<and>
     sector_at img 0 = replicate 512 0 \<and> sector_at img 1 = replicate 512 0xAB"
proof -
  have "\<forall>x\<in>set one_sector. encodable x"
    by (simp add: one_sector_def encodable_def MAX_TRACK_def MAX_HEAD_def MAX_SECTOR_def)
  moreover have "recorded 1 2 (map snd one_sector) 0 = None" "recorded 1 2 (map snd one_sector) 1 = Some (replicate 512 0xAB)"
    by (simp_all add: recorded_def one_sector_def apri_lba_def)
  ultimately show ?thesis
    using apridisk_roundtrip [of one_sector 1 1 2] by (fastforce simp: one_sector_def)
qed

end
