(* ===== verification/Disk_Blocks.thy ===== *)
theory Disk_Blocks
  imports Blocks
begin

text \<open>
  Disk images with one table of blocks: \<^verbatim>\<open>vdi.rs\<close>, \<^verbatim>\<open>bochs.rs\<close>, \<^verbatim>\<open>vhd.rs\<close>, \<^verbatim>\<open>vhdx.rs\<close> and
  \<^verbatim>\<open>parallels.rs\<close>. Each has its opened image as a record, the function that opens it, and
  its reader with the code's own arithmetic; \<open><format>_locate\<close> says what its table means, and
  the interpretation of \<open>block_disk\<close> proves that the reader follows it.
\<close>

section \<open>VirtualBox\<close>

definition VDI_SIGNATURE :: u32 where "VDI_SIGNATURE = 0xbeda107f"
definition VDI_UNALLOCATED :: u32 where "VDI_UNALLOCATED = 0xFFFFFFFF"
definition VDI_DISCARDED :: u32 where "VDI_DISCARDED = 0xFFFFFFFE"

record vdi =
  vdi_block_map :: "u32 list"
  vdi_block_size :: u64
  vdi_data_offset :: u64
  vdi_virtual_size :: u64

definition vdi_open :: "reader \<Rightarrow> vdi io" where
  "vdi_open parent =
     and_then (read_at parent 0 0x188) (\<lambda>got.
     if length got < 0x184 then Err UnexpectedEof
     else
       let header = zero_filled 0x188 got in
       if le32_at header 0x40 \<noteq> VDI_SIGNATURE then Err InvalidData
       else
         let offset_bmap = ucast (le32_at header 0x154) :: u64;
             offset_data = ucast (le32_at header 0x158) :: u64;
             disk_size = le64_at header 0x170;
             block_size = ucast (le32_at header 0x178) :: u64;
             blocks_in_image = unat (le32_at header 0x180)
         in if block_size = 0 then Err InvalidData
            else and_then (read_exactly parent offset_bmap (blocks_in_image * 4)) (\<lambda>bmap.
              Ok \<lparr>vdi_block_map = decode_chunks 4 from_le bmap, vdi_block_size = block_size,
                  vdi_data_offset = offset_data, vdi_virtual_size = disk_size\<rparr>))"

definition vdi_reader :: "reader \<Rightarrow> vdi \<Rightarrow> reader" where
  "vdi_reader parent d =
     \<lparr>read_at = (\<lambda>off n.
        if off \<ge> vdi_virtual_size d then Ok []
        else if vdi_block_size d = 0 then Panic
        else
          let block_idx = unat (off div vdi_block_size d);
              in_block = off mod vdi_block_size d;
              remaining_in_block = vdi_block_size d - in_block;
              remaining_in_disk = vdi_virtual_size d - off;
              to_read = min (min n (unat remaining_in_block)) (unat remaining_in_disk)
          in if block_idx \<ge> length (vdi_block_map d) then Ok (replicate to_read 0)
             else
               let bmap_entry = vdi_block_map d ! block_idx in
               if bmap_entry = VDI_UNALLOCATED \<or> bmap_entry = VDI_DISCARDED then Ok (replicate to_read 0)
               else read_at parent
                 (vdi_data_offset d + (ucast bmap_entry * vdi_block_size d) + in_block) to_read),
      rsize = Some (vdi_virtual_size d)\<rparr>"

definition vdi_children :: container where
  "vdi_children reader =
     and_then (vdi_open reader) (\<lambda>d. Ok [virtual_child (vdi_reader reader d)])"

definition vdi_locate :: "vdi \<Rightarrow> u64 \<Rightarrow> source io" where
  "vdi_locate d i = Ok
     (if unat i \<ge> length (vdi_block_map d) then Zeros
      else let e = vdi_block_map d ! unat i in
        if e = VDI_UNALLOCATED \<or> e = VDI_DISCARDED then Zeros
        else Stored (vdi_data_offset d + ucast e * vdi_block_size d))"

lemma vdi_open_size: "vdi_open r = Ok d \<Longrightarrow> vdi_block_size d \<noteq> 0"
  by (auto simp: vdi_open_def Let_def ok_iff split: if_splits)

interpretation vdi: block_disk vdi_children vdi_open vdi_reader vdi_block_size vdi_virtual_size "\<lambda>_. vdi_locate"
proof (rule block_disk.intro)
  show "vdi_open r \<noteq> Panic" if "safe_reader r" for r
    using that by (simp add: vdi_open_def Let_def panic_free)
  show "block_reader r (vdi_reader r d) (vdi_block_size d) (vdi_virtual_size d) (vdi_locate d)"
    if "vdi_open r = Ok d" for r d
    by (rule block_reader.intro)
      (use vdi_open_size [OF that] in \<open>auto simp: vdi_reader_def vdi_locate_def Let_def ac_simps\<close>)
qed (simp_all add: vdi_children_def vdi_locate_def vdi_reader_def)

section \<open>Bochs\<close>

definition BOCHS_MAGIC :: bytes where "BOCHS_MAGIC = ascii ''Bochs Virtual HD Image''"
definition REDOLOG_TYPE :: bytes where "REDOLOG_TYPE = ascii ''Redolog''"
definition GROWING_SUBTYPE :: bytes where "GROWING_SUBTYPE = ascii ''Growing''"
definition CATALOG_UNALLOCATED :: u32 where "CATALOG_UNALLOCATED = 0xffffffff"

record bochs =
  bochs_catalog :: "u32 list"
  bochs_extent_size :: u64
  bochs_bitmap_size :: u64
  bochs_data_offset :: u64
  bochs_virtual_size :: u64

definition bochs_open :: "reader \<Rightarrow> bochs io" where
  "bochs_open parent =
     and_then (read_exactly parent 0 96) (\<lambda>header.
     if take 22 header \<noteq> BOCHS_MAGIC then Err InvalidData
     else if take 7 (drop 32 header) \<noteq> REDOLOG_TYPE then Err InvalidData
     else if take 7 (drop 48 header) \<noteq> GROWING_SUBTYPE then Err InvalidData
     else
       let version = le32_at header 64;
           header_size = ucast (le32_at header 68) :: u64;
           catalog_size = unat (le32_at header 72);
           bitmap_size = ucast (le32_at header 76) :: u64;
           extent_size = ucast (le32_at header 80) :: u64;
           disk_size = (if version = 0x00010000 then le64_at header 84 else le64_at header 88)
       in if extent_size < 512 \<or> extent_size AND (extent_size - 1) \<noteq> 0 then Err InvalidData
          else if catalog_size > 1024 * 1024 then Err InvalidData
          else and_then (read_exactly parent header_size (catalog_size * 4)) (\<lambda>catalog.
            Ok \<lparr>bochs_catalog = decode_chunks 4 from_le catalog, bochs_extent_size = extent_size,
                bochs_bitmap_size = (bitmap_size + 511) AND NOT 511,
                bochs_data_offset = header_size + word_of_nat (catalog_size * 4),
                bochs_virtual_size = disk_size\<rparr>))"

definition bochs_reader :: "reader \<Rightarrow> bochs \<Rightarrow> reader" where
  "bochs_reader parent d =
     \<lparr>read_at = (\<lambda>off n.
        if off \<ge> bochs_virtual_size d then Ok []
        else if bochs_extent_size d = 0 then Panic
        else
          let extent_idx = unat (off div bochs_extent_size d);
              in_extent = off mod bochs_extent_size d;
              remaining_in_extent = bochs_extent_size d - in_extent;
              remaining_in_disk = bochs_virtual_size d - off;
              to_read = min (min n (unat remaining_in_extent)) (unat remaining_in_disk)
          in if extent_idx \<ge> length (bochs_catalog d) then Ok (replicate to_read 0)
             else
               let catalog_entry = bochs_catalog d ! extent_idx in
               if catalog_entry = CATALOG_UNALLOCATED then Ok (replicate to_read 0)
               else
                 let slot_size = bochs_bitmap_size d + bochs_extent_size d in
                 read_at parent (bochs_data_offset d + (ucast catalog_entry * slot_size)
                   + bochs_bitmap_size d + in_extent) to_read),
      rsize = Some (bochs_virtual_size d)\<rparr>"

definition bochs_children :: container where
  "bochs_children reader =
     and_then (bochs_open reader) (\<lambda>d. Ok [virtual_child (bochs_reader reader d)])"

definition bochs_locate :: "bochs \<Rightarrow> u64 \<Rightarrow> source io" where
  "bochs_locate d i = Ok
     (if unat i \<ge> length (bochs_catalog d) then Zeros
      else let e = bochs_catalog d ! unat i in
        if e = CATALOG_UNALLOCATED then Zeros
        else Stored (bochs_data_offset d + ucast e * (bochs_bitmap_size d + bochs_extent_size d)
               + bochs_bitmap_size d))"

lemma bochs_open_size: "bochs_open r = Ok d \<Longrightarrow> bochs_extent_size d \<noteq> 0"
  by (auto simp: bochs_open_def Let_def ok_iff split: if_splits)

interpretation bochs: block_disk bochs_children bochs_open bochs_reader bochs_extent_size bochs_virtual_size
    "\<lambda>_. bochs_locate"
proof (rule block_disk.intro)
  show "bochs_open r \<noteq> Panic" if "safe_reader r" for r
    using that by (simp add: bochs_open_def Let_def panic_free)
  show "block_reader r (bochs_reader r d) (bochs_extent_size d) (bochs_virtual_size d) (bochs_locate d)"
    if "bochs_open r = Ok d" for r d
    by (rule block_reader.intro)
      (use bochs_open_size [OF that] in \<open>auto simp: bochs_reader_def bochs_locate_def Let_def ac_simps\<close>)
qed (simp_all add: bochs_children_def bochs_locate_def bochs_reader_def)

section \<open>Microsoft VHD\<close>

definition VHD_MAGIC :: bytes where "VHD_MAGIC = ascii ''conectix''"
definition VHD_DYNAMIC_MAGIC :: bytes where "VHD_DYNAMIC_MAGIC = ascii ''cxsparse''"
definition VHD_FIXED :: u32 where "VHD_FIXED = 2"
definition VHD_DYNAMIC :: u32 where "VHD_DYNAMIC = 3"
definition VHD_DIFFERENCING :: u32 where "VHD_DIFFERENCING = 4"
definition VHD_UNALLOCATED :: u32 where "VHD_UNALLOCATED = 0xFFFFFFFF"

datatype vhd_variant = Fixed | Dynamic "u32 list" u64 u64

record vhd =
  variant :: vhd_variant
  vhd_virtual_size :: u64

definition div_ceil :: "u64 \<Rightarrow> u64 \<Rightarrow> u64" where
  "div_ceil a b = a div b + (if a mod b > 0 then 1 else 0)"

definition vhd_open_dynamic :: "reader \<Rightarrow> u64 \<Rightarrow> vhd_variant io" where
  "vhd_open_dynamic parent data_offset =
     and_then (read_exactly parent data_offset 1024) (\<lambda>dyn_header.
     if take 8 dyn_header \<noteq> VHD_DYNAMIC_MAGIC then Err InvalidData
     else
       let table_offset = be64_at dyn_header 0x10;
           max_table_entries = unat (be32_at dyn_header 0x1c);
           block_size = ucast (be32_at dyn_header 0x20) :: u64
       in if block_size = 0 then Err InvalidData
          else
            let bitmap_size = (div_ceil (block_size div 512) 8 + 511) AND NOT 511 in
            and_then (read_exactly parent table_offset (max_table_entries * 4)) (\<lambda>bat_data.
            Ok (Dynamic (decode_chunks 4 from_be bat_data) block_size bitmap_size)))"

definition vhd_open :: "reader \<Rightarrow> vhd io" where
  "vhd_open parent =
     and_then (read_exactly parent 0 512) (\<lambda>footer.
     if take 8 footer \<noteq> VHD_MAGIC then Err InvalidData
     else
       let data_offset = be64_at footer 0x10;
           virtual_size = be64_at footer 0x30;
           disk_type = be32_at footer 0x3c
       in and_then
            (if disk_type = VHD_FIXED then Ok Fixed
             else if disk_type = VHD_DYNAMIC \<or> disk_type = VHD_DIFFERENCING
             then vhd_open_dynamic parent data_offset
             else Err InvalidData)
            (\<lambda>v. Ok \<lparr>variant = v, vhd_virtual_size = virtual_size\<rparr>))"

definition vhd_reader :: "reader \<Rightarrow> vhd \<Rightarrow> reader" where
  "vhd_reader parent d =
     \<lparr>read_at = (\<lambda>off n.
        if off \<ge> vhd_virtual_size d then Ok []
        else
          let remaining_in_disk = vhd_virtual_size d - off;
              to_read = min n (unat remaining_in_disk)
          in case variant d of
               Fixed \<Rightarrow> read_at parent off to_read
             | Dynamic bat block_size bitmap_size \<Rightarrow>
                 if block_size = 0 then Panic
                 else
                   let block_idx = unat (off div block_size);
                       in_block = off mod block_size;
                       remaining_in_block = block_size - in_block;
                       to_read = min to_read (unat remaining_in_block)
                   in if block_idx \<ge> length bat then Ok (replicate to_read 0)
                      else
                        let bat_entry = bat ! block_idx in
                        if bat_entry = VHD_UNALLOCATED then Ok (replicate to_read 0)
                        else read_at parent ((ucast bat_entry * 512) + bitmap_size + in_block) to_read),
      rsize = Some (vhd_virtual_size d)\<rparr>"

definition vhd_children :: container where
  "vhd_children reader =
     and_then (vhd_open reader) (\<lambda>d. Ok [virtual_child (vhd_reader reader d)])"

text \<open>A fixed image is a single block.\<close>

definition vhd_unit :: "vhd \<Rightarrow> u64" where
  "vhd_unit d = (case variant d of Fixed \<Rightarrow> vhd_virtual_size d | Dynamic _ block_size _ \<Rightarrow> block_size)"

definition vhd_locate :: "vhd \<Rightarrow> u64 \<Rightarrow> source io" where
  "vhd_locate d i = Ok
     (case variant d of
        Fixed \<Rightarrow> Stored 0
      | Dynamic bat _ bitmap_size \<Rightarrow>
          if unat i \<ge> length bat then Zeros
          else if bat ! unat i = VHD_UNALLOCATED then Zeros
          else Stored (ucast (bat ! unat i) * 512 + bitmap_size))"

lemma vhd_open_size: "vhd_open r = Ok d \<Longrightarrow> variant d = Dynamic b s m \<Longrightarrow> s \<noteq> 0"
  by (auto simp: vhd_open_def vhd_open_dynamic_def Let_def ok_iff split: if_splits)

lemma div_mod_self: "(a :: u64) < b \<Longrightarrow> a div b = 0 \<and> a mod b = a"
  by (simp add: div_word_less mod_word_less)

lemma vhd_block_reader:
  assumes "\<And>b s m. variant d = Dynamic b s m \<Longrightarrow> s \<noteq> 0"
  shows "block_reader r (vhd_reader r d) (vhd_unit d) (vhd_virtual_size d) (vhd_locate d)"
proof (cases "variant d")
  case Fixed
  have "unat off < unat sz \<Longrightarrow> min (min n (unat (sz - off))) (unat (sz - off)) = min n (unat (sz - off))"
    for n and off sz :: u64 by simp
  then show ?thesis
    by (intro block_reader.intro)
      (auto simp: Fixed vhd_reader_def vhd_locate_def vhd_unit_def Let_def div_mod_self not_le)
next
  case (Dynamic b s m)
  then have "s \<noteq> 0" by (rule assms)
  then show ?thesis
    by (intro block_reader.intro)
      (auto simp: Dynamic vhd_reader_def vhd_locate_def vhd_unit_def Let_def ac_simps)
qed

interpretation vhd: block_disk vhd_children vhd_open vhd_reader vhd_unit vhd_virtual_size "\<lambda>_. vhd_locate"
proof (rule block_disk.intro)
  show "vhd_open r \<noteq> Panic" if "safe_reader r" for r
    using that by (simp add: vhd_open_def vhd_open_dynamic_def Let_def panic_free)
  show "block_reader r (vhd_reader r d) (vhd_unit d) (vhd_virtual_size d) (vhd_locate d)"
    if "vhd_open r = Ok d" for r d
    using vhd_open_size [OF that] by (rule vhd_block_reader)
qed (simp_all add: vhd_children_def vhd_locate_def vhd_reader_def)

section \<open>Hyper-V VHDX\<close>

definition VHDX_FILE_SIGNATURE :: bytes where "VHDX_FILE_SIGNATURE = ascii ''vhdxfile''"
definition VHDX_REGION_SIGNATURE :: u32 where "VHDX_REGION_SIGNATURE = 0x69676572"

definition BAT_GUID :: bytes where
  "BAT_GUID = [0x66, 0x77, 0xC2, 0x2D, 0x23, 0xF6, 0x00, 0x42, 0x9D, 0x64, 0x11, 0x5E, 0x9B, 0xFD, 0x4A, 0x08]"

definition METADATA_GUID :: bytes where
  "METADATA_GUID = [0x06, 0xA2, 0x7C, 0x8B, 0x90, 0x47, 0x9A, 0x4B, 0xB8, 0xFE, 0x57, 0x5F, 0x05, 0x0F, 0x88, 0x6E]"

definition VIRTUAL_DISK_SIZE_GUID :: bytes where
  "VIRTUAL_DISK_SIZE_GUID =
     [0x24, 0x42, 0xA5, 0x2F, 0x1B, 0xCD, 0x76, 0x48, 0xB2, 0x11, 0x5D, 0xBE, 0xD8, 0x3B, 0xF4, 0xB8]"

definition FILE_PARAMETERS_GUID :: bytes where
  "FILE_PARAMETERS_GUID =
     [0x37, 0x67, 0xa1, 0xca, 0x36, 0xfa, 0x43, 0x4d, 0xb3, 0xb6, 0x33, 0xf0, 0xaa, 0x44, 0xe7, 0x6b]"

definition BAT_STATE_MASK :: u64 where "BAT_STATE_MASK = 0x07"
definition BAT_FILE_OFF_MASK :: u64 where "BAT_FILE_OFF_MASK = 0xFFFFFFFFFFF00000"
definition BAT_STATE_FULLY_PRESENT :: u64 where "BAT_STATE_FULLY_PRESENT = 6"

record vhdx =
  vhdx_bat :: "u64 list"
  vhdx_block_size :: u64
  vhdx_virtual_size :: u64

definition vhdx_region :: "reader \<Rightarrow> nat \<Rightarrow> u64 \<times> u64 \<times> u64 \<Rightarrow> (u64 \<times> u64 \<times> u64) flow io" where
  "vhdx_region parent i = (\<lambda>(bat_offset, bat_length, metadata_offset).
     and_then (read_at parent (word_of_nat (0x30000 + 16 + i * 32)) 32) (\<lambda>entry.
     if length entry \<noteq> 32 then Ok (Break (bat_offset, bat_length, metadata_offset))
     else
       let guid = take 16 entry; file_offset = le64_at entry 16; len = ucast (le32_at entry 24) :: u64
       in Ok (Continue
            (if guid = BAT_GUID then (file_offset, len, metadata_offset)
             else if guid = METADATA_GUID then (bat_offset, bat_length, file_offset)
             else (bat_offset, bat_length, metadata_offset)))))"

definition vhdx_item :: "reader \<Rightarrow> u64 \<Rightarrow> nat \<Rightarrow> u64 \<times> u32 \<Rightarrow> (u64 \<times> u32) flow io" where
  "vhdx_item parent metadata_offset i = (\<lambda>(virtual_size, block_size).
     and_then (read_at parent (metadata_offset + 32 + word_of_nat (i * 32)) 32) (\<lambda>entry.
     if length entry \<noteq> 32 then Ok (Break (virtual_size, block_size))
     else
       let guid = take 16 entry; item_offset = ucast (le32_at entry 16) :: u64;
           item_length = unat (le32_at entry 20)
       in if guid = VIRTUAL_DISK_SIZE_GUID \<and> item_length \<ge> 8 then
            and_then (read_at parent (metadata_offset + item_offset) 8) (\<lambda>got.
            Ok (Continue (le64_at (zero_filled 8 got) 0, block_size)))
          else if guid = FILE_PARAMETERS_GUID \<and> item_length \<ge> 8 then
            and_then (read_at parent (metadata_offset + item_offset) 8) (\<lambda>got.
            Ok (Continue (virtual_size, le32_at (zero_filled 8 got) 0)))
          else Ok (Continue (virtual_size, block_size))))"

definition parse_metadata :: "reader \<Rightarrow> u64 \<Rightarrow> (u64 \<times> u64) io" where
  "parse_metadata parent metadata_offset =
     and_then (read_exactly parent metadata_offset 32) (\<lambda>header.
     let entry_count = unat (le16_at header 10) in
     and_then (for_break (vhdx_item parent metadata_offset) [0..<min entry_count 2047] (0, 0))
       (\<lambda>(virtual_size, block_size).
       if virtual_size = 0 \<or> block_size = 0 then Err InvalidData
       else Ok (virtual_size, ucast block_size)))"

definition vhdx_open :: "reader \<Rightarrow> vhdx io" where
  "vhdx_open parent =
     and_then (read_at parent 0 8) (\<lambda>sig.
     if length sig \<noteq> 8 \<or> sig \<noteq> VHDX_FILE_SIGNATURE then Err InvalidData
     else
       and_then (read_exactly parent 0x30000 16) (\<lambda>region_header.
       if le32_at region_header 0 \<noteq> VHDX_REGION_SIGNATURE then Err InvalidData
       else
         let entry_count = unat (le32_at region_header 8) in
         and_then (for_break (vhdx_region parent) [0..<min entry_count 2047] (0, 0, 0))
           (\<lambda>(bat_offset, bat_length, metadata_offset).
           if bat_offset = 0 \<or> metadata_offset = 0 then Err InvalidData
           else
             and_then (parse_metadata parent metadata_offset) (\<lambda>(virtual_size, block_size).
             let bat_entries = unat (bat_length div 8) in
             and_then (read_at parent bat_offset (bat_entries * 8)) (\<lambda>bat_data.
             let actual_entries = length bat_data div 8 in
             Ok \<lparr>vhdx_bat = decode_chunks 8 from_le (take (actual_entries * 8) bat_data),
                 vhdx_block_size = block_size, vhdx_virtual_size = virtual_size\<rparr>)))))"

definition vhdx_reader :: "reader \<Rightarrow> vhdx \<Rightarrow> reader" where
  "vhdx_reader parent d =
     \<lparr>read_at = (\<lambda>off n.
        if off \<ge> vhdx_virtual_size d then Ok []
        else if vhdx_block_size d = 0 then Panic
        else
          let block_idx = unat (off div vhdx_block_size d);
              in_block = off mod vhdx_block_size d;
              remaining_in_block = vhdx_block_size d - in_block;
              remaining_in_disk = vhdx_virtual_size d - off;
              to_read = min (min n (unat remaining_in_block)) (unat remaining_in_disk)
          in if block_idx \<ge> length (vhdx_bat d) then Ok (replicate to_read 0)
             else
               let bat_entry = vhdx_bat d ! block_idx; state = bat_entry AND BAT_STATE_MASK in
               if state \<noteq> BAT_STATE_FULLY_PRESENT then Ok (replicate to_read 0)
               else
                 let file_offset = bat_entry AND BAT_FILE_OFF_MASK in
                 read_at parent (file_offset + in_block) to_read),
      rsize = Some (vhdx_virtual_size d)\<rparr>"

definition vhdx_children :: container where
  "vhdx_children reader =
     and_then (vhdx_open reader) (\<lambda>d. Ok [virtual_child (vhdx_reader reader d)])"

definition vhdx_locate :: "vhdx \<Rightarrow> u64 \<Rightarrow> source io" where
  "vhdx_locate d i = Ok
     (if unat i \<ge> length (vhdx_bat d) then Zeros
      else let e = vhdx_bat d ! unat i in
        if e AND BAT_STATE_MASK \<noteq> BAT_STATE_FULLY_PRESENT then Zeros
        else Stored (e AND BAT_FILE_OFF_MASK))"

lemma parse_metadata_size:
  assumes "parse_metadata r off = Ok (vs, bs)" shows "bs \<noteq> 0"
proof -
  from assms obtain w :: u32 where "bs = ucast w" "w \<noteq> 0"
    by (auto simp: parse_metadata_def Let_def ok_iff split: if_splits)
  then have "unat bs = unat w" "unat w \<noteq> 0" by (simp_all add: unat_gt_0)
  then show ?thesis by auto
qed

lemma vhdx_open_size: "vhdx_open r = Ok d \<Longrightarrow> vhdx_block_size d \<noteq> 0"
  by (auto simp: vhdx_open_def Let_def ok_iff split: if_splits dest: parse_metadata_size)

lemma vhdx_open_not_Panic:
  assumes "safe_reader r" shows "vhdx_open r \<noteq> Panic"
proof -
  have "vhdx_region r i s \<noteq> Panic" for i s
    using assms by (cases s) (simp add: vhdx_region_def Let_def panic_free)
  then have "for_break (vhdx_region r) xs s \<noteq> Panic" for xs s by (intro for_break_not_Panic)
  moreover have "vhdx_item r m i s \<noteq> Panic" for m i s
    using assms by (cases s) (simp add: vhdx_item_def Let_def panic_free)
  then have "for_break (vhdx_item r m) xs s \<noteq> Panic" for m xs s by (intro for_break_not_Panic)
  then have "parse_metadata r m \<noteq> Panic" for m
    using assms by (simp add: parse_metadata_def Let_def panic_free split: prod.splits)
  ultimately show ?thesis
    using assms by (simp add: vhdx_open_def Let_def panic_free split: prod.splits)
qed

interpretation vhdx: block_disk vhdx_children vhdx_open vhdx_reader vhdx_block_size vhdx_virtual_size
    "\<lambda>_. vhdx_locate"
proof (rule block_disk.intro)
  show "block_reader r (vhdx_reader r d) (vhdx_block_size d) (vhdx_virtual_size d) (vhdx_locate d)"
    if "vhdx_open r = Ok d" for r d
    by (rule block_reader.intro)
      (use vhdx_open_size [OF that] in \<open>auto simp: vhdx_reader_def vhdx_locate_def Let_def\<close>)
qed (simp_all add: vhdx_open_not_Panic vhdx_children_def vhdx_locate_def vhdx_reader_def)

section \<open>Parallels\<close>

definition MAGIC_OLD :: bytes where "MAGIC_OLD = ascii ''WithoutFreeSpace''"
definition MAGIC_EXT :: bytes where "MAGIC_EXT = ascii ''WithouFreSpacExt''"

record parallels =
  par_bat :: "u32 list"
  par_cluster_size :: u64
  par_virtual_size :: u64
  par_extended :: bool

definition parallels_open :: "reader \<Rightarrow> parallels io" where
  "parallels_open parent =
     and_then (read_exactly parent 0 64) (\<lambda>header.
     let magic = take 16 header in
     and_then (if magic = MAGIC_EXT then Ok True
               else if magic = MAGIC_OLD then Ok False
               else Err InvalidData) (\<lambda>extended.
     if le32_at header 16 \<noteq> 2 then Err InvalidData
     else
       let tracks = le32_at header 28; bat_entries = le32_at header 32; nb_sectors = le64_at header 36 in
       and_then (ok_or (case checked_mul (ucast tracks) 512 of
                          Some s \<Rightarrow> if s \<noteq> 0 then Some s else None
                        | None \<Rightarrow> None) InvalidData) (\<lambda>cluster_size.
       and_then (ok_or (checked_mul nb_sectors 512) InvalidData) (\<lambda>virtual_size.
       and_then (checked_table_size parent 64 (ucast bat_entries) 4) (\<lambda>bat_size.
       and_then (read_exactly parent 64 bat_size) (\<lambda>bat_bytes.
       Ok \<lparr>par_bat = decode_chunks 4 from_le bat_bytes, par_cluster_size = cluster_size,
           par_virtual_size = virtual_size, par_extended = extended\<rparr>))))))"

definition parallels_reader :: "reader \<Rightarrow> parallels \<Rightarrow> reader" where
  "parallels_reader parent d =
     \<lparr>read_at = (\<lambda>off n.
        if off \<ge> par_virtual_size d then Ok []
        else if par_cluster_size d = 0 then Panic
        else
          let cluster_idx = unat (off div par_cluster_size d);
              intra_cluster = off mod par_cluster_size d
          in if cluster_idx \<ge> length (par_bat d) then Ok []
             else
               let remaining_in_cluster = par_cluster_size d - intra_cluster;
                   remaining_in_disk = par_virtual_size d - off;
                   to_read = min (min n (unat remaining_in_cluster)) (unat remaining_in_disk);
                   bat_entry = par_bat d ! cluster_idx
               in if bat_entry = 0 then Ok (replicate to_read 0)
                  else
                    let physical_offset =
                          (if par_extended d then ucast bat_entry * par_cluster_size d + intra_cluster
                           else ucast bat_entry * 512 + intra_cluster)
                    in read_at parent physical_offset to_read),
      rsize = Some (par_virtual_size d)\<rparr>"

definition parallels_children :: container where
  "parallels_children reader =
     and_then (parallels_open reader) (\<lambda>d. Ok [virtual_child (parallels_reader reader d)])"

definition parallels_locate :: "parallels \<Rightarrow> u64 \<Rightarrow> source io" where
  "parallels_locate d i = Ok
     (if unat i \<ge> length (par_bat d) then Missing
      else let e = par_bat d ! unat i in
        if e = 0 then Zeros
        else Stored (ucast e * (if par_extended d then par_cluster_size d else 512)))"

lemma checked_table_size_not_Panic [panic_free]: "checked_table_size r off n k \<noteq> Panic"
  by (auto simp: checked_table_size_def panic_free split: if_splits)

lemma parallels_open_size: "parallels_open r = Ok d \<Longrightarrow> par_cluster_size d \<noteq> 0"
  by (auto simp: parallels_open_def Let_def ok_iff split: if_splits option.splits)

interpretation parallels: block_disk parallels_children parallels_open parallels_reader par_cluster_size
    par_virtual_size "\<lambda>_. parallels_locate"
proof (rule block_disk.intro)
  show "parallels_open r \<noteq> Panic" if "safe_reader r" for r
    using that by (simp add: parallels_open_def Let_def panic_free)
  show "block_reader r (parallels_reader r d) (par_cluster_size d) (par_virtual_size d) (parallels_locate d)"
    if "parallels_open r = Ok d" for r d
    by (rule block_reader.intro)
      (use parallels_open_size [OF that] in \<open>auto simp: parallels_reader_def parallels_locate_def Let_def\<close>)
qed (simp_all add: parallels_children_def parallels_locate_def parallels_reader_def)

section \<open>What a virtual disk reads as\<close>

text \<open>
  C22. The single child of a VirtualBox image is the virtual disk: its size is the one in the
  header, a block without an entry reads as zeros and every other one as the block of the
  data area its entry numbers, for every sequence of reads.
\<close>

theorem vdi_content:
  assumes "exact_reader parent data" and "vdi_open parent = Ok d"
    and "backed data (unat (vdi_block_size d)) (unat (vdi_virtual_size d)) (vdi_locate d)"
  shows "vdi_children parent = Ok [virtual_child (vdi_reader parent d)] \<and>
    positional_reader (vdi_reader parent d)
      (flat data (unat (vdi_block_size d)) (unat (vdi_virtual_size d)) (vdi_locate d))"
  using vdi.disk_content [OF assms] by blast

text \<open>Two blocks of eight bytes; the first has no entry, the second is block 0 of the data area.\<close>

definition vdi_image :: bytes where
  "vdi_image = image_of 440 (\<lambda>i.
     if 0x40 \<le> i \<and> i < 0x44 then [0x7f, 0x10, 0xda, 0xbe] ! (i - 0x40)
     else if 0x154 \<le> i \<and> i < 0x15c then [144, 1, 0, 0, 160, 1, 0, 0] ! (i - 0x154)
     else if i = 0x170 then 16 else if i = 0x178 then 8 else if i = 0x180 then 2
     else if 400 \<le> i \<and> i < 404 then 0xFF else if 416 \<le> i then word_of_nat (i - 415) else 0)"

theorem vdi_content_witness:
  "\<exists>r. vdi_children (bytes_reader vdi_image) = Ok [virtual_child r] \<and>
     read_all r = Ok [0, 0, 0, 0, 0, 0, 0, 0, 1, 2, 3, 4, 5, 6, 7, 8]"
proof -
  let ?d = "\<lparr>vdi_block_map = [0xFFFFFFFF, 0], vdi_block_size = 8, vdi_data_offset = 416, vdi_virtual_size = 16\<rparr>"
  have open_image: "vdi_open (bytes_reader vdi_image) = Ok ?d"
    by (simp add: vdi_open_def bytes.read_exactly_eq exact_reader.read_at_eq [OF bytes.exact_reader_axioms]
        vdi_image_def take_drop_image_of zero_filled_def le32_at_def le64_at_def nth_append from_le_def Let_def
        VDI_SIGNATURE_def decode_chunks_def chunks_exact_numeral upt_rec)
  have there: "backed vdi_image 8 16 (vdi_locate ?d)"
    unfolding backed_def
  proof (intro allI impI)
    fix i :: nat assume "i * 8 < 16"
    then have "i = 0 \<or> i = 1" by linarith
    then show "case vdi_locate ?d (word_of_nat i) of
        Ok Zeros \<Rightarrow> True
      | Ok (Stored b) \<Rightarrow> unat b + min 8 (16 - i * 8) \<le> length vdi_image \<and> unat b + 8 \<le> 2 ^ 64
      | Ok (Inline x) \<Rightarrow> min 8 (16 - i * 8) \<le> length x
      | _ \<Rightarrow> False"
      by (elim disjE) (simp_all add: vdi_locate_def vdi_image_def VDI_UNALLOCATED_def VDI_DISCARDED_def)
  qed
  have flat: "flat vdi_image 8 16 (vdi_locate ?d) = [0, 0, 0, 0, 0, 0, 0, 0, 1, 2, 3, 4, 5, 6, 7, 8]"
    by (simp add: flat_def flat_byte_def block_source_def vdi_locate_def vdi_image_def VDI_UNALLOCATED_def
        VDI_DISCARDED_def upt_rec)
  from vdi_content [OF bytes.exact_reader_axioms open_image] there flat
  have "vdi_children (bytes_reader vdi_image) = Ok [virtual_child (vdi_reader (bytes_reader vdi_image) ?d)]"
    "positional_reader (vdi_reader (bytes_reader vdi_image) ?d) [0, 0, 0, 0, 0, 0, 0, 0, 1, 2, 3, 4, 5, 6, 7, 8]"
    by simp_all
  then show ?thesis
    using positional_reader.read_all_eq by (fastforce simp: MAX_SIZE_def)
qed

text \<open>
  A fixed VHD image is refused: its only footer is at its end, and the magic is looked for
  at the start alone. An image opens only when the raw disk itself begins with a footer.
\<close>

theorem vhd_fixed_refused:
  assumes "exact_reader r (disk @ footer)" and "length footer = 512" and "512 \<le> length disk"
    and "take 8 footer = VHD_MAGIC" and "be32_at footer 0x3c = VHD_FIXED" and "take 8 disk \<noteq> VHD_MAGIC"
  shows "vhd_children r = Err InvalidData"
  using assms(3,6) by (simp add: vhd_children_def vhd_open_def exact_reader.read_exactly_eq [OF assms(1)])

theorem vhd_fixed_refused_witness:
  "vhd_children (bytes_reader (replicate 1024 7 @ VHD_MAGIC @ replicate 52 0 @ [0, 0, 0, 2] @ replicate 448 0)) =
     Err InvalidData"
proof (rule vhd_fixed_refused [OF bytes.exact_reader_axioms])
  have magic: "length VHD_MAGIC = 8" "hd VHD_MAGIC = 0x63" by (simp_all add: VHD_MAGIC_def)
  then show "length (VHD_MAGIC @ replicate 52 0 @ [0, 0, 0, 2] @ replicate 448 0) = 512"
    "take 8 (VHD_MAGIC @ replicate 52 0 @ [0, 0, 0, 2] @ replicate 448 0) = VHD_MAGIC"
    by simp_all
  show "be32_at (VHD_MAGIC @ replicate 52 0 @ [0, 0, 0, 2] @ replicate 448 0) 0x3c = VHD_FIXED"
    using magic by (simp add: be32_at_def nth_append from_be_def VHD_FIXED_def)
  have "hd (take 8 (replicate 1024 7)) \<noteq> hd VHD_MAGIC" using magic(2) by simp
  then show "take 8 (replicate 1024 7) \<noteq> VHD_MAGIC" by (rule contrapos_nn) (rule arg_cong)
qed simp

end
