(* ===== verification/Disk_Qcow.thy ===== *)
theory Disk_Qcow
  imports Blocks
begin

text \<open>
  Disk images with two levels of tables: \<^verbatim>\<open>qcow.rs\<close>, \<^verbatim>\<open>qcow2.rs\<close> and \<^verbatim>\<open>qed.rs\<close>. The second
  level is read from the image at every access. The inflate decoder of compressed clusters
  is a crate and an argument. \<open>qcow2\<close> and \<open>qed\<close> interpret \<open>block_disk\<close>; \<open>qcow\<close> does not
  check the size of its second level nor of its table, so that its reader is block-mapped
  only for sensible headers and opening it can unwind.
\<close>

section \<open>Shifts and buffers\<close>

text \<open>Without overflow checks the amount of a shift is taken modulo the width.\<close>

definition shl :: "u64 \<Rightarrow> nat \<Rightarrow> u64" where "shl w k = push_bit (k mod 64) w"
definition shr :: "u64 \<Rightarrow> nat \<Rightarrow> u64" where "shr w k = drop_bit (k mod 64) w"

text \<open>\<^verbatim>\<open>vec![0u8; n]\<close> unwinds for a size that no allocation can have.\<close>

definition allocate :: "nat \<Rightarrow> unit io" where
  "allocate n = (if n < 2 ^ 63 then Ok () else Panic)"

text \<open>\<^verbatim>\<open>decoder.read_exact(&mut buf)\<close>\<close>

fun read_exact_from :: "bytes \<times> error_kind option \<Rightarrow> nat \<Rightarrow> bytes io" where
  "read_exact_from (out, e) n =
     (if n \<le> length out then Ok (take n out)
      else Err (case e of Some k \<Rightarrow> k | None \<Rightarrow> UnexpectedEof))"

lemma read_exact_from_not_Panic [panic_free]: "read_exact_from p n \<noteq> Panic"
  by (cases p) simp

lemma read_exact_from_length: "read_exact_from p n = Ok bs \<Longrightarrow> length bs = n"
  by (cases p) (auto split: if_splits)

lemma low_bits: "k < 64 \<Longrightarrow> (w :: u64) AND (shl 1 k - 1) = w mod shl 1 k"
  by (simp add: shl_def push_bit_of_1 take_bit_eq_mod flip: mask_eq_exp_minus_1 take_bit_eq_mask)

lemma high_bits: "k < 64 \<Longrightarrow> shr w k = (w :: u64) div shl 1 k"
  by (simp add: shl_def shr_def push_bit_of_1 drop_bit_eq_div)

lemma shr_shr: "j + k < 64 \<Longrightarrow> shr w (j + k) = shr (shr w k) j"
  by (simp add: shr_def add.commute)

lemma shl_not_0: "k < 64 \<Longrightarrow> shl 1 k \<noteq> 0"
  by (simp add: shl_def push_bit_of_1)

section \<open>QCOW version 2 and 3\<close>

definition QCOW_MAGIC :: u32 where "QCOW_MAGIC = 0x514649fb"
definition L2E_OFFSET_MASK :: u64 where "L2E_OFFSET_MASK = 0x00fffffffffffe00"
definition QCOW_OFLAG_COMPRESSED :: u64 where "QCOW_OFLAG_COMPRESSED = push_bit 62 1"
definition QCOW_OFLAG_ZERO :: u64 where "QCOW_OFLAG_ZERO = 1"

record qcow =
  l1_table :: "u64 list"
  cluster_size :: u64
  cluster_bits :: nat
  l2_bits :: nat
  l2_size :: u64
  virtual_size :: u64

definition qcow2_open :: "reader \<Rightarrow> qcow io" where
  "qcow2_open parent =
     and_then (read_exactly parent 0 0x30) (\<lambda>header.
     if be32_at header 0 \<noteq> QCOW_MAGIC then Err InvalidData
     else if be32_at header 4 < 2 then Err InvalidData
     else
       let bits = be32_at header 0x14;
           vsize = be64_at header 0x18;
           l1_size = unat (be32_at header 0x24);
           l1_table_offset = be64_at header 0x28
       in if \<not> (9 \<le> bits \<and> bits \<le> 21) then Err InvalidData
          else
            let cluster_bits = unat bits; l2_bits = cluster_bits - 3 in
            and_then (read_exactly parent l1_table_offset (l1_size * 8)) (\<lambda>l1_data.
            Ok \<lparr>l1_table = decode_chunks 8 from_be l1_data, cluster_size = shl 1 cluster_bits,
                cluster_bits = cluster_bits, l2_bits = l2_bits, l2_size = shl 1 l2_bits,
                virtual_size = vsize\<rparr>))"

definition qcow2_read_l2_entry :: "reader \<Rightarrow> u64 \<Rightarrow> u64 \<Rightarrow> u64 io" where
  "qcow2_read_l2_entry parent l2_offset l2_index = read_be64 parent (l2_offset + l2_index * 8)"

definition qcow2_read_compressed_cluster :: "pull_decoder \<Rightarrow> reader \<Rightarrow> qcow \<Rightarrow> u64 \<Rightarrow> bytes io" where
  "qcow2_read_compressed_cluster inflate parent d l2_entry =
     (let csize_shift = 63 - cluster_bits d;
          coffset_mask = shl 1 csize_shift - 1;
          csize_mask = shl 1 (cluster_bits d) - 1;
          coffset = l2_entry AND coffset_mask;
          nb_sectors = (shr l2_entry csize_shift AND csize_mask) + 1;
          compressed_size = unat nb_sectors * 512
      in and_then (read_at parent coffset compressed_size) (\<lambda>compressed.
         read_exact_from (inflate compressed) (unat (cluster_size d))))"

definition qcow2_reader :: "pull_decoder \<Rightarrow> reader \<Rightarrow> qcow \<Rightarrow> reader" where
  "qcow2_reader inflate parent d =
     \<lparr>read_at = (\<lambda>off n.
        if off \<ge> virtual_size d then Ok []
        else
          let l1_index = unat (shr off (l2_bits d + cluster_bits d));
              l2_index = shr off (cluster_bits d) AND (l2_size d - 1);
              in_cluster = off AND (cluster_size d - 1);
              remaining_in_cluster = cluster_size d - in_cluster;
              remaining_in_disk = virtual_size d - off;
              to_read = min (min n (unat remaining_in_cluster)) (unat remaining_in_disk)
          in if l1_index \<ge> length (l1_table d) then Ok (replicate to_read 0)
             else
               let l1_entry = l1_table d ! l1_index; l2_offset = l1_entry AND L2E_OFFSET_MASK in
               if l2_offset = 0 then Ok (replicate to_read 0)
               else and_then (qcow2_read_l2_entry parent l2_offset l2_index) (\<lambda>l2_entry.
                 if l2_entry AND QCOW_OFLAG_ZERO \<noteq> 0 then Ok (replicate to_read 0)
                 else
                   let cluster_offset = l2_entry AND L2E_OFFSET_MASK in
                   if cluster_offset = 0 then Ok (replicate to_read 0)
                   else if l2_entry AND QCOW_OFLAG_COMPRESSED \<noteq> 0 then
                     and_then (qcow2_read_compressed_cluster inflate parent d l2_entry) (\<lambda>decompressed.
                     and_then (get_range decompressed (unat in_cluster) (length decompressed)) (\<lambda>rest.
                     get_range rest 0 to_read))
                   else read_at parent (cluster_offset + in_cluster) to_read)),
      rsize = Some (virtual_size d)\<rparr>"

definition qcow2_children :: "pull_decoder \<Rightarrow> container" where
  "qcow2_children inflate reader =
     and_then (qcow2_open reader) (\<lambda>d. Ok [virtual_child (qcow2_reader inflate reader d)])"

definition qcow2_locate :: "pull_decoder \<Rightarrow> reader \<Rightarrow> qcow \<Rightarrow> u64 \<Rightarrow> source io" where
  "qcow2_locate inflate parent d i =
     (if unat (shr i (l2_bits d)) \<ge> length (l1_table d) then Ok Zeros
      else
        let l2_offset = l1_table d ! unat (shr i (l2_bits d)) AND L2E_OFFSET_MASK in
        if l2_offset = 0 then Ok Zeros
        else and_then (qcow2_read_l2_entry parent l2_offset (i mod l2_size d)) (\<lambda>e.
          if e AND QCOW_OFLAG_ZERO \<noteq> 0 \<or> e AND L2E_OFFSET_MASK = 0 then Ok Zeros
          else if e AND QCOW_OFLAG_COMPRESSED \<noteq> 0
          then and_then (qcow2_read_compressed_cluster inflate parent d e) (\<lambda>bs. Ok (Inline bs))
          else Ok (Stored (e AND L2E_OFFSET_MASK))))"

definition geometry_ok :: "qcow \<Rightarrow> bool" where
  "geometry_ok d \<longleftrightarrow> l2_bits d + cluster_bits d < 64 \<and>
     cluster_size d = shl 1 (cluster_bits d) \<and> l2_size d = shl 1 (l2_bits d)"

lemma qcow2_open_geometry: "qcow2_open r = Ok d \<Longrightarrow> geometry_ok d"
  by (auto simp: qcow2_open_def Let_def ok_iff geometry_ok_def word_le_nat_alt split: if_splits)

lemma geometry_facts:
  assumes "geometry_ok d"
  shows "cluster_size d \<noteq> 0" "off AND (cluster_size d - 1) = off mod cluster_size d"
    "shr off (cluster_bits d) = off div cluster_size d"
    "shr off (l2_bits d + cluster_bits d) = shr (off div cluster_size d) (l2_bits d)"
    "i AND (l2_size d - 1) = i mod l2_size d"
proof -
  have bits: "l2_bits d + cluster_bits d < 64" and cs: "cluster_size d = shl 1 (cluster_bits d)"
    "l2_size d = shl 1 (l2_bits d)"
    using assms by (simp_all add: geometry_ok_def)
  have div: "shr off (cluster_bits d) = off div cluster_size d"
    using bits by (simp add: cs high_bits)
  with bits show "shr off (l2_bits d + cluster_bits d) = shr (off div cluster_size d) (l2_bits d)"
    by (simp only: shr_shr)
  from div bits show "cluster_size d \<noteq> 0" "off AND (cluster_size d - 1) = off mod cluster_size d"
    "shr off (cluster_bits d) = off div cluster_size d" "i AND (l2_size d - 1) = i mod l2_size d"
    by (simp_all add: cs shl_not_0 low_bits)
qed

text \<open>A slice of a decompressed cluster never leaves it.\<close>

lemma cluster_slice:
  assumes "length bs = unat cs" and "in_c < (cs :: u64)" and "k \<le> unat (cs - in_c)"
  shows "and_then (get_range bs (unat in_c) (length bs)) (\<lambda>rest. get_range rest 0 k) =
    Ok (take k (drop (unat in_c) bs))"
proof -
  have "unat (cs - in_c) = unat cs - unat in_c" "unat in_c < unat cs"
    using assms(2) by (simp_all add: unat_sub word_less_nat_alt word_le_nat_alt)
  with assms show ?thesis by (simp add: get_range_def)
qed

lemma qcow2_compressed_length:
  "qcow2_read_compressed_cluster inflate r d e = Ok bs \<Longrightarrow> length bs = unat (cluster_size d)"
  by (auto simp: qcow2_read_compressed_cluster_def Let_def ok_iff dest: read_exact_from_length)

lemma mod_less_self: "(b :: u64) \<noteq> 0 \<Longrightarrow> a mod b < b"
  by (simp add: word_less_nat_alt unat_mod unat_gt_0)

lemma qcow2_block_reader:
  assumes "geometry_ok d"
  shows "block_reader r (qcow2_reader inflate r d) (cluster_size d) (virtual_size d) (qcow2_locate inflate r d)"
proof (rule block_reader.intro)
  show "cluster_size d \<noteq> 0" by (rule geometry_facts [OF assms])
  fix off n
  let ?cs = "cluster_size d" and ?in = "off mod cluster_size d"
  let ?k = "min (min n (unat (?cs - ?in))) (unat (virtual_size d - off))"
  have slice: "and_then (get_range bs (unat ?in) (length bs)) (\<lambda>rest. get_range rest 0 ?k) =
      Ok (take ?k (drop (unat ?in) bs))"
    if "qcow2_read_compressed_cluster inflate r d e = Ok bs" for e bs
    using qcow2_compressed_length [OF that] mod_less_self [OF geometry_facts(1) [OF assms]]
    by (intro cluster_slice) (auto simp: min_le_iff_disj)
  show "read_at (qcow2_reader inflate r d) off n =
      (if off \<ge> virtual_size d then Ok []
       else let k = ?k in
         and_then (qcow2_locate inflate r d (off div ?cs)) (\<lambda>s.
           case s of
             Zeros \<Rightarrow> Ok (replicate k 0)
           | Stored b \<Rightarrow> read_at r (b + ?in) k
           | Inline d \<Rightarrow> Ok (take k (drop (unat ?in) d))
           | Missing \<Rightarrow> Ok []))"
    by (auto simp: qcow2_reader_def qcow2_locate_def Let_def geometry_facts [OF assms] and_then_assoc
        slice intro!: and_then_cong)
qed

lemma qcow2_locate_not_Panic:
  assumes "safe_reader r" shows "qcow2_locate inflate r d i \<noteq> Panic"
  using assms
  by (simp add: qcow2_locate_def qcow2_read_l2_entry_def qcow2_read_compressed_cluster_def Let_def panic_free)

interpretation qcow2: block_disk "qcow2_children inflate" qcow2_open "qcow2_reader inflate" cluster_size
    virtual_size "qcow2_locate inflate" for inflate
proof (rule block_disk.intro)
  show "qcow2_open r \<noteq> Panic" if "safe_reader r" for r
    using that by (simp add: qcow2_open_def Let_def panic_free)
  show "block_reader r (qcow2_reader inflate r d) (cluster_size d) (virtual_size d) (qcow2_locate inflate r d)"
    if "qcow2_open r = Ok d" for r d
    using qcow2_open_geometry [OF that] by (rule qcow2_block_reader)
qed (simp_all add: qcow2_children_def qcow2_reader_def qcow2_locate_not_Panic)

section \<open>QCOW version 1\<close>

text \<open>
  The byte \<^verbatim>\<open>l2_bits\<close> is not checked, and the size of the first table follows from it and
  from the 64-bit virtual size: the sum of the shifts can pass 63, the sums and the product
  wrap around, and the allocation is not limited.
\<close>

definition QCOW_VERSION :: u32 where "QCOW_VERSION = 1"

definition qcow_l1_bytes :: "u64 \<Rightarrow> nat \<Rightarrow> nat \<Rightarrow> u64" where
  "qcow_l1_bytes vsize cbits lbits =
     shr (vsize + shl 1 (cbits + lbits) - 1) (cbits + lbits) * 8"

definition qcow_open :: "reader \<Rightarrow> qcow io" where
  "qcow_open parent =
     and_then (read_exactly parent 0 48) (\<lambda>header.
     if be32_at header 0 \<noteq> QCOW_MAGIC then Err InvalidData
     else if be32_at header 4 \<noteq> QCOW_VERSION then Err InvalidData
     else
       let vsize = be64_at header 24;
           cluster_bits = unat (header ! 32);
           l2_bits = unat (header ! 33);
           l1_table_offset = be64_at header 40
       in if \<not> (9 \<le> cluster_bits \<and> cluster_bits \<le> 20) then Err InvalidData
          else
            let l1_bytes = unat (qcow_l1_bytes vsize cluster_bits l2_bits) in
            and_then (allocate l1_bytes) (\<lambda>_.
            and_then (read_exactly parent l1_table_offset l1_bytes) (\<lambda>l1_data.
            Ok \<lparr>l1_table = decode_chunks 8 from_be l1_data, cluster_size = shl 1 cluster_bits,
                cluster_bits = cluster_bits, l2_bits = l2_bits, l2_size = shl 1 l2_bits,
                virtual_size = vsize\<rparr>)))"

definition qcow_read_l2_entry :: "reader \<Rightarrow> u64 \<Rightarrow> u64 \<Rightarrow> u64 io" where
  "qcow_read_l2_entry parent l2_offset l2_index = read_be64 parent (l2_offset + l2_index * 8)"

definition qcow_read_compressed_cluster :: "pull_decoder \<Rightarrow> reader \<Rightarrow> qcow \<Rightarrow> u64 \<Rightarrow> bytes io" where
  "qcow_read_compressed_cluster inflate parent d l2_entry =
     (let coffset_bits = 63 - cluster_bits d;
          coffset_mask = shl 1 coffset_bits - 1;
          csize_mask = shl 1 (cluster_bits d) - 1;
          coffset = l2_entry AND coffset_mask;
          nb_sectors = (shr l2_entry coffset_bits AND csize_mask) + 1;
          compressed_size = unat nb_sectors * 512
      in and_then (read_at parent coffset compressed_size) (\<lambda>compressed.
         read_exact_from (inflate compressed) (unat (cluster_size d))))"

definition qcow_reader :: "pull_decoder \<Rightarrow> reader \<Rightarrow> qcow \<Rightarrow> reader" where
  "qcow_reader inflate parent d =
     \<lparr>read_at = (\<lambda>off n.
        if off \<ge> virtual_size d then Ok []
        else
          let l1_index = unat (shr off (l2_bits d + cluster_bits d));
              l2_index = shr off (cluster_bits d) AND (l2_size d - 1);
              in_cluster = off AND (cluster_size d - 1)
          in if l1_index \<ge> length (l1_table d) then
               Ok (replicate (min (min n (unat (cluster_size d - in_cluster))) (unat (virtual_size d - off))) 0)
             else
               let remaining_in_cluster = cluster_size d - in_cluster;
                   remaining_in_disk = virtual_size d - off;
                   to_read = min (min n (unat remaining_in_cluster)) (unat remaining_in_disk);
                   l2_offset = l1_table d ! l1_index
               in if l2_offset = 0 then Ok (replicate to_read 0)
                  else and_then (qcow_read_l2_entry parent l2_offset l2_index) (\<lambda>cluster_offset.
                    if cluster_offset = 0 then Ok (replicate to_read 0)
                    else if cluster_offset AND push_bit 63 1 \<noteq> 0 then
                      and_then (qcow_read_compressed_cluster inflate parent d cluster_offset) (\<lambda>decompressed.
                      and_then (get_range decompressed (unat in_cluster) (length decompressed)) (\<lambda>rest.
                      get_range rest 0 to_read))
                    else read_at parent (cluster_offset + in_cluster) to_read)),
      rsize = Some (virtual_size d)\<rparr>"

definition qcow_children :: "pull_decoder \<Rightarrow> container" where
  "qcow_children inflate reader =
     and_then (qcow_open reader) (\<lambda>d. Ok [virtual_child (qcow_reader inflate reader d)])"

definition qcow_locate :: "pull_decoder \<Rightarrow> reader \<Rightarrow> qcow \<Rightarrow> u64 \<Rightarrow> source io" where
  "qcow_locate inflate parent d i =
     (if unat (shr i (l2_bits d)) \<ge> length (l1_table d) then Ok Zeros
      else
        let l2_offset = l1_table d ! unat (shr i (l2_bits d)) in
        if l2_offset = 0 then Ok Zeros
        else and_then (qcow_read_l2_entry parent l2_offset (i mod l2_size d)) (\<lambda>e.
          if e = 0 then Ok Zeros
          else if e AND push_bit 63 1 \<noteq> 0
          then and_then (qcow_read_compressed_cluster inflate parent d e) (\<lambda>bs. Ok (Inline bs))
          else Ok (Stored e)))"

lemma qcow_open_fields:
  assumes "qcow_open r = Ok d"
  shows "cluster_bits d \<le> 20" "cluster_size d = shl 1 (cluster_bits d)" "l2_size d = shl 1 (l2_bits d)"
    and "length (l1_table d) = unat (qcow_l1_bytes (virtual_size d) (cluster_bits d) (l2_bits d)) div 8"
  using assms by (auto simp: qcow_open_def Let_def ok_iff read_exactly_def split: if_splits)

lemma qcow_open_geometry:
  "qcow_open r = Ok d \<Longrightarrow> l2_bits d + cluster_bits d < 64 \<Longrightarrow> geometry_ok d"
  by (simp add: geometry_ok_def qcow_open_fields)

lemma qcow_compressed_length:
  "qcow_read_compressed_cluster inflate r d e = Ok bs \<Longrightarrow> length bs = unat (cluster_size d)"
  by (auto simp: qcow_read_compressed_cluster_def Let_def ok_iff dest: read_exact_from_length)

lemma qcow_block_reader:
  assumes "geometry_ok d"
  shows "block_reader r (qcow_reader inflate r d) (cluster_size d) (virtual_size d) (qcow_locate inflate r d)"
proof (rule block_reader.intro)
  show "cluster_size d \<noteq> 0" by (rule geometry_facts [OF assms])
  fix off n
  let ?cs = "cluster_size d" and ?in = "off mod cluster_size d"
  let ?k = "min (min n (unat (?cs - ?in))) (unat (virtual_size d - off))"
  have slice: "and_then (get_range bs (unat ?in) (length bs)) (\<lambda>rest. get_range rest 0 ?k) =
      Ok (take ?k (drop (unat ?in) bs))"
    if "qcow_read_compressed_cluster inflate r d e = Ok bs" for e bs
    using qcow_compressed_length [OF that] mod_less_self [OF geometry_facts(1) [OF assms]]
    by (intro cluster_slice) (auto simp: min_le_iff_disj)
  show "read_at (qcow_reader inflate r d) off n =
      (if off \<ge> virtual_size d then Ok []
       else let k = ?k in
         and_then (qcow_locate inflate r d (off div ?cs)) (\<lambda>s.
           case s of
             Zeros \<Rightarrow> Ok (replicate k 0)
           | Stored b \<Rightarrow> read_at r (b + ?in) k
           | Inline d \<Rightarrow> Ok (take k (drop (unat ?in) d))
           | Missing \<Rightarrow> Ok []))"
    by (auto simp: qcow_reader_def qcow_locate_def Let_def geometry_facts [OF assms] and_then_assoc
        slice intro!: and_then_cong)
qed

text \<open>A reader with any second-level size is safe: the cluster size alone bounds the slices.\<close>

lemma qcow_reader_safe:
  assumes "safe_reader r" and "qcow_open r = Ok d"
  shows "safe_reader (qcow_reader inflate r d)"
proof (rule safe_reader.intro)
  let ?cs = "cluster_size d"
  have bits: "cluster_bits d < 64" and cs: "?cs = shl 1 (cluster_bits d)"
    using qcow_open_fields [OF assms(2)] by simp_all
  then have in_c: "off AND (?cs - 1) = off mod ?cs" and nz: "?cs \<noteq> 0" for off
    by (simp_all add: low_bits shl_not_0)
  have slice: "and_then (get_range bs (unat (off mod ?cs)) (length bs)) (\<lambda>rest. get_range rest 0 k) =
      Ok (take k (drop (unat (off mod ?cs)) bs))"
    if "qcow_read_compressed_cluster inflate r d e = Ok bs" "k \<le> unat (?cs - off mod ?cs)" for e bs off k
    using qcow_compressed_length [OF that(1)] mod_less_self [OF nz] that(2) by (intro cluster_slice)
  have compressed: "qcow_read_compressed_cluster inflate r d e \<noteq> Panic" for e
    using assms(1) by (simp add: qcow_read_compressed_cluster_def Let_def panic_free)
  have inline: "and_then (qcow_read_compressed_cluster inflate r d e) (\<lambda>bs.
      and_then (get_range bs (unat (off mod ?cs)) (length bs)) (\<lambda>rest. get_range rest 0 k)) \<noteq> Panic"
    if "k \<le> unat (?cs - off mod ?cs)" for e off k
    using compressed [of e] slice [OF _ that] by (cases "qcow_read_compressed_cluster inflate r d e") simp_all
  show "read_at (qcow_reader inflate r d) off n \<noteq> Panic" for off n
    using inline [of "min (min n (unat (?cs - off mod ?cs))) (unat (virtual_size d - off))" off] assms(1)
    by (simp add: qcow_reader_def qcow_read_l2_entry_def Let_def in_c min_le_iff_disj and_then_Panic_iff [of "read_be64 _ _"]
        safe_reader.fixed_reads_not_Panic safe_reader.read_not_Panic)
  show "length bs \<le> n" if "read_at (qcow_reader inflate r d) off n = Ok bs" for off n bs
    using that
    by (auto simp: qcow_reader_def Let_def ok_iff split: if_splits dest!: safe_reader.read_bounded [OF assms(1)])
qed

section \<open>QEMU Enhanced Disk\<close>

definition QED_MAGIC :: u32 where "QED_MAGIC = 0x00444551"
definition QED_MIN_CLUSTER_SIZE :: u64 where "QED_MIN_CLUSTER_SIZE = 4 * 1024"
definition QED_MAX_CLUSTER_SIZE :: u64 where "QED_MAX_CLUSTER_SIZE = 64 * 1024 * 1024"
definition QED_MAX_TABLE_SIZE :: u64 where "QED_MAX_TABLE_SIZE = 16"

definition is_power_of_two :: "u64 \<Rightarrow> bool" where
  "is_power_of_two w \<longleftrightarrow> w \<noteq> 0 \<and> w AND (w - 1) = 0"

record qed_image =
  qed_l1_table :: "u64 list"
  qed_cluster_size :: u64
  qed_l2_entries :: u64
  qed_virtual_size :: u64

definition qed_open :: "reader \<Rightarrow> qed_image io" where
  "qed_open parent =
     and_then (read_exactly parent 0 0x38) (\<lambda>header.
     if le32_at header 0 \<noteq> QED_MAGIC then Err InvalidData
     else
       let csize = ucast (le32_at header 0x04) :: u64;
           table_size = ucast (le32_at header 0x08) :: u64;
           l1_table_offset = le64_at header 0x28;
           vsize = le64_at header 0x30
       in if \<not> (QED_MIN_CLUSTER_SIZE \<le> csize \<and> csize \<le> QED_MAX_CLUSTER_SIZE) \<or> \<not> is_power_of_two csize
          then Err InvalidData
          else if table_size = 0 \<or> table_size > QED_MAX_TABLE_SIZE \<or> \<not> is_power_of_two table_size
          then Err InvalidData
          else
            and_then (ok_or (checked_mul table_size csize) InvalidData) (\<lambda>l1_bytes_u64.
            let l2_entries = l1_bytes_u64 div 8 in
            and_then (checked_table_size parent l1_table_offset l2_entries 8) (\<lambda>l1_bytes.
            and_then (read_exactly parent l1_table_offset l1_bytes) (\<lambda>l1_data.
            Ok \<lparr>qed_l1_table = decode_chunks 8 from_le l1_data, qed_cluster_size = csize,
                qed_l2_entries = l2_entries, qed_virtual_size = vsize\<rparr>))))"

definition qed_read_l2_entry :: "reader \<Rightarrow> u64 \<Rightarrow> u64 \<Rightarrow> u64 io" where
  "qed_read_l2_entry parent l2_offset l2_index = read_le64 parent (l2_offset + l2_index * 8)"

definition qed_reader :: "reader \<Rightarrow> qed_image \<Rightarrow> reader" where
  "qed_reader parent d =
     \<lparr>read_at = (\<lambda>off n.
        if off \<ge> qed_virtual_size d then Ok []
        else if qed_cluster_size d = 0 \<or> qed_l2_entries d * qed_cluster_size d = 0 then Panic
        else
          let l2_coverage = qed_l2_entries d * qed_cluster_size d;
              l1_index = unat (off div l2_coverage);
              l2_index = (off mod l2_coverage) div qed_cluster_size d;
              in_cluster = off mod qed_cluster_size d;
              remaining_in_cluster = qed_cluster_size d - in_cluster;
              remaining_in_disk = qed_virtual_size d - off;
              to_read = min (min n (unat remaining_in_cluster)) (unat remaining_in_disk)
          in if l1_index \<ge> length (qed_l1_table d) then Ok (replicate to_read 0)
             else
               let l2_offset = qed_l1_table d ! l1_index in
               if l2_offset = 0 then Ok (replicate to_read 0)
               else and_then (qed_read_l2_entry parent l2_offset l2_index) (\<lambda>cluster_offset.
                 if cluster_offset \<le> 1 then Ok (replicate to_read 0)
                 else read_at parent (cluster_offset + in_cluster) to_read)),
      rsize = Some (qed_virtual_size d)\<rparr>"

definition qed_children :: container where
  "qed_children reader =
     and_then (qed_open reader) (\<lambda>d. Ok [virtual_child (qed_reader reader d)])"

definition qed_locate :: "reader \<Rightarrow> qed_image \<Rightarrow> u64 \<Rightarrow> source io" where
  "qed_locate parent d i =
     (if unat (i div qed_l2_entries d) \<ge> length (qed_l1_table d) then Ok Zeros
      else
        let l2_offset = qed_l1_table d ! unat (i div qed_l2_entries d) in
        if l2_offset = 0 then Ok Zeros
        else and_then (qed_read_l2_entry parent l2_offset (i mod qed_l2_entries d)) (\<lambda>e.
          Ok (if e \<le> 1 then Zeros else Stored e)))"

definition qed_geometry_ok :: "qed_image \<Rightarrow> bool" where
  "qed_geometry_ok d \<longleftrightarrow> 0 < unat (qed_cluster_size d) \<and> 0 < unat (qed_l2_entries d) \<and>
     unat (qed_l2_entries d) * unat (qed_cluster_size d) < 2 ^ 64"

lemma qed_open_geometry:
  assumes "qed_open r = Ok d" shows "qed_geometry_ok d"
proof -
  from assms obtain t b where d: "QED_MIN_CLUSTER_SIZE \<le> qed_cluster_size d"
      "qed_cluster_size d \<le> QED_MAX_CLUSTER_SIZE" "t \<noteq> 0" "t \<le> QED_MAX_TABLE_SIZE"
    and b: "checked_mul t (qed_cluster_size d) = Some b" "qed_l2_entries d = b div 8"
    by (auto simp: qed_open_def Let_def ok_iff split: if_splits)
  have c: "4096 \<le> unat (qed_cluster_size d)" "unat (qed_cluster_size d) \<le> 67108864"
    using d(1,2) by (simp_all add: QED_MIN_CLUSTER_SIZE_def QED_MAX_CLUSTER_SIZE_def word_le_nat_alt)
  have t: "1 \<le> unat t" "unat t \<le> 16"
    using d(3,4) by (simp_all add: QED_MAX_TABLE_SIZE_def word_le_nat_alt unat_gt_0 Suc_le_eq)
  have e: "unat (qed_l2_entries d) = unat t * unat (qed_cluster_size d) div 8"
    using checked_mul_Some [OF b(1)] by (simp add: b(2) unat_div)
  have "1 * 4096 \<le> unat t * unat (qed_cluster_size d)" using t(1) c(1) by (rule mult_le_mono)
  then have "0 < unat (qed_l2_entries d)" by (simp add: e)
  moreover have "unat t * unat (qed_cluster_size d) \<le> 16 * 67108864" using t(2) c(2) by (rule mult_le_mono)
  then have "unat (qed_l2_entries d) \<le> 16 * 67108864" by (simp add: e)
  then have "unat (qed_l2_entries d) * unat (qed_cluster_size d) \<le> 16 * 67108864 * 67108864"
    using c(2) by (rule mult_le_mono)
  ultimately show ?thesis using c(1) by (simp add: qed_geometry_ok_def)
qed

text \<open>Quotient and remainder by the coverage of a table, in terms of the cluster number.\<close>

lemma coverage:
  assumes "qed_geometry_ok d"
  shows "qed_cluster_size d \<noteq> 0" "qed_l2_entries d * qed_cluster_size d \<noteq> 0"
    "off div (qed_l2_entries d * qed_cluster_size d) = off div qed_cluster_size d div qed_l2_entries d"
    "off mod (qed_l2_entries d * qed_cluster_size d) div qed_cluster_size d = off div qed_cluster_size d mod qed_l2_entries d"
proof -
  let ?c = "qed_cluster_size d" and ?e = "qed_l2_entries d"
  have pos: "0 < unat ?c" "0 < unat ?e" and prod: "unat (?e * ?c) = unat ?e * unat ?c"
    using assms by (simp_all add: qed_geometry_ok_def unat_mult_exact)
  then show "?c \<noteq> 0" and "?e * ?c \<noteq> 0" by (metis unat_0 less_irrefl mult_is_0)+
  have "unat (off div (?e * ?c)) = unat (off div ?c div ?e)"
    by (simp add: unat_div prod div_mult2_eq mult.commute [of "unat ?e"])
  then show "off div (?e * ?c) = off div ?c div ?e" by (simp only: word_unat_eq_iff)
  have "unat off mod (unat ?c * unat ?e) div unat ?c = unat off div unat ?c mod unat ?e"
    using pos by (simp add: mod_mult2_eq)
  then have "unat (off mod (?e * ?c) div ?c) = unat (off div ?c mod ?e)"
    by (simp add: unat_div unat_mod prod mult.commute [of "unat ?e"])
  then show "off mod (?e * ?c) div ?c = off div ?c mod ?e" by (simp only: word_unat_eq_iff)
qed

interpretation qed_disk: block_disk qed_children qed_open qed_reader qed_cluster_size qed_virtual_size qed_locate
proof (rule block_disk.intro)
  show "qed_open r \<noteq> Panic" if "safe_reader r" for r
    using that by (simp add: qed_open_def checked_table_size_def Let_def panic_free)
  show "qed_locate r d i \<noteq> Panic" if "safe_reader r" for r d i
    using that by (simp add: qed_locate_def qed_read_l2_entry_def Let_def panic_free)
  show "block_reader r (qed_reader r d) (qed_cluster_size d) (qed_virtual_size d) (qed_locate r d)"
    if "qed_open r = Ok d" for r d
    using coverage [OF qed_open_geometry [OF that]]
    by (intro block_reader.intro)
      (auto simp: qed_reader_def qed_locate_def Let_def and_then_assoc intro!: and_then_cong)
qed (simp_all add: qed_children_def qed_reader_def)

section \<open>The properties\<close>

lemma word32_be_list: "\<exists>a b c d. to_be (w :: u32) = [a, b, c, d]"
  using word32_list [of w] by (auto simp: to_be_def to_le_def)

lemma word64_be_list: "\<exists>a b c d e f g h. to_be (w :: u64) = [a, b, c, d, e, f, g, h]"
proof -
  have eight: "nat_le 8 n = nat_le (Suc (Suc (Suc (Suc (Suc (Suc (Suc (Suc 0)))))))) n" for n
    by (rule arg_cong [of _ _ "\<lambda>k. nat_le k n"]) simp
  have "to_be w = rev (nat_le 8 (unat w))" by (simp add: to_be_def to_le_def)
  then show ?thesis unfolding eight nat_le.simps by simp
qed

text \<open>The header of a version 1 image.\<close>

definition qcow_header :: "u64 \<Rightarrow> u8 \<Rightarrow> u8 \<Rightarrow> u64 \<Rightarrow> bytes" where
  "qcow_header vsize cbits lbits l1_offset =
     to_be QCOW_MAGIC @ to_be QCOW_VERSION @ replicate 16 0 @ to_be vsize @ [cbits, lbits] @ replicate 6 0
     @ to_be l1_offset"

lemma qcow_header_fields:
  "length (qcow_header v c l t) = 48" "be32_at (qcow_header v c l t) 0 = QCOW_MAGIC"
  "be32_at (qcow_header v c l t) 4 = QCOW_VERSION" "be64_at (qcow_header v c l t) 24 = v"
  "qcow_header v c l t ! 32 = c" "qcow_header v c l t ! 33 = l" "be64_at (qcow_header v c l t) 40 = t"
proof -
  obtain m0 m1 m2 m3 where m: "to_be QCOW_MAGIC = [m0, m1, m2, m3]" using word32_be_list by blast
  obtain n0 n1 n2 n3 where n: "to_be QCOW_VERSION = [n0, n1, n2, n3]" using word32_be_list by blast
  obtain a0 a1 a2 a3 a4 a5 a6 a7 where a: "to_be v = [a0, a1, a2, a3, a4, a5, a6, a7]" using word64_be_list by blast
  obtain b0 b1 b2 b3 b4 b5 b6 b7 where b: "to_be t = [b0, b1, b2, b3, b4, b5, b6, b7]" using word64_be_list by blast
  have again: "from_be [m0, m1, m2, m3] = QCOW_MAGIC" "from_be [n0, n1, n2, n3] = QCOW_VERSION"
    "from_be [a0, a1, a2, a3, a4, a5, a6, a7] = v" "from_be [b0, b1, b2, b3, b4, b5, b6, b7] = t"
    by (simp_all flip: m n a b add: from_to_be)
  show "length (qcow_header v c l t) = 48" "be32_at (qcow_header v c l t) 0 = QCOW_MAGIC"
    "be32_at (qcow_header v c l t) 4 = QCOW_VERSION" "be64_at (qcow_header v c l t) 24 = v"
    "qcow_header v c l t ! 32 = c" "qcow_header v c l t ! 33 = l" "be64_at (qcow_header v c l t) 40 = t"
    by (simp_all add: qcow_header_def m n a b be32_at_def be64_at_def nth_append nth_Cons' upt_rec again)
qed

text \<open>
  C21. Opening a version 1 image can unwind: the size of the first table is computed from the
  header alone, with shifts and sums that wrap around, and is allocated before anything is
  read. A header of 48 bytes is enough.
\<close>

theorem qcow_header_unwinds:
  assumes "9 \<le> unat cbits" and "unat cbits \<le> 20" and "2 ^ 63 \<le> unat (qcow_l1_bytes vsize (unat cbits) (unat lbits))"
  shows "qcow_children inflate (bytes_reader (qcow_header vsize cbits lbits l1_offset @ rest)) = Panic"
  using assms
  by (simp add: qcow_children_def qcow_open_def bytes.read_exactly_eq qcow_header_fields allocate_def Let_def)

theorem qcow_header_unwinds_witness:
  "qcow_children (\<lambda>_. ([], None)) (bytes_reader (qcow_header (2 ^ 60) 9 55 0)) = Panic"
  using qcow_header_unwinds [of 9 "2 ^ 60" 55 "\<lambda>_. ([], None)" 0 "[]"]
  by (simp add: qcow_l1_bytes_def shl_def shr_def)


text \<open>Three clusters of 512 bytes: not allocated, stored at 1024, compressed at 1536.\<close>

definition qcow2_image :: bytes where
  "qcow2_image = image_of 2048 (\<lambda>i.
     if i < 4 then [0x51, 0x46, 0x49, 0xfb] ! i
     else if i = 7 then 2 else if i = 23 then 9 else if i = 30 then 4 else if i = 31 then 0x4C
     else if i = 39 then 1 else if i = 47 then 48 else if i = 54 then 2
     else if i = 526 then 4 else if i = 528 then 0x40 else if i = 534 then 6
     else if 1024 \<le> i \<and> i < 1536 then 5 else if 1536 \<le> i then 9 else 0)"

definition repeat_first :: pull_decoder where
  "repeat_first compressed = (replicate 600 (compressed ! 0), None)"

abbreviation qcow2_opened :: qcow where
  "qcow2_opened \<equiv> \<lparr>l1_table = [512], cluster_size = 512, cluster_bits = 9, l2_bits = 6, l2_size = 64,
     virtual_size = 1100\<rparr>"

lemma qcow2_image_opens: "qcow2_open (bytes_reader qcow2_image) = Ok qcow2_opened"
  by (simp add: qcow2_open_def bytes.read_exactly_eq qcow2_image_def be32_at_def be64_at_def from_be_def
      take_drop_image_of take_drop_image_of [of _ 0, simplified] upt_rec QCOW_MAGIC_def Let_def decode_chunks_def
      chunks_exact_numeral shl_def)

lemma qcow2_image_clusters:
  "qcow2_locate repeat_first (bytes_reader qcow2_image) qcow2_opened 0 = Ok Zeros"
  "qcow2_locate repeat_first (bytes_reader qcow2_image) qcow2_opened 1 = Ok (Stored 1024)"
  "qcow2_locate repeat_first (bytes_reader qcow2_image) qcow2_opened 2 = Ok (Inline (replicate 512 9))"
proof -
  have entries: "read_be64 (bytes_reader qcow2_image) 512 = Ok 0"
    "read_be64 (bytes_reader qcow2_image) 520 = Ok 1024"
    "read_be64 (bytes_reader qcow2_image) 528 = Ok 0x4000000000000600"
    by (simp_all add: read_defs bytes.read_exactly_eq qcow2_image_def take_drop_image_of upt_rec from_be_def)
  note unfold = qcow2_locate_def qcow2_read_l2_entry_def Let_def shr_def L2E_OFFSET_MASK_def QCOW_OFLAG_ZERO_def
    QCOW_OFLAG_COMPRESSED_def
  show "qcow2_locate repeat_first (bytes_reader qcow2_image) qcow2_opened 0 = Ok Zeros"
    "qcow2_locate repeat_first (bytes_reader qcow2_image) qcow2_opened 1 = Ok (Stored 1024)"
    by (simp_all add: unfold entries)
  have "qcow2_read_compressed_cluster repeat_first (bytes_reader qcow2_image) qcow2_opened 0x4000000000000600 =
      Ok (replicate 512 9)"
    by (simp add: qcow2_read_compressed_cluster_def Let_def shl_def shr_def repeat_first_def
        exact_reader.read_at_eq [OF bytes.exact_reader_axioms] qcow2_image_def take_drop_image_of)
  then show "qcow2_locate repeat_first (bytes_reader qcow2_image) qcow2_opened 2 = Ok (Inline (replicate 512 9))"
    by (simp add: unfold entries)
qed


text \<open>
  A cluster whose second-level entry has bit 0 set reads as zeros even when it is
  compressed: the flag for zero clusters is tested first, and in a compressed entry bit 0
  belongs to the offset. So compressed clusters at odd offsets are lost.
\<close>

theorem qcow2_odd_offset_zeros:
  assumes "qcow2_open parent = Ok d" and "off < virtual_size d"
    and "unat (shr off (l2_bits d + cluster_bits d)) < length (l1_table d)"
    and "l2_offset = l1_table d ! unat (shr off (l2_bits d + cluster_bits d)) AND L2E_OFFSET_MASK" and "l2_offset \<noteq> 0"
    and "qcow2_read_l2_entry parent l2_offset (shr off (cluster_bits d) AND (l2_size d - 1)) = Ok entry"
    and "entry AND 1 \<noteq> 0"
  shows "read_at (qcow2_reader inflate parent d) off n =
    Ok (replicate (min (min n (unat (cluster_size d - (off AND (cluster_size d - 1))))) (unat (virtual_size d - off))) 0)"
  using assms by (auto simp: qcow2_reader_def Let_def QCOW_OFLAG_ZERO_def)

text \<open>The compressed cluster of the image above, one byte further on.\<close>

definition qcow2_odd_image :: bytes where
  "qcow2_odd_image = qcow2_image[535 := 1]"

theorem qcow2_odd_offset_zeros_witness:
  "qcow2_read_compressed_cluster repeat_first (bytes_reader qcow2_odd_image) qcow2_opened 0x4000000000000601 =
     Ok (replicate 512 9) \<and>
   read_at (qcow2_reader repeat_first (bytes_reader qcow2_odd_image) qcow2_opened) 1024 4 = Ok (replicate 4 0)"
proof -
  have nth: "qcow2_odd_image ! i = (if i = 535 then 1 else qcow2_image ! i)" if "i < 2048" for i
    using that by (simp add: qcow2_odd_image_def qcow2_image_def nth_list_update)
  have len: "length qcow2_odd_image = 2048" by (simp add: qcow2_odd_image_def qcow2_image_def)
  have cut: "take k (drop i qcow2_odd_image) = map (\<lambda>j. if j = 535 then 1 else qcow2_image ! j) [i..<min (i + k) 2048]"
    for i k
    by (rule nth_equalityI) (auto simp: len nth)
  have opened: "qcow2_open (bytes_reader qcow2_odd_image) = Ok qcow2_opened"
    by (simp add: qcow2_open_def bytes.read_exactly_eq be32_at_def be64_at_def from_be_def cut cut [of _ 0, simplified] len
      qcow2_image_def upt_rec QCOW_MAGIC_def Let_def decode_chunks_def chunks_exact_numeral shl_def)
  have l2: "qcow2_read_l2_entry (bytes_reader qcow2_odd_image) 512 2 = Ok 0x4000000000000601"
    by (simp add: qcow2_read_l2_entry_def read_defs bytes.read_exactly_eq cut len qcow2_image_def upt_rec from_be_def)
  have "qcow2_read_compressed_cluster repeat_first (bytes_reader qcow2_odd_image) qcow2_opened 0x4000000000000601 =
      Ok (replicate 512 9)"
    by (simp add: qcow2_read_compressed_cluster_def Let_def shl_def shr_def repeat_first_def
        exact_reader.read_at_eq [OF bytes.exact_reader_axioms] cut qcow2_image_def)
  then show ?thesis
    using qcow2_odd_offset_zeros [OF opened, of 1024 512 "0x4000000000000601" repeat_first 4] l2
    by (simp add: shr_def L2E_OFFSET_MASK_def)
qed

end
