(* ===== verification/Disk_Chunks.thy ===== *)
theory Disk_Chunks
  imports Disk_Blocks Disk_Qcow Utf8
begin

text \<open>
  Images whose blocks are compressed one by one, with a table of their offsets: \<^verbatim>\<open>cloop.rs\<close>
  and \<^verbatim>\<open>ewf.rs\<close>. Every read decompresses the whole block it touches. The zlib decoder is a
  crate and an argument.
\<close>

section \<open>cloop\<close>

definition HEADER_OFFSET :: u64 where "HEADER_OFFSET = 128"
definition MAX_BLOCK_SIZE :: u32 where "MAX_BLOCK_SIZE = 64 * 1024 * 1024"

definition zlib_bound :: "nat \<Rightarrow> nat" where
  "zlib_bound n = n + drop_bit 12 n + drop_bit 14 n + drop_bit 25 n + 13"

record cloop =
  cloop_offsets :: "u64 list"
  cloop_block_size :: u64
  cloop_virtual_size :: u64

text \<open>\<^verbatim>\<open>windows(2).any(|pair| pair[0] > pair[1])\<close>\<close>

definition descending_pair :: "u64 list \<Rightarrow> bool" where
  "descending_pair offsets = list_ex (\<lambda>(a, b). a > b) (zip offsets (tl offsets))"

definition cloop_open :: "reader \<Rightarrow> cloop io" where
  "cloop_open parent =
     and_then (read_exactly parent HEADER_OFFSET 8) (\<lambda>header.
     let block_size = be32_at header 0; n_blocks = be32_at header 4 in
     if block_size = 0 \<or> block_size > MAX_BLOCK_SIZE \<or> block_size mod 512 \<noteq> 0 then Err InvalidData
     else
       and_then (ok_or (checked_add (ucast n_blocks) 1) InvalidData) (\<lambda>table_entries.
       let table_offset = HEADER_OFFSET + 8 in
       and_then (checked_table_size parent table_offset table_entries 8) (\<lambda>table_bytes.
       and_then (read_exactly parent table_offset table_bytes) (\<lambda>table_data.
       let offsets = decode_chunks 8 from_be table_data;
           table_end = table_offset + word_of_nat table_bytes
       in if (offsets \<noteq> [] \<and> hd offsets < table_end) \<or> descending_pair offsets \<or>
             (case rsize parent of Some whole \<Rightarrow> offsets \<noteq> [] \<and> last offsets > whole | None \<Rightarrow> False)
          then Err InvalidData
          else Ok \<lparr>cloop_offsets = offsets, cloop_block_size = ucast block_size,
                   cloop_virtual_size = ucast n_blocks * ucast block_size\<rparr>))))"

definition decompress_block :: "pull_decoder \<Rightarrow> reader \<Rightarrow> cloop \<Rightarrow> nat \<Rightarrow> bytes io" where
  "decompress_block zlib parent d block_idx =
     (if block_idx + 1 \<ge> length (cloop_offsets d) then Err InvalidInput
      else
        let start = cloop_offsets d ! block_idx; stop = cloop_offsets d ! (block_idx + 1) in
        and_then (ok_or (case checked_sub stop start of
                           Some len \<Rightarrow> if unat len \<le> zlib_bound (unat (cloop_block_size d)) then Some (unat len) else None
                         | None \<Rightarrow> None) InvalidData) (\<lambda>compressed_size.
        and_then (read_exactly parent start compressed_size) (\<lambda>compressed.
        read_exact_from (zlib compressed) (unat (cloop_block_size d)))))"

definition cloop_reader :: "pull_decoder \<Rightarrow> reader \<Rightarrow> cloop \<Rightarrow> reader" where
  "cloop_reader zlib parent d =
     \<lparr>read_at = (\<lambda>off n.
        if off \<ge> cloop_virtual_size d then Ok []
        else if cloop_block_size d = 0 then Panic
        else
          let block_idx = unat (off div cloop_block_size d);
              in_block = unat (off mod cloop_block_size d);
              remaining_in_block = unat (cloop_block_size d) - in_block;
              remaining_in_disk = unat (cloop_virtual_size d - off);
              to_read = min (min n remaining_in_block) remaining_in_disk
          in and_then (decompress_block zlib parent d block_idx) (\<lambda>decompressed.
             and_then (get_range decompressed in_block (length decompressed)) (\<lambda>rest.
             get_range rest 0 to_read))),
      rsize = Some (cloop_virtual_size d)\<rparr>"

definition cloop_children :: "pull_decoder \<Rightarrow> container" where
  "cloop_children zlib reader =
     and_then (cloop_open reader) (\<lambda>d. Ok [virtual_child (cloop_reader zlib reader d)])"

definition cloop_locate :: "pull_decoder \<Rightarrow> reader \<Rightarrow> cloop \<Rightarrow> u64 \<Rightarrow> source io" where
  "cloop_locate zlib parent d i = and_then (decompress_block zlib parent d (unat i)) (\<lambda>bs. Ok (Inline bs))"

lemma decompress_block_length:
  "decompress_block zlib r d i = Ok bs \<Longrightarrow> length bs = unat (cloop_block_size d)"
  by (auto simp: decompress_block_def Let_def ok_iff dest: read_exact_from_length split: if_splits)

lemma widen_eq_0 [simp]: "(ucast (w :: u32) :: u64) = 0 \<longleftrightarrow> w = 0"
proof -
  have "(ucast w :: u64) = 0 \<longleftrightarrow> unat (ucast w :: u64) = 0" by (simp only: unat_eq_0)
  then show ?thesis by (simp add: unat_eq_0)
qed

lemma cloop_open_size: "cloop_open r = Ok d \<Longrightarrow> cloop_block_size d \<noteq> 0"
  by (auto simp: cloop_open_def Let_def ok_iff split: if_splits)

lemma cloop_block_reader:
  assumes "cloop_block_size d \<noteq> 0"
  shows "block_reader r (cloop_reader zlib r d) (cloop_block_size d) (cloop_virtual_size d) (cloop_locate zlib r d)"
proof (rule block_reader.intro)
  show "cloop_block_size d \<noteq> 0" by (rule assms)
  fix off n
  let ?bs = "cloop_block_size d" and ?in = "off mod cloop_block_size d"
  let ?k = "min (min n (unat (?bs - ?in))) (unat (cloop_virtual_size d - off))"
  have lt: "?in < ?bs" by (rule mod_less_self [OF assms])
  then have rest: "unat ?bs - unat ?in = unat (?bs - ?in)"
    by (simp add: unat_sub word_le_nat_alt word_less_nat_alt)
  have slice: "and_then (get_range bs (unat ?in) (length bs)) (\<lambda>rest. get_range rest 0 ?k) =
      Ok (take ?k (drop (unat ?in) bs))"
    if "decompress_block zlib r d i = Ok bs" for i bs
    using decompress_block_length [OF that] lt by (intro cluster_slice) (auto simp: min_le_iff_disj)
  show "read_at (cloop_reader zlib r d) off n =
      (if off \<ge> cloop_virtual_size d then Ok []
       else let k = ?k in
         and_then (cloop_locate zlib r d (off div ?bs)) (\<lambda>s.
           case s of
             Zeros \<Rightarrow> Ok (replicate k 0)
           | Stored b \<Rightarrow> read_at r (b + ?in) k
           | Inline d \<Rightarrow> Ok (take k (drop (unat ?in) d))
           | Missing \<Rightarrow> Ok []))"
    using assms
    by (auto simp: cloop_reader_def cloop_locate_def Let_def and_then_assoc rest slice intro!: and_then_cong)
qed

interpretation cloop: block_disk "cloop_children zlib" cloop_open "cloop_reader zlib" cloop_block_size
    cloop_virtual_size "cloop_locate zlib" for zlib
proof (rule block_disk.intro)
  show "cloop_open r \<noteq> Panic" if "safe_reader r" for r
    using that by (simp add: cloop_open_def Let_def panic_free)
  show "cloop_locate zlib r d i \<noteq> Panic" if "safe_reader r" for r d i
    using that by (simp add: cloop_locate_def decompress_block_def Let_def panic_free)
  show "block_reader r (cloop_reader zlib r d) (cloop_block_size d) (cloop_virtual_size d) (cloop_locate zlib r d)"
    if "cloop_open r = Ok d" for r d
    using cloop_open_size [OF that] by (rule cloop_block_reader)
qed (simp_all add: cloop_children_def cloop_reader_def)

section \<open>A cloop image written and read\<close>

text \<open>The positions of pieces laid one after the other, and the position after the last.\<close>

fun starts :: "nat \<Rightarrow> 'a list list \<Rightarrow> nat list" where
  "starts b [] = [b]"
| "starts b (d # ds) = b # starts (b + length d) ds"

definition cloop_table_end :: "nat \<Rightarrow> nat" where
  "cloop_table_end n = 136 + 8 * (n + 1)"

definition cloop_write :: "(bytes \<Rightarrow> bytes) \<Rightarrow> u32 \<Rightarrow> bytes list \<Rightarrow> bytes" where
  "cloop_write compress bs blocks =
     (let pieces = map compress blocks; n = length blocks in
      replicate 128 0 @ to_be bs @ to_be (word_of_nat n :: u32)
      @ concat (map (\<lambda>p. to_be (word_of_nat p :: u64)) (starts (cloop_table_end n) pieces))
      @ concat pieces)"

lemma length_starts [simp]: "length (starts b ds) = Suc (length ds)"
  by (induction b ds rule: starts.induct) simp_all

lemma starts_not_Nil [simp]: "starts b ds \<noteq> []"
  by (cases ds) simp_all

lemma nth_starts: "i \<le> length ds \<Longrightarrow> starts b ds ! i = b + length (concat (take i ds))"
  by (induction b ds arbitrary: i rule: starts.induct) (auto simp: nth_Cons split: nat.split)

lemma piece_of_concat:
  "i < length ds \<Longrightarrow> take (length (ds ! i)) (drop (length (concat (take i ds))) (concat ds)) = ds ! i"
proof (induction ds arbitrary: i)
  case (Cons d ds)
  then show ?case by (cases i) simp_all
qed simp

lemma decode_chunks_concat:
  assumes "\<And>w. w \<in> set ws \<Longrightarrow> length (enc w) = k \<and> dec (enc w) = w" and "0 < k"
  shows "decode_chunks k dec (concat (map enc ws)) = ws"
proof (rule nth_equalityI)
  have len: "length (concat (map enc ws)) = length ws * k"
    using length_concat_even [of "map enc ws" k] assms(1) by simp
  then show "length (decode_chunks k dec (concat (map enc ws))) = length ws" using assms(2) by simp
  fix i assume "i < length (decode_chunks k dec (concat (map enc ws)))"
  then have i: "i < length ws" using len assms(2) by simp
  have "\<forall>b\<in>set (take i (map enc ws)). length b = k"
    using assms(1) by (auto dest!: in_set_takeD)
  from length_concat_even [OF this] i have "length (concat (take i (map enc ws))) = i * k" by simp
  then have "take k (drop (i * k) (concat (map enc ws))) = enc (ws ! i)"
    using piece_of_concat [of i "map enc ws"] i assms(1) by simp
  then show "decode_chunks k dec (concat (map enc ws)) ! i = ws ! i"
    using i len assms by (simp add: nth_decode_chunks)
qed

lemma descending_pair_iff:
  "descending_pair xs \<longleftrightarrow> (\<exists>i. Suc i < length xs \<and> xs ! Suc i < xs ! i)"
  unfolding descending_pair_def list_ex_length
  by (auto simp: nth_tl less_diff_conv)

lemma length_concat_take: "length (concat (take i ds)) \<le> length (concat ds)"
  by (metis append_take_drop_id concat_append le_add1 length_append)

lemma unat_small: "n < 2 ^ 64 \<Longrightarrow> unat (word_of_nat n :: u64) = n"
  by (simp add: unat_of_nat)

lemma starts_ascend:
  assumes "b + length (concat ds) < 2 ^ 64"
  shows "\<not> descending_pair (map word_of_nat (starts b ds))"
proof -
  have "\<not> (word_of_nat (starts b ds ! Suc i) :: u64) < word_of_nat (starts b ds ! i)" if i: "i < length ds" for i
  proof -
    have "b + length (concat (take j ds)) < 2 ^ 64" for j
      using length_concat_take [of j ds] assms by linarith
    then have "unat (word_of_nat (starts b ds ! j) :: u64) = b + length (concat (take j ds))" if "j \<le> length ds" for j
      by (simp only: nth_starts [OF that] unat_small)
    from this [of i] this [of "Suc i"] i show ?thesis
      by (simp add: word_less_nat_alt take_Suc_conv_app_nth)
  qed
  then show ?thesis by (auto simp: descending_pair_iff)
qed

abbreviation cloop_pieces :: "(bytes \<Rightarrow> bytes) \<Rightarrow> bytes list \<Rightarrow> bytes list" where
  "cloop_pieces compress blocks \<equiv> map compress blocks"

abbreviation cloop_starts :: "(bytes \<Rightarrow> bytes) \<Rightarrow> bytes list \<Rightarrow> nat list" where
  "cloop_starts compress blocks \<equiv> starts (cloop_table_end (length blocks)) (map compress blocks)"

lemma length_cloop_table:
  "length (concat (map (\<lambda>p. to_be (word_of_nat p :: u64)) ps)) = 8 * length ps"
  using length_concat_even [of "map (\<lambda>p. to_be (word_of_nat p :: u64)) ps" 8] by simp

lemma cloop_write_parts:
  fixes compress bs blocks
  defines "img \<equiv> cloop_write compress bs blocks" and "n \<equiv> length blocks"
  shows "length img = cloop_table_end n + length (concat (cloop_pieces compress blocks))"
    and "take 8 (drop 128 img) = to_be bs @ to_be (word_of_nat n :: u32)"
    and "take (8 * (n + 1)) (drop 136 img) =
      concat (map (\<lambda>p. to_be (word_of_nat p :: u64)) (cloop_starts compress blocks))"
    and "\<And>i. i < n \<Longrightarrow> take (length (compress (blocks ! i))) (drop (cloop_starts compress blocks ! i) img) =
      compress (blocks ! i)"
proof -
  let ?table = "concat (map (\<lambda>p. to_be (word_of_nat p :: u64)) (cloop_starts compress blocks))"
  let ?data = "concat (cloop_pieces compress blocks)"
  have img: "img = replicate 128 0 @ to_be bs @ to_be (word_of_nat n :: u32) @ ?table @ ?data"
    by (simp add: img_def n_def cloop_write_def Let_def)
  have table: "length ?table = 8 * (n + 1)" by (simp only: length_cloop_table) (simp add: n_def)
  show "length img = cloop_table_end n + length ?data"
    using table by (simp add: img cloop_table_end_def)
  show "take 8 (drop 128 img) = to_be bs @ to_be (word_of_nat n :: u32)" by (simp add: img)
  show "take (8 * (n + 1)) (drop 136 img) = ?table" using table by (simp add: img)
  fix i assume i: "i < n"
  have "drop (cloop_table_end n + k) img = drop k ?data" for k
    using table by (simp add: img cloop_table_end_def)
  moreover have "cloop_starts compress blocks ! i =
      cloop_table_end n + length (concat (take i (cloop_pieces compress blocks)))"
    using i by (subst nth_starts) (simp_all add: n_def)
  ultimately show "take (length (compress (blocks ! i))) (drop (cloop_starts compress blocks ! i) img) =
      compress (blocks ! i)"
    using piece_of_concat [of i "cloop_pieces compress blocks"] i by (simp add: n_def)
qed

lemma table_size_here:
  assumes "rsize r = Some whole" and "unat off + k * s \<le> unat whole" and "k * s \<le> 67108864" and "0 < s"
  shows "checked_table_size r off (word_of_nat k) (word_of_nat s) = Ok (k * s)"
proof -
  have small: "k < 2 ^ 64 \<and> s < 2 ^ 64 \<or> k = 0"
  proof (cases "k = 0")
    case False
    then have "s \<le> k * s" "k \<le> k * s" using assms(4) by simp_all
    then have "k \<le> 67108864 \<and> s \<le> 67108864" using assms(3) by linarith
    then show ?thesis by simp
  qed simp
  show ?thesis
  proof (cases "k = 0")
    case False
    then have k: "unat (word_of_nat k :: u64) = k" "unat (word_of_nat s :: u64) = s" using small by (simp_all add: unat_of_nat)
    have ks: "unat (word_of_nat k * word_of_nat s :: u64) = k * s"
      using assms(3) k by (subst unat_mult_exact) simp_all
    moreover have "unat (off + word_of_nat k * word_of_nat s) = unat off + k * s"
      using assms(2) ks unat_u64_less [of whole] by (subst unat_add_exact) simp_all
    moreover have "unat off + k * s < 18446744073709551616" using assms(2) unat_u64_less [of whole] by linarith
    ultimately show ?thesis
      using assms k by (simp add: checked_table_size_def checked_mul_def checked_add_def MAX_TABLE_SIZE_def
        word_le_nat_alt word_less_nat_alt)
  next
    case True
    then show ?thesis
      using assms unat_u64_less [of off]
      by (simp add: checked_table_size_def checked_mul_def checked_add_def MAX_TABLE_SIZE_def word_le_nat_alt word_less_nat_alt)
  qed
qed

lemma u32_pair_read: "be32_at (to_be (a :: u32) @ to_be (b :: u32)) 0 = a" "be32_at (to_be a @ to_be b) 4 = b"
proof -
  obtain a0 a1 a2 a3 where a: "to_be a = [a0, a1, a2, a3]" using word32_be_list by blast
  obtain b0 b1 b2 b3 where b: "to_be b = [b0, b1, b2, b3]" using word32_be_list by blast
  have "from_be [a0, a1, a2, a3] = a" "from_be [b0, b1, b2, b3] = b" by (simp_all flip: a b add: from_to_be)
  then show "be32_at (to_be a @ to_be b) 0 = a" "be32_at (to_be a @ to_be b) 4 = b"
    by (simp_all add: a b be32_at_def)
qed

lemma cloop_write_opens:
  fixes compress bs blocks
  defines "img \<equiv> cloop_write compress bs blocks" and "n \<equiv> length blocks"
  assumes "bs \<noteq> 0" and "bs \<le> MAX_BLOCK_SIZE" and "bs mod 512 = 0"
    and "8 * (n + 1) \<le> 67108864" and "length img < 2 ^ 63"
  shows "cloop_open (bytes_reader img) =
    Ok \<lparr>cloop_offsets = map word_of_nat (cloop_starts compress blocks), cloop_block_size = ucast bs,
        cloop_virtual_size = word_of_nat (n * unat bs)\<rparr>"
proof -
  let ?starts = "cloop_starts compress blocks" and ?nw = "word_of_nat n :: u32"
  note parts = cloop_write_parts [where compress = compress and bs = bs and blocks = blocks, folded img_def n_def]
  have len: "length img = cloop_table_end n + length (concat (cloop_pieces compress blocks))" by (rule parts(1))
  have n: "unat ?nw = n" using assms(6) by (simp add: unat_of_nat)
  have size: "rsize (bytes_reader img) = Some (word_of_nat (length img))" by (simp add: bytes_reader_def)
  have len_w: "unat (word_of_nat (length img) :: u64) = length img" using assms(7) by (intro unat_small) simp
  have header: "read_exactly (bytes_reader img) HEADER_OFFSET 8 = Ok (to_be bs @ to_be ?nw)"
    using parts(2) len by (simp add: bytes.read_exactly_eq HEADER_OFFSET_def cloop_table_end_def)
  have entries: "checked_add (ucast ?nw) 1 = Some (word_of_nat (n + 1) :: u64)"
    using n assms(6) by (simp add: checked_add_def word_unat_eq_iff unat_of_nat unat_word_ariths)
  have table_size: "checked_table_size (bytes_reader img) (HEADER_OFFSET + 8) (word_of_nat (n + 1)) 8 = Ok (8 * (n + 1))"
    using table_size_here [OF size, of "HEADER_OFFSET + 8" "n + 1" 8] len len_w assms(6)
    by (simp add: cloop_table_end_def HEADER_OFFSET_def mult.commute)
  have table: "read_exactly (bytes_reader img) (HEADER_OFFSET + 8) (8 * (n + 1)) =
      Ok (concat (map (\<lambda>p. to_be (word_of_nat p :: u64)) ?starts))"
    using parts(3) len by (simp add: bytes.read_exactly_eq HEADER_OFFSET_def cloop_table_end_def length_cloop_table n_def)
  have offsets: "decode_chunks 8 from_be (concat (map (\<lambda>p. to_be (word_of_nat p :: u64)) ?starts)) =
      (map word_of_nat ?starts :: u64 list)"
    using decode_chunks_concat [of "map word_of_nat ?starts :: u64 list" to_be 8 from_be]
    by (simp add: from_to_be comp_def)
  have ascend: "\<not> descending_pair (map word_of_nat ?starts)"
    using len assms(7) by (intro starts_ascend) (simp add: n_def)
  have first: "\<not> hd (map word_of_nat ?starts) < HEADER_OFFSET + 8 + word_of_nat (8 * (n + 1))"
    by (cases blocks) (simp_all add: n_def cloop_table_end_def HEADER_OFFSET_def algebra_simps)
  have "?starts ! n = length img" by (subst nth_starts) (simp_all add: n_def len)
  then have last: "last (map word_of_nat ?starts) = (word_of_nat (length img) :: u64)"
    by (simp add: last_map last_conv_nth n_def)
  have v: "ucast ?nw * ucast bs = (word_of_nat (n * unat bs) :: u64)"
    using n by (simp add: word_unat_eq_iff unat_word_ariths unat_of_nat mod_mult_eq)
  show ?thesis
    unfolding cloop_open_def header and_then.simps Let_def u32_pair_read
    using assms(3-5) entries table_size table offsets ascend first last size v
    by simp
qed

lemma cloop_written_block:
  fixes compress bs blocks
  defines "img \<equiv> cloop_write compress bs blocks" and "n \<equiv> length blocks"
    and "d \<equiv> \<lparr>cloop_offsets = map word_of_nat (cloop_starts compress blocks), cloop_block_size = ucast bs,
        cloop_virtual_size = word_of_nat (length blocks * unat bs)\<rparr>"
  assumes "i < n" and "length img < 2 ^ 63" and "length (blocks ! i) = unat bs"
    and "zlib (compress (blocks ! i)) = (blocks ! i, None)" and "length (compress (blocks ! i)) \<le> zlib_bound (unat bs)"
  shows "decompress_block zlib (bytes_reader img) d i = Ok (blocks ! i)"
proof -
  let ?s = "cloop_starts compress blocks"
  note parts = cloop_write_parts [where compress = compress and bs = bs and blocks = blocks, folded img_def n_def]
  have at: "?s ! i + length (compress (blocks ! i)) = ?s ! Suc i" "?s ! Suc i \<le> length img"
  proof -
    have i: "i \<le> length (map compress blocks)" "Suc i \<le> length (map compress blocks)" using assms(4) by (simp_all add: n_def)
    show "?s ! i + length (compress (blocks ! i)) = ?s ! Suc i"
      using assms(4) by (simp add: nth_starts [OF i(1)] nth_starts [OF i(2)] take_Suc_conv_app_nth n_def)
    show "?s ! Suc i \<le> length img"
      using length_concat_take [of "Suc i" "map compress blocks"] parts(1)
      by (simp add: nth_starts [OF i(2)] n_def)
  qed
  then have words: "unat (word_of_nat (?s ! i) :: u64) = ?s ! i" "unat (word_of_nat (?s ! Suc i) :: u64) = ?s ! Suc i"
    using assms(5) by (intro unat_small; simp)+
  then have size: "checked_sub (word_of_nat (?s ! Suc i)) (word_of_nat (?s ! i)) =
      Some (word_of_nat (?s ! Suc i) - word_of_nat (?s ! i) :: u64)"
    "unat (word_of_nat (?s ! Suc i) - word_of_nat (?s ! i) :: u64) = length (compress (blocks ! i))"
    using at(1) by (simp_all add: checked_sub_def word_le_nat_alt unat_sub)
  have le: "length (compress (blocks ! i)) \<le> length img - ?s ! i" using at by linarith
  have "read_exactly (bytes_reader img) (word_of_nat (?s ! i)) (length (compress (blocks ! i))) = Ok (compress (blocks ! i))"
    using parts(4) [OF assms(4), unfolded n_def] le by (simp add: bytes.read_exactly_eq words)
  then show ?thesis
    using assms(4,6-8) size by (simp add: decompress_block_def d_def n_def Let_def)
qed

text \<open>
  C23. A cloop image that was written from a list of blocks with a compressor that the zlib
  decoder undoes is read back, for every sequence of reads, as the blocks one after the
  other.
\<close>

theorem cloop_roundtrip:
  assumes "bs \<noteq> 0" and "bs \<le> MAX_BLOCK_SIZE" and "bs mod 512 = 0"
    and "8 * (length blocks + 1) \<le> 67108864" and "length (cloop_write compress bs blocks) < 2 ^ 63"
    and "\<forall>b\<in>set blocks. length b = unat bs \<and> zlib (compress b) = (b, None) \<and>
      length (compress b) \<le> zlib_bound (unat bs)"
  shows "\<exists>r. cloop_children zlib (bytes_reader (cloop_write compress bs blocks)) = Ok [virtual_child r] \<and>
    positional_reader r (concat blocks)"
proof -
  let ?img = "cloop_write compress bs blocks" and ?n = "length blocks" and ?k = "unat bs"
  let ?d = "\<lparr>cloop_offsets = map word_of_nat (cloop_starts compress blocks), cloop_block_size = ucast bs,
        cloop_virtual_size = word_of_nat (?n * unat bs)\<rparr>"
  let ?l = "cloop_locate zlib (bytes_reader ?img) ?d"
  have opened: "cloop_open (bytes_reader ?img) = Ok ?d" by (rule cloop_write_opens [OF assms(1-5)])
  have k: "0 < ?k" using assms(1) by (simp add: unat_gt_0)
  have "?n * ?k < 2 ^ 24 * 2 ^ 32"
    using assms(4) unat_u32_less [of bs] by (intro mult_strict_mono) simp_all
  then have size: "unat (word_of_nat (?n * ?k) :: u64) = ?n * ?k" by (intro unat_small) simp
  have even: "\<forall>b\<in>set blocks. length b = ?k" using assms(6) by blast
  have block: "?l (word_of_nat i) = Ok (Inline (blocks ! i))" if i: "i < ?n" for i
  proof -
    have "decompress_block zlib (bytes_reader ?img) ?d i = Ok (blocks ! i)"
      using i assms(5,6) by (intro cloop_written_block) simp_all
    moreover have "unat (word_of_nat i :: u64) = i" using i assms(4) by (intro unat_small) simp
    ultimately show ?thesis by (simp add: cloop_locate_def)
  qed
  have "serves ?img ?l blocks" using block by (simp add: serves_def source_is_def)
  note content = serves_flat [OF this even k]
  have geometry: "unat (cloop_block_size ?d) = ?k" "unat (cloop_virtual_size ?d) = ?n * ?k" using size by simp_all
  from cloop.disk_content [OF bytes.exact_reader_axioms opened, of zlib, unfolded geometry, OF content(1)]
  show ?thesis unfolding content(2) by blast
qed

text \<open>Two blocks of 512 bytes, each compressed to a single byte.\<close>

theorem cloop_roundtrip_witness:
  "\<exists>r. cloop_children (\<lambda>c. (replicate 512 (c ! 0), None))
      (bytes_reader (cloop_write (\<lambda>b. [b ! 0]) 512 [replicate 512 7, replicate 512 9])) = Ok [virtual_child r] \<and>
     positional_reader r (replicate 512 7 @ replicate 512 9)"
proof -
  let ?blocks = "[replicate 512 7, replicate 512 9] :: bytes list"
  have "length (cloop_write (\<lambda>b. [b ! 0]) 512 ?blocks) < 2 ^ 63"
    using cloop_write_parts(1) [of "\<lambda>b. [b ! 0]" 512 ?blocks] by (simp add: cloop_table_end_def)
  then show ?thesis
    using cloop_roundtrip [of 512 ?blocks "\<lambda>b. [b ! 0]" "\<lambda>c. (replicate 512 (c ! 0), None)"]
    by (simp add: MAX_BLOCK_SIZE_def zlib_bound_def)
qed

end
