(* ===== verification/Disk_Ewf.thy ===== *)
theory Disk_Ewf
  imports Disk_Chunks
begin

text \<open>
  Evidence files, \<^verbatim>\<open>ewf.rs\<close>: a chain of sections, of which the volume section gives the
  geometry, the first table section the offsets of the chunks and the sectors section their
  base. The chain ends because the next section lies behind the present one. A chunk that is
  stored as it is can be shorter than the geometry says; then a read slices out of range.
\<close>

section \<open>The chain of sections\<close>

definition FILE_HEADER_SIZE :: u64 where "FILE_HEADER_SIZE = 13"
definition SECTION_DESCRIPTOR_SIZE :: u64 where "SECTION_DESCRIPTOR_SIZE = 76"
definition TABLE_HEADER_SIZE :: u64 where "TABLE_HEADER_SIZE = 24"
definition COMPRESSED_FLAG :: u32 where "COMPRESSED_FLAG = 0x80000000"
definition MAX_CHUNK_SIZE :: u32 where "MAX_CHUNK_SIZE = 64 * 1024 * 1024"

record section_info =
  sectors_offset :: u64
  sectors_end :: u64
  chunk_count :: u32
  chunk_size :: u32
  volume_size :: u64
  chunk_offsets :: "u32 list"

text \<open>\<^verbatim>\<open>from_utf8(..).unwrap_or("").trim_end_matches('\0')\<close>\<close>

definition section_type :: "bytes \<Rightarrow> bytes" where
  "section_type buf = (if utf8_decode buf = None then [] else rev (dropWhile (\<lambda>b. b = 0) (rev buf)))"

definition volume_section :: "reader \<Rightarrow> u64 \<Rightarrow> section_info \<Rightarrow> section_info io" where
  "volume_section reader pos s =
     (let vol_start = pos + SECTION_DESCRIPTOR_SIZE in
      and_then (read_le32 reader (vol_start + 4)) (\<lambda>chunks.
      and_then (read_le32 reader (vol_start + 8)) (\<lambda>sectors_per_chunk.
      and_then (read_le32 reader (vol_start + 12)) (\<lambda>bytes_per_sector.
      and_then (read_le64 reader (vol_start + 16)) (\<lambda>sector_count.
      and_then (ok_or (case checked_mul sectors_per_chunk bytes_per_sector of
                         Some n \<Rightarrow> if n > 0 \<and> n \<le> MAX_CHUNK_SIZE then Some n else None
                       | None \<Rightarrow> None) InvalidData) (\<lambda>chunk.
      and_then (ok_or (checked_mul sector_count (ucast bytes_per_sector)) InvalidData) (\<lambda>vsize.
      Ok (s\<lparr>chunk_count := chunks, chunk_size := chunk, volume_size := vsize\<rparr>))))))))"

definition table_section :: "reader \<Rightarrow> u64 \<Rightarrow> section_info \<Rightarrow> section_info io" where
  "table_section reader pos s =
     (let tbl_start = pos + SECTION_DESCRIPTOR_SIZE in
      and_then (read_le32 reader tbl_start) (\<lambda>tbl_count.
      and_then (ok_or (checked_add tbl_start TABLE_HEADER_SIZE) InvalidData) (\<lambda>entries_start.
      and_then (checked_table_size reader entries_start (ucast tbl_count) 4) (\<lambda>entries_bytes.
      and_then (read_exactly reader entries_start entries_bytes) (\<lambda>entries_data.
      Ok (s\<lparr>chunk_offsets := decode_chunks 4 from_le entries_data\<rparr>))))))"

text \<open>One section: what is known after it, and where the next one is (\<open>None\<close> ends the chain).\<close>

definition ewf_section :: "reader \<Rightarrow> u64 \<Rightarrow> section_info \<Rightarrow> (section_info \<times> u64 option) io" where
  "ewf_section reader pos s =
     and_then (read_exactly reader pos 16) (\<lambda>type_buf.
     let typ = section_type type_buf in
     and_then (read_le64 reader (pos + 16)) (\<lambda>next_offset.
     if typ = ascii ''done'' then Ok (s, None)
     else
       and_then
         (if typ = ascii ''volume'' \<or> typ = ascii ''data'' then volume_section reader pos s
          else if typ = ascii ''sectors'' then Ok (s\<lparr>sectors_offset := pos, sectors_end := next_offset\<rparr>)
          else if typ = ascii ''table'' \<and> chunk_offsets s = [] then table_section reader pos s
          else Ok s) (\<lambda>s'.
       if next_offset = pos \<or> next_offset = 0 then Ok (s', None)
       else if next_offset < pos \<or>
               (case rsize reader of
                  Some file \<Rightarrow> next_offset > saturating_sub file SECTION_DESCRIPTOR_SIZE
                | None \<Rightarrow> False)
       then Err InvalidData
       else Ok (s', Some next_offset))))"

lemma ewf_section_forward: "ewf_section r pos s = Ok (s', Some next) \<Longrightarrow> unat pos < unat next"
  by (auto simp: ewf_section_def Let_def ok_iff word_less_nat_alt word_unat_eq_iff not_less split: if_splits)

function ewf_sections :: "reader \<Rightarrow> u64 \<Rightarrow> section_info \<Rightarrow> section_info io" where
  "ewf_sections reader pos s =
     and_then (ewf_section reader pos s) (\<lambda>(s', next).
     case next of None \<Rightarrow> Ok s' | Some pos' \<Rightarrow> ewf_sections reader pos' s')"
  by pat_completeness auto
termination
proof (relation "measure (\<lambda>(reader, pos, s). 2 ^ 64 - unat pos)")
  fix reader pos s x s' y pos'
  assume step: "ewf_section reader pos s = Ok x" "(s', y) = x" "y = Some pos'"
  then have "unat pos < unat pos'" using ewf_section_forward by blast
  then show "((reader, pos', s'), reader, pos, s) \<in> measure (\<lambda>(reader, pos, s). 2 ^ 64 - unat pos)"
    using unat_u64_less [of pos'] by simp
qed simp

declare ewf_sections.simps [simp del]

definition parse_sections :: "reader \<Rightarrow> section_info io" where
  "parse_sections reader =
     and_then (ewf_sections reader FILE_HEADER_SIZE
       \<lparr>sectors_offset = 0, sectors_end = 0, chunk_count = 0, chunk_size = 0, volume_size = 0, chunk_offsets = []\<rparr>)
     (\<lambda>s. if sectors_offset s = 0 \<or> chunk_offsets s = [] \<or> chunk_size s = 0 then Err InvalidData else Ok s)"

section \<open>The disk\<close>

definition EWF_MAGIC :: bytes where
  "EWF_MAGIC = ascii ''EVF'' @ [0x09, 0x0d, 0x0a, 0xff, 0x00]"

definition ewf_open :: "reader \<Rightarrow> section_info io" where
  "ewf_open parent =
     and_then (read_exactly parent 0 8) (\<lambda>magic.
     if magic \<noteq> EWF_MAGIC then Err InvalidData
     else
       and_then (parse_sections parent) (\<lambda>s.
       if length (chunk_offsets s) \<noteq> unat (chunk_count s) then Err InvalidData else Ok s))"

definition chunk_place :: "section_info \<Rightarrow> nat \<Rightarrow> u64 io" where
  "chunk_place s i =
     ok_or (checked_add (sectors_offset s) (ucast (chunk_offsets s ! i AND NOT COMPRESSED_FLAG))) InvalidData"

definition read_chunk :: "pull_decoder \<Rightarrow> reader \<Rightarrow> section_info \<Rightarrow> nat \<Rightarrow> bytes io" where
  "read_chunk zlib parent s chunk_idx =
     (if chunk_idx \<ge> length (chunk_offsets s) then Err InvalidInput
      else
        let entry = chunk_offsets s ! chunk_idx; compressed = (entry AND COMPRESSED_FLAG \<noteq> 0) in
        and_then (chunk_place s chunk_idx) (\<lambda>abs_offset.
        and_then (if chunk_idx + 1 < length (chunk_offsets s) then chunk_place s (chunk_idx + 1)
                  else Ok (sectors_end s)) (\<lambda>stop.
        and_then (ok_or (case checked_sub stop abs_offset of
                           Some len \<Rightarrow> if unat len \<le> zlib_bound (unat (chunk_size s)) then Some (unat len) else None
                         | None \<Rightarrow> None) InvalidData) (\<lambda>data_size.
        and_then (read_exactly parent abs_offset data_size) (\<lambda>raw.
        if compressed then read_exact_from (zlib raw) (unat (chunk_size s)) else Ok raw)))))"

definition ewf_reader :: "pull_decoder \<Rightarrow> reader \<Rightarrow> section_info \<Rightarrow> reader" where
  "ewf_reader zlib parent s =
     \<lparr>read_at = (\<lambda>off n.
        if off \<ge> volume_size s then Ok []
        else if chunk_size s = 0 then Panic
        else
          let chunk = ucast (chunk_size s) :: u64;
              chunk_idx = unat (off div chunk);
              in_chunk = unat (off mod chunk);
              remaining_in_chunk = unat chunk - in_chunk;
              remaining_in_disk = unat (volume_size s - off);
              to_read = min (min n remaining_in_chunk) remaining_in_disk
          in and_then (read_chunk zlib parent s chunk_idx) (\<lambda>decompressed.
             and_then (get_range decompressed in_chunk (length decompressed)) (\<lambda>rest.
             get_range rest 0 to_read))),
      rsize = Some (volume_size s)\<rparr>"

definition ewf_children :: "pull_decoder \<Rightarrow> container" where
  "ewf_children zlib reader =
     and_then (ewf_open reader) (\<lambda>s. Ok [virtual_child (ewf_reader zlib reader s)])"

section \<open>Opening never unwinds\<close>

lemma ewf_section_not_Panic: "safe_reader r \<Longrightarrow> ewf_section r pos s \<noteq> Panic"
  by (simp add: ewf_section_def volume_section_def table_section_def Let_def panic_free)

lemma ewf_sections_not_Panic: "safe_reader r \<Longrightarrow> ewf_sections r pos s \<noteq> Panic"
proof (induction r pos s rule: ewf_sections.induct)
  case (1 r pos s)
  then show ?case
    using ewf_section_not_Panic [OF "1.prems", of pos s]
    by (subst ewf_sections.simps) (auto simp: and_then_Panic_iff split: option.splits)
qed

lemma ewf_open_not_Panic: "safe_reader r \<Longrightarrow> ewf_open r \<noteq> Panic"
  by (simp add: ewf_open_def parse_sections_def panic_free ewf_sections_not_Panic)

lemma ewf_open_size: "ewf_open r = Ok s \<Longrightarrow> chunk_size s \<noteq> 0"
  by (auto simp: ewf_open_def parse_sections_def ok_iff split: if_splits)

lemma read_chunk_not_Panic: "safe_reader r \<Longrightarrow> read_chunk zlib r s i \<noteq> Panic"
  by (simp add: read_chunk_def chunk_place_def Let_def panic_free)

section \<open>What the disk reads as\<close>

text \<open>Every chunk that can be read is as long as the geometry says.\<close>

definition chunks_full :: "pull_decoder \<Rightarrow> reader \<Rightarrow> section_info \<Rightarrow> bool" where
  "chunks_full zlib r s \<longleftrightarrow> (\<forall>i bs. read_chunk zlib r s i = Ok bs \<longrightarrow>
     min (unat (chunk_size s)) (unat (volume_size s) - i * unat (chunk_size s)) \<le> length bs)"

definition ewf_locate :: "pull_decoder \<Rightarrow> reader \<Rightarrow> section_info \<Rightarrow> u64 \<Rightarrow> source io" where
  "ewf_locate zlib parent s i = and_then (read_chunk zlib parent s (unat i)) (\<lambda>bs. Ok (Inline bs))"

lemma slice_cases:
  "and_then (get_range bs a (length bs)) (\<lambda>rest. get_range rest 0 k) =
     (if a + k \<le> length bs then Ok (take k (drop a bs)) else Panic)"
  by (auto simp: get_range_def)

lemma ewf_read:
  fixes n :: nat
  assumes "chunk_size s \<noteq> 0" and "off < volume_size s"
  defines "c \<equiv> unat (chunk_size s)"
  defines "k \<equiv> min (min n (c - unat off mod c)) (unat (volume_size s) - unat off)"
  shows "read_at (ewf_reader zlib r s) off n =
    and_then (read_chunk zlib r s (unat off div c)) (\<lambda>bs.
      if unat off mod c + k \<le> length bs then Ok (take k (drop (unat off mod c) bs)) else Panic)"
proof -
  have "unat (volume_size s - off) = unat (volume_size s) - unat off" "\<not> volume_size s \<le> off"
    using assms(2) by (simp_all add: unat_sub word_le_nat_alt word_less_nat_alt)
  then show ?thesis
    using assms(1) unfolding c_def k_def
    by (simp add: ewf_reader_def Let_def slice_cases unat_div unat_mod cong: if_cong)
qed

lemma ewf_block_reader:
  assumes "chunk_size s \<noteq> 0" and "chunks_full zlib r s"
  shows "block_reader r (ewf_reader zlib r s) (ucast (chunk_size s)) (volume_size s) (ewf_locate zlib r s)"
proof (rule block_reader.intro)
  show "(ucast (chunk_size s) :: u64) \<noteq> 0" using assms(1) by simp
  fix off :: u64 and n :: nat
  let ?c = "unat (chunk_size s)" and ?v = "unat (volume_size s)" and ?w = "ucast (chunk_size s) :: u64"
  let ?k = "min (min n (?c - unat off mod ?c)) (?v - unat off)"
  have c: "0 < ?c" using assms(1) by (simp add: unat_gt_0)
  show "read_at (ewf_reader zlib r s) off n =
      (if off \<ge> volume_size s then Ok []
       else let k = min (min n (unat (?w - off mod ?w))) (unat (volume_size s - off)) in
         and_then (ewf_locate zlib r s (off div ?w)) (\<lambda>x.
           case x of
             Zeros \<Rightarrow> Ok (replicate k 0)
           | Stored b \<Rightarrow> read_at r (b + off mod ?w) k
           | Inline d \<Rightarrow> Ok (take k (drop (unat (off mod ?w)) d))
           | Missing \<Rightarrow> Ok []))"
  proof (cases "off < volume_size s")
    case True
    then have lt: "unat off < ?v" by (simp add: word_less_nat_alt)
    have "off mod ?w < ?w" using assms(1) by (intro mod_less_self) simp
    then have k: "min (min n (unat (?w - off mod ?w))) (unat (volume_size s - off)) = ?k"
      using lt by (simp add: unat_sub word_le_nat_alt word_less_nat_alt unat_mod)
    have fits: "unat off mod ?c + ?k \<le> length bs" if "read_chunk zlib r s (unat off div ?c) = Ok bs" for bs
    proof -
      have "min ?c (?v - unat off div ?c * ?c) \<le> length bs" using assms(2) that by (simp add: chunks_full_def)
      moreover have "unat off mod ?c + unat off div ?c * ?c = unat off" by simp
      moreover have "unat off mod ?c < ?c" using c by simp
      ultimately show ?thesis using lt by linarith
    qed
    from True have "\<not> volume_size s \<le> off" by simp
    then show ?thesis
      using fits by (simp add: ewf_read [OF assms(1) True] ewf_locate_def and_then_assoc Let_def k unat_div unat_mod
        cong: and_then_cong)
  qed (simp add: ewf_reader_def not_less)
qed

section \<open>The properties\<close>


text \<open>
  A stored chunk that is shorter than the geometry says makes the read unwind instead of
  fail: the slice of the chunk is taken without a check.
\<close>

theorem ewf_short_chunk_unwinds:
  assumes "ewf_open parent = Ok s" and "off < volume_size s"
    and "read_chunk zlib parent s (unat off div unat (chunk_size s)) = Ok bs"
    and "length bs < unat off mod unat (chunk_size s) +
      min (min n (unat (chunk_size s) - unat off mod unat (chunk_size s))) (unat (volume_size s) - unat off)"
  shows "read_at (ewf_reader zlib parent s) off n = Panic"
  using assms(3,4) by (simp add: ewf_read [OF ewf_open_size [OF assms(1)] assms(2)])

text \<open>
  A file with one chunk of four bytes, of which the sectors section has the last \<open>stored\<close> ones.
\<close>

definition ewf_file :: "u8 \<Rightarrow> bytes" where
  "ewf_file stored = image_of 410 (\<lambda>i.
     if i < 8 then EWF_MAGIC ! i
     else if 13 \<le> i \<and> i < 19 then ascii ''volume'' ! (i - 13) else if i = 29 then 200
     else if i = 93 then 1 else if i = 97 then 1 else if i = 101 then 4 else if i = 105 then 1
     else if 200 \<le> i \<and> i < 207 then ascii ''sectors'' ! (i - 200) else if i = 216 then 44 else if i = 217 then 1
     else if 296 \<le> i \<and> i < 300 then word_of_nat (i - 291)
     else if 300 \<le> i \<and> i < 305 then ascii ''table'' ! (i - 300) else if i = 316 then 44 else if i = 317 then 1
     else if i = 376 then 1 else if i = 400 then 100 - stored else 0)"

lemma ewf_file_reads:
  "read_exactly (bytes_reader (ewf_file k)) 13 16 = Ok (ascii ''volume'' @ [0, 0, 0, 0, 0, 0, 0, 0, 0, 0])"
  "read_exactly (bytes_reader (ewf_file k)) 200 16 = Ok (ascii ''sectors'' @ [0, 0, 0, 0, 0, 0, 0, 0, 0])"
  "read_exactly (bytes_reader (ewf_file k)) 300 16 = Ok (ascii ''table'' @ [0, 0, 0, 0, 0, 0, 0, 0, 0, 0, 0])"
  "read_le64 (bytes_reader (ewf_file k)) 29 = Ok 200"
  "read_le64 (bytes_reader (ewf_file k)) 216 = Ok 300"
  "read_le64 (bytes_reader (ewf_file k)) 316 = Ok 300"
  "read_le32 (bytes_reader (ewf_file k)) 93 = Ok 1"
  "read_le32 (bytes_reader (ewf_file k)) 97 = Ok 1"
  "read_le32 (bytes_reader (ewf_file k)) 101 = Ok 4"
  "read_le64 (bytes_reader (ewf_file k)) 105 = Ok 1"
  "read_le32 (bytes_reader (ewf_file k)) 376 = Ok 1"
  by (simp_all add: read_defs bytes.read_exactly_eq ewf_file_def take_drop_image_of upt_rec from_le_def)

abbreviation ewf_opened :: "u8 \<Rightarrow> section_info" where
  "ewf_opened k \<equiv> \<lparr>sectors_offset = 200, sectors_end = 300, chunk_count = 1, chunk_size = 4, volume_size = 4,
     chunk_offsets = [from_le [100 - k, 0, 0, 0]]\<rparr>"

lemma ewf_file_size: "rsize (bytes_reader (ewf_file k)) = Some 410"
  by (simp add: bytes_reader_def ewf_file_def)

lemma ewf_file_table:
  "checked_table_size (bytes_reader (ewf_file k)) 400 1 4 = Ok 4"
  "read_exactly (bytes_reader (ewf_file k)) 400 4 = Ok [100 - k, 0, 0, 0]"
proof -
  show "checked_table_size (bytes_reader (ewf_file k)) 400 1 4 = Ok 4"
    by (simp add: checked_table_size_def ewf_file_size checked_mul_def checked_add_def MAX_TABLE_SIZE_def)
  show "read_exactly (bytes_reader (ewf_file k)) 400 4 = Ok [100 - k, 0, 0, 0]"
    by (simp add: bytes.read_exactly_eq ewf_file_def take_drop_image_of upt_rec)
qed

lemma section_names:
  "section_type (ascii ''volume'' @ [0, 0, 0, 0, 0, 0, 0, 0, 0, 0]) = ascii ''volume''"
  "section_type (ascii ''sectors'' @ [0, 0, 0, 0, 0, 0, 0, 0, 0]) = ascii ''sectors''"
  "section_type (ascii ''table'' @ [0, 0, 0, 0, 0, 0, 0, 0, 0, 0, 0]) = ascii ''table''"
  by (simp_all add: section_type_def)

lemma ewf_file_sections:
  fixes s k defines "r \<equiv> bytes_reader (ewf_file k)"
  shows "ewf_section r 13 s = Ok (s\<lparr>chunk_count := 1, chunk_size := 4, volume_size := 4\<rparr>, Some 200)"
    and "ewf_section r 200 s = Ok (s\<lparr>sectors_offset := 200, sectors_end := 300\<rparr>, Some 300)"
    and "chunk_offsets s = [] \<Longrightarrow>
      ewf_section r 300 s = Ok (s\<lparr>chunk_offsets := [from_le [100 - k, 0, 0, 0]]\<rparr>, None)"
  unfolding r_def
  by (simp_all add: ewf_section_def volume_section_def table_section_def Let_def ewf_file_reads section_names [simplified]
      ewf_file_size ewf_file_table SECTION_DESCRIPTOR_SIZE_def TABLE_HEADER_SIZE_def MAX_CHUNK_SIZE_def checked_mul_def
      checked_add_def saturating_sub_def decode_chunks_def)

lemma ewf_sections_step:
  "ewf_section r p s = Ok (s', None) \<Longrightarrow> ewf_sections r p s = Ok s'"
  "ewf_section r p s = Ok (s', Some q) \<Longrightarrow> ewf_sections r p s = ewf_sections r q s'"
  by (subst ewf_sections.simps, simp)+

lemma ewf_file_opens: "ewf_open (bytes_reader (ewf_file k)) = Ok (ewf_opened k)"
proof -
  have "parse_sections (bytes_reader (ewf_file k)) = Ok (ewf_opened k)"
    by (simp add: parse_sections_def FILE_HEADER_SIZE_def ewf_sections_step(2) [OF ewf_file_sections(1)]
        ewf_sections_step(2) [OF ewf_file_sections(2)] ewf_sections_step(1) [OF ewf_file_sections(3)])
  moreover have "read_exactly (bytes_reader (ewf_file k)) 0 8 = Ok EWF_MAGIC"
    by (simp add: bytes.read_exactly_eq ewf_file_def take_drop_image_of [of _ 0, simplified] upt_rec EWF_MAGIC_def)
  ultimately show ?thesis by (simp add: ewf_open_def)
qed

lemma ewf_file_chunk:
  "read_chunk zlib (bytes_reader (ewf_file 4)) (ewf_opened 4) 0 = Ok [5, 6, 7, 8]"
  "read_chunk zlib (bytes_reader (ewf_file 2)) (ewf_opened 2) 0 = Ok [7, 8]"
  "0 < i \<Longrightarrow> read_chunk zlib (bytes_reader (ewf_file k)) (ewf_opened k) i = Err InvalidInput"
  by (simp_all add: read_chunk_def chunk_place_def Let_def from_le_def COMPRESSED_FLAG_def checked_add_def
      checked_sub_def zlib_bound_def bytes.read_exactly_eq ewf_file_def take_drop_image_of upt_rec)


theorem ewf_short_chunk_unwinds_witness:
  "\<exists>r. ewf_children (\<lambda>_. ([], None)) (bytes_reader (ewf_file 2)) = Ok [virtual_child r] \<and> read_at r 0 4 = Panic"
proof -
  let ?z = "\<lambda>_. ([], None) :: bytes \<times> error_kind option"
  have "read_at (ewf_reader ?z (bytes_reader (ewf_file 2)) (ewf_opened 2)) 0 4 = Panic"
    by (rule ewf_short_chunk_unwinds [OF ewf_file_opens, where bs = "[7, 8]"])
      (simp_all add: ewf_file_chunk(2) [simplified])
  then show ?thesis by (auto simp: ewf_children_def ewf_file_opens)
qed

end
