(* ===== verification/Disk_Tracks.thy ===== *)
theory Disk_Tracks
  imports Tables Disk_Blocks
begin

text \<open>
  Images of optical discs: \<^verbatim>\<open>nrg.rs\<close> and \<^verbatim>\<open>cdi.rs\<close>. Both end with a trailer that says where
  their description is, and show every track as a window of the file.
\<close>

section \<open>Nero\<close>

datatype nrg_mode = Mode1 | Mode2 | Mode2Xa1 | Mode2Raw | Audio | Mode1Raw | Mode2Xa1Raw | Mode2Xa2Raw

definition from_code :: "u8 \<Rightarrow> nrg_mode option" where
  "from_code code =
     (if code = 0x00 then Some Mode1 else if code = 0x02 then Some Mode2
      else if code = 0x03 then Some Mode2Xa1 else if code = 0x06 then Some Mode2Raw
      else if code = 0x07 then Some Audio else if code = 0x0F then Some Mode1Raw
      else if code = 0x10 then Some Mode2Xa1Raw else if code = 0x11 then Some Mode2Xa2Raw
      else None)"

record nrg_track =
  track_offset :: u64
  track_length :: u64

text \<open>An offset is 64 bits wide in the new chunks, 32 in the old ones.\<close>

definition read_wide :: "bool \<Rightarrow> reader \<Rightarrow> u64 \<Rightarrow> u64 io" where
  "read_wide wide reader off =
     (if wide then read_be64 reader off else and_then (read_be32 reader off) (\<lambda>v. Ok (ucast v)))"

definition dao_entry :: "bool \<Rightarrow> reader \<Rightarrow> u64 \<Rightarrow> nrg_track option io" where
  "dao_entry wide reader entry_pos =
     and_then (read_exactly reader (entry_pos + 12) 2) (\<lambda>_.
     and_then (read_u8 reader (entry_pos + 14)) (\<lambda>mode.
     if from_code mode = None then Ok None
     else
       let w = (if wide then 8 else 4) in
       and_then (read_wide wide reader (entry_pos + 18)) (\<lambda>_.
       and_then (read_wide wide reader (entry_pos + 18 + w)) (\<lambda>start.
       and_then (read_wide wide reader (entry_pos + 18 + 2 * w)) (\<lambda>stop.
       Ok (Some \<lparr>track_offset = start, track_length = saturating_sub stop start\<rparr>))))))"

definition parse_dao_chunk :: "reader \<Rightarrow> u64 \<Rightarrow> u64 \<Rightarrow> bool \<Rightarrow> nrg_track list io" where
  "parse_dao_chunk reader off len wide =
     (let header_size = 22; entry_size = (if wide then 42 else 30) in
      if len < header_size then Ok []
      else
        let num_entries = unat ((len - header_size) div entry_size) in
        collect (\<lambda>i. dao_entry wide reader (off + header_size + word_of_nat i * entry_size)) [0..<num_entries])"

definition etn_entry :: "bool \<Rightarrow> reader \<Rightarrow> u64 \<Rightarrow> nrg_track option io" where
  "etn_entry wide reader entry_pos =
     (let w = (if wide then 8 else 4) in
      and_then (read_wide wide reader entry_pos) (\<lambda>start.
      and_then (read_wide wide reader (entry_pos + w)) (\<lambda>len.
      and_then (read_be32 reader (entry_pos + 2 * w)) (\<lambda>mode.
      if from_code (ucast mode) = None then Ok None
      else Ok (Some \<lparr>track_offset = start, track_length = len\<rparr>)))))"

definition parse_etn_chunk :: "reader \<Rightarrow> u64 \<Rightarrow> u64 \<Rightarrow> bool \<Rightarrow> nrg_track list io" where
  "parse_etn_chunk reader off len wide =
     (let entry_size = (if wide then 24 else 16); num_entries = unat (len div entry_size) in
      collect (\<lambda>i. etn_entry wide reader (off + word_of_nat i * entry_size)) [0..<num_entries])"

text \<open>
  One round over the chunks: the tracks of the chunk and the position of the next one, or
  \<open>None\<close> at the end. Positions wrap around, and nothing bounds the number of rounds, so the
  loop is a partial function; \<open>None\<close> is a loop that never ends.
\<close>

definition nrg_chunk :: "reader \<Rightarrow> u64 \<Rightarrow> u64 \<Rightarrow> (nrg_track list \<times> u64 option) io" where
  "nrg_chunk reader file_size pos =
     (if pos + 8 > file_size then Ok ([], None)
      else
        and_then (read_exactly reader pos 4) (\<lambda>chunk_id.
        and_then (read_be32 reader (pos + 4)) (\<lambda>len.
        let chunk_len = ucast len :: u64; body = pos + 8 in
        if chunk_id = ascii ''END!'' then Ok ([], None)
        else
          and_then
            (if chunk_id = ascii ''DAOX'' \<or> chunk_id = ascii ''DAOI''
             then parse_dao_chunk reader body chunk_len (chunk_id = ascii ''DAOX'')
             else if chunk_id = ascii ''ETN2'' \<or> chunk_id = ascii ''ETNF''
             then parse_etn_chunk reader body chunk_len (chunk_id = ascii ''ETN2'')
             else Ok []) (\<lambda>new_tracks.
          Ok (new_tracks, Some (body + chunk_len))))))"

partial_function (option) parse_chunks :: "reader \<Rightarrow> u64 \<Rightarrow> u64 \<Rightarrow> nrg_track list \<Rightarrow> nrg_track list io option" where
  "parse_chunks reader file_size pos tracks =
     (case nrg_chunk reader file_size pos of
        Ok (new, following) \<Rightarrow>
          (case following of
             None \<Rightarrow> Some (Ok (tracks @ new))
           | Some pos' \<Rightarrow> parse_chunks reader file_size pos' (tracks @ new))
      | Err e \<Rightarrow> Some (Err e)
      | Panic \<Rightarrow> Some Panic)"

definition nrg_chunk_offset :: "reader \<Rightarrow> u64 \<Rightarrow> u64 io" where
  "nrg_chunk_offset reader file_size =
     and_then (read_exactly reader (file_size - 12) 4) (\<lambda>new_sig.
     if new_sig = ascii ''NER5'' then read_be64 reader (file_size - 8)
     else
       and_then (read_exactly reader (file_size - 8) 4) (\<lambda>sig.
       if sig \<noteq> ascii ''NERO'' then Err InvalidData
       else and_then (read_be32 reader (file_size - 4)) (\<lambda>v. Ok (ucast v))))"

definition parse_nrg :: "reader \<Rightarrow> nrg_track list io option" where
  "parse_nrg reader =
     (case rsize reader of
        None \<Rightarrow> Some (Err OtherError)
      | Some file_size \<Rightarrow>
          if file_size < 12 then Some (Err InvalidData)
          else
            (case nrg_chunk_offset reader file_size of
               Ok chunk_offset \<Rightarrow> parse_chunks reader file_size chunk_offset []
             | Err e \<Rightarrow> Some (Err e)
             | Panic \<Rightarrow> Some Panic))"

definition nrg_children :: "reader \<Rightarrow> child list io option" where
  "nrg_children reader =
     map_option (\<lambda>result. and_then result (\<lambda>tracks.
       Ok (map (\<lambda>(idx, track). slice_child reader (word_of_nat idx) (track_offset track) (track_length track))
             (List.enumerate 0 tracks)))) (parse_nrg reader)"

subsection \<open>No unwinding\<close>

lemma read_wide_not_Panic [panic_free]: "safe_reader r \<Longrightarrow> read_wide w r off \<noteq> Panic"
  by (simp add: read_wide_def panic_free)

lemma nrg_entry_not_Panic [panic_free]:
  "safe_reader r \<Longrightarrow> dao_entry w r pos \<noteq> Panic" "safe_reader r \<Longrightarrow> etn_entry w r pos \<noteq> Panic"
  by (simp_all add: dao_entry_def etn_entry_def Let_def panic_free)

lemma nrg_entries_not_Panic [panic_free]:
  "safe_reader r \<Longrightarrow> parse_dao_chunk r off len w \<noteq> Panic" "safe_reader r \<Longrightarrow> parse_etn_chunk r off len w \<noteq> Panic"
  by (simp_all add: parse_dao_chunk_def parse_etn_chunk_def Let_def panic_free collect_not_Panic)

lemma nrg_chunk_not_Panic: "safe_reader r \<Longrightarrow> nrg_chunk r sz pos \<noteq> Panic"
  by (simp add: nrg_chunk_def Let_def panic_free)

lemma parse_chunks_not_Panic:
  assumes "parse_chunks r sz pos ts = Some x" shows "safe_reader r \<longrightarrow> x \<noteq> Panic"
proof (rule parse_chunks.raw_induct [OF _ assms])
  fix again and r :: reader and sz pos :: u64 and ts x
  assume hyp: "\<And>r sz pos ts x. again r sz pos ts = Some x \<Longrightarrow> safe_reader r \<longrightarrow> x \<noteq> Panic"
    and step: "(case nrg_chunk r sz pos of
        Ok (new, following) \<Rightarrow>
          (case following of
             None \<Rightarrow> Some (Ok (ts @ new))
           | Some pos' \<Rightarrow> again r sz pos' (ts @ new))
      | Err e \<Rightarrow> Some (Err e)
      | Panic \<Rightarrow> Some Panic) = Some x"
  from step show "safe_reader r \<longrightarrow> x \<noteq> Panic"
    using nrg_chunk_not_Panic [of r sz pos] hyp
    by (auto split: io.splits option.splits prod.splits)
qed

lemma nrg_offset_not_Panic: "safe_reader r \<Longrightarrow> nrg_chunk_offset r sz \<noteq> Panic"
  by (simp add: nrg_chunk_offset_def Let_def panic_free)

lemma nrg_not_Panic: "safe_reader r \<Longrightarrow> nrg_children r \<noteq> Some Panic"
  using nrg_offset_not_Panic [of r]
  by (auto simp: nrg_children_def parse_nrg_def and_then_Panic_iff dest: parse_chunks_not_Panic
      split: option.splits if_splits io.splits)

subsection \<open>The loop ends\<close>

context positional_reader
begin

lemma read_exactly_inside: "read_exactly r off n = Ok bs \<Longrightarrow> 0 < n \<Longrightarrow> unat off + n \<le> length data"
proof -
  assume ok: "read_exactly r off n = Ok bs" and n: "0 < n"
  then have "read_at r off n = Ok bs" "length bs = n" by (auto simp: read_exactly_def ok_iff split: if_splits)
  with read_prefix have "n = length (take n (drop (unat off) data))" by metis
  with n show ?thesis by (auto simp: min_def split: if_splits)
qed

lemma nrg_chunk_forward:
  assumes "nrg_chunk r sz pos = Ok (ts, Some pos')" and "length data + 2 ^ 32 < 2 ^ 64"
  shows "unat pos < unat pos'"
proof -
  from assms(1) obtain bs len where read: "read_be32 r (pos + 4) = Ok len" and id: "read_exactly r pos 4 = Ok bs"
    and pos': "pos' = pos + 8 + ucast len"
    by (auto simp: nrg_chunk_def Let_def ok_iff split: if_splits)
  have "unat pos + 4 \<le> length data" by (rule read_exactly_inside [OF id]) simp
  then have p4: "unat (pos + 4) = unat pos + 4" using assms(2) by (subst unat_add_exact) simp_all
  from read obtain bs' where "read_exactly r (pos + 4) 4 = Ok bs'" by (auto simp: read_be32_def ok_iff)
  then have "unat (pos + 4) + 4 \<le> length data" by (rule read_exactly_inside) simp
  then have inside: "unat pos + 8 \<le> length data" using p4 by simp
  then have p8: "unat (pos + 8) = unat pos + 8" using assms(2) by (subst unat_add_exact) simp_all
  then have "unat pos' = unat pos + 8 + unat len"
    unfolding pos' using inside assms(2) unat_u32_less [of len] by (subst unat_add_exact) simp_all
  then show ?thesis by simp
qed

lemma parse_chunks_returns:
  assumes "length data + 2 ^ 32 < 2 ^ 64"
  shows "\<exists>x. parse_chunks r sz pos ts = Some x"
proof (induction "2 ^ 64 - unat pos" arbitrary: pos ts rule: less_induct)
  case less
  have "\<exists>x. parse_chunks r sz pos' ts' = Some x" if "nrg_chunk r sz pos = Ok (new, Some pos')" for new pos' ts'
    using nrg_chunk_forward [OF that assms] unat_u64_less [of pos'] by (intro less) simp
  then show ?case
    by (subst parse_chunks.simps) (auto split: io.split option.split prod.split)
qed

end

section \<open>A Nero image written and read\<close>

lemma read_here:
  assumes "img = pre @ x @ post" and "length pre < 2 ^ 64" and "off = word_of_nat (length pre)" and "length x = n"
  shows "read_exactly (bytes_reader img) off n = Ok x"
proof -
  have "unat off = length pre" using assms(2,3) by (simp add: unat_of_nat)
  then show ?thesis using assms(1,4) by (simp add: bytes.read_exactly_eq)
qed

lemma read_be_here:
  "img = pre @ to_be (w :: u64) @ post \<Longrightarrow> length pre < 2 ^ 64 \<Longrightarrow> read_be64 (bytes_reader img) (word_of_nat (length pre)) = Ok w"
  "img = pre @ to_be (v :: u32) @ post \<Longrightarrow> length pre < 2 ^ 64 \<Longrightarrow> read_be32 (bytes_reader img) (word_of_nat (length pre)) = Ok v"
  by (simp_all add: read_defs read_here from_to_be)

text \<open>The tracks of a disc, each as an entry of one \<^verbatim>\<open>ETN2\<close> chunk behind the data.\<close>

definition etn2_entry :: "nrg_track \<Rightarrow> bytes" where
  "etn2_entry t = to_be (track_offset t) @ to_be (track_length t) @ to_be (0 :: u32) @ to_be (0 :: u32)"

definition nrg_write :: "bytes \<Rightarrow> nrg_track list \<Rightarrow> bytes" where
  "nrg_write data ts =
     data @ ascii ''ETN2'' @ to_be (word_of_nat (24 * length ts) :: u32) @ concat (map etn2_entry ts)
     @ ascii ''END!'' @ to_be (0 :: u32) @ ascii ''NER5'' @ to_be (word_of_nat (length data) :: u64)"

lemma length_etn2_entry [simp]: "length (etn2_entry t) = 24"
  by (simp add: etn2_entry_def)

lemma length_etn2_entries: "length (concat (map etn2_entry ts)) = 24 * length ts"
  by (induction ts) simp_all

lemma etn2_entry_read:
  assumes "img = pre @ etn2_entry t @ post" and "length img < 2 ^ 63"
  shows "etn_entry True (bytes_reader img) (word_of_nat (length pre)) = Ok (Some t)"
proof -
  let ?o = "to_be (track_offset t)" and ?l = "to_be (track_length t)" and ?z = "to_be (0 :: u32)"
  have img: "img = pre @ ?o @ ?l @ ?z @ ?z @ post" using assms(1) by (simp add: etn2_entry_def)
  have "read_be64 (bytes_reader img) (word_of_nat (length pre)) = Ok (track_offset t)"
    using img assms(2) by (intro read_be_here(1)) simp_all
  moreover have "read_be64 (bytes_reader img) (word_of_nat (length (pre @ ?o))) = Ok (track_length t)"
    using img assms(2) by (intro read_be_here(1)) simp_all
  moreover have "read_be32 (bytes_reader img) (word_of_nat (length (pre @ ?o @ ?l))) = Ok 0"
    using img assms(2) by (intro read_be_here(2)) simp_all
  ultimately show ?thesis
    by (simp add: etn_entry_def read_wide_def from_code_def Let_def add.assoc)
qed

lemma unat_div_24: "k < 2 ^ 63 \<Longrightarrow> unat (word_of_nat k div 24 :: u64) = k div 24"
  by (simp add: unat_div unat_of_nat)

lemma ucast_u32_of_nat: "k < 2 ^ 32 \<Longrightarrow> (ucast (word_of_nat k :: u32) :: u64) = word_of_nat k"
  by (simp add: word_unat_eq_iff unat_of_nat)

lemma etn2_chunk_read:
  assumes "img = pre @ concat (map etn2_entry ts) @ post" and "length img < 2 ^ 63"
  shows "parse_etn_chunk (bytes_reader img) (word_of_nat (length pre)) (word_of_nat (24 * length ts)) True = Ok ts"
proof -
  have "24 * length ts < 2 ^ 63" using assms by (simp add: length_etn2_entries)
  then have n: "unat (24 * word_of_nat (length ts) div 24 :: u64) = length ts"
    using unat_div_24 [of "24 * length ts"] by simp
  have "etn_entry True (bytes_reader img) (word_of_nat (length pre) + word_of_nat i * 24) = Ok (Some (ts ! i))"
    if i: "i < length ts" for i
  proof -
    have split: "concat (map etn2_entry ts) =
        concat (map etn2_entry (take i ts)) @ etn2_entry (ts ! i) @ concat (map etn2_entry (drop (Suc i) ts))"
      by (subst id_take_nth_drop [OF i]) simp
    have "etn_entry True (bytes_reader img) (word_of_nat (length (pre @ concat (map etn2_entry (take i ts))))) = Ok (Some (ts ! i))"
      by (rule etn2_entry_read [of _ _ _ "concat (map etn2_entry (drop (Suc i) ts)) @ post"])
        (use assms split in simp_all)
    then show ?thesis using i by (simp add: length_etn2_entries mult.commute)
  qed
  then have "parse_etn_chunk (bytes_reader img) (word_of_nat (length pre)) (word_of_nat (24 * length ts)) True =
      Ok (List.map_filter (\<lambda>i. Some (ts ! i)) [0..<length ts])"
    unfolding parse_etn_chunk_def Let_def by (simp add: n) (rule collect_pure, simp)
  also have "List.map_filter (\<lambda>i. Some (ts ! i)) [0..<length ts] = ts"
    by (simp add: List.map_filter_def comp_def map_nth)
  finally show ?thesis .
qed

text \<open>The two rounds over a written image.\<close>

lemma nrg_etn2_step:
  assumes "\<not> sz < pos + 8" and "read_exactly r pos 4 = Ok (ascii ''ETN2'')" and "read_be32 r (pos + 4) = Ok len"
    and "parse_etn_chunk r (pos + 8) (ucast len) True = Ok ts"
  shows "nrg_chunk r sz pos = Ok (ts, Some (pos + 8 + ucast len))"
  using assms by (simp add: nrg_chunk_def Let_def)

lemma nrg_end_step:
  assumes "\<not> sz < pos + 8" and "read_exactly r pos 4 = Ok (ascii ''END!'')" and "read_be32 r (pos + 4) = Ok len"
  shows "nrg_chunk r sz pos = Ok ([], None)"
  using assms by (simp add: nrg_chunk_def Let_def)

lemma nrg_written_chunks:
  fixes data ts
  defines "img \<equiv> nrg_write data ts"
  assumes "24 * length ts < 2 ^ 32" and "length img < 2 ^ 63"
  shows "parse_chunks (bytes_reader img) (word_of_nat (length img)) (word_of_nat (length data)) [] = Some (Ok ts)"
proof -
  let ?r = "bytes_reader img" and ?sz = "word_of_nat (length img) :: u64"
  let ?n = "word_of_nat (24 * length ts) :: u32" and ?entries = "concat (map etn2_entry ts)"
  let ?fin = "ascii ''NER5'' @ to_be (word_of_nat (length data) :: u64)"
  let ?head = "data @ ascii ''ETN2'' @ to_be ?n" and ?tail = "ascii ''END!'' @ to_be (0 :: u32) @ ?fin"
  define p where "p = length data"
  define q where "q = p + 8 + 24 * length ts"
  have img: "img = ?head @ ?entries @ ?tail" by (simp add: img_def nrg_write_def)
  have len: "length img = q + 20" "length ?head = p + 8" "length (?head @ ?entries) = q"
    by (simp_all add: img p_def q_def length_etn2_entries)
  have at_end: "img = (?head @ ?entries) @ ascii ''END!'' @ to_be (0 :: u32) @ ?fin" using img by simp
  have below: "\<not> ?sz < word_of_nat k + 8" if "k + 8 \<le> length img" for k
  proof -
    have "unat (word_of_nat (k + 8) :: u64) = k + 8" using that assms(3) by (simp add: unat_of_nat del: of_nat_add)
    then show ?thesis using that assms(3) by (simp add: word_less_nat_alt unat_of_nat)
  qed
  have "nrg_chunk ?r ?sz (word_of_nat p) = Ok (ts, Some (word_of_nat p + 8 + ucast ?n))"
  proof (rule nrg_etn2_step)
    show "\<not> ?sz < word_of_nat p + 8" using len(1) by (intro below) (simp add: q_def)
    show "read_exactly ?r (word_of_nat p) 4 = Ok (ascii ''ETN2'')"
      using assms(3) len(1) by (intro read_here [of _ data _ "to_be ?n @ ?entries @ ?tail"]) (simp_all add: img p_def q_def)
    show "read_be32 ?r (word_of_nat p + 4) = Ok ?n"
      using read_be_here(2) [of img "data @ ascii ''ETN2''" ?n "?entries @ ?tail"] assms(3) len(1)
      by (simp add: img p_def q_def add.commute)
    show "parse_etn_chunk ?r (word_of_nat p + 8) (ucast ?n) True = Ok ts"
      using etn2_chunk_read [OF img assms(3)] unfolding len(2) ucast_u32_of_nat [OF assms(2)] by simp
  qed
  then have first: "nrg_chunk ?r ?sz (word_of_nat p) = Ok (ts, Some (word_of_nat q))"
    unfolding ucast_u32_of_nat [OF assms(2)] by (simp add: q_def)
  have last: "nrg_chunk ?r ?sz (word_of_nat q) = Ok ([], None)"
  proof (rule nrg_end_step)
    show "\<not> ?sz < word_of_nat q + 8" using len(1) by (intro below) simp
    show "read_exactly ?r (word_of_nat q) 4 = Ok (ascii ''END!'')"
      using read_here [OF at_end, of "word_of_nat q" 4] assms(3) len(1) unfolding len(3) by simp
    show "read_be32 ?r (word_of_nat q + 4) = Ok 0"
      using read_be_here(2) [of img "(?head @ ?entries) @ ascii ''END!''" 0 ?fin] assms(3) len(1) at_end
      unfolding length_append [of "?head @ ?entries"] len(3) by (simp add: add.commute)
  qed
  have "parse_chunks ?r ?sz (word_of_nat p) [] = Some (Ok ts)"
    by (subst parse_chunks.simps, simp add: first, subst parse_chunks.simps, simp add: last)
  then show ?thesis by (simp add: p_def)
qed

text \<open>
  The scan of a Nero image ends: whatever the trailer and the chunks say, over a reader of
  a file whose size leaves room for one more chunk length below 2 to the 64, the loop over the
  chunks returns, with tracks or an error and without unwinding. (Chunk positions wrap around
  in the release build; without the size bound a chain of chunks may lead back to its start.)
\<close>

theorem nrg_returns:
  assumes "positional_reader r data" and "length data + 2 ^ 32 < 2 ^ 64"
  shows "\<exists>result. nrg_children r = Some result \<and> result \<noteq> Panic"
proof -
  have safe: "safe_reader r" using assms(1) by (rule positional_reader.axioms(1))
  have "\<exists>x. parse_nrg r = Some x"
    using positional_reader.parse_chunks_returns [OF assms]
    by (auto simp: parse_nrg_def split: option.splits io.splits)
  then obtain x where "nrg_children r = Some x" by (auto simp: nrg_children_def)
  moreover have "nrg_children r \<noteq> Some Panic" by (rule nrg_not_Panic [OF safe])
  ultimately show ?thesis by auto
qed

lemma nrg_returns_witness:
  "\<exists>result. nrg_children (bytes_reader (replicate 12 0)) = Some result \<and> result \<noteq> Panic"
  by (rule nrg_returns [OF bytes.positional_reader_axioms]) simp

text \<open>
  C25. A Nero image that was written with a track list is read back to exactly these tracks, in
  order, each shown as the window of the file its entry names: the trailer leads to the chunk
  behind the data, whose entries are decoded one after the other up to the end marker.
\<close>

theorem nrg_roundtrip:
  fixes data ts
  defines "r \<equiv> bytes_reader (nrg_write data ts)"
  assumes "24 * length ts < 2 ^ 32" and "length data < 2 ^ 62"
  shows "nrg_children r =
    Some (Ok (map (\<lambda>(idx, t). slice_child r (word_of_nat idx) (track_offset t) (track_length t)) (List.enumerate 0 ts)))"
proof -
  let ?img = "nrg_write data ts"
  let ?body = "data @ ascii ''ETN2'' @ to_be (word_of_nat (24 * length ts) :: u32) @ concat (map etn2_entry ts)
     @ ascii ''END!'' @ to_be (0 :: u32)"
  let ?p = "word_of_nat (length data) :: u64" and ?sz = "word_of_nat (length ?img) :: u64"
  have img: "?img = ?body @ ascii ''NER5'' @ to_be ?p @ []" "?img = (?body @ ascii ''NER5'') @ to_be ?p @ []"
    by (simp_all add: nrg_write_def)
  define q where "q = length ?body"
  have len: "length ?img = q + 12" unfolding img(1) by (simp add: q_def)
  have small: "length ?img < 2 ^ 63"
    using assms(2,3) by (simp add: nrg_write_def length_etn2_entries)
  have pos: "?sz - 12 = word_of_nat q" "?sz - 8 = word_of_nat (length (?body @ ascii ''NER5''))"
    by (simp_all add: len) (simp add: q_def)
  have "read_exactly r (?sz - 12) 4 = Ok (ascii ''NER5'')"
    unfolding r_def pos(1) using small len by (intro read_here [OF img(1)]) (simp_all add: q_def)
  moreover have "read_be64 r (?sz - 8) = Ok ?p"
    unfolding r_def pos(2) using small len by (intro read_be_here(1) [OF img(2)]) (simp add: q_def)
  ultimately have "nrg_chunk_offset r ?sz = Ok ?p" by (simp add: nrg_chunk_offset_def)
  moreover have "rsize r = Some ?sz" by (simp add: r_def bytes_reader_def)
  moreover have "\<not> ?sz < 12" using small unfolding len by (simp add: word_less_nat_alt unat_of_nat del: of_nat_add)
  ultimately show ?thesis
    using nrg_written_chunks [OF assms(2) small] by (simp add: nrg_children_def parse_nrg_def r_def)
qed

lemma nrg_roundtrip_witness:
  "nrg_children (bytes_reader (nrg_write [1, 2, 3] [\<lparr>track_offset = 1, track_length = 2\<rparr>])) =
    Some (Ok [slice_child (bytes_reader (nrg_write [1, 2, 3] [\<lparr>track_offset = 1, track_length = 2\<rparr>])) 0 1 2])"
  using nrg_roundtrip [of "[\<lparr>track_offset = 1, track_length = 2\<rparr>]" "[1, 2, 3]"] by simp

section \<open>DiscJuggler\<close>

definition CDI_V2 :: u32 where "CDI_V2 = 0x80000004"

definition CDI_V3 :: u32 where "CDI_V3 = 0x80000005"

definition CDI_V35 :: u32 where "CDI_V35 = 0x80000006"

definition TRACK_MARKER :: bytes where
  "TRACK_MARKER = [0, 0, 1, 0, 0, 0, 0xFF, 0xFF, 0xFF, 0xFF]"

record cdi_track =
  sector_size :: u32
  pregap_length :: u32
  cdi_length :: u32
  data_offset :: u64

text \<open>The header of one track: its fields lie at places that depend on the ones before.\<close>

definition cdi_sector_size :: "u32 \<Rightarrow> u32 option" where
  "cdi_sector_size v = (if v = 0 then Some 2048 else if v = 1 then Some 2336 else if v = 2 then Some 2352 else None)"

definition expect_marker :: "reader \<Rightarrow> u64 \<Rightarrow> unit io" where
  "expect_marker reader pos =
     and_then (read_exactly reader pos 10) (\<lambda>marker.
     if marker \<noteq> TRACK_MARKER then Err InvalidData else Ok ())"

definition cdi_track_fields :: "reader \<Rightarrow> u32 \<Rightarrow> u64 \<Rightarrow> u64 \<Rightarrow> (cdi_track \<times> u64) io" where
  "cdi_track_fields reader version pos data_pos =
     and_then (read_le32 reader pos) (\<lambda>pregap.
     let pos = pos + 4 in
     and_then (read_le32 reader pos) (\<lambda>len.
     let pos = pos + 4 + 6 in
     and_then (read_le32 reader pos) (\<lambda>mode_val.
     let pos = pos + 4 in
     if mode_val > 2 then Err InvalidData
     else
       let pos = pos + 12 in
       and_then (read_le32 reader pos) (\<lambda>_.
       let pos = pos + 4 in
       and_then (read_le32 reader pos) (\<lambda>_.
       let pos = pos + 4 + 16 in
       and_then (read_le32 reader pos) (\<lambda>sector_size_val.
       let pos = pos + 4 in
       case cdi_sector_size sector_size_val of
         None \<Rightarrow> Err InvalidData
       | Some ss \<Rightarrow>
           let pos = pos + 29 in
           and_then
             (if version \<noteq> CDI_V2
              then let pos = pos + 5 in
                and_then (read_le32 reader pos) (\<lambda>temp.
                let pos = pos + 4 in Ok (if temp = 0xffffffff then pos + 78 else pos))
              else Ok pos) (\<lambda>pos.
           Ok (\<lparr>sector_size = ss, pregap_length = pregap, cdi_length = len,
                data_offset = data_pos + ucast pregap * ucast ss\<rparr>, pos))))))))"

definition parse_track :: "reader \<Rightarrow> u64 \<Rightarrow> u32 \<Rightarrow> u64 \<Rightarrow> (cdi_track \<times> u64) io" where
  "parse_track reader pos version data_pos =
     and_then (read_le32 reader pos) (\<lambda>temp.
     let pos = pos + 4; pos = (if temp \<noteq> 0 then pos + 8 else pos) in
     and_then (expect_marker reader pos) (\<lambda>_.
     let pos = pos + 10 in
     and_then (expect_marker reader pos) (\<lambda>_.
     let pos = pos + 10 + 4 in
     and_then (read_u8 reader pos) (\<lambda>filename_len.
     let pos = pos + (1 + ucast filename_len) + (11 + 4 + 4) in
     and_then (read_le32 reader pos) (\<lambda>temp.
     let pos = pos + 4; pos = (if temp = 0x80000000 then pos + 8 else pos); pos = pos + 2 in
     cdi_track_fields reader version pos data_pos)))))"

text \<open>What the two loops carry: the place in the description, the place in the data, the tracks.\<close>

record cdi_state =
  header_at :: u64
  data_at :: u64
  cdi_tracks :: "cdi_track list"

definition cdi_span :: "cdi_track \<Rightarrow> u64" where
  "cdi_span t = (ucast (pregap_length t) + ucast (cdi_length t)) * ucast (sector_size t)"

definition cdi_track_step :: "reader \<Rightarrow> u32 \<Rightarrow> cdi_state \<Rightarrow> cdi_state io" where
  "cdi_track_step reader version s =
     and_then (parse_track reader (header_at s) version (data_at s)) (\<lambda>(track, new_pos).
     Ok \<lparr>header_at = new_pos, data_at = data_at s + cdi_span track, cdi_tracks = cdi_tracks s @ [track]\<rparr>)"

fun cdi_track_loop :: "reader \<Rightarrow> u32 \<Rightarrow> nat \<Rightarrow> cdi_state \<Rightarrow> cdi_state io" where
  "cdi_track_loop reader version 0 s = Ok s"
| "cdi_track_loop reader version (Suc n) s =
     and_then (cdi_track_step reader version s) (cdi_track_loop reader version n)"

fun cdi_session_loop :: "reader \<Rightarrow> u32 \<Rightarrow> nat \<Rightarrow> cdi_state \<Rightarrow> cdi_state io" where
  "cdi_session_loop reader version 0 s = Ok s"
| "cdi_session_loop reader version (Suc n) s =
     and_then (read_le16 reader (header_at s)) (\<lambda>track_count.
     and_then (cdi_track_loop reader version (unat track_count) (s\<lparr>header_at := header_at s + 2\<rparr>)) (\<lambda>s.
     let pos = header_at s + (4 + 8) in
     cdi_session_loop reader version n (s\<lparr>header_at := (if version \<noteq> CDI_V2 then pos + 1 else pos)\<rparr>)))"

definition parse_cdi :: "reader \<Rightarrow> cdi_track list io" where
  "parse_cdi reader =
     (case rsize reader of
        None \<Rightarrow> Err OtherError
      | Some file_size \<Rightarrow>
          if file_size < 8 then Err InvalidData
          else
            and_then (read_le32 reader (file_size - 8)) (\<lambda>version.
            and_then (read_le32 reader (file_size - 4)) (\<lambda>header_offset.
            if header_offset = 0 then Err InvalidData
            else
              and_then
                (if version = CDI_V35 then Ok (file_size - ucast header_offset)
                 else if version = CDI_V2 \<or> version = CDI_V3 then Ok (ucast header_offset)
                 else Err InvalidData) (\<lambda>header_pos.
              and_then (read_le16 reader header_pos) (\<lambda>sessions.
              map_io cdi_tracks
                (cdi_session_loop reader version (unat sessions)
                   \<lparr>header_at = header_pos + 2, data_at = 0, cdi_tracks = []\<rparr>))))))"

definition cdi_children :: "reader \<Rightarrow> child list io" where
  "cdi_children reader =
     and_then (parse_cdi reader) (\<lambda>tracks.
     Ok (map (\<lambda>(idx, track). slice_child reader (word_of_nat idx) (data_offset track)
               (ucast (cdi_length track) * ucast (sector_size track)))
             (List.enumerate 0 tracks)))"

subsection \<open>No unwinding\<close>

lemma expect_marker_not_Panic [panic_free]: "safe_reader r \<Longrightarrow> expect_marker r pos \<noteq> Panic"
  by (simp add: expect_marker_def panic_free)

lemma cdi_track_fields_not_Panic [panic_free]: "safe_reader r \<Longrightarrow> cdi_track_fields r v pos d \<noteq> Panic"
  by (auto simp: cdi_track_fields_def Let_def panic_free split: option.split)

lemma parse_track_not_Panic [panic_free]: "safe_reader r \<Longrightarrow> parse_track r pos v d \<noteq> Panic"
  by (simp add: parse_track_def Let_def panic_free)

lemma cdi_track_loop_not_Panic [panic_free]: "safe_reader r \<Longrightarrow> cdi_track_loop r v n s \<noteq> Panic"
  by (induction n arbitrary: s) (auto simp: cdi_track_step_def and_then_Panic_iff parse_track_not_Panic)

lemma cdi_session_loop_not_Panic [panic_free]: "safe_reader r \<Longrightarrow> cdi_session_loop r v n s \<noteq> Panic"
  by (induction n arbitrary: s)
    (auto simp: Let_def and_then_Panic_iff cdi_track_loop_not_Panic safe_reader.fixed_reads_not_Panic)

subsection \<open>The layout of the tracks\<close>

text \<open>
  The data of the tracks lies in the file one track after the other, the pregap of each in
  front of it. This is the invariant of both loops; a round of the inner one adds one track.
\<close>

definition cdi_start :: "cdi_track list \<Rightarrow> nat \<Rightarrow> u64" where
  "cdi_start ts i = sum_list (map cdi_span (take i ts)) + ucast (pregap_length (ts ! i)) * ucast (sector_size (ts ! i))"

definition cdi_laid_out :: "cdi_track list \<Rightarrow> bool" where
  "cdi_laid_out ts = (\<forall>i < length ts. data_offset (ts ! i) = cdi_start ts i \<and> sector_size (ts ! i) \<in> {2048, 2336, 2352})"

definition cdi_inv :: "cdi_state \<Rightarrow> bool" where
  "cdi_inv s \<longleftrightarrow> data_at s = sum_list (map cdi_span (cdi_tracks s)) \<and> cdi_laid_out (cdi_tracks s)"

lemma cdi_inv_header [simp]: "cdi_inv (s\<lparr>header_at := p\<rparr>) = cdi_inv s"
  by (simp add: cdi_inv_def)

lemma cdi_track_fields_place:
  assumes "cdi_track_fields r v pos d = Ok (t, p)"
  shows "data_offset t = d + ucast (pregap_length t) * ucast (sector_size t) \<and> sector_size t \<in> {2048, 2336, 2352}"
proof -
  obtain pregap len ss w where t: "t = \<lparr>sector_size = ss, pregap_length = pregap, cdi_length = len,
      data_offset = d + ucast pregap * ucast ss\<rparr>" and ss: "cdi_sector_size w = Some ss"
    using assms by (clarsimp simp: cdi_track_fields_def Let_def ok_iff split: option.splits if_splits)
  from ss have "ss \<in> {2048, 2336, 2352}" by (simp add: cdi_sector_size_def split: if_splits)
  with t show ?thesis by simp
qed

lemma parse_track_place:
  "parse_track r pos v d = Ok (t, p) \<Longrightarrow>
    data_offset t = d + ucast (pregap_length t) * ucast (sector_size t) \<and> sector_size t \<in> {2048, 2336, 2352}"
  unfolding parse_track_def Let_def by (clarsimp simp only: ok_iff) (rule cdi_track_fields_place)

lemma cdi_laid_out_snoc:
  assumes "cdi_laid_out ts" and "data_offset t = sum_list (map cdi_span ts) + ucast (pregap_length t) * ucast (sector_size t)"
    and "sector_size t \<in> {2048, 2336, 2352}"
  shows "cdi_laid_out (ts @ [t])"
  using assms by (auto simp: cdi_laid_out_def cdi_start_def nth_append less_Suc_eq)

lemma cdi_track_step_inv:
  assumes "cdi_track_step r v s = Ok s'" and "cdi_inv s"
  shows "cdi_inv s' \<and> length (cdi_tracks s') = Suc (length (cdi_tracks s))"
proof -
  obtain t p where t: "parse_track r (header_at s) v (data_at s) = Ok (t, p)"
    and s': "s' = \<lparr>header_at = p, data_at = data_at s + cdi_span t, cdi_tracks = cdi_tracks s @ [t]\<rparr>"
    using assms(1) by (auto simp: cdi_track_step_def ok_iff)
  from parse_track_place [OF t] assms(2) show ?thesis
    by (simp add: s' cdi_inv_def) (rule cdi_laid_out_snoc, simp_all)
qed

lemma cdi_track_loop_inv:
  assumes "cdi_track_loop r v n s = Ok s'" and "cdi_inv s"
  shows "cdi_inv s' \<and> length (cdi_tracks s') = length (cdi_tracks s) + n"
  using assms
proof (induction n arbitrary: s)
  case (Suc n)
  then obtain s1 where "cdi_track_step r v s = Ok s1" "cdi_track_loop r v n s1 = Ok s'" by (auto simp: ok_iff)
  with Suc.IH [of s1] cdi_track_step_inv [of r v s s1] Suc.prems(2) show ?case by simp
qed simp

lemma cdi_session_loop_inv:
  assumes "cdi_session_loop r v n s = Ok s'" and "cdi_inv s"
  shows "cdi_inv s' \<and> length (cdi_tracks s') \<le> length (cdi_tracks s) + n * 65535"
  using assms
proof (induction n arbitrary: s)
  case (Suc n)
  then obtain count s1 p where "cdi_track_loop r v (unat (count :: u16)) (s\<lparr>header_at := header_at s + 2\<rparr>) = Ok s1"
    "cdi_session_loop r v n (s1\<lparr>header_at := p\<rparr>) = Ok s'"
    by (auto simp: ok_iff Let_def)
  with Suc.IH [of "s1\<lparr>header_at := p\<rparr>"] cdi_track_loop_inv [of r v "unat count" "s\<lparr>header_at := header_at s + 2\<rparr>" s1]
    Suc.prems(2) unat_u16_less [of count]
  show ?case by simp
qed simp

lemma map_io_Ok_iff: "map_io f m = Ok y \<longleftrightarrow> (\<exists>x. m = Ok x \<and> y = f x)"
  by (cases m) auto

lemma parse_cdi_inv:
  assumes "parse_cdi r = Ok ts"
  shows "cdi_laid_out ts \<and> length ts \<le> 65535 * 65535"
proof -
  obtain p v s and sessions :: u16 where
    "cdi_session_loop r v (unat sessions) \<lparr>header_at = p, data_at = 0, cdi_tracks = []\<rparr> = Ok s" "ts = cdi_tracks s"
    using assms by (auto simp: parse_cdi_def ok_iff map_io_Ok_iff split: option.splits if_splits)
  with cdi_session_loop_inv [OF this(1)] unat_u16_less [of sessions] show ?thesis
    by (simp add: cdi_inv_def cdi_laid_out_def)
qed

lemma map_io_Panic_iff: "map_io f m = Panic \<longleftrightarrow> m = Panic"
  by (cases m) auto

lemma parse_cdi_not_Panic: "safe_reader r \<Longrightarrow> parse_cdi r \<noteq> Panic"
  by (auto simp: parse_cdi_def panic_free map_io_Panic_iff split: option.split)

interpretation cdi: partition_table cdi_children
proof (rule partition_table.intro)
  show "cdi_children r \<noteq> Panic" if "safe_reader r" for r
    using parse_cdi_not_Panic [OF that] by (simp add: cdi_children_def and_then_Panic_iff)
  show "window_of r c" if "cdi_children r = Ok cs" "c \<in> set cs" for r cs c
    using that by (auto simp: cdi_children_def ok_iff)
  show "distinct (map index cs)" if "cdi_children r = Ok cs" for r cs
  proof -
    obtain ts where "parse_cdi r = Ok ts" and cs: "cs = map (\<lambda>(idx, t). slice_child r (word_of_nat idx) (data_offset t)
        (ucast (cdi_length t) * ucast (sector_size t))) (List.enumerate 0 ts)"
      using \<open>cdi_children r = Ok cs\<close> by (auto simp: cdi_children_def ok_iff)
    then have "length ts < 2 ^ 32" using parse_cdi_inv [of r ts] by simp
    moreover have "map index cs = map word_of_nat [0..<length ts]"
      by (rule nth_equalityI) (simp_all add: cs nth_enumerate_eq)
    ultimately show ?thesis
      by (auto simp: distinct_map inj_on_def word_unat_eq_iff unat_of_nat)
  qed
qed

text \<open>
  C26. The tracks of a DiscJuggler image: track \<open>i\<close> starts where the tracks before it end, each of
  them taking its pregap and its length in sectors of its own size, plus its own pregap; its
  window is its length in sectors of one of the three sizes of the format.
\<close>

theorem cdi_layout:
  assumes "cdi_children r = Ok cs" and "i < length cs"
  shows "\<exists>ts. parse_cdi r = Ok ts \<and> length ts = length cs \<and> index (cs ! i) = word_of_nat i \<and>
    offset (cs ! i) = sum_list (map (\<lambda>t. (ucast (pregap_length t) + ucast (cdi_length t)) * ucast (sector_size t)) (take i ts))
      + ucast (pregap_length (ts ! i)) * ucast (sector_size (ts ! i)) \<and>
    child_reader (cs ! i) = slice_reader r (offset (cs ! i)) (ucast (cdi_length (ts ! i)) * ucast (sector_size (ts ! i))) \<and>
    sector_size (ts ! i) \<in> {2048, 2336, 2352}"
proof -
  obtain ts where ts: "parse_cdi r = Ok ts" and cs: "cs = map (\<lambda>(idx, t). slice_child r (word_of_nat idx) (data_offset t)
      (ucast (cdi_length t) * ucast (sector_size t))) (List.enumerate 0 ts)"
    using assms(1) by (auto simp: cdi_children_def ok_iff)
  then have i: "i < length ts" using assms(2) by simp
  with parse_cdi_inv [OF ts] have "data_offset (ts ! i) = cdi_start ts i" "sector_size (ts ! i) \<in> {2048, 2336, 2352}"
    by (simp_all add: cdi_laid_out_def)
  moreover have "cs ! i = slice_child r (word_of_nat i) (data_offset (ts ! i)) (ucast (cdi_length (ts ! i)) * ucast (sector_size (ts ! i)))"
    using i by (simp add: cs nth_enumerate_eq)
  ultimately show ?thesis
    using ts i by (intro exI [of _ ts]) (simp add: cs slice_child_def cdi_start_def cdi_span_def [abs_def])
qed

text \<open>A file whose description, behind four bytes of data, holds two tracks of three and two sectors.\<close>

definition cdi_example :: bytes where
  "cdi_example = image_of 310 (\<lambda>i.
     if i \<in> {4, 14, 24, 76, 155, 165, 203, 217} then 1 else if i \<in> {6, 207} then 2
     else if 18 \<le> i \<and> i < 22 \<or> 28 \<le> i \<and> i < 32 \<or> 159 \<le> i \<and> i < 163 \<or> 169 \<le> i \<and> i < 173 then 0xFF
     else if i = 62 then 150 else if i = 66 then 3 else if i = 302 \<or> i = 306 then 4 else if i = 305 then 0x80 else 0)"

lemmas cdi_example_read = read_defs bytes.read_exactly_eq cdi_example_def take_drop_image_of upt_rec from_le_def

lemma cdi_example_track1:
  "parse_track (bytes_reader cdi_example) 8 CDI_V2 0 =
     Ok (\<lparr>sector_size = 2048, pregap_length = 150, cdi_length = 3, data_offset = 307200\<rparr>, 149)"
  by (simp add: parse_track_def expect_marker_def TRACK_MARKER_def cdi_track_fields_def cdi_sector_size_def Let_def cdi_example_read)

lemma cdi_example_track2:
  "parse_track (bytes_reader cdi_example) 149 CDI_V2 313344 =
     Ok (\<lparr>sector_size = 2048, pregap_length = 1, cdi_length = 2, data_offset = 315392\<rparr>, 290)"
  by (simp add: parse_track_def expect_marker_def TRACK_MARKER_def cdi_track_fields_def cdi_sector_size_def Let_def cdi_example_read)

lemma cdi_example_header:
  "rsize (bytes_reader cdi_example) = Some 310" "read_le32 (bytes_reader cdi_example) 302 = Ok CDI_V2"
  "read_le32 (bytes_reader cdi_example) 306 = Ok 4" "read_le16 (bytes_reader cdi_example) 4 = Ok 1"
  "read_le16 (bytes_reader cdi_example) 6 = Ok 2"
  by (simp_all add: bytes_reader_def [THEN arg_cong [of _ _ rsize]] CDI_V2_def cdi_example_read)

lemma cdi_versions: "CDI_V2 \<noteq> CDI_V35"
  by (simp add: CDI_V2_def CDI_V35_def)

lemma cdi_two_tracks:
  "cdi_track_loop r v 2 s = and_then (cdi_track_step r v s) (\<lambda>s. and_then (cdi_track_step r v s) Ok)"
  unfolding numeral_2_eq_2 cdi_track_loop.simps by (rule refl)

lemma cdi_example_tracks:
  "parse_cdi (bytes_reader cdi_example) =
     Ok [\<lparr>sector_size = 2048, pregap_length = 150, cdi_length = 3, data_offset = 307200\<rparr>,
         \<lparr>sector_size = 2048, pregap_length = 1, cdi_length = 2, data_offset = 315392\<rparr>]"
  by (simp add: parse_cdi_def cdi_example_header cdi_versions cdi_two_tracks cdi_track_step_def cdi_span_def
      cdi_example_track1 cdi_example_track2 Let_def)

lemma cdi_layout_witness:
  "\<exists>cs. cdi_children (bytes_reader cdi_example) = Ok cs \<and> length cs = 2 \<and>
     offset (cs ! 1) = (150 + 3) * 2048 + 1 * 2048"
proof -
  obtain cs where cs: "cdi_children (bytes_reader cdi_example) = Ok cs" "length cs = 2"
    by (simp add: cdi_children_def cdi_example_tracks)
  with cdi_layout [OF cs(1), of 1] show ?thesis by (simp add: cdi_example_tracks)
qed

end
