(* ===== verification/Disk_Vmdk.thy ===== *)
theory Disk_Vmdk
  imports Disk_Chunks
begin

text \<open>
  VMware images, \<^verbatim>\<open>vmdk.rs\<close>: the sparse format of ESX 2 (one table), the hosted sparse
  format with a directory of grain tables, its stream-optimised form with deflated grains,
  and the sparse format of ESXi with 64-bit entries. The grains of all of them are read
  through \<open>block_reader\<close>. The inflate decoder is a crate and an argument.
\<close>

section \<open>Opening\<close>

definition VMDK3_MAGIC :: u32 where "VMDK3_MAGIC = 0x444F5743"
definition VMDK4_MAGIC :: u32 where "VMDK4_MAGIC = 0x564D444B"
definition SESPARSE_MAGIC :: u64 where "SESPARSE_MAGIC = 0x00000000cafebabe"
definition VMDK4_FLAG_COMPRESS :: u32 where "VMDK4_FLAG_COMPRESS = 0x10000"
definition VMDK4_FLAG_ZERO_GRAIN :: u32 where "VMDK4_FLAG_ZERO_GRAIN = 0x4"
definition VMDK4_GTE_ZEROED :: u32 where "VMDK4_GTE_ZEROED = 1"

datatype vmdk_variant =
    Vmdk3 "u32 list"
  | Vmdk4 "u32 list" u32 bool
  | Vmdk4Compressed "u32 list" u32
  | SeSparse "u64 list" u64

record vmdk =
  vmdk_variant :: vmdk_variant
  vmdk_grain_size :: u64
  vmdk_virtual_size :: u64

definition nonzero :: "u64 option \<Rightarrow> u64 option" where
  "nonzero x = (case x of Some v \<Rightarrow> if v \<noteq> 0 then Some v else None | None \<Rightarrow> None)"

definition parse_vmdk3 :: "reader \<Rightarrow> vmdk io" where
  "parse_vmdk3 parent =
     and_then (read_exactly parent 4 44) (\<lambda>header.
     let disk_sectors = ucast (le32_at header 8) :: u64;
         granularity = ucast (le32_at header 12) :: u64;
         l1dir_offset = ucast (le32_at header 16) :: u64;
         l1dir_size = ucast (le32_at header 20) :: u64
     in and_then (ok_or (nonzero (checked_mul granularity 512)) InvalidData) (\<lambda>grain_size.
        and_then (ok_or (checked_mul disk_sectors 512) InvalidData) (\<lambda>virtual_size.
        and_then (ok_or (checked_mul l1dir_offset 512) InvalidData) (\<lambda>l1_offset.
        and_then (checked_table_size parent l1_offset l1dir_size 4) (\<lambda>l1_bytes.
        and_then (read_exactly parent l1_offset l1_bytes) (\<lambda>l1_data.
        Ok \<lparr>vmdk_variant = Vmdk3 (decode_chunks 4 from_le l1_data),
            vmdk_grain_size = grain_size, vmdk_virtual_size = virtual_size\<rparr>))))))"

text \<open>
  The directory may be cut off at the end of the image: the entries that were read are kept
  (\<open>decode_chunks\<close> drops a partial one).
\<close>

definition parse_vmdk4 :: "reader \<Rightarrow> vmdk io" where
  "parse_vmdk4 parent =
     and_then (read_exactly parent 0 80) (\<lambda>header.
     let flags = le32_at header 8;
         capacity = le64_at header 12;
         granularity = le64_at header 20;
         num_gtes_per_gt = le32_at header 44;
         gd_offset = le64_at header 56
     in and_then (ok_or (nonzero (checked_mul granularity 512)) InvalidData) (\<lambda>grain_size.
        and_then (ok_or (checked_mul capacity 512) InvalidData) (\<lambda>virtual_size.
        if num_gtes_per_gt = 0 then Err InvalidData
        else
          let is_compressed = (flags AND VMDK4_FLAG_COMPRESS \<noteq> 0);
              has_zero_grain = (flags AND VMDK4_FLAG_ZERO_GRAIN \<noteq> 0)
          in and_then (ok_or (checked_mul (ucast num_gtes_per_gt) grain_size) InvalidData) (\<lambda>gt_coverage.
             let gd_entries = div_ceil virtual_size gt_coverage in
             and_then (ok_or (checked_mul gd_offset 512) InvalidData) (\<lambda>gd_byte_offset.
             and_then (checked_table_size parent gd_byte_offset gd_entries 4) (\<lambda>gd_bytes.
             and_then (read_at parent gd_byte_offset gd_bytes) (\<lambda>gd_data.
             let gd = decode_chunks 4 from_le gd_data in
             Ok \<lparr>vmdk_variant = (if is_compressed then Vmdk4Compressed gd num_gtes_per_gt
                                 else Vmdk4 gd num_gtes_per_gt has_zero_grain),
                 vmdk_grain_size = grain_size, vmdk_virtual_size = virtual_size\<rparr>)))))))"

definition parse_sesparse :: "reader \<Rightarrow> vmdk io" where
  "parse_sesparse parent =
     and_then (read_exactly parent 0 64) (\<lambda>header.
     let capacity = le64_at header 16;
         grain_size_bytes = le64_at header 24;
         gt_size = le64_at header 32;
         gd_offset = le64_at header 40
     in and_then (ok_or (nonzero (checked_mul gt_size grain_size_bytes)) InvalidData) (\<lambda>gt_coverage.
        let gd_entries = div_ceil capacity gt_coverage in
        and_then (checked_table_size parent gd_offset gd_entries 8) (\<lambda>gd_bytes.
        and_then (read_at parent gd_offset gd_bytes) (\<lambda>gd_data.
        Ok \<lparr>vmdk_variant = SeSparse (decode_chunks 8 from_le gd_data) gt_size,
            vmdk_grain_size = grain_size_bytes, vmdk_virtual_size = capacity\<rparr>))))"

definition vmdk_open :: "reader \<Rightarrow> vmdk io" where
  "vmdk_open parent =
     and_then (read_at parent 0 8) (\<lambda>got.
     if length got < 4 then Err UnexpectedEof
     else
       let magic_buf = zero_filled 8 got in
       if le32_at magic_buf 0 = VMDK3_MAGIC then parse_vmdk3 parent
       else if le32_at magic_buf 0 = VMDK4_MAGIC then parse_vmdk4 parent
       else if le64_at magic_buf 0 = SESPARSE_MAGIC then parse_sesparse parent
       else Err InvalidData)"

section \<open>Reading\<close>

definition read_gt_entry :: "reader \<Rightarrow> u64 \<Rightarrow> u64 \<Rightarrow> u32 io" where
  "read_gt_entry parent gt_offset gt_index = read_le32 parent (gt_offset + gt_index * 4)"

definition read_gt_entry_64 :: "reader \<Rightarrow> u64 \<Rightarrow> u64 \<Rightarrow> u64 io" where
  "read_gt_entry_64 parent gt_offset gt_index = read_le64 parent (gt_offset + gt_index * 8)"

text \<open>The count of the second read is not looked at: what is missing stays zero.\<close>

definition read_compressed_grain :: "pull_decoder \<Rightarrow> reader \<Rightarrow> u64 \<Rightarrow> u64 \<Rightarrow> bytes io" where
  "read_compressed_grain inflate parent grain_size grain_offset =
     and_then (read_exactly parent (grain_offset * 512) 16) (\<lambda>marker.
     let compressed_size = unat (le32_at marker 8) in
     and_then (read_at parent (grain_offset * 512 + 16) compressed_size) (\<lambda>got.
     let compressed = zero_filled compressed_size got in
     and_then (allocate (unat grain_size)) (\<lambda>_.
     read_exact_from (inflate compressed) (unat grain_size))))"

definition vmdk_reader :: "pull_decoder \<Rightarrow> reader \<Rightarrow> vmdk \<Rightarrow> reader" where
  "vmdk_reader inflate parent d =
     \<lparr>read_at = (\<lambda>off n.
        if off \<ge> vmdk_virtual_size d then Ok []
        else if vmdk_grain_size d = 0 then Panic
        else
          let grain_idx = off div vmdk_grain_size d;
              in_grain = off mod vmdk_grain_size d;
              remaining_in_grain = vmdk_grain_size d - in_grain;
              remaining_in_disk = vmdk_virtual_size d - off;
              to_read = min (min n (unat remaining_in_grain)) (unat remaining_in_disk)
          in case vmdk_variant d of
               Vmdk3 l1 \<Rightarrow>
                 if unat grain_idx \<ge> length l1 then Ok (replicate to_read 0)
                 else
                   let grain_sector = l1 ! unat grain_idx in
                   if grain_sector = 0 then Ok (replicate to_read 0)
                   else read_at parent (ucast grain_sector * 512 + in_grain) to_read
             | Vmdk4 gd num_gtes has_zero_grain \<Rightarrow>
                 if num_gtes = 0 then Panic
                 else
                   let gd_idx = unat (grain_idx div ucast num_gtes); gt_idx = grain_idx mod ucast num_gtes in
                   if gd_idx \<ge> length gd then Ok (replicate to_read 0)
                   else if gd ! gd_idx = 0 then Ok (replicate to_read 0)
                   else
                     and_then (read_gt_entry parent (ucast (gd ! gd_idx) * 512) gt_idx) (\<lambda>grain_sector.
                     if grain_sector = 0 \<or> has_zero_grain \<and> grain_sector = VMDK4_GTE_ZEROED
                     then Ok (replicate to_read 0)
                     else read_at parent (ucast grain_sector * 512 + in_grain) to_read)
             | Vmdk4Compressed gd num_gtes \<Rightarrow>
                 if num_gtes = 0 then Panic
                 else
                   let gd_idx = unat (grain_idx div ucast num_gtes); gt_idx = grain_idx mod ucast num_gtes in
                   if gd_idx \<ge> length gd then Ok (replicate to_read 0)
                   else if gd ! gd_idx = 0 then Ok (replicate to_read 0)
                   else
                     and_then (read_gt_entry parent (ucast (gd ! gd_idx) * 512) gt_idx) (\<lambda>grain_sector.
                     if grain_sector = 0 then Ok (replicate to_read 0)
                     else
                       and_then (read_compressed_grain inflate parent (vmdk_grain_size d) (ucast grain_sector))
                         (\<lambda>decompressed.
                       and_then (get_range decompressed (unat in_grain) (length decompressed)) (\<lambda>rest.
                       get_range rest 0 to_read)))
             | SeSparse gd gt_size \<Rightarrow>
                 if gt_size = 0 then Panic
                 else
                   let gd_idx = unat (grain_idx div gt_size); gt_idx = grain_idx mod gt_size in
                   if gd_idx \<ge> length gd then Ok (replicate to_read 0)
                   else
                     let gt_offset = gd ! gd_idx; state = drop_bit 60 gt_offset AND 0xF in
                     if state \<noteq> 0 \<and> state \<noteq> 3 then Ok (replicate to_read 0)
                     else
                       let gt_addr = gt_offset AND 0x0FFFFFFFFFFFFFFF in
                       if gt_addr = 0 then Ok (replicate to_read 0)
                       else
                         and_then (read_gt_entry_64 parent gt_addr gt_idx) (\<lambda>grain_entry.
                         if drop_bit 60 grain_entry AND 0xF \<noteq> 3 then Ok (replicate to_read 0)
                         else read_at parent ((grain_entry AND 0x0FFFFFFFFFFFFFFF) + in_grain) to_read)),
      rsize = Some (vmdk_virtual_size d)\<rparr>"

definition vmdk_children :: "pull_decoder \<Rightarrow> container" where
  "vmdk_children inflate reader =
     and_then (vmdk_open reader) (\<lambda>d. Ok [virtual_child (vmdk_reader inflate reader d)])"

section \<open>The grains as blocks\<close>

text \<open>Where a grain is, for an image whose tables have been read.\<close>

definition grain_entry :: "pull_decoder \<Rightarrow> reader \<Rightarrow> vmdk \<Rightarrow> u32 list \<Rightarrow> u32 \<Rightarrow> u64 \<Rightarrow> u32 io" where
  "grain_entry inflate parent d gd num_gtes i =
     (let gd_idx = unat (i div ucast num_gtes) in
      if gd_idx \<ge> length gd \<or> gd ! gd_idx = 0 then Ok 0
      else read_gt_entry parent (ucast (gd ! gd_idx) * 512) (i mod ucast num_gtes))"

definition vmdk_locate :: "pull_decoder \<Rightarrow> reader \<Rightarrow> vmdk \<Rightarrow> u64 \<Rightarrow> source io" where
  "vmdk_locate inflate parent d i =
     (case vmdk_variant d of
        Vmdk3 l1 \<Rightarrow>
          Ok (if unat i \<ge> length l1 \<or> l1 ! unat i = 0 then Zeros else Stored (ucast (l1 ! unat i) * 512))
      | Vmdk4 gd num_gtes has_zero_grain \<Rightarrow>
          and_then (grain_entry inflate parent d gd num_gtes i) (\<lambda>e.
          Ok (if e = 0 \<or> has_zero_grain \<and> e = VMDK4_GTE_ZEROED then Zeros else Stored (ucast e * 512)))
      | Vmdk4Compressed gd num_gtes \<Rightarrow>
          and_then (grain_entry inflate parent d gd num_gtes i) (\<lambda>e.
          if e = 0 then Ok Zeros
          else and_then (read_compressed_grain inflate parent (vmdk_grain_size d) (ucast e)) (\<lambda>bs. Ok (Inline bs)))
      | SeSparse gd gt_size \<Rightarrow>
          let gd_idx = unat (i div gt_size) in
          if gd_idx \<ge> length gd \<or> drop_bit 60 (gd ! gd_idx) AND 0xF \<notin> {0, 3} \<or> gd ! gd_idx AND 0x0FFFFFFFFFFFFFFF = 0
          then Ok Zeros
          else
            and_then (read_gt_entry_64 parent (gd ! gd_idx AND 0x0FFFFFFFFFFFFFFF) (i mod gt_size)) (\<lambda>e.
            Ok (if drop_bit 60 e AND 0xF \<noteq> 3 then Zeros else Stored (e AND 0x0FFFFFFFFFFFFFFF))))"

definition vmdk_ok :: "vmdk \<Rightarrow> bool" where
  "vmdk_ok d \<longleftrightarrow> vmdk_grain_size d \<noteq> 0 \<and>
     (case vmdk_variant d of
        Vmdk3 _ \<Rightarrow> True | Vmdk4 _ n _ \<Rightarrow> n \<noteq> 0 | Vmdk4Compressed _ n \<Rightarrow> n \<noteq> 0 | SeSparse _ n \<Rightarrow> n \<noteq> 0)"

lemma nonzero_Some [simp]: "nonzero x = Some v \<longleftrightarrow> x = Some v \<and> v \<noteq> 0"
  by (auto simp: nonzero_def split: option.splits)

lemma checked_mul_nonzero: "checked_mul a b = Some (v :: u64) \<Longrightarrow> v \<noteq> 0 \<Longrightarrow> a \<noteq> 0 \<and> b \<noteq> 0"
  by (auto simp: checked_mul_def split: if_splits)

lemma vmdk_open_ok: "vmdk_open r = Ok d \<Longrightarrow> vmdk_ok d"
  by (auto simp: vmdk_open_def parse_vmdk3_def parse_vmdk4_def parse_sesparse_def Let_def ok_iff vmdk_ok_def
      dest: checked_mul_nonzero split: if_splits)

lemma read_compressed_grain_length:
  "read_compressed_grain inflate r g e = Ok bs \<Longrightarrow> length bs = unat g"
  by (auto simp: read_compressed_grain_def Let_def ok_iff dest: read_exact_from_length)

lemma vmdk_block_reader:
  assumes "vmdk_ok d"
  shows "block_reader r (vmdk_reader inflate r d) (vmdk_grain_size d) (vmdk_virtual_size d) (vmdk_locate inflate r d)"
proof (rule block_reader.intro)
  show "vmdk_grain_size d \<noteq> 0" using assms by (simp add: vmdk_ok_def)
  fix off n
  let ?g = "vmdk_grain_size d" and ?in = "off mod vmdk_grain_size d"
  let ?k = "min (min n (unat (?g - ?in))) (unat (vmdk_virtual_size d - off))"
  have slice: "and_then (get_range bs (unat ?in) (length bs)) (\<lambda>rest. get_range rest 0 ?k) =
      Ok (take ?k (drop (unat ?in) bs))"
    if "read_compressed_grain inflate r ?g e = Ok bs" for e bs
    using read_compressed_grain_length [OF that] mod_less_self [of ?g] assms
    by (intro cluster_slice) (auto simp: min_le_iff_disj vmdk_ok_def)
  show "read_at (vmdk_reader inflate r d) off n =
      (if off \<ge> vmdk_virtual_size d then Ok []
       else let k = ?k in
         and_then (vmdk_locate inflate r d (off div ?g)) (\<lambda>s.
           case s of
             Zeros \<Rightarrow> Ok (replicate k 0)
           | Stored b \<Rightarrow> read_at r (b + ?in) k
           | Inline d \<Rightarrow> Ok (take k (drop (unat ?in) d))
           | Missing \<Rightarrow> Ok []))"
    using assms
    by (cases "vmdk_variant d")
      (auto simp: vmdk_ok_def vmdk_reader_def vmdk_locate_def grain_entry_def Let_def and_then_assoc slice intro!: and_then_cong)
qed

subsection \<open>Unwinding\<close>

lemma vmdk_open_not_Panic: "safe_reader r \<Longrightarrow> vmdk_open r \<noteq> Panic"
  by (simp add: vmdk_open_def parse_vmdk3_def parse_vmdk4_def parse_sesparse_def Let_def panic_free)

lemma grain_entry_not_Panic: "safe_reader r \<Longrightarrow> grain_entry inflate r d gd n i \<noteq> Panic"
  by (simp add: grain_entry_def read_gt_entry_def Let_def panic_free)

lemma read_compressed_grain_not_Panic:
  "safe_reader r \<Longrightarrow> unat g < 2 ^ 63 \<Longrightarrow> read_compressed_grain inflate r g e \<noteq> Panic"
  by (simp add: read_compressed_grain_def allocate_def Let_def panic_free)

lemma vmdk_locate_not_Panic:
  assumes "safe_reader r" and "unat (vmdk_grain_size d) < 2 ^ 63"
  shows "vmdk_locate inflate r d i \<noteq> Panic"
proof -
  note not_Panic = grain_entry_not_Panic [OF assms(1)] read_compressed_grain_not_Panic [OF assms]
  show ?thesis
    by (cases "vmdk_variant d")
      (auto simp: vmdk_locate_def read_gt_entry_64_def Let_def panic_free not_Panic assms(1))
qed

text \<open>Up to a grain size that no allocation can have, the reader of the disk is safe.\<close>

lemma vmdk_reader_safe:
  assumes "safe_reader r" and "vmdk_open r = Ok d" and "unat (vmdk_grain_size d) < 2 ^ 63"
  shows "safe_reader (vmdk_reader inflate r d)"
  by (rule block_reader.block_safe [OF vmdk_block_reader [OF vmdk_open_ok [OF assms(2)]] assms(1)])
    (rule vmdk_locate_not_Panic [OF assms(1,3)])

section \<open>The properties\<close>


text \<open>Three grains of one sector: flagged as zero, stored at sector 3, without a table.\<close>

definition vmdk_image :: bytes where
  "vmdk_image = image_of 2048 (\<lambda>i.
     if i < 4 then [0x4B, 0x44, 0x4D, 0x56] ! i
     else if i = 8 then 4 else if i = 12 then 3 else if i = 20 then 1 else if i = 44 then 2 else if i = 56 then 1
     else if i = 512 then 2 else if i = 1024 then 1 else if i = 1028 then 3
     else if 1536 \<le> i then 7 else 0)"

abbreviation vmdk_opened :: vmdk where
  "vmdk_opened \<equiv> \<lparr>vmdk_variant = Vmdk4 [2, 0] 2 True, vmdk_grain_size = 512, vmdk_virtual_size = 1536\<rparr>"

lemma vmdk_image_opens: "vmdk_open (bytes_reader vmdk_image) = Ok vmdk_opened"
proof -
  have magic: "read_at (bytes_reader vmdk_image) 0 8 = Ok [0x4B, 0x44, 0x4D, 0x56, 0, 0, 0, 0]"
    by (simp add: exact_reader.read_at_eq [OF bytes.exact_reader_axioms] vmdk_image_def
        take_drop_image_of [of _ 0, simplified] upt_rec)
  have gd: "read_at (bytes_reader vmdk_image) 512 8 = Ok [2, 0, 0, 0, 0, 0, 0, 0]"
    by (simp add: exact_reader.read_at_eq [OF bytes.exact_reader_axioms] vmdk_image_def take_drop_image_of upt_rec)
  have header: "read_exactly (bytes_reader vmdk_image) 0 80 = Ok (take 80 vmdk_image)"
    by (simp add: bytes.read_exactly_eq vmdk_image_def)
  have fields: "le32_at (take 80 vmdk_image) 8 = 4" "le64_at (take 80 vmdk_image) 12 = 3"
    "le64_at (take 80 vmdk_image) 20 = 1" "le32_at (take 80 vmdk_image) 44 = 2" "le64_at (take 80 vmdk_image) 56 = 1"
    by (simp_all add: le32_at_def le64_at_def vmdk_image_def from_le_def upt_rec)
  have table: "checked_table_size (bytes_reader vmdk_image) 512 2 4 = Ok 8"
    by (simp add: checked_table_size_def bytes_reader_def vmdk_image_def checked_mul_def checked_add_def MAX_TABLE_SIZE_def)
  show ?thesis
    by (simp add: vmdk_open_def magic zero_filled_def le32_at_def [of "[a, b, c, d, e, f, g, h]" 0 for a b c d e f g h]
        from_le_def VMDK3_MAGIC_def VMDK4_MAGIC_def parse_vmdk4_def header Let_def fields checked_mul_def div_ceil_def
        table gd decode_chunks_def chunks_exact_numeral VMDK4_FLAG_COMPRESS_def VMDK4_FLAG_ZERO_GRAIN_def nonzero_def)
qed

lemma vmdk_image_grains:
  "vmdk_locate inflate (bytes_reader vmdk_image) vmdk_opened 0 = Ok Zeros"
  "vmdk_locate inflate (bytes_reader vmdk_image) vmdk_opened 1 = Ok (Stored 1536)"
  "vmdk_locate inflate (bytes_reader vmdk_image) vmdk_opened 2 = Ok Zeros"
proof -
  have entries: "read_le32 (bytes_reader vmdk_image) 1024 = Ok 1" "read_le32 (bytes_reader vmdk_image) 1028 = Ok 3"
    by (simp_all add: read_defs bytes.read_exactly_eq vmdk_image_def take_drop_image_of upt_rec from_le_def)
  show "vmdk_locate inflate (bytes_reader vmdk_image) vmdk_opened 0 = Ok Zeros"
    "vmdk_locate inflate (bytes_reader vmdk_image) vmdk_opened 1 = Ok (Stored 1536)"
    "vmdk_locate inflate (bytes_reader vmdk_image) vmdk_opened 2 = Ok Zeros"
    by (simp_all add: vmdk_locate_def grain_entry_def read_gt_entry_def entries Let_def VMDK4_GTE_ZEROED_def)
qed


text \<open>
  A stream-optimised image can make a read unwind: the grain size is only checked against
  overflow, and the buffer for an inflated grain is allocated with it. With a grain of 2 to
  the 63 bytes the first grain that is present makes the allocation impossible.
\<close>

theorem vmdk_grain_unwinds:
  assumes "exact_reader r data" and "vmdk_open r = Ok d" and "vmdk_variant d = Vmdk4Compressed gd n"
    and "2 ^ 63 \<le> unat (vmdk_grain_size d)" and "off < vmdk_virtual_size d"
    and "grain_entry inflate r d gd n (off div vmdk_grain_size d) = Ok e" and "e \<noteq> 0"
    and "unat e * 512 + 16 \<le> length data"
  shows "read_at (vmdk_reader inflate r d) off k = Panic"
proof -
  have "unat (ucast e * 512 :: u64) = unat e * 512"
    using unat_u32_less [of e] by (subst unat_mult_exact) simp_all
  then have "read_exactly r (ucast e * 512) 16 = Ok (take 16 (drop (unat e * 512) data))"
    using assms(8) by (simp add: exact_reader.read_exactly_eq [OF assms(1)])
  then have "read_compressed_grain inflate r (vmdk_grain_size d) (ucast e) = Panic"
    using assms(4) by (simp add: read_compressed_grain_def Let_def exact_reader.read_at_eq [OF assms(1)] allocate_def)
  then have "vmdk_locate inflate r d (off div vmdk_grain_size d) = Panic"
    using assms(3,6,7) by (simp add: vmdk_locate_def)
  then show ?thesis
    using assms(5) block_reader.read_block [OF vmdk_block_reader [OF vmdk_open_ok [OF assms(2)]], of inflate r off k]
    by (simp add: Let_def not_le [symmetric])
qed

text \<open>A disk of one sector in a grain of 2 to the 63 bytes.\<close>

definition vmdk_huge :: bytes where
  "vmdk_huge = image_of 528 (\<lambda>i.
     if i < 4 then [0x4B, 0x44, 0x4D, 0x56] ! i
     else if i \<in> {10, 12, 44, 56, 512} then 1 else if i = 26 then 0x40 else 0)"

abbreviation vmdk_huge_opened :: vmdk where
  "vmdk_huge_opened \<equiv> \<lparr>vmdk_variant = Vmdk4Compressed [1] 1, vmdk_grain_size = 2 ^ 63, vmdk_virtual_size = 512\<rparr>"

lemma vmdk_huge_opens: "vmdk_open (bytes_reader vmdk_huge) = Ok vmdk_huge_opened"
proof -
  have magic: "read_at (bytes_reader vmdk_huge) 0 8 = Ok [0x4B, 0x44, 0x4D, 0x56, 0, 0, 0, 0]"
    by (simp add: exact_reader.read_at_eq [OF bytes.exact_reader_axioms] vmdk_huge_def
        take_drop_image_of [of _ 0, simplified] upt_rec)
  have gd: "read_at (bytes_reader vmdk_huge) 512 4 = Ok [1, 0, 0, 0]"
    by (simp add: exact_reader.read_at_eq [OF bytes.exact_reader_axioms] vmdk_huge_def take_drop_image_of upt_rec)
  have header: "read_exactly (bytes_reader vmdk_huge) 0 80 = Ok (take 80 vmdk_huge)"
    by (simp add: bytes.read_exactly_eq vmdk_huge_def)
  have fields: "le32_at (take 80 vmdk_huge) 8 = 0x10000" "le64_at (take 80 vmdk_huge) 12 = 1"
    "le64_at (take 80 vmdk_huge) 20 = 2 ^ 54" "le32_at (take 80 vmdk_huge) 44 = 1" "le64_at (take 80 vmdk_huge) 56 = 1"
    by (simp_all add: le32_at_def le64_at_def vmdk_huge_def from_le_def upt_rec)
  have table: "checked_table_size (bytes_reader vmdk_huge) 512 1 4 = Ok 4"
    by (simp add: checked_table_size_def bytes_reader_def vmdk_huge_def checked_mul_def checked_add_def MAX_TABLE_SIZE_def)
  show ?thesis
    by (simp add: vmdk_open_def magic zero_filled_def le32_at_def [of "[a, b, c, d, e, f, g, h]" 0 for a b c d e f g h]
        from_le_def VMDK3_MAGIC_def VMDK4_MAGIC_def parse_vmdk4_def header Let_def fields checked_mul_def div_ceil_def
        table gd decode_chunks_def chunks_exact_numeral VMDK4_FLAG_COMPRESS_def VMDK4_FLAG_ZERO_GRAIN_def nonzero_def)
qed

theorem vmdk_grain_unwinds_witness:
  "read_at (vmdk_reader repeat_first (bytes_reader vmdk_huge) vmdk_huge_opened) 0 1 = Panic"
proof (rule vmdk_grain_unwinds [OF bytes.exact_reader_axioms vmdk_huge_opens])
  have "read_le32 (bytes_reader vmdk_huge) 512 = Ok 1"
    by (simp add: read_defs bytes.read_exactly_eq vmdk_huge_def take_drop_image_of upt_rec from_le_def)
  then show "grain_entry repeat_first (bytes_reader vmdk_huge) vmdk_huge_opened [1] 1
      (0 div vmdk_grain_size vmdk_huge_opened) = Ok 1"
    by (simp add: grain_entry_def read_gt_entry_def Let_def)
qed (simp_all add: vmdk_huge_def)

section \<open>A disk of ESX 2 written and read\<close>

text \<open>
  Grains of \<open>g\<close> sectors, some of them absent: the header, the table from sector 1 on (filled
  up to a whole sector), and the grains that are present one after the other.
\<close>

fun cowd_entries :: "nat \<Rightarrow> nat \<Rightarrow> bytes option list \<Rightarrow> nat list" where
  "cowd_entries g s [] = []"
| "cowd_entries g s (None # gs) = 0 # cowd_entries g s gs"
| "cowd_entries g s (Some b # gs) = s # cowd_entries g (s + g) gs"

definition cowd_first :: "nat \<Rightarrow> nat" where
  "cowd_first n = 1 + (4 * n + 511) div 512"

definition cowd_table :: "nat \<Rightarrow> bytes option list \<Rightarrow> bytes" where
  "cowd_table g gs =
     concat (map (\<lambda>e. to_le (word_of_nat e :: u32)) (cowd_entries g (cowd_first (length gs)) gs))"

definition cowd_header :: "nat \<Rightarrow> nat \<Rightarrow> bytes" where
  "cowd_header g n =
     to_le VMDK3_MAGIC @ to_le (1 :: u32) @ to_le (3 :: u32) @ to_le (word_of_nat (n * g) :: u32)
     @ to_le (word_of_nat g :: u32) @ to_le (1 :: u32) @ to_le (word_of_nat n :: u32)"

definition cowd_write :: "nat \<Rightarrow> bytes option list \<Rightarrow> bytes" where
  "cowd_write g gs =
     cowd_header g (length gs) @ replicate 484 0 @ cowd_table g gs
     @ replicate (512 * (cowd_first (length gs) - 1) - 4 * length gs) 0
     @ concat (List.map_filter (\<lambda>x. x) gs)"

definition cowd_blocks :: "nat \<Rightarrow> bytes option list \<Rightarrow> bytes list" where
  "cowd_blocks g gs = map (\<lambda>x. case x of None \<Rightarrow> replicate (512 * g) 0 | Some b \<Rightarrow> b) gs"

lemma length_cowd_entries [simp]: "length (cowd_entries g s gs) = length gs"
  by (induction g s gs rule: cowd_entries.induct) simp_all

lemma cowd_entries_None: "i < length gs \<Longrightarrow> gs ! i = None \<Longrightarrow> cowd_entries g s gs ! i = 0"
  by (induction g s gs arbitrary: i rule: cowd_entries.induct) (auto simp: nth_Cons split: nat.split)

lemma cowd_entries_Some:
  assumes "i < length gs" and "gs ! i = Some b" and "\<forall>x\<in>set gs. \<forall>b. x = Some b \<longrightarrow> length b = 512 * g"
  shows "s \<le> cowd_entries g s gs ! i \<and> cowd_entries g s gs ! i + g \<le> s + g * length gs \<and>
    take (length b) (drop (512 * (cowd_entries g s gs ! i - s)) (concat (List.map_filter (\<lambda>x. x) gs))) = b \<and>
    512 * (cowd_entries g s gs ! i - s) + length b \<le> length (concat (List.map_filter (\<lambda>x. x) gs))"
  using assms
proof (induction g s gs arbitrary: i rule: cowd_entries.induct)
  case (2 g s gs)
  show ?case
  proof (cases i)
    case (Suc j)
    then show ?thesis using "2.IH" [of j] "2.prems" by (simp add: List.map_filter_simps)
  qed (use "2.prems" in simp)
next
  case (3 g s c gs)
  have c: "length c = 512 * g" using "3.prems"(3) by simp
  show ?case
  proof (cases i)
    case 0
    then show ?thesis using "3.prems"(2) c by (simp add: List.map_filter_simps)
  next
    case (Suc j)
    let ?e = "cowd_entries g (s + g) gs ! j"
    have IH: "s + g \<le> ?e \<and> ?e + g \<le> s + g + g * length gs \<and>
      take (length b) (drop (512 * (?e - (s + g))) (concat (List.map_filter (\<lambda>x. x) gs))) = b \<and>
      512 * (?e - (s + g)) + length b \<le> length (concat (List.map_filter (\<lambda>x. x) gs))"
      using Suc "3.prems" by (intro "3.IH") auto
    then obtain k where k: "?e = s + g + k" by (auto simp: le_iff_add)
    with IH Suc c show ?thesis by (simp add: List.map_filter_simps algebra_simps)
  qed
qed simp

lemma cowd_first_covers: "4 * n \<le> 512 * (cowd_first n - 1)" "512 * cowd_first n = 512 + 512 * (cowd_first n - 1)"
proof -
  show "4 * n \<le> 512 * (cowd_first n - 1)" unfolding cowd_first_def by linarith
  show "512 * cowd_first n = 512 + 512 * (cowd_first n - 1)" by (simp add: cowd_first_def)
qed

lemma length_cowd_table: "length (cowd_table g gs) = 4 * length gs"
  unfolding cowd_table_def
  using length_concat_even [of "map (\<lambda>e. to_le (word_of_nat e :: u32)) (cowd_entries g (cowd_first (length gs)) gs)" 4]
  by simp

lemma length_cowd_header: "length (cowd_header g n) = 28"
  by (simp add: cowd_header_def)

lemma cowd_data:
  "drop (512 * cowd_first (length gs) + k) (cowd_write g gs) = drop k (concat (List.map_filter (\<lambda>x. x) gs))"
  using cowd_first_covers [of "length gs"]
  by (simp add: cowd_write_def length_cowd_table length_cowd_header)

lemma length_cowd_write:
  "length (cowd_write g gs) = 512 * cowd_first (length gs) + length (concat (List.map_filter (\<lambda>x. x) gs))"
  using cowd_first_covers [of "length gs"]
  by (simp add: cowd_write_def length_cowd_table length_cowd_header)

definition cowd_opened :: "nat \<Rightarrow> bytes option list \<Rightarrow> vmdk" where
  "cowd_opened g gs =
     \<lparr>vmdk_variant = Vmdk3 (map word_of_nat (cowd_entries g (cowd_first (length gs)) gs)),
      vmdk_grain_size = word_of_nat (g * 512), vmdk_virtual_size = word_of_nat (length gs * g * 512)\<rparr>"

definition cowd_fits :: "nat \<Rightarrow> bytes option list \<Rightarrow> bool" where
  "cowd_fits g gs \<longleftrightarrow> 0 < g \<and> (\<forall>x\<in>set gs. \<forall>b. x = Some b \<longrightarrow> length b = 512 * g) \<and> gs \<noteq> [] \<and>
     4 * length gs \<le> 67108864 \<and> cowd_first (length gs) + g * length gs < 2 ^ 32"

lemma checked_mul_of_nat:
  "a * b < 2 ^ 64 \<Longrightarrow> a < 2 ^ 64 \<Longrightarrow> b < 2 ^ 64 \<Longrightarrow>
    checked_mul (word_of_nat a) (word_of_nat b :: u64) = Some (word_of_nat (a * b))"
  by (simp add: checked_mul_def unat_of_nat)

lemma cowd_fits_bounds:
  assumes "cowd_fits g gs"
  shows "g < 2 ^ 32" "length gs * g < 2 ^ 32" "length gs < 2 ^ 32"
    "length (concat (List.map_filter (\<lambda>x. x) gs)) \<le> 512 * (g * length gs)" "length (cowd_write g gs) < 2 ^ 63"
proof -
  have n: "1 \<le> length gs" using assms by (cases gs) (simp_all add: cowd_fits_def)
  have total: "cowd_first (length gs) + g * length gs < 2 ^ 32" using assms by (simp add: cowd_fits_def)
  have "g * 1 \<le> g * length gs" using n by (intro mult_le_mono2)
  then have "g \<le> g * length gs" by (simp only: mult_1_right)
  with total show "g < 2 ^ 32" by linarith
  show "length gs * g < 2 ^ 32" using total by (simp add: mult.commute)
  show "length gs < 2 ^ 32" using assms by (simp add: cowd_fits_def)
  have "\<forall>x\<in>set gs. \<forall>b. x = Some b \<longrightarrow> length b = 512 * g" using assms by (simp add: cowd_fits_def)
  then show data: "length (concat (List.map_filter (\<lambda>x. x) gs)) \<le> 512 * (g * length gs)"
    by (induction gs) (auto simp: List.map_filter_simps algebra_simps split: option.splits)
  show "length (cowd_write g gs) < 2 ^ 63"
    using data total unfolding length_cowd_write by simp
qed

lemma cowd_write_header:
  assumes "cowd_fits g gs"
  defines "h \<equiv> take 44 (drop 4 (cowd_write g gs))"
  shows "read_exactly (bytes_reader (cowd_write g gs)) 4 44 = Ok h"
    and "le32_at h 8 = word_of_nat (length gs * g)" "le32_at h 12 = word_of_nat g" "le32_at h 16 = 1"
      "le32_at h 20 = word_of_nat (length gs)"
    and "\<exists>rest. read_at (bytes_reader (cowd_write g gs)) 0 8 = Ok (to_le VMDK3_MAGIC @ rest) \<and> length rest = 4"
proof -
  let ?n = "length gs"
  have h: "h = to_le (1 :: u32) @ to_le (3 :: u32) @ to_le (word_of_nat (?n * g) :: u32)
     @ to_le (word_of_nat g :: u32) @ to_le (1 :: u32) @ to_le (word_of_nat ?n :: u32) @ replicate 20 0"
    by (simp add: h_def cowd_write_def cowd_header_def)
  have len: "512 \<le> length (cowd_write g gs)" using cowd_first_covers [of ?n] by (simp add: length_cowd_write)
  show "read_exactly (bytes_reader (cowd_write g gs)) 4 44 = Ok h"
    using len by (simp add: bytes.read_exactly_eq h_def)
  show "le32_at h 8 = word_of_nat (?n * g)"
    by (rule le32_at_here [of _ "to_le (1 :: u32) @ to_le (3 :: u32)"]) (use h in simp_all)
  show "le32_at h 12 = word_of_nat g"
    by (rule le32_at_here [of _ "to_le (1 :: u32) @ to_le (3 :: u32) @ to_le (word_of_nat (?n * g) :: u32)"]) (use h in simp_all)
  show "le32_at h 16 = 1"
    by (rule le32_at_here [of _ "to_le (1 :: u32) @ to_le (3 :: u32) @ to_le (word_of_nat (?n * g) :: u32) @ to_le (word_of_nat g :: u32)"])
      (use h in simp_all)
  show "le32_at h 20 = word_of_nat ?n"
    by (rule le32_at_here [of _ "to_le (1 :: u32) @ to_le (3 :: u32) @ to_le (word_of_nat (?n * g) :: u32) @ to_le (word_of_nat g :: u32)
        @ to_le (1 :: u32)"]) (use h in simp_all)
  have "take 8 (cowd_write g gs) = to_le VMDK3_MAGIC @ to_le (1 :: u32)"
    by (simp add: cowd_write_def cowd_header_def)
  then show "\<exists>rest. read_at (bytes_reader (cowd_write g gs)) 0 8 = Ok (to_le VMDK3_MAGIC @ rest) \<and> length rest = 4"
    by (intro exI [of _ "to_le (1 :: u32)"]) (simp add: exact_reader.read_at_eq [OF bytes.exact_reader_axioms])
qed

lemma cowd_write_opens:
  assumes "cowd_fits g gs"
  shows "vmdk_open (bytes_reader (cowd_write g gs)) = Ok (cowd_opened g gs)"
proof -
  let ?img = "cowd_write g gs" and ?n = "length gs" and ?r = "bytes_reader (cowd_write g gs)"
  note bounds = cowd_fits_bounds [OF assms] and header = cowd_write_header [OF assms]
  obtain rest where magic: "read_at ?r 0 8 = Ok (to_le VMDK3_MAGIC @ rest)" "length rest = 4" using header(6) by blast
  have magic_word: "le32_at (to_le VMDK3_MAGIC @ rest) 0 = VMDK3_MAGIC" by (rule le32_at_here [of _ "[]"]) simp_all
  have size: "rsize ?r = Some (word_of_nat (length ?img))" by (simp add: bytes_reader_def)
  have "512 + 4 * ?n \<le> length ?img" using cowd_first_covers [of ?n] by (simp add: length_cowd_write)
  then have fits: "unat (512 :: u64) + ?n * 4 \<le> unat (word_of_nat (length ?img) :: u64)"
    using bounds(5) by (simp add: unat_of_nat)
  have "checked_table_size ?r 512 (word_of_nat ?n) (word_of_nat 4) = Ok (?n * 4)"
    using assms by (intro table_size_here [OF size fits]) (simp_all add: cowd_fits_def)
  then have table_size: "checked_table_size ?r 512 (word_of_nat ?n) 4 = Ok (?n * 4)" by simp
  have "take (?n * 4) (drop 512 ?img) = cowd_table g gs"
    by (simp add: cowd_write_def length_cowd_header length_cowd_table)
  then have table: "read_exactly ?r 512 (?n * 4) = Ok (cowd_table g gs)"
    using \<open>512 + 4 * ?n \<le> length ?img\<close> by (simp add: bytes.read_exactly_eq)
  have entries: "decode_chunks 4 from_le (cowd_table g gs) = (map word_of_nat (cowd_entries g (cowd_first ?n) gs) :: u32 list)"
    using decode_chunks_concat [of "map word_of_nat (cowd_entries g (cowd_first ?n) gs) :: u32 list" to_le 4 from_le]
    by (simp add: from_to_le comp_def cowd_table_def)
  have words: "(ucast (word_of_nat k :: u32) :: u64) = word_of_nat k" if "k < 2 ^ 32" for k
    using that by (simp add: word_unat_eq_iff unat_of_nat)
  have times: "checked_mul (word_of_nat k) (512 :: u64) = Some (word_of_nat (k * 512))" if "k < 2 ^ 32" for k
    using checked_mul_of_nat [of k 512] that by simp
  note grain = times [OF bounds(1)] times [OF bounds(2)]
  have "unat (word_of_nat (g * 512) :: u64) = g * 512" using bounds(1) by (intro unat_small) simp
  then have nz: "(word_of_nat (g * 512) :: u64) \<noteq> 0" using assms by (auto simp: cowd_fits_def simp flip: unat_eq_0)
  have one: "checked_mul (ucast (1 :: u32)) (512 :: u64) = Some 512" by (simp add: checked_mul_def)
  show ?thesis
    unfolding vmdk_open_def magic and_then.simps Let_def parse_vmdk3_def header(1) header(2-5)
      words [OF bounds(1)] words [OF bounds(2)] words [OF bounds(3)] grain one
    using magic(2) nz
    by (simp add: zero_filled_def magic_word nonzero_def table_size table entries cowd_opened_def)
qed

lemma cowd_grain:
  assumes "cowd_fits g gs" and "i < length gs"
  shows "\<exists>s. vmdk_locate inflate r (cowd_opened g gs) (word_of_nat i) = Ok s \<and>
    source_is (cowd_write g gs) s (cowd_blocks g gs ! i)"
proof -
  let ?n = "length gs" and ?f = "cowd_first (length gs)"
  let ?e = "cowd_entries g ?f gs ! i"
  note bounds = cowd_fits_bounds [OF assms(1)]
  have i: "unat (word_of_nat i :: u64) = i" using assms(2) bounds(3) by (intro unat_small) simp
  have locate: "vmdk_locate inflate r (cowd_opened g gs) (word_of_nat i) =
      Ok (if (word_of_nat ?e :: u32) = 0 then Zeros else Stored (ucast (word_of_nat ?e :: u32) * 512))"
    using assms(2) i by (simp add: vmdk_locate_def cowd_opened_def)
  show ?thesis
  proof (cases "gs ! i")
    case None
    then show ?thesis
      using locate cowd_entries_None [OF assms(2)] assms(2) by (simp add: source_is_def cowd_blocks_def)
  next
    case (Some b)
    have len: "length b = 512 * g" using assms Some by (metis cowd_fits_def nth_mem)
    have e: "?f \<le> ?e" "?e + g \<le> ?f + g * ?n"
      "take (length b) (drop (512 * (?e - ?f)) (concat (List.map_filter (\<lambda>x. x) gs))) = b"
      "512 * (?e - ?f) + length b \<le> length (concat (List.map_filter (\<lambda>x. x) gs))"
      using cowd_entries_Some [OF assms(2) Some, of g ?f] assms(1) by (simp_all add: cowd_fits_def)
    have small: "?e < 2 ^ 32" using e(2) assms(1) by (simp add: cowd_fits_def)
    then have w: "unat (word_of_nat ?e :: u32) = ?e" by (simp add: unat_of_nat)
    have "0 < ?e" using e(1) by (simp add: cowd_first_def)
    then have "(word_of_nat ?e :: u32) \<noteq> 0" using w by (auto simp flip: unat_eq_0)
    moreover have at: "unat (ucast (word_of_nat ?e :: u32) * 512 :: u64) = ?e * 512"
      using small w by (subst unat_mult_exact) simp_all
    moreover have "drop (?e * 512) (cowd_write g gs) = drop (512 * (?e - ?f)) (concat (List.map_filter (\<lambda>x. x) gs))"
      using cowd_data [of gs "512 * (?e - ?f)" g] e(1) by (simp add: algebra_simps)
    moreover have "?e * 512 + length b \<le> length (cowd_write g gs)"
      using e(1,4) by (simp add: length_cowd_write algebra_simps)
    ultimately show ?thesis
      using locate e(3) bounds(5) Some assms(2) by (simp add: source_is_def cowd_blocks_def)
  qed
qed

text \<open>
  C27. An image of ESX 2 that was written from a list of grains, some of them absent, is read
  back as these grains one after the other, absent ones as zeros, for every sequence of
  reads.
\<close>

theorem cowd_roundtrip:
  assumes "cowd_fits g gs"
  shows "\<exists>r. vmdk_children inflate (bytes_reader (cowd_write g gs)) = Ok [virtual_child r] \<and>
    positional_reader r (concat (map (\<lambda>x. case x of None \<Rightarrow> replicate (512 * g) 0 | Some b \<Rightarrow> b) gs))"
proof -
  let ?d = "cowd_opened g gs" and ?r = "bytes_reader (cowd_write g gs)"
  let ?l = "vmdk_locate inflate ?r ?d" and ?blocks = "cowd_blocks g gs"
  note bounds = cowd_fits_bounds [OF assms]
  have "serves (cowd_write g gs) ?l ?blocks"
    using cowd_grain [OF assms] by (simp add: serves_def cowd_blocks_def)
  moreover have "\<forall>b\<in>set ?blocks. length b = g * 512" "0 < g * 512"
    using assms by (auto simp: cowd_blocks_def cowd_fits_def split: option.split)
  ultimately have content: "backed (cowd_write g gs) (g * 512) (length gs * (g * 512)) ?l"
    "flat (cowd_write g gs) (g * 512) (length gs * (g * 512)) ?l = concat ?blocks"
    using serves_flat [of "cowd_write g gs" ?l ?blocks "g * 512"] by (simp_all add: cowd_blocks_def)
  have "g * 512 < 2 ^ 64" "length gs * (g * 512) < 2 ^ 64" using bounds(1,2) by (simp_all add: mult.commute [of g])
  then have geometry: "unat (vmdk_grain_size ?d) = g * 512" "unat (vmdk_virtual_size ?d) = length gs * (g * 512)"
    unfolding cowd_opened_def vmdk.simps mult.assoc by (simp_all only: unat_small)
  have opened: "vmdk_open ?r = Ok ?d" by (rule cowd_write_opens [OF assms])
  note disk = vmdk_block_reader [where inflate = inflate, OF vmdk_open_ok [OF opened]]
  have "positional_reader (vmdk_reader inflate ?r ?d) (concat ?blocks)"
    by (rule block_reader.flat_positional [OF disk bytes.exact_reader_axioms, unfolded geometry, OF content(1), unfolded content(2)])
  moreover have "vmdk_children inflate ?r = Ok [virtual_child (vmdk_reader inflate ?r ?d)]" using opened by (simp add: vmdk_children_def)
  ultimately show ?thesis unfolding cowd_blocks_def by blast
qed

theorem cowd_roundtrip_witness:
  "\<exists>r. vmdk_children repeat_first (bytes_reader (cowd_write 1 [None, Some (replicate 512 7), None])) = Ok [virtual_child r] \<and>
     positional_reader r (replicate 512 0 @ replicate 512 7 @ replicate 512 0)"
  using cowd_roundtrip [of 1 "[None, Some (replicate 512 7), None]" repeat_first]
  by (simp add: cowd_fits_def cowd_first_def)

end
