(* ===== verification/Disk_Dmg.thy ===== *)
theory Disk_Dmg
  imports Disk_Chunks Utf8
begin

text \<open>
  Apple disk images, \<^verbatim>\<open>dmg.rs\<close>: the trailer at the end of the file (which is looked for by
  reading, since a reader need not know its size), the property list with its base64 blocks,
  the chunk table they hold, and the disk that is read through it. The decoders for zlib,
  bzip2 and lzfse are crates and arguments.
\<close>

section \<open>The chunk table\<close>

definition KOLY_MAGIC :: bytes where "KOLY_MAGIC = ascii ''koly''"
definition MISH_MAGIC :: u32 where "MISH_MAGIC = 0x6d697368"
definition UDZE :: u32 where "UDZE = 0x00000000"
definition UDRW :: u32 where "UDRW = 0x00000001"
definition UDIG :: u32 where "UDIG = 0x00000002"
definition UDZO :: u32 where "UDZO = 0x80000005"
definition UDBZ :: u32 where "UDBZ = 0x80000006"
definition ULFO :: u32 where "ULFO = 0x80000007"
definition COMMENT :: u32 where "COMMENT = 0x7ffffffe"
definition LAST_ENTRY :: u32 where "LAST_ENTRY = 0xffffffff"
definition DMG_MAX_CHUNK_SIZE :: u64 where "DMG_MAX_CHUNK_SIZE = 64 * 1024 * 1024"

record dmg_chunk =
  chunk_type :: u32
  sector_start :: u64
  sector_count :: u64
  compressed_offset :: u64
  compressed_length :: u64

record dmg =
  dmg_chunks :: "dmg_chunk list"
  dmg_virtual_size :: u64

text \<open>The loop \<^verbatim>\<open>while offset + 40 <= data.len()\<close>, by the number of the entry.\<close>

definition mish_entry :: "bytes \<Rightarrow> u64 \<Rightarrow> u64 \<Rightarrow> nat \<Rightarrow> dmg_chunk list \<Rightarrow> dmg_chunk list flow io" where
  "mish_entry data data_fork_offset block_sector_start i chunks =
     (let off = 204 + 40 * i; kind = be32_at data off in
      if kind = COMMENT \<or> kind = UDIG then Ok (Continue chunks)
      else if kind = LAST_ENTRY then Ok (Break chunks)
      else
        let sector_number = be64_at data (off + 8);
            count = be64_at data (off + 16);
            source_offset = be64_at data (off + 24);
            source_length = be64_at data (off + 32)
        in if count > 0 then
             and_then (ok_or (checked_add block_sector_start sector_number) InvalidData) (\<lambda>start.
             and_then (ok_or (checked_add start count) InvalidData) (\<lambda>_.
             and_then (ok_or (checked_add data_fork_offset source_offset) InvalidData) (\<lambda>source.
             Ok (Continue (chunks @ [\<lparr>chunk_type = kind, sector_start = start, sector_count = count,
               compressed_offset = source, compressed_length = source_length\<rparr>])))))
           else Ok (Continue chunks))"

definition parse_mish_block :: "bytes \<Rightarrow> u64 \<Rightarrow> dmg_chunk list io" where
  "parse_mish_block data data_fork_offset =
     (if length data < 204 then Err InvalidData
      else if be32_at data 0 \<noteq> MISH_MAGIC then Err InvalidData
      else
        let block_sector_start = be64_at data 8 in
        for_break (mish_entry data data_fork_offset block_sector_start) [0..<(length data - 204) div 40] [])"

section \<open>The property list\<close>

definition BASE64_TABLE :: bytes where
  "BASE64_TABLE = ascii ''ABCDEFGHIJKLMNOPQRSTUVWXYZabcdefghijklmnopqrstuvwxyz0123456789+/''"

definition is_ascii_whitespace :: "nat \<Rightarrow> bool" where
  "is_ascii_whitespace c \<longleftrightarrow> c \<in> {9, 10, 12, 13, 32}"

text \<open>\<^verbatim>\<open>BASE64_TABLE.iter().position(..)\<close>\<close>

fun position :: "nat \<Rightarrow> nat \<Rightarrow> bytes \<Rightarrow> nat option" where
  "position i c [] = None"
| "position i c (b # bs) = (if unat b = c then Some i else position (Suc i) c bs)"

text \<open>
  The input is a string; what is not ASCII has only bytes that are neither in the table nor
  white space, so that a code point stands for its bytes.
\<close>

fun base64_loop :: "u32 \<Rightarrow> nat \<Rightarrow> bytes \<Rightarrow> nat list \<Rightarrow> bytes io" where
  "base64_loop accum bits out [] = Ok out"
| "base64_loop accum bits out (c # cs) =
     (if c = of_char (CHR ''='') then base64_loop accum bits out cs
      else case position 0 c BASE64_TABLE of
        None \<Rightarrow> if is_ascii_whitespace c then base64_loop accum bits out cs else Err InvalidData
      | Some idx \<Rightarrow>
          let accum = (push_bit 6 accum) OR word_of_nat idx; bits = bits + 6 in
          if bits \<ge> 8
          then let bits = bits - 8 in
            base64_loop (accum AND (push_bit bits 1 - 1)) bits (out @ [ucast (drop_bit bits accum)]) cs
          else base64_loop accum bits out cs)"

definition decode_base64 :: "nat list \<Rightarrow> bytes io" where
  "decode_base64 input = base64_loop 0 0 [] input"

text \<open>\<^verbatim>\<open>s.find(pat)\<close>: what is before the first match, and what is from it on.\<close>

fun str_find :: "nat list \<Rightarrow> nat list \<Rightarrow> (nat list \<times> nat list) option" where
  "str_find pat [] = (if pat = [] then Some ([], []) else None)"
| "str_find pat (c # cs) =
     (if take (length pat) (c # cs) = pat then Some ([], c # cs)
      else map_option (\<lambda>(before, from_match). (c # before, from_match)) (str_find pat cs))"

definition BLKX_KEY :: "nat list" where "BLKX_KEY = code_points ''<key>blkx</key>''"
definition DATA_TAG :: "nat list" where "DATA_TAG = code_points ''<data>''"
definition DATA_END :: "nat list" where "DATA_END = code_points ''</data>''"

text \<open>The chunks of one block; a block that cannot be decoded or parsed is left out.\<close>

definition blkx_chunks :: "u64 \<Rightarrow> nat list \<Rightarrow> dmg_chunk list" where
  "blkx_chunks data_fork_offset base64_data =
     (case decode_base64 base64_data of
        Ok mish_data \<Rightarrow> (case parse_mish_block mish_data data_fork_offset of Ok block \<Rightarrow> block | _ \<Rightarrow> [])
      | _ \<Rightarrow> [])"

lemma str_find_shorter: "str_find pat s = Some (before, rest) \<Longrightarrow> length rest \<le> length s"
proof (induction s arbitrary: before)
  case (Cons c s)
  show ?case
  proof (cases "take (length pat) (c # s) = pat")
    case False
    with Cons.prems obtain b where "str_find pat s = Some (b, rest)" by auto
    then have "length rest \<le> length s" by (rule Cons.IH)
    then show ?thesis by simp
  qed (use Cons.prems in auto)
qed (auto split: if_splits)

lemma str_find_not_Nil: "pat \<noteq> [] \<Longrightarrow> str_find pat s = Some (before, rest) \<Longrightarrow> rest \<noteq> []"
  by (induction s arbitrary: before) (auto split: if_splits)

lemma patterns_not_Nil [simp]: "BLKX_KEY \<noteq> []" "DATA_TAG \<noteq> []" "DATA_END \<noteq> []"
  by (simp_all add: BLKX_KEY_def DATA_TAG_def DATA_END_def code_points_def)

function blkx_loop :: "u64 \<Rightarrow> nat list \<Rightarrow> dmg_chunk list \<Rightarrow> dmg_chunk list" where
  "blkx_loop data_fork_offset xml chunks =
     (case str_find BLKX_KEY xml of
        None \<Rightarrow> chunks
      | Some (_, key) \<Rightarrow>
          let after_key = drop 15 key in
          (case str_find DATA_TAG after_key of
             None \<Rightarrow> blkx_loop data_fork_offset after_key chunks
           | Some (_, tag) \<Rightarrow>
               (case str_find DATA_END (drop 6 tag) of
                  None \<Rightarrow> blkx_loop data_fork_offset after_key chunks
                | Some (base64_data, data_end) \<Rightarrow>
                    blkx_loop data_fork_offset data_end (chunks @ blkx_chunks data_fork_offset base64_data))))"
  by pat_completeness auto
termination
proof (relation "measure (\<lambda>(off, xml, chunks). length xml)")
  fix off :: u64 and xml :: "nat list" and chunks :: "dmg_chunk list" and x before key after_key
  assume x: "str_find BLKX_KEY xml = Some x" "(before, key) = x" and after: "after_key = drop 15 key"
  have key: "length key \<le> length xml" "key \<noteq> []"
    using x str_find_shorter [of BLKX_KEY xml before key] str_find_not_Nil [of BLKX_KEY xml before key] by auto
  then have less: "length after_key < length xml" using after by (cases key) auto
  then show "((off, after_key, chunks), off, xml, chunks) \<in> measure (\<lambda>(off, xml, chunks). length xml)"
    by simp
  then show "((off, after_key, chunks), off, xml, chunks) \<in> measure (\<lambda>(off, xml, chunks). length xml)" .
  fix y b1 tag z base64_data data_end
  assume "str_find DATA_TAG after_key = Some y" "(b1, tag) = y"
    and "str_find DATA_END (drop 6 tag) = Some z" "(base64_data, data_end) = z"
  then have "length tag \<le> length after_key" "length data_end \<le> length (drop 6 tag)"
    using str_find_shorter by blast+
  with less show "((off, data_end, chunks @ blkx_chunks off base64_data), off, xml, chunks)
      \<in> measure (\<lambda>(off, xml, chunks). length xml)" by simp
qed simp

declare blkx_loop.simps [simp del]

definition parse_plist_blkx :: "nat list \<Rightarrow> u64 \<Rightarrow> dmg_chunk list io" where
  "parse_plist_blkx xml data_fork_offset =
     (let chunks = blkx_loop data_fork_offset xml [] in
      if chunks = [] then Err InvalidData else Ok (sort_key sector_start chunks))"

section \<open>The end of the file\<close>

text \<open>The end of the file is looked for by reading single bytes, below 1 TiB by bisection.\<close>

function bisect :: "reader \<Rightarrow> u64 \<Rightarrow> u64 \<Rightarrow> u64 io" where
  "bisect parent low high =
     (if high - low > 512
      then
        let mid = low + (high - low) div 2 in
        and_then (read_at parent mid 1) (\<lambda>got.
        if got \<noteq> [] then bisect parent mid high else bisect parent low mid)
      else Ok low)"
  by pat_completeness auto
termination
proof (relation "measure (\<lambda>(parent, low, high). unat (high - low))")
  fix parent :: reader and low high mid :: u64 and got :: bytes
  assume big: "high - low > 512" and mid: "mid = low + (high - low) div 2"
  let ?d = "high - low"
  have d: "512 < unat ?d" using big by (simp add: word_less_nat_alt)
  have upper: "high - mid = ?d - ?d div 2" by (simp add: mid)
  have "?d div 2 \<le> ?d" by (simp add: word_le_nat_alt unat_div)
  then have "unat (high - mid) = unat ?d - unat ?d div 2" unfolding upper by (simp add: unat_sub unat_div)
  then show "((parent, mid, high), parent, low, high) \<in> measure (\<lambda>(parent, low, high). unat (high - low))"
    using d by simp
  have "mid - low = ?d div 2" by (simp add: mid)
  then show "((parent, low, mid), parent, low, high) \<in> measure (\<lambda>(parent, low, high). unat (high - low))"
    using d by (simp add: unat_div)
qed simp

declare bisect.simps [simp del]

text \<open>Then one byte after the other; \<open>None\<close> is a reader that has no end.\<close>

partial_function (option) refine_size :: "reader \<Rightarrow> u64 \<Rightarrow> u64 io option" where
  "refine_size parent sz =
     (case read_at parent sz 1 of
        Ok got \<Rightarrow> if got \<noteq> [] then refine_size parent (sz + 1) else Some (Ok sz)
      | Err e \<Rightarrow> Some (Err e)
      | Panic \<Rightarrow> Some Panic)"

definition find_koly :: "reader \<Rightarrow> u64 io option" where
  "find_koly parent =
     (case bisect parent 0 (push_bit 40 1) of
        Ok low \<Rightarrow>
          map_option (\<lambda>result. and_then result (\<lambda>sz. if sz < 512 then Err InvalidData else Ok (sz - 512)))
            (refine_size parent low)
      | Err e \<Rightarrow> Some (Err e)
      | Panic \<Rightarrow> Some Panic)"

section \<open>Opening\<close>

text \<open>The size of the disk is the largest end of a chunk.\<close>

definition chunk_end :: "dmg_chunk \<Rightarrow> u64 \<Rightarrow> u64 io" where
  "chunk_end c sz =
     and_then (ok_or (case checked_add (sector_start c) (sector_count c) of
                        Some sectors \<Rightarrow> checked_mul sectors 512
                      | None \<Rightarrow> None) InvalidData) (\<lambda>stop. Ok (max sz stop))"

definition dmg_open_at :: "reader \<Rightarrow> u64 \<Rightarrow> dmg io" where
  "dmg_open_at parent koly_offset =
     and_then (read_exactly parent koly_offset 512) (\<lambda>trailer.
     if take 4 trailer \<noteq> KOLY_MAGIC then Err InvalidData
     else
       let data_fork_offset = be64_at trailer 0x18;
           xml_offset = be64_at trailer 0xd8;
           xml_length = be64_at trailer 0xe0
       in if xml_length = 0 \<or> xml_length > 100 * 1024 * 1024 then Err InvalidData
          else
            and_then (read_exactly parent xml_offset (unat xml_length)) (\<lambda>xml_data.
            and_then (parse_plist_blkx (utf8_lossy xml_data) data_fork_offset) (\<lambda>chunks.
            and_then (for_each chunk_end chunks 0) (\<lambda>vsize.
            Ok \<lparr>dmg_chunks = chunks, dmg_virtual_size = vsize\<rparr>))))"

definition dmg_open :: "reader \<Rightarrow> dmg io option" where
  "dmg_open parent =
     (case read_at parent 0 1 of
        Ok probe \<Rightarrow>
          if probe = [] then Some (Err UnexpectedEof)
          else map_option (\<lambda>koly. and_then koly (dmg_open_at parent)) (find_koly parent)
      | Err e \<Rightarrow> Some (Err e)
      | Panic \<Rightarrow> Some Panic)"

section \<open>Reading\<close>

text \<open>
  \<^verbatim>\<open>partition_point\<close> is a binary search. Where the predicate does not partition the list its
  result is unspecified; this is the search of the standard library.
\<close>

function pp_search :: "('a \<Rightarrow> bool) \<Rightarrow> 'a list \<Rightarrow> nat \<Rightarrow> nat \<Rightarrow> nat" where
  "pp_search P xs left right =
     (if left < right
      then let mid = left + (right - left) div 2 in
        if P (xs ! mid) then pp_search P xs (mid + 1) right else pp_search P xs left mid
      else left)"
  by pat_completeness auto
termination by (relation "measure (\<lambda>(P, xs, left, right). right - left)") auto

declare pp_search.simps [simp del]

definition partition_point :: "('a \<Rightarrow> bool) \<Rightarrow> 'a list \<Rightarrow> nat" where
  "partition_point P xs = pp_search P xs 0 (length xs)"

definition find_chunk :: "dmg_chunk list \<Rightarrow> u64 \<Rightarrow> dmg_chunk option" where
  "find_chunk chunks sector =
     (let idx = partition_point (\<lambda>c. sector_start c + sector_count c \<le> sector) chunks in
      if idx < length chunks then
        let chunk = chunks ! idx in
        if sector \<ge> sector_start chunk \<and> sector < sector_start chunk + sector_count chunk then Some chunk else None
      else None)"

text \<open>
  The three decoders. \<^verbatim>\<open>lzfse::decode_buffer\<close> writes into a buffer of a given size: it is the
  bytes it wrote, if it succeeds.
\<close>

record dmg_decoders =
  dmg_zlib :: pull_decoder
  dmg_bzip2 :: pull_decoder
  dmg_lzfse :: "bytes \<Rightarrow> nat \<Rightarrow> bytes option"

definition decompress_chunk :: "dmg_decoders \<Rightarrow> reader \<Rightarrow> dmg_chunk \<Rightarrow> bytes io" where
  "decompress_chunk dec parent c =
     (let kind = chunk_type c in
      and_then (ok_or (case checked_mul (sector_count c) 512 of
                         Some sz \<Rightarrow> if sz \<le> DMG_MAX_CHUNK_SIZE then Some (unat sz) else None
                       | None \<Rightarrow> None) InvalidData) (\<lambda>uncompressed_size.
      and_then
        (if kind = UDZO \<or> kind = UDBZ \<or> kind = ULFO
         then ok_or (if unat (compressed_length c) \<le> unat DMG_MAX_CHUNK_SIZE + 1024 * 1024
                     then Some (unat (compressed_length c)) else None) InvalidData
         else Ok 0) (\<lambda>source_size.
      and_then
        (if source_size \<noteq> 0
         then
           and_then (ok_or (checked_add (compressed_offset c) (word_of_nat source_size)) InvalidData) (\<lambda>source_end.
           if (case rsize parent of Some sz \<Rightarrow> source_end > sz | None \<Rightarrow> False) then Err UnexpectedEof else Ok ())
         else Ok ()) (\<lambda>_.
      if kind = UDZO then
        and_then (read_exactly parent (compressed_offset c) source_size) (\<lambda>compressed.
        read_exact_from (dmg_zlib dec compressed) uncompressed_size)
      else if kind = UDBZ then
        and_then (read_exactly parent (compressed_offset c) source_size) (\<lambda>compressed.
        read_exact_from (dmg_bzip2 dec compressed) uncompressed_size)
      else if kind = ULFO then
        and_then (read_exactly parent (compressed_offset c) source_size) (\<lambda>compressed.
        and_then (ok_or (dmg_lzfse dec compressed uncompressed_size) InvalidData) (\<lambda>decoded.
        if length decoded < uncompressed_size then Err InvalidData
        else Ok (take uncompressed_size decoded)))
      else Err InvalidData))))"

definition dmg_reader :: "dmg_decoders \<Rightarrow> reader \<Rightarrow> dmg \<Rightarrow> reader" where
  "dmg_reader dec parent d =
     \<lparr>read_at = (\<lambda>off n.
        if off \<ge> dmg_virtual_size d then Ok []
        else
          let sector = off div 512; in_sector = off mod 512 in
          case find_chunk (dmg_chunks d) sector of
            None \<Rightarrow> Ok (replicate (min (min n (unat (dmg_virtual_size d - off))) (512 - unat in_sector)) 0)
          | Some chunk \<Rightarrow>
              let chunk_sector_offset = sector - sector_start chunk;
                  chunk_byte_offset = chunk_sector_offset * 512 + in_sector;
                  chunk_bytes = sector_count chunk * 512;
                  remaining_in_chunk = unat (chunk_bytes - chunk_byte_offset);
                  remaining_in_disk = unat (dmg_virtual_size d - off);
                  to_read = min (min n remaining_in_chunk) remaining_in_disk
              in if chunk_type chunk = UDZE \<or> chunk_type chunk = UDIG \<or> chunk_type chunk = COMMENT
                 then Ok (replicate to_read 0)
                 else if chunk_type chunk = UDRW
                 then
                   and_then (ok_or (checked_add (compressed_offset chunk) chunk_byte_offset) InvalidData) (\<lambda>physical.
                   read_exactly parent physical to_read)
                 else
                   and_then (decompress_chunk dec parent chunk) (\<lambda>decompressed.
                   and_then (get_range decompressed (unat chunk_byte_offset) (length decompressed)) (\<lambda>rest.
                   get_range rest 0 to_read))),
      rsize = Some (dmg_virtual_size d)\<rparr>"

definition dmg_children :: "dmg_decoders \<Rightarrow> reader \<Rightarrow> child list io option" where
  "dmg_children dec reader =
     map_option (\<lambda>result. and_then result (\<lambda>d. Ok [virtual_child (dmg_reader dec reader d)])) (dmg_open reader)"

section \<open>The end of the file is found\<close>

context positional_reader
begin

lemma read_byte: "\<exists>got. read_at r off 1 = Ok got \<and> (got \<noteq> [] \<longleftrightarrow> unat off < length data)"
proof -
  obtain got where got: "read_at r off 1 = Ok got" using read_total by blast
  have "got = [] \<Longrightarrow> length data \<le> unat off" using read_progress got by force
  moreover have "length data \<le> unat off \<Longrightarrow> got = []" using read_end got by fastforce
  ultimately show ?thesis using got by (meson not_less)
qed

lemma bisect_below: "unat low \<le> length data \<Longrightarrow> \<exists>low'. bisect r low high = Ok low' \<and> unat low' \<le> length data"
proof (induction "unat (high - low)" arbitrary: low high rule: less_induct)
  case less
  show ?case
  proof (cases "high - low > 512")
    case True
    define mid where "mid = low + (high - low) div 2"
    have d: "512 < unat (high - low)" using True by (simp add: word_less_nat_alt)
    have lower: "mid - low = (high - low) div 2" and upper: "high - mid = (high - low) - (high - low) div 2"
      by (simp_all add: mid_def)
    have "(high - low) div 2 \<le> high - low" by (simp add: word_le_nat_alt unat_div)
    then have shrink: "unat (high - mid) < unat (high - low)" "unat (mid - low) < unat (high - low)"
      unfolding lower upper using d by (simp_all add: unat_sub unat_div)
    obtain got where "read_at r mid 1 = Ok got" "got \<noteq> [] \<longleftrightarrow> unat mid < length data" using read_byte by blast
    then show ?thesis
      using less.hyps [OF shrink(1)] less.hyps [OF shrink(2) less.prems] True
      by (subst bisect.simps) (simp add: mid_def [symmetric])
  qed (use less.prems in \<open>simp add: bisect.simps\<close>)
qed

lemma refine_size_end:
  "unat s \<le> length data \<Longrightarrow> length data < 2 ^ 64 \<Longrightarrow> refine_size r s = Some (Ok (word_of_nat (length data)))"
proof (induction "length data - unat s" arbitrary: s rule: less_induct)
  case less
  obtain got where got: "read_at r s 1 = Ok got" "got \<noteq> [] \<longleftrightarrow> unat s < length data" using read_byte by blast
  show ?case
  proof (cases "unat s < length data")
    case True
    then have "unat (s + 1) = unat s + 1" using less.prems(2) by (subst unat_add_exact) simp_all
    then have "refine_size r (s + 1) = Some (Ok (word_of_nat (length data)))"
      using True less.prems(2) by (intro less.hyps) simp_all
    then show ?thesis using got True by (subst refine_size.simps) simp
  next
    case False
    then have "unat s = length data" using less.prems(1) by simp
    then have "s = word_of_nat (length data)" using less.prems(2) by (simp add: word_unat_eq_iff unat_of_nat)
    then show ?thesis using got False by (subst refine_size.simps) simp
  qed
qed

lemma find_koly_eq:
  assumes "length data < 2 ^ 64"
  shows "find_koly r = Some (if length data < 512 then Err InvalidData else Ok (word_of_nat (length data - 512)))"
proof -
  obtain low where low: "bisect r 0 (push_bit 40 1) = Ok low" "unat low \<le> length data"
    using bisect_below [of 0] by auto
  have n: "unat (word_of_nat (length data) :: u64) = length data" by (rule unat_small [OF assms])
  have "(word_of_nat (length data) :: u64) < 512 \<longleftrightarrow> length data < 512" using n by (simp add: word_less_nat_alt)
  then show ?thesis
    using low refine_size_end [OF low(2) assms] by (simp add: find_koly_def of_nat_diff)
qed

end

section \<open>No unwinding while opening\<close>

lemma bisect_not_Panic: "safe_reader r \<Longrightarrow> bisect r low high \<noteq> Panic"
proof (induction r low high rule: bisect.induct)
  case (1 r low high)
  then show ?case by (subst bisect.simps) (auto simp: Let_def and_then_Panic_iff safe_reader.read_not_Panic split: if_splits)
qed

lemma refine_size_not_Panic:
  assumes "refine_size r s = Some x" shows "safe_reader r \<longrightarrow> x \<noteq> Panic"
proof (rule refine_size.raw_induct [OF _ assms])
  fix again and r :: reader and s x
  assume hyp: "\<And>r s x. again r s = Some x \<Longrightarrow> safe_reader r \<longrightarrow> x \<noteq> Panic"
    and step: "(case read_at r s 1 of
        Ok got \<Rightarrow> if got \<noteq> [] then again r (s + 1) else Some (Ok s)
      | Err e \<Rightarrow> Some (Err e)
      | Panic \<Rightarrow> Some Panic) = Some x"
  from step show "safe_reader r \<longrightarrow> x \<noteq> Panic"
    using hyp safe_reader.read_not_Panic [of r s 1] by (auto split: io.splits if_splits)
qed

lemma chunk_end_not_Panic [panic_free]: "for_each chunk_end cs sz \<noteq> Panic"
  by (induction cs arbitrary: sz) (auto simp: chunk_end_def and_then_Panic_iff)

lemma dmg_open_at_not_Panic: "safe_reader r \<Longrightarrow> dmg_open_at r k \<noteq> Panic"
  by (simp add: dmg_open_at_def parse_plist_blkx_def Let_def panic_free)

lemma dmg_open_not_Panic: "safe_reader r \<Longrightarrow> dmg_open r \<noteq> Some Panic"
  using dmg_open_at_not_Panic [of r] bisect_not_Panic [of r 0 "push_bit 40 1"] safe_reader.read_not_Panic [of r 0 1]
  by (auto simp: dmg_open_def find_koly_def and_then_Panic_iff dest: refine_size_not_Panic split: io.splits if_splits)

section \<open>Base64 written and read\<close>

definition b64 :: "nat \<Rightarrow> nat" where
  "b64 i = unat (BASE64_TABLE ! i)"

text \<open>The encoder of RFC 4648, with padding.\<close>

fun base64_encode :: "bytes \<Rightarrow> nat list" where
  "base64_encode (a # b # c # rest) =
     b64 (unat a div 4) # b64 (unat a mod 4 * 16 + unat b div 16) # b64 (unat b mod 16 * 4 + unat c div 64)
     # b64 (unat c mod 64) # base64_encode rest"
| "base64_encode [a, b] =
     [b64 (unat a div 4), b64 (unat a mod 4 * 16 + unat b div 16), b64 (unat b mod 16 * 4), of_char (CHR ''='')]"
| "base64_encode [a] =
     [b64 (unat a div 4), b64 (unat a mod 4 * 16), of_char (CHR ''=''), of_char (CHR ''='')]"
| "base64_encode [] = []"

lemma length_table: "length BASE64_TABLE = 64"
  by (simp add: BASE64_TABLE_def ascii_def)

lemma distinct_table: "distinct BASE64_TABLE"
  by (simp add: BASE64_TABLE_def ascii_def)

lemma position_nth: "distinct bs \<Longrightarrow> i < length bs \<Longrightarrow> position k (unat (bs ! i)) bs = Some (k + i)"
proof (induction bs arbitrary: i k)
  case (Cons b bs)
  show ?case
  proof (cases i)
    case (Suc j)
    then have "b \<noteq> bs ! j" using Cons.prems by (auto dest: nth_mem)
    then have "unat b \<noteq> unat (bs ! j)" by (simp add: word_unat_eq_iff)
    then show ?thesis using Suc Cons.IH [of j "Suc k"] Cons.prems by simp
  qed simp
qed simp

lemma table_graph: "b \<in> set BASE64_TABLE \<Longrightarrow> unat b \<noteq> 61 \<and> unat b \<noteq> 60 \<and> unat b < 128"
  by (auto simp: BASE64_TABLE_def ascii_def)

lemma b64_char: "i < 64 \<Longrightarrow> b64 i \<noteq> 61 \<and> b64 i \<noteq> 60 \<and> b64 i < 128"
  unfolding b64_def by (rule table_graph) (simp add: length_table)

lemma position_b64: "i < 64 \<Longrightarrow> position 0 (b64 i) BASE64_TABLE = Some i"
  using position_nth [OF distinct_table, of i 0] by (simp add: b64_def length_table)

lemma shift_in:
  assumes "unat a < 2 ^ 20" and "i < 64"
  shows "(push_bit 6 a OR word_of_nat i :: u32) = word_of_nat (unat a * 64 + i)"
proof -
  have low: "unat (word_of_nat i :: u32) = i" using assms(2) by (simp add: unat_of_nat)
  have "\<not> bit (push_bit 6 a) n \<or> \<not> bit (word_of_nat i :: u32) n" for n
  proof (cases "n < 6")
    case False
    have "(word_of_nat i :: u32) = take_bit 6 (word_of_nat i)"
      using assms(2) low by (simp add: word_unat_eq_iff unsigned_take_bit_eq take_bit_nat_eq_self)
    then have "\<not> bit (word_of_nat i :: u32) n" using False by (metis bit_take_bit_iff)
    then show ?thesis by simp
  qed (simp add: bit_push_bit_iff)
  then have "push_bit 6 a AND (word_of_nat i :: u32) = 0"
    by (intro bit_eqI) (auto simp: bit_and_iff)
  then have "(push_bit 6 a OR word_of_nat i :: u32) = push_bit 6 a + word_of_nat i"
    by (rule disjunctive_add_eq_or [symmetric])
  also have "\<dots> = word_of_nat (unat a * 64 + i)" by (simp add: push_bit_eq_mult)
  finally show ?thesis .
qed

lemma base64_step:
  assumes "i < 64" and "a < 2 ^ bits" and "bits < 8"
  shows "base64_loop (word_of_nat a) bits out (b64 i # cs) =
    (if bits + 6 < 8 then base64_loop (word_of_nat (a * 64 + i)) (bits + 6) out cs
     else base64_loop (word_of_nat ((a * 64 + i) mod 2 ^ (bits - 2))) (bits - 2)
            (out @ [word_of_nat ((a * 64 + i) div 2 ^ (bits - 2))]) cs)"
proof -
  have "(2::nat) ^ bits \<le> 2 ^ 7" using assms(3) by (intro power_increasing) simp_all
  then have a: "a < 128" using assms(2) by simp
  then have ua: "unat (word_of_nat a :: u32) = a" by (simp add: unat_of_nat)
  define v where "v = a * 64 + i"
  have v: "push_bit 6 (word_of_nat a) OR word_of_nat i = (word_of_nat v :: u32)"
    using shift_in [of "word_of_nat a" i] assms(1) ua a by (simp add: v_def)
  have "v < 2 ^ 32" using a assms(1) by (simp add: v_def)
  then have uv: "unat (word_of_nat v :: u32) = v" by (simp add: unat_of_nat)
  have split: "word_of_nat v AND (push_bit b 1 - 1) = (word_of_nat (v mod 2 ^ b) :: u32)"
    "ucast (drop_bit b (word_of_nat v :: u32)) = (word_of_nat (v div 2 ^ b) :: u8)" if "b < 8" for b
  proof -
    have "word_of_nat v AND (push_bit b 1 - 1) = take_bit b (word_of_nat v :: u32)"
      by (simp add: push_bit_of_1 flip: mask_eq_exp_minus_1 take_bit_eq_mask)
    also have "\<dots> = word_of_nat (v mod 2 ^ b)"
    proof (rule word_unat_eq_iff [THEN iffD2])
      have "v mod 2 ^ b < 2 ^ 32" using \<open>v < 2 ^ 32\<close> by (rule le_less_trans [OF mod_less_eq_dividend])
      then have "unat (word_of_nat (v mod 2 ^ b) :: u32) = v mod 2 ^ b" by (subst unat_of_nat) simp
      then show "unat (take_bit b (word_of_nat v :: u32)) = unat (word_of_nat (v mod 2 ^ b) :: u32)"
        unfolding unsigned_take_bit_eq uv by (simp only: take_bit_eq_mod)
    qed
    finally show "word_of_nat v AND (push_bit b 1 - 1) = (word_of_nat (v mod 2 ^ b) :: u32)" .
    show "ucast (drop_bit b (word_of_nat v :: u32)) = (word_of_nat (v div 2 ^ b) :: u8)"
    proof (rule word_unat_eq_iff [THEN iffD2])
      have "unat (ucast (drop_bit b (word_of_nat v :: u32)) :: u8) = v div 2 ^ b mod 256"
        unfolding unsigned_ucast_eq unsigned_drop_bit_eq uv
        using \<open>v < 2 ^ 32\<close> by (simp add: take_bit_eq_mod drop_bit_eq_div)
      then show "unat (ucast (drop_bit b (word_of_nat v :: u32)) :: u8) = unat (word_of_nat (v div 2 ^ b) :: u8)"
        by (subst unat_of_nat) simp
    qed
  qed
  have "b64 i \<noteq> of_char (CHR ''='')" using b64_char [OF assms(1)] by simp
  then show ?thesis
    using assms(3) split [of "bits - 2"] by (simp add: position_b64 [OF assms(1)] Let_def v flip: v_def)
qed

declare base64_loop.simps(2) [simp del]

text \<open>A character that starts a group, and one that completes a byte.\<close>

lemma base64_start:
  "i < 64 \<Longrightarrow> base64_loop (word_of_nat 0) 0 out (b64 i # s) = base64_loop (word_of_nat i) 6 out s"
  using base64_step [of i 0 0 out s] by simp

lemma base64_byte:
  assumes "i < 64" and "a < 2 ^ (b + 2)" and "b < 6" and "(a * 64 + i) div 2 ^ b = q" and "(a * 64 + i) mod 2 ^ b = r"
    and "bits = b + 2"
  shows "base64_loop (word_of_nat a) bits out (b64 i # s) = base64_loop (word_of_nat r) b (out @ [word_of_nat q]) s"
proof -
  have "bits - 2 = b" "\<not> bits + 6 < 8" "bits < 8" "a < 2 ^ bits" using assms(2,3,6) by simp_all
  with base64_step [OF assms(1), of a bits out s] show ?thesis by (simp only: assms(4,5) if_False)
qed

text \<open>Four characters from a byte boundary on are three bytes.\<close>

lemma base64_four:
  assumes "d0 < 64" and "d1 < 64" and "d2 < 64" and "d3 < 64"
  shows "base64_loop (word_of_nat 0) 0 out (b64 d0 # b64 d1 # b64 d2 # b64 d3 # cs) =
    base64_loop (word_of_nat 0) 0 (out @ [word_of_nat ((d0 * 64 + d1) div 16), word_of_nat ((d1 mod 16 * 64 + d2) div 4),
      word_of_nat (d2 mod 4 * 64 + d3)]) cs"
proof -
  have "base64_loop (word_of_nat d0) 6 out' (b64 d1 # s) =
      base64_loop (word_of_nat (d1 mod 16)) 4 (out' @ [word_of_nat ((d0 * 64 + d1) div 16)]) s" for out' s
  proof (rule base64_byte [OF assms(2)])
    show "(d0 * 64 + d1) mod 2 ^ 4 = d1 mod 16" using mod_mult_self1 [of d1 "d0 * 4" 16] by (simp only: ac_simps) simp
  qed (use assms(1) in simp_all)
  moreover have "base64_loop (word_of_nat (d1 mod 16)) 4 out' (b64 d2 # s) =
      base64_loop (word_of_nat (d2 mod 4)) 2 (out' @ [word_of_nat ((d1 mod 16 * 64 + d2) div 4)]) s" for out' s
  proof (rule base64_byte [OF assms(3)])
    show "(d1 mod 16 * 64 + d2) mod 2 ^ 2 = d2 mod 4"
      using mod_mult_self1 [of d2 "d1 mod 16 * 16" 4] by (simp only: ac_simps) simp
  qed simp_all
  moreover have "base64_loop (word_of_nat (d2 mod 4)) 2 out' (b64 d3 # s) =
      base64_loop (word_of_nat 0) 0 (out' @ [word_of_nat (d2 mod 4 * 64 + d3)]) s" for out' s
    by (rule base64_byte [OF assms(4)]) simp_all
  ultimately show ?thesis by (simp only: base64_start [OF assms(1)] append_assoc append.simps)
qed

text \<open>How the bits of a byte are split between two digits, and joined again.\<close>

lemma join_6_2:
  assumes "t < 16"
  shows "(x div 4 * 64 + (x mod 4 * 16 + t)) div 16 = x" and "(x div 4 * 64 + (x mod 4 * 16 + t)) mod 16 = t"
    and "(x mod 4 * 16 + t) mod 16 = (t :: nat)"
proof -
  have "x div 4 * 64 + (x mod 4 * 16 + t) = x * 16 + t" using div_mult_mod_eq [of x 4] by linarith
  note eq = this
  show "(x div 4 * 64 + (x mod 4 * 16 + t)) div 16 = x" "(x div 4 * 64 + (x mod 4 * 16 + t)) mod 16 = t"
    unfolding eq using assms by simp_all
  show "(x mod 4 * 16 + t) mod 16 = t" using assms by simp
qed

lemma join_4_4:
  assumes "t < 4"
  shows "(x div 16 * 64 + (x mod 16 * 4 + t)) div 4 = x" and "(x mod 16 * 4 + t) mod 4 = (t :: nat)"
proof -
  have "x div 16 * 64 + (x mod 16 * 4 + t) = x * 4 + t" using div_mult_mod_eq [of x 16] by linarith
  note eq = this
  show "(x div 16 * 64 + (x mod 16 * 4 + t)) div 4 = x" unfolding eq using assms by simp
  show "(x mod 16 * 4 + t) mod 4 = t" using assms by simp
qed

lemma digit_bounds:
  fixes x :: u8
  shows "unat x div 4 < 64" "unat x div 16 < 16" "unat x div 64 < 4"
  using unat_u8_less [of x] by simp_all

lemma digit_sum: "y < 16 \<Longrightarrow> x mod 4 * 16 + y < (64 :: nat)" "z < 4 \<Longrightarrow> x mod 16 * 4 + z < (64 :: nat)"
  using mod_less_divisor [of 4 x] mod_less_divisor [of 16 x] by linarith+

lemma word_back: "word_of_nat (unat a) = a" for a :: u8
  by simp

lemma base64_encode_loop: "base64_loop (word_of_nat 0) 0 out (base64_encode bs) = Ok (out @ bs)"
proof (induction bs arbitrary: out rule: base64_encode.induct)
  case (1 a b c rest)
  let ?y = "unat b div 16" and ?z = "unat c div 64"
  have "?y < 16" "?z < 4" by (rule digit_bounds)+
  note y = this
  have "base64_loop (word_of_nat 0) 0 out (base64_encode (a # b # c # rest)) = base64_loop (word_of_nat 0) 0 (out @ [a, b, c]) (base64_encode rest)"
    unfolding base64_encode.simps base64_four [OF digit_bounds(1) digit_sum(1) [OF y(1)] digit_sum(2) [OF y(2)] mod_less_divisor [OF zero_less_numeral]]
      join_6_2 [OF y(1)] join_4_4 [OF y(2)] div_mult_mod_eq word_back by (rule refl)
  then show ?case using "1.IH" [of "out @ [a, b, c]"] by simp
next
  case (2 a b)
  let ?y = "unat b div 16"
  have y: "?y < 16" by (rule digit_bounds)
  have "unat b mod 16 * 4 < 64" "unat a div 4 < 2 ^ 6" using digit_sum(2) [of 0 "unat b"] digit_bounds(1) [of a] by simp_all
  note small = this
  have 1: "base64_loop (word_of_nat (unat a div 4)) 6 out (b64 (unat a mod 4 * 16 + ?y) # s) =
      base64_loop (word_of_nat ?y) 4 (out @ [word_of_nat (unat a)]) s" for s
    by (rule base64_byte [OF digit_sum(1) [OF y]]) (use small(2) join_6_2(1,2) [OF y, of "unat a"] in simp_all)
  have 2: "base64_loop (word_of_nat ?y) 4 out' (b64 (unat b mod 16 * 4) # s) =
      base64_loop (word_of_nat 0) 2 (out' @ [word_of_nat (unat b)]) s" for out' s
    by (rule base64_byte [OF small(1)]) (use y join_4_4 [of 0 "unat b"] in simp_all)
  show ?case
    unfolding base64_encode.simps base64_start [OF digit_bounds(1)] 1 2 by (simp add: base64_loop.simps(2))
next
  case (3 a)
  have small: "unat a mod 4 * 16 < 64" "unat a div 4 < 2 ^ 6" using digit_sum(1) [of 0 "unat a"] digit_bounds(1) [of a] by simp_all
  have 1: "base64_loop (word_of_nat (unat a div 4)) 6 out (b64 (unat a mod 4 * 16) # s) =
      base64_loop (word_of_nat 0) 4 (out @ [word_of_nat (unat a)]) s" for s
    by (rule base64_byte [OF small(1)]) (use small(2) join_6_2(1,2) [of 0 "unat a"] in simp_all)
  show ?case
    unfolding base64_encode.simps base64_start [OF digit_bounds(1)] 1 by (simp add: base64_loop.simps(2))
qed simp

lemma base64_roundtrip: "decode_base64 (base64_encode bs) = Ok bs"
  using base64_encode_loop [of "[]" bs] by (simp add: decode_base64_def)

section \<open>The binary search\<close>

text \<open>The invariant: everything left of the window satisfies the predicate, nothing right of it does.\<close>

lemma pp_search_splits:
  assumes "left \<le> right" and "right \<le> length xs"
    and "\<forall>i < left. P (xs ! i)" and "\<forall>i < length xs. right \<le> i \<longrightarrow> \<not> P (xs ! i)"
    and mono: "\<forall>j < length xs. \<forall>i < j. P (xs ! j) \<longrightarrow> P (xs ! i)"
  shows "pp_search P xs left right \<le> length xs \<and> (\<forall>i < pp_search P xs left right. P (xs ! i)) \<and>
    (\<forall>i < length xs. pp_search P xs left right \<le> i \<longrightarrow> \<not> P (xs ! i))"
  using assms
proof (induction P xs left right rule: pp_search.induct)
  case (1 P xs left right)
  show ?case
  proof (cases "left < right")
    case True
    let ?mid = "left + (right - left) div 2"
    have mid: "left \<le> ?mid" "?mid < right" "?mid < length xs" using True "1.prems"(2) by auto
    show ?thesis
    proof (cases "P (xs ! ?mid)")
      case yes: True
      have "\<forall>i < ?mid + 1. P (xs ! i)"
      proof (intro allI impI)
        fix i assume "i < ?mid + 1"
        then have "i = ?mid \<or> i < ?mid" by auto
        then show "P (xs ! i)" using yes mid(3) "1.prems"(5) by auto
      qed
      then have "pp_search P xs (?mid + 1) right \<le> length xs \<and> (\<forall>i < pp_search P xs (?mid + 1) right. P (xs ! i)) \<and>
          (\<forall>i < length xs. pp_search P xs (?mid + 1) right \<le> i \<longrightarrow> \<not> P (xs ! i))"
        using "1.prems" mid by (intro "1.IH"(1) [OF True refl yes]) auto
      then show ?thesis using True yes by (subst (1 2 3) pp_search.simps) (simp add: Let_def)
    next
      case no: False
      have "\<forall>i < length xs. ?mid \<le> i \<longrightarrow> \<not> P (xs ! i)"
      proof (intro allI impI)
        fix i assume "i < length xs" "?mid \<le> i"
        then have "i = ?mid \<or> ?mid < i" by auto
        then show "\<not> P (xs ! i)" using no \<open>i < length xs\<close> "1.prems"(5) by auto
      qed
      then have "pp_search P xs left ?mid \<le> length xs \<and> (\<forall>i < pp_search P xs left ?mid. P (xs ! i)) \<and>
          (\<forall>i < length xs. pp_search P xs left ?mid \<le> i \<longrightarrow> \<not> P (xs ! i))"
        using "1.prems" mid by (intro "1.IH"(2) [OF True refl no]) auto
      then show ?thesis using True no by (subst (1 2 3) pp_search.simps) (simp add: Let_def)
    qed
  next
    case False
    then show ?thesis using "1.prems" by (subst (1 2 3) pp_search.simps) auto
  qed
qed

text \<open>Where the chunks follow each other without overlap, the search is the linear one.\<close>

definition chunk_has :: "u64 \<Rightarrow> dmg_chunk \<Rightarrow> bool" where
  "chunk_has s c \<longleftrightarrow> unat (sector_start c) \<le> unat s \<and> unat s < unat (sector_start c) + unat (sector_count c)"

definition disjoint_chunks :: "dmg_chunk list \<Rightarrow> bool" where
  "disjoint_chunks cs \<longleftrightarrow>
     sorted_wrt (\<lambda>a b. unat (sector_start a) + unat (sector_count a) \<le> unat (sector_start b)) cs \<and>
     list_all (\<lambda>c. unat (sector_start c) + unat (sector_count c) < 2 ^ 64) cs"

lemma find_chunk_at:
  assumes "disjoint_chunks cs" and "i < length cs" and "chunk_has s (cs ! i)"
  shows "find_chunk cs s = Some (cs ! i)"
proof -
  let ?P = "\<lambda>c. sector_start c + sector_count c \<le> s"
  have stop: "unat (sector_start c + sector_count c) = unat (sector_start c) + unat (sector_count c)" if "c \<in> set cs" for c
    using that assms(1) by (intro unat_add_exact) (auto simp: disjoint_chunks_def list_all_iff)
  have P: "?P (cs ! j) \<longleftrightarrow> unat (sector_start (cs ! j)) + unat (sector_count (cs ! j)) \<le> unat s" if "j < length cs" for j
    using stop [of "cs ! j"] that by (simp add: word_le_nat_alt)
  have order: "unat (sector_start (cs ! k)) + unat (sector_count (cs ! k)) \<le> unat (sector_start (cs ! j))"
    if "k < j" "j < length cs" for k j
    using that assms(1) by (auto simp: disjoint_chunks_def sorted_wrt_iff_nth_less)
  have mono: "\<forall>j < length cs. \<forall>k < j. ?P (cs ! j) \<longrightarrow> ?P (cs ! k)"
    using P order by (meson le_add1 le_trans less_trans)
  have split: "partition_point ?P cs \<le> length cs \<and> (\<forall>j < partition_point ?P cs. ?P (cs ! j)) \<and>
      (\<forall>j < length cs. partition_point ?P cs \<le> j \<longrightarrow> \<not> ?P (cs ! j))"
    unfolding partition_point_def using mono by (intro pp_search_splits) auto
  have "\<not> ?P (cs ! i)" using P [OF assms(2)] assms(3) by (auto simp: chunk_has_def)
  then have "partition_point ?P cs \<le> i" using split by (meson not_less)
  moreover have "\<not> partition_point ?P cs < i"
  proof
    assume less: "partition_point ?P cs < i"
    then have "partition_point ?P cs < length cs" using assms(2) by simp
    moreover from this have "\<not> ?P (cs ! partition_point ?P cs)" using split by blast
    ultimately show False
      using P [of "partition_point ?P cs"] order [OF less assms(2)] assms(3) by (auto simp: chunk_has_def)
  qed
  ultimately have "partition_point ?P cs = i" by simp
  moreover have "sector_start (cs ! i) \<le> s" "s < sector_start (cs ! i) + sector_count (cs ! i)"
    using assms(2,3) stop [of "cs ! i"] by (auto simp: chunk_has_def word_le_nat_alt word_less_nat_alt)
  ultimately show ?thesis using assms(2) by (simp add: find_chunk_def Let_def)
qed

lemma find_chunk_none:
  assumes "disjoint_chunks cs" and "\<not> list_ex (chunk_has s) cs"
  shows "find_chunk cs s = None"
proof -
  let ?i = "partition_point (\<lambda>c. sector_start c + sector_count c \<le> s) cs"
  have "\<not> (sector_start (cs ! ?i) \<le> s \<and> s < sector_start (cs ! ?i) + sector_count (cs ! ?i))" if "?i < length cs"
  proof -
    have "unat (sector_start (cs ! ?i) + sector_count (cs ! ?i)) = unat (sector_start (cs ! ?i)) + unat (sector_count (cs ! ?i))"
      using that assms(1) by (intro unat_add_exact) (auto simp: disjoint_chunks_def list_all_length)
    moreover have "\<not> chunk_has s (cs ! ?i)" using that assms(2) by (auto simp: list_ex_iff)
    ultimately show ?thesis by (auto simp: chunk_has_def word_le_nat_alt word_less_nat_alt)
  qed
  then show ?thesis by (auto simp: find_chunk_def Let_def)
qed

text \<open>
  C30. The chunk that holds a sector is found by a binary search over the ends of the chunks.
  On a sorted table without overlaps it gives exactly what a search from the first chunk on
  gives, for sectors in a chunk, between chunks and behind the last one.
\<close>

theorem find_chunk_linear:
  assumes "disjoint_chunks cs"
  shows "find_chunk cs s =
    List.find (\<lambda>c. unat (sector_start c) \<le> unat s \<and> unat s < unat (sector_start c) + unat (sector_count c)) cs"
proof (cases "List.find (chunk_has s) cs")
  case None
  then have "\<not> list_ex (chunk_has s) cs" by (simp add: find_None_iff list_ex_iff)
  from find_chunk_none [OF assms this] None show ?thesis by (simp add: chunk_has_def [abs_def])
next
  case (Some c)
  then obtain i where "i < length cs" "chunk_has s (cs ! i)" "c = cs ! i" by (auto simp: find_Some_iff)
  with find_chunk_at [OF assms this(1,2)] Some show ?thesis by (simp add: chunk_has_def [abs_def])
qed

theorem find_chunk_linear_witness:
  "find_chunk [\<lparr>chunk_type = UDRW, sector_start = 0, sector_count = 4, compressed_offset = 0, compressed_length = 2048\<rparr>,
      \<lparr>chunk_type = UDZE, sector_start = 8, sector_count = 2, compressed_offset = 0, compressed_length = 0\<rparr>] 9 =
    Some \<lparr>chunk_type = UDZE, sector_start = 8, sector_count = 2, compressed_offset = 0, compressed_length = 0\<rparr>"
  by (subst find_chunk_linear) (simp_all add: disjoint_chunks_def)

section \<open>What the disk reads as\<close>

text \<open>A chunk that gives the bytes \<open>p\<close>, and a table that gives a list of pieces one after the other.\<close>

definition chunk_gives :: "dmg_decoders \<Rightarrow> reader \<Rightarrow> dmg_chunk \<Rightarrow> bytes \<Rightarrow> bool" where
  "chunk_gives dec r c p \<longleftrightarrow> length p = 512 * unat (sector_count c) \<and> sector_count c \<noteq> 0 \<and>
     (if chunk_type c = UDZE then \<forall>b\<in>set p. b = 0
      else if chunk_type c = UDRW then
        \<forall>a k. a + k \<le> length p \<longrightarrow>
          (\<exists>at. checked_add (compressed_offset c) (word_of_nat a) = Some at \<and> read_exactly r at k = Ok (take k (drop a p)))
      else chunk_type c \<noteq> UDIG \<and> chunk_type c \<noteq> COMMENT \<and> decompress_chunk dec r c = Ok p)"

fun table_gives :: "dmg_decoders \<Rightarrow> reader \<Rightarrow> nat \<Rightarrow> dmg_chunk list \<Rightarrow> bytes list \<Rightarrow> bool" where
  "table_gives dec r s [] ps = (ps = [])"
| "table_gives dec r s (c # cs) ps =
     (case ps of
        [] \<Rightarrow> False
      | p # ps \<Rightarrow> unat (sector_start c) = s \<and> chunk_gives dec r c p \<and> table_gives dec r (s + unat (sector_count c)) cs ps)"

lemma kinds: "UDRW \<noteq> UDZE" "UDRW \<noteq> UDIG" "UDRW \<noteq> COMMENT" "UDRW \<noteq> LAST_ENTRY" "UDZE \<noteq> UDIG" "UDZE \<noteq> COMMENT"
    "UDZE \<noteq> LAST_ENTRY" "UDZO \<noteq> UDZE" "UDZO \<noteq> UDRW" "UDZO \<noteq> UDIG" "UDZO \<noteq> COMMENT" "UDZO \<noteq> LAST_ENTRY"
  by (simp_all add: UDRW_def UDZE_def UDIG_def COMMENT_def LAST_ENTRY_def UDZO_def)

lemma table_gives_bounds:
  "table_gives dec r s cs ps \<Longrightarrow> c \<in> set cs \<Longrightarrow>
    s \<le> unat (sector_start c) \<and> 512 * (unat (sector_start c) + unat (sector_count c)) \<le> 512 * s + length (concat ps)"
proof (induction cs arbitrary: s ps)
  case (Cons d cs)
  then obtain p qs where ps: "ps = p # qs" "unat (sector_start d) = s" "chunk_gives dec r d p"
    "table_gives dec r (s + unat (sector_count d)) cs qs"
    by (cases ps) auto
  then have "length p = 512 * unat (sector_count d)" by (simp add: chunk_gives_def)
  then show ?case
    using Cons.prems(2) Cons.IH [OF ps(4)] ps(1,2) by auto
qed simp

lemma table_gives_disjoint:
  assumes "table_gives dec r s cs ps" and "512 * s + length (concat ps) < 2 ^ 64"
  shows "disjoint_chunks cs"
  using assms
proof (induction cs arbitrary: s ps)
  case Nil
  then show ?case by (simp add: disjoint_chunks_def)
next
  case (Cons d cs)
  then obtain p qs where ps: "ps = p # qs" "unat (sector_start d) = s" "chunk_gives dec r d p"
    "table_gives dec r (s + unat (sector_count d)) cs qs"
    by (cases ps) auto
  then have p: "length p = 512 * unat (sector_count d)" by (simp add: chunk_gives_def)
  have "disjoint_chunks cs" using Cons.IH [OF ps(4)] Cons.prems(2) ps(1) p by simp
  then show ?case
    using table_gives_bounds [OF ps(4)] ps(1,2) p Cons.prems(2) by (auto simp: disjoint_chunks_def)
qed

lemma table_gives_at:
  assumes "table_gives dec r s cs ps" and "s \<le> t" and "512 * t < 512 * s + length (concat ps)"
  shows "\<exists>i < length cs. i < length ps \<and> unat (sector_start (cs ! i)) \<le> t \<and>
    t < unat (sector_start (cs ! i)) + unat (sector_count (cs ! i)) \<and> chunk_gives dec r (cs ! i) (ps ! i) \<and>
    512 * unat (sector_start (cs ! i)) = 512 * s + length (concat (take i ps))"
  using assms
proof (induction cs arbitrary: s ps)
  case (Cons d cs)
  then obtain p qs where ps: "ps = p # qs" "unat (sector_start d) = s" "chunk_gives dec r d p"
    "table_gives dec r (s + unat (sector_count d)) cs qs"
    by (cases ps) auto
  then have p: "length p = 512 * unat (sector_count d)" by (simp add: chunk_gives_def)
  show ?case
  proof (cases "t < s + unat (sector_count d)")
    case True
    then show ?thesis using ps Cons.prems(2) by (intro exI [of _ 0]) simp
  next
    case False
    then obtain i where "i < length cs" "i < length qs" "unat (sector_start (cs ! i)) \<le> t"
      "t < unat (sector_start (cs ! i)) + unat (sector_count (cs ! i))" "chunk_gives dec r (cs ! i) (qs ! i)"
      "512 * unat (sector_start (cs ! i)) = 512 * (s + unat (sector_count d)) + length (concat (take i qs))"
      using Cons.IH [OF ps(4)] Cons.prems(3) ps(1) p by auto
    then show ?thesis using ps(1) p by (intro exI [of _ "Suc i"]) simp
  qed
qed simp

lemma take_piece:
  assumes "i < length ps" and "a + k \<le> length (ps ! i)"
  shows "take k (drop (length (concat (take i ps)) + a) (concat ps)) = take k (drop a (ps ! i))"
proof -
  have "concat ps = concat (take i ps) @ ps ! i @ concat (drop (Suc i) ps)"
    by (subst id_take_nth_drop [OF assms(1)]) simp
  then show ?thesis using assms(2) by simp
qed

lemma dmg_read:
  assumes "table_gives dec r 0 (dmg_chunks d) ps" and "unat (dmg_virtual_size d) = length (concat ps)"
    and "off < dmg_virtual_size d"
  shows "\<exists>k. read_at (dmg_reader dec r d) off n = Ok (take k (drop (unat off) (concat ps))) \<and> k \<le> n \<and> (n \<noteq> 0 \<longrightarrow> k \<noteq> 0) \<and>
    unat off + k \<le> length (concat ps)"
proof -
  let ?t = "unat off div 512" and ?len = "length (concat ps)"
  have len: "?len < 2 ^ 64" using assms(2) unat_u64_less [of "dmg_virtual_size d"] by simp
  have off: "unat off < ?len" using assms(2,3) by (simp add: word_less_nat_alt)
  obtain i where i: "i < length (dmg_chunks d)" "i < length ps" and
    at: "unat (sector_start (dmg_chunks d ! i)) \<le> ?t"
      "?t < unat (sector_start (dmg_chunks d ! i)) + unat (sector_count (dmg_chunks d ! i))" and
    gives: "chunk_gives dec r (dmg_chunks d ! i) (ps ! i)" and
    start: "512 * unat (sector_start (dmg_chunks d ! i)) = length (concat (take i ps))"
  proof -
    have "512 * ?t < ?len" using off times_div_less_eq_dividend [of 512 "unat off"] by linarith
    then show ?thesis using table_gives_at [OF assms(1), of ?t] that by auto
  qed
  define c where "c = dmg_chunks d ! i"
  define p where "p = ps ! i"
  define s where "s = unat (sector_start c)"
  have t: "unat (off div 512) = ?t" "unat (off mod 512) = unat off mod 512" by (simp_all add: unat_div unat_mod)
  have "disjoint_chunks (dmg_chunks d)" using table_gives_disjoint [OF assms(1)] len by simp
  then have found: "find_chunk (dmg_chunks d) (off div 512) = Some c"
    unfolding c_def by (rule find_chunk_at) (use i at t in \<open>simp_all add: chunk_has_def\<close>)
  have p: "length p = 512 * unat (sector_count c)" using gives by (simp add: chunk_gives_def c_def p_def)
  have whole: "length (concat (take i ps)) + length p \<le> ?len"
  proof -
    have "length (concat (take (Suc i) ps)) \<le> ?len" by (rule length_concat_take)
    then show ?thesis using i(2) by (simp add: take_Suc_conv_app_nth p_def)
  qed
  define a where "a = unat off - 512 * s"
  have "512 * s \<le> unat off" using at(1) by (simp add: s_def c_def)
  then have a: "unat off = 512 * s + a" by (simp add: a_def)
  have a_less: "a < length p" using at(2) p a by (simp add: s_def c_def)
  have "unat (off div 512 - sector_start c) = ?t - s"
    using at(1) t by (subst unat_sub) (simp_all add: word_le_nat_alt s_def c_def)
  then have "unat ((off div 512 - sector_start c) * 512) = (?t - s) * 512"
    using a_less p whole len a by (subst unat_mult_exact) simp_all
  moreover have "(?t - s) * 512 + unat off mod 512 = a" using a by simp
  ultimately have byte: "unat ((off div 512 - sector_start c) * 512 + off mod 512) = a"
    using t a_less whole len by (subst unat_add_exact) simp_all
  then have byte_word: "(off div 512 - sector_start c) * 512 + off mod 512 = word_of_nat a"
    using a_less whole len by (simp add: word_unat_eq_iff unat_of_nat)
  have bytes: "unat (sector_count c * 512) = length p" using p whole len by (subst unat_mult_exact) simp_all
  then have rest: "unat (sector_count c * 512 - word_of_nat a) = length p - a"
    using a_less byte byte_word by (subst unat_sub) (simp_all add: word_le_nat_alt)
  have disk: "unat (dmg_virtual_size d - off) = ?len - unat off"
    using assms(2,3) by (subst unat_sub) simp_all
  define k where "k = min (min n (length p - a)) (?len - unat off)"
  have k: "k \<le> n" "n \<noteq> 0 \<longrightarrow> k \<noteq> 0" "a + k \<le> length p" "unat off + k \<le> ?len"
    using a_less off by (auto simp: k_def)
  have inside: "\<not> dmg_virtual_size d \<le> off" using assms(3) by simp
  have ua: "unat (word_of_nat a :: u64) = a" using byte byte_word by simp
  have read: "read_at (dmg_reader dec r d) off n =
      (if chunk_type c = UDZE \<or> chunk_type c = UDIG \<or> chunk_type c = COMMENT then Ok (replicate k 0)
       else if chunk_type c = UDRW
       then and_then (ok_or (checked_add (compressed_offset c) (word_of_nat a)) InvalidData) (\<lambda>at. read_exactly r at k)
       else and_then (decompress_chunk dec r c) (\<lambda>x.
            and_then (get_range x a (length x)) (\<lambda>rest. get_range rest 0 k)))"
    by (simp add: dmg_reader_def inside found Let_def byte_word left_diff_distrib [symmetric] rest disk ua del: left_diff_distrib_numeral flip: k_def)
  have "read_at (dmg_reader dec r d) off n = Ok (take k (drop a p))"
  proof (cases "chunk_type c = UDZE")
    case True
    then have "\<forall>b\<in>set p. b = 0" using gives by (simp add: chunk_gives_def c_def p_def)
    then have "take k (drop a p) = replicate k 0"
      using k(3) by (intro replicate_eqI) (auto dest!: in_set_takeD in_set_dropD)
    then show ?thesis using read True by simp
  next
    case False
    note not_zero = this
    show ?thesis
    proof (cases "chunk_type c = UDRW")
      case True
      then have "\<exists>at. checked_add (compressed_offset c) (word_of_nat a) = Some at \<and> read_exactly r at k = Ok (take k (drop a p))"
        using gives k(3) unfolding c_def [symmetric] p_def [symmetric] chunk_gives_def by (simp add: kinds)
      then obtain at where "checked_add (compressed_offset c) (word_of_nat a) = Some at"
        "read_exactly r at k = Ok (take k (drop a p))" by blast
      then show ?thesis using read True by (simp add: kinds)
    next
      case False
      then have "decompress_chunk dec r c = Ok p" "chunk_type c \<noteq> UDIG" "chunk_type c \<noteq> COMMENT"
        using gives not_zero by (simp_all add: chunk_gives_def c_def p_def)
      then show ?thesis using read False not_zero k(3) a_less by (simp add: get_range_def)
    qed
  qed
  moreover have "take k (drop (unat off) (concat ps)) = take k (drop a p)"
    using take_piece [OF i(2), of a k] k(3) start by (simp add: p_def a s_def c_def)
  ultimately show ?thesis using k by (intro exI [of _ k]) simp
qed

lemma dmg_positional:
  assumes "table_gives dec r 0 (dmg_chunks d) ps" and "unat (dmg_virtual_size d) = length (concat ps)"
  shows "positional_reader (dmg_reader dec r d) (concat ps)"
proof -
  have past: "read_at (dmg_reader dec r d) off n = Ok [] \<and> length (concat ps) \<le> unat off" if "\<not> off < dmg_virtual_size d" for off n
    using that assms(2) by (simp add: dmg_reader_def not_less word_le_nat_alt)
  have read: "\<exists>k. read_at (dmg_reader dec r d) off n = Ok (take k (drop (unat off) (concat ps))) \<and> k \<le> n \<and>
      (n = 0 \<or> k \<noteq> 0 \<and> unat off < length (concat ps) \<or> length (concat ps) \<le> unat off) \<and> unat off + k \<le> max (unat off) (length (concat ps))" for off n
  proof (cases "off < dmg_virtual_size d")
    case True
    then have "unat off < length (concat ps)" using assms(2) by (simp add: word_less_nat_alt)
    with dmg_read [OF assms True, of n] show ?thesis by force
  next
    case False
    with past [OF this, of n] show ?thesis by (intro exI [of _ 0]) simp
  qed
  show ?thesis
  proof unfold_locales
    fix off n
    obtain k where k: "read_at (dmg_reader dec r d) off n = Ok (take k (drop (unat off) (concat ps)))" "k \<le> n"
      "n = 0 \<or> k \<noteq> 0 \<and> unat off < length (concat ps) \<or> length (concat ps) \<le> unat off"
      using read [of off n] by blast
    show "read_at (dmg_reader dec r d) off n \<noteq> Panic" "\<exists>bs. read_at (dmg_reader dec r d) off n = Ok bs" using k(1) by simp_all
    show "length bs \<le> n" if "read_at (dmg_reader dec r d) off n = Ok bs" for bs
      using that k by auto
    show "bs = take (length bs) (drop (unat off) (concat ps))" if "read_at (dmg_reader dec r d) off n = Ok bs" for bs
      using that k by (auto simp: min_def)
    show "n = 0 \<or> length (concat ps) \<le> unat off" if "read_at (dmg_reader dec r d) off n = Ok []"
      using that k by auto
  qed
qed

section \<open>A disk image written\<close>

lemma be32_at_here:
  assumes "xs = pre @ to_be (w :: u32) @ post" and "length pre = k"
  shows "be32_at xs k = w"
proof -
  obtain a b c d where w: "to_be w = [a, b, c, d]" using word32_be_list by blast
  have "from_be [a, b, c, d] = w" using from_to_be [of w] by (simp flip: w)
  with assms w show ?thesis by (simp add: be32_at_def nth_append)
qed

lemma be64_at_here:
  assumes "xs = pre @ to_be (w :: u64) @ post" and "length pre = k"
  shows "be64_at xs k = w"
proof -
  have "map (\<lambda>i. xs ! (k + i)) [0..<8] = to_be w"
    using assms by (intro nth_equalityI) (simp_all add: nth_append)
  then show ?thesis by (simp add: be64_at_def from_to_be)
qed

subsection \<open>The chunk table\<close>

definition mish_entry_bytes :: "dmg_chunk \<Rightarrow> bytes" where
  "mish_entry_bytes c =
     to_be (chunk_type c) @ replicate 4 0 @ to_be (sector_start c) @ to_be (sector_count c)
     @ to_be (compressed_offset c) @ to_be (compressed_length c)"

definition mish_write :: "dmg_chunk list \<Rightarrow> bytes" where
  "mish_write cs =
     to_be MISH_MAGIC @ replicate 200 0 @ concat (map mish_entry_bytes cs) @ to_be LAST_ENTRY @ replicate 36 0"

definition chunk_ok :: "dmg_chunk \<Rightarrow> bool" where
  "chunk_ok c \<longleftrightarrow> chunk_type c \<noteq> COMMENT \<and> chunk_type c \<noteq> UDIG \<and> chunk_type c \<noteq> LAST_ENTRY \<and>
     sector_count c \<noteq> 0 \<and> unat (sector_start c) + unat (sector_count c) < 2 ^ 64"

lemma length_mish_entry [simp]: "length (mish_entry_bytes c) = 40"
  by (simp add: mish_entry_bytes_def)

lemma length_mish_entries [simp]: "length (concat (map mish_entry_bytes cs)) = 40 * length cs"
  by (induction cs) simp_all

lemma mish_entry_read:
  assumes "data = pre @ mish_entry_bytes c @ post" and "length pre = 204 + 40 * i" and "chunk_ok c"
  shows "mish_entry data 0 0 i acc = Ok (Continue (acc @ [c]))"
proof -
  let ?k = "to_be (chunk_type c) @ replicate 4 0"
  have parts: "data = pre @ to_be (chunk_type c) @ replicate 4 0 @ to_be (sector_start c) @ to_be (sector_count c)
      @ to_be (compressed_offset c) @ to_be (compressed_length c) @ post"
    using assms(1) by (simp add: mish_entry_bytes_def)
  have "be32_at data (204 + 40 * i) = chunk_type c"
    by (rule be32_at_here [OF parts assms(2)])
  moreover have "be64_at data (204 + 40 * i + 8) = sector_start c"
    by (rule be64_at_here [of _ "pre @ ?k"]) (use parts assms(2) in simp_all)
  moreover have "be64_at data (204 + 40 * i + 16) = sector_count c"
    by (rule be64_at_here [of _ "pre @ ?k @ to_be (sector_start c)"]) (use parts assms(2) in simp_all)
  moreover have "be64_at data (204 + 40 * i + 24) = compressed_offset c"
    by (rule be64_at_here [of _ "pre @ ?k @ to_be (sector_start c) @ to_be (sector_count c)"]) (use parts assms(2) in simp_all)
  moreover have "be64_at data (204 + 40 * i + 32) = compressed_length c"
    by (rule be64_at_here [of _ "pre @ ?k @ to_be (sector_start c) @ to_be (sector_count c) @ to_be (compressed_offset c)"])
      (use parts assms(2) in simp_all)
  moreover have "0 < sector_count c" "checked_add 0 (sector_start c) = Some (sector_start c)"
    "checked_add (sector_start c) (sector_count c) = Some (sector_start c + sector_count c)"
    "checked_add 0 (compressed_offset c) = Some (compressed_offset c)"
    using assms(3) unat_u64_less [of "compressed_offset c"] unat_u64_less [of "sector_start c"]
    by (simp_all add: chunk_ok_def checked_add_def word_neq_0_conv)
  ultimately show ?thesis
    using assms(3) by (simp add: mish_entry_def Let_def chunk_ok_def)
qed

lemma mish_entries_read:
  assumes "data = pre @ concat (map mish_entry_bytes cs) @ to_be LAST_ENTRY @ replicate 36 0" and "length pre = 204 + 40 * k"
    and "\<forall>c\<in>set cs. chunk_ok c"
  shows "for_break (mish_entry data 0 0) [k..<k + length cs + 1] acc = Ok (acc @ cs)"
  using assms
proof (induction cs arbitrary: pre k acc)
  case Nil
  then have "be32_at data (204 + 40 * k) = LAST_ENTRY" by (intro be32_at_here) simp_all
  then have "mish_entry data 0 0 k acc = Ok (Break acc)"
    by (simp add: mish_entry_def Let_def LAST_ENTRY_def COMMENT_def UDIG_def)
  then show ?case by simp
next
  case (Cons c cs)
  have "mish_entry data 0 0 k acc = Ok (Continue (acc @ [c]))"
    using Cons.prems by (intro mish_entry_read) simp_all
  moreover have "for_break (mish_entry data 0 0) [Suc k..<Suc k + length cs + 1] (acc @ [c]) = Ok ((acc @ [c]) @ cs)"
    using Cons.prems by (intro Cons.IH [of "pre @ mish_entry_bytes c"]) simp_all
  moreover have "[k..<k + length (c # cs) + 1] = k # [Suc k..<Suc k + length cs + 1]"
    by (subst upt_conv_Cons) simp_all
  ultimately show ?case by (simp del: upt_Suc)
qed

lemma nat_le_0: "nat_le k 0 = replicate k 0"
  by (induction k) simp_all

lemma mish_roundtrip:
  assumes "\<forall>c\<in>set cs. chunk_ok c"
  shows "parse_mish_block (mish_write cs) 0 = Ok cs"
proof -
  have len: "length (mish_write cs) = 204 + 40 * (length cs + 1)" by (simp add: mish_write_def)
  have magic: "be32_at (mish_write cs) 0 = MISH_MAGIC" by (rule be32_at_here [of _ "[]"]) (simp_all add: mish_write_def)
  have base: "be64_at (mish_write cs) 8 = 0"
  proof (rule be64_at_here)
    show "mish_write cs = (to_be MISH_MAGIC @ replicate 4 0) @ to_be (0 :: u64)
        @ (replicate 188 0 @ concat (map mish_entry_bytes cs) @ to_be LAST_ENTRY @ replicate 36 0)"
      by (simp add: mish_write_def to_be_def to_le_def nat_le_0 flip: replicate_add)
  qed simp
  have "for_break (mish_entry (mish_write cs) 0 0) [0..<0 + length cs + 1] [] = Ok ([] @ cs)"
    by (rule mish_entries_read [of _ "to_be MISH_MAGIC @ replicate 200 0"]) (use assms in \<open>simp_all add: mish_write_def\<close>)
  moreover have "(length (mish_write cs) - 204) div 40 = 0 + length cs + 1" using len by simp
  ultimately show ?thesis using len by (simp add: parse_mish_block_def magic base del: upt.simps(2))
qed

subsection \<open>The property list\<close>

definition blkx_block :: "bytes \<Rightarrow> nat list" where
  "blkx_block b = DATA_TAG @ base64_encode b @ DATA_END"

lemma str_find_here:
  assumes "pat = c # ps" and "c \<notin> set pre"
  shows "str_find pat (pre @ pat @ post) = Some (pre, pat @ post)"
  using assms(2)
proof (induction pre)
  case Nil
  then show ?case by (simp add: assms(1))
next
  case (Cons x pre)
  then show ?case by (simp add: assms(1))
qed

lemma patterns:
  "BLKX_KEY = [60, 107, 101, 121, 62, 98, 108, 107, 120, 60, 47, 107, 101, 121, 62]"
  "DATA_TAG = [60, 100, 97, 116, 97, 62]" "DATA_END = [60, 47, 100, 97, 116, 97, 62]"
  by (simp_all add: BLKX_KEY_def DATA_TAG_def DATA_END_def code_points_def)

lemma base64_chars: "c \<in> set (base64_encode bs) \<Longrightarrow> c \<noteq> 60 \<and> c < 128"
proof (induction bs rule: base64_encode.induct)
  case (1 a b c' rest)
  have "unat b div 16 < 16" "unat c' div 64 < 4" by (rule digit_bounds)+
  then show ?case
    using "1.IH" "1.prems" b64_char [OF digit_bounds(1) [of a]] b64_char [OF digit_sum(1) [of "unat b div 16" "unat a"]]
      b64_char [OF digit_sum(2) [of "unat c' div 64" "unat b"]] b64_char [of "unat c' mod 64"]
    by auto
next
  case (2 a b)
  have "unat b div 16 < 16" by (rule digit_bounds)
  then show ?case
    using "2.prems" b64_char [OF digit_bounds(1) [of a]] b64_char [OF digit_sum(1) [of "unat b div 16" "unat a"]]
      b64_char [OF digit_sum(2) [of 0 "unat b"]]
    by auto
next
  case (3 a)
  then show ?case
    using b64_char [OF digit_bounds(1) [of a]] b64_char [OF digit_sum(1) [of 0 "unat a"]] by auto
qed simp

text \<open>One key with a block, and what is behind it.\<close>

lemma blkx_loop_block:
  "blkx_loop off (BLKX_KEY @ blkx_block b @ rest) acc = blkx_loop off (DATA_END @ rest) (acc @ blkx_chunks off (base64_encode b))"
proof -
  have key: "str_find BLKX_KEY (BLKX_KEY @ blkx_block b @ rest) = Some ([], BLKX_KEY @ blkx_block b @ rest)"
    using str_find_here [of BLKX_KEY 60 _ "[]"] by (simp add: patterns)
  have after: "drop 15 (BLKX_KEY @ blkx_block b @ rest) = DATA_TAG @ base64_encode b @ DATA_END @ rest"
    by (simp add: patterns blkx_block_def)
  have tag: "str_find DATA_TAG (DATA_TAG @ base64_encode b @ DATA_END @ rest) = Some ([], DATA_TAG @ base64_encode b @ DATA_END @ rest)"
    using str_find_here [of DATA_TAG 60 _ "[]"] by (simp add: patterns)
  have body: "drop 6 (DATA_TAG @ base64_encode b @ DATA_END @ rest) = base64_encode b @ DATA_END @ rest"
    by (simp add: patterns)
  have "60 \<notin> set (base64_encode b)" using base64_chars by blast
  then have stop: "str_find DATA_END (base64_encode b @ DATA_END @ rest) = Some (base64_encode b, DATA_END @ rest)"
    by (intro str_find_here) (simp add: patterns)
  show ?thesis
    by (subst blkx_loop.simps) (simp only: key option.case prod.case Let_def after tag body stop)
qed

lemma blkx_loop_end: "str_find BLKX_KEY s = None \<Longrightarrow> blkx_loop off s acc = acc"
  by (subst blkx_loop.simps) simp

lemma blkx_chunks_mish: "\<forall>c\<in>set cs. chunk_ok c \<Longrightarrow> blkx_chunks 0 (base64_encode (mish_write cs)) = cs"
  by (simp add: blkx_chunks_def base64_roundtrip mish_roundtrip)

lemma plist_read:
  assumes "\<forall>c\<in>set cs. chunk_ok c" and "cs \<noteq> []" and "sorted (map sector_start cs)"
  shows "parse_plist_blkx (BLKX_KEY @ blkx_block (mish_write cs)) 0 = Ok cs"
proof -
  have "blkx_loop 0 (BLKX_KEY @ blkx_block (mish_write cs) @ []) [] = cs"
    unfolding blkx_loop_block blkx_chunks_mish [OF assms(1)]
    by (subst blkx_loop_end) (simp_all add: patterns)
  then show ?thesis using assms(2,3) by (simp add: parse_plist_blkx_def Let_def sort_key_id_if_sorted)
qed

subsection \<open>The file\<close>

text \<open>A piece of the disk: how it is stored, the bytes that are stored, and the bytes it reads as.\<close>

record dmg_piece =
  piece_kind :: u32
  piece_stored :: bytes
  piece_plain :: bytes

abbreviation piece_sectors :: "dmg_piece \<Rightarrow> nat" where
  "piece_sectors x \<equiv> length (piece_plain x) div 512"

definition piece_ok :: "dmg_decoders \<Rightarrow> dmg_piece \<Rightarrow> bool" where
  "piece_ok dec x \<longleftrightarrow> length (piece_plain x) = 512 * piece_sectors x \<and> piece_plain x \<noteq> [] \<and>
     (if piece_kind x = UDZE then piece_stored x = [] \<and> (\<forall>b\<in>set (piece_plain x). b = 0)
      else if piece_kind x = UDRW then piece_stored x = piece_plain x
      else piece_kind x = UDZO \<and> dmg_zlib dec (piece_stored x) = (piece_plain x, None) \<and>
        length (piece_plain x) \<le> 67108864 \<and> length (piece_stored x) \<le> 68157440)"

fun dmg_layout :: "nat \<Rightarrow> nat \<Rightarrow> dmg_piece list \<Rightarrow> dmg_chunk list" where
  "dmg_layout s off [] = []"
| "dmg_layout s off (x # xs) =
     \<lparr>chunk_type = piece_kind x, sector_start = word_of_nat s, sector_count = word_of_nat (piece_sectors x),
      compressed_offset = word_of_nat off, compressed_length = word_of_nat (length (piece_stored x))\<rparr>
     # dmg_layout (s + piece_sectors x) (off + length (piece_stored x)) xs"

definition dmg_plist :: "dmg_piece list \<Rightarrow> nat list" where
  "dmg_plist xs = BLKX_KEY @ blkx_block (mish_write (dmg_layout 0 0 xs))"

definition koly_write :: "nat \<Rightarrow> nat \<Rightarrow> bytes" where
  "koly_write xml_offset xml_length =
     KOLY_MAGIC @ replicate 20 0 @ to_be (0 :: u64) @ replicate 184 0 @ to_be (word_of_nat xml_offset :: u64)
     @ to_be (word_of_nat xml_length :: u64) @ replicate 280 0"

definition dmg_write :: "dmg_piece list \<Rightarrow> bytes" where
  "dmg_write xs =
     (let data = concat (map piece_stored xs); xml = map word_of_nat (dmg_plist xs) in
      data @ xml @ koly_write (length data) (length xml))"

definition dmg_fits :: "dmg_decoders \<Rightarrow> dmg_piece list \<Rightarrow> bool" where
  "dmg_fits dec xs \<longleftrightarrow> xs \<noteq> [] \<and> list_all (piece_ok dec) xs \<and> length (dmg_plist xs) \<le> 104857600 \<and>
     length (concat (map piece_plain xs)) < 2 ^ 62 \<and> length (concat (map piece_stored xs)) < 2 ^ 62"

lemma length_koly [simp]: "length (koly_write a b) = 512"
  by (simp add: koly_write_def KOLY_MAGIC_def ascii_def)

text \<open>Every chunk of the layout is readable.\<close>

lemma piece_gives:
  assumes "piece_ok dec x" and "data = pre @ piece_stored x @ post" and "length data < 2 ^ 63"
    and "length (piece_plain x) < 2 ^ 62"
  shows "chunk_gives dec (bytes_reader data)
    \<lparr>chunk_type = piece_kind x, sector_start = s, sector_count = word_of_nat (piece_sectors x),
      compressed_offset = word_of_nat (length pre), compressed_length = word_of_nat (length (piece_stored x))\<rparr>
    (piece_plain x)"
proof -
  let ?c = "\<lparr>chunk_type = piece_kind x, sector_start = s, sector_count = word_of_nat (piece_sectors x),
      compressed_offset = word_of_nat (length pre), compressed_length = word_of_nat (length (piece_stored x))\<rparr> :: dmg_chunk"
  let ?n = "piece_sectors x" and ?r = "bytes_reader data"
  have plain: "length (piece_plain x) = 512 * ?n" "piece_plain x \<noteq> []" using assms(1) by (simp_all add: piece_ok_def)
  have n: "unat (word_of_nat ?n :: u64) = ?n" using assms(4) by (intro unat_small) simp
  have "0 < ?n" using plain by (cases "?n = 0") auto
  then have nz: "(word_of_nat ?n :: u64) \<noteq> 0" using n by (auto simp flip: unat_eq_0)
  have at: "unat (word_of_nat (length pre) :: u64) = length pre" using assms(2,3) by (intro unat_small) simp
  have stored: "unat (word_of_nat (length (piece_stored x)) :: u64) = length (piece_stored x)"
    using assms(2,3) by (intro unat_small) simp
  have part: "read_exactly ?r (word_of_nat (length pre + a)) k = Ok (take k (drop a (piece_stored x)))"
    if "a + k \<le> length (piece_stored x)" for a k
  proof -
    have "unat (word_of_nat (length pre + a) :: u64) = length pre + a"
      using that assms(2,3) by (intro unat_small) simp
    then show ?thesis using that assms(2) by (simp add: bytes.read_exactly_eq del: of_nat_add)
  qed
  have whole: "read_exactly ?r (word_of_nat (length pre)) (length (piece_stored x)) = Ok (piece_stored x)"
    using part [of 0 "length (piece_stored x)"] by simp
  consider (zero) "piece_kind x = UDZE" | (raw) "piece_kind x = UDRW" | (zlib) "piece_kind x = UDZO"
    using assms(1) by (auto simp: piece_ok_def split: if_splits)
  then show ?thesis
  proof cases
    case zero
    then show ?thesis using assms(1) plain n nz by (simp add: chunk_gives_def piece_ok_def)
  next
    case raw
    have "checked_add (word_of_nat (length pre)) (word_of_nat a :: u64) = Some (word_of_nat (length pre + a))"
      if "a \<le> length (piece_stored x)" for a
    proof -
      have "unat (word_of_nat a :: u64) = a" using that assms(2,3) by (intro unat_small) simp
      then show ?thesis using that assms(2,3) at by (simp add: checked_add_def)
    qed
    then show ?thesis
      using assms(1) plain n nz part raw by (simp add: chunk_gives_def piece_ok_def kinds)
  next
    case zlib
    then have ok: "dmg_zlib dec (piece_stored x) = (piece_plain x, None)" "512 * ?n \<le> 67108864"
      "length (piece_stored x) \<le> 68157440"
      using assms(1) plain by (simp_all add: piece_ok_def kinds)
    have size: "checked_mul (word_of_nat ?n) (512 :: u64) = Some (word_of_nat ?n * 512)"
      "unat (word_of_nat ?n * 512 :: u64) = 512 * ?n"
      using n ok(2) by (simp_all add: checked_mul_def unat_mult_exact)
    have end_word: "checked_add (word_of_nat (length pre)) (word_of_nat (length (piece_stored x)) :: u64) =
        Some (word_of_nat (length pre + length (piece_stored x)))"
      using at stored assms(2,3) by (simp add: checked_add_def)
    have "\<not> word_of_nat b < (word_of_nat a :: u64)" if "a \<le> b" "b < 2 ^ 63" for a b
      using that by (simp add: word_less_nat_alt unat_of_nat)
    from this [of "length pre + length (piece_stored x)" "length data"]
    have "\<not> word_of_nat (length pre + length (piece_stored x)) > (word_of_nat (length data) :: u64)"
      using assms(2,3) by simp
    then have inside: "(case rsize ?r of Some sz \<Rightarrow> word_of_nat (length pre + length (piece_stored x)) > sz | None \<Rightarrow> False) = False"
      by (simp add: bytes_reader_def del: of_nat_add)
    have "decompress_chunk dec ?r ?c = Ok (piece_plain x)"
      using size ok stored whole plain(1) zlib
      by (simp add: decompress_chunk_def Let_def DMG_MAX_CHUNK_SIZE_def word_le_nat_alt end_word inside del: of_nat_add)
    then show ?thesis using plain n nz zlib by (simp add: chunk_gives_def kinds)
  qed
qed

lemma piece_length: "piece_ok dec x \<Longrightarrow> length (piece_plain x) = 512 * piece_sectors x \<and> 0 < piece_sectors x"
  by (cases "piece_sectors x = 0") (auto simp: piece_ok_def)

lemma layout_gives:
  assumes "list_all (piece_ok dec) xs" and "data = pre @ concat (map piece_stored xs) @ post" and "length data < 2 ^ 63"
    and "512 * s + length (concat (map piece_plain xs)) < 2 ^ 62"
  shows "table_gives dec (bytes_reader data) s (dmg_layout s (length pre) xs) (map piece_plain xs)"
  using assms
proof (induction xs arbitrary: s pre)
  case (Cons x xs)
  have x: "length (piece_plain x) = 512 * piece_sectors x" "0 < piece_sectors x" using Cons.prems(1) piece_length [of dec x] by auto
  have n: "unat (word_of_nat (piece_sectors x) :: u64) = piece_sectors x" "unat (word_of_nat s :: u64) = s"
    using Cons.prems(4) x(1) by (auto intro!: unat_small)
  have "chunk_gives dec (bytes_reader data)
    \<lparr>chunk_type = piece_kind x, sector_start = word_of_nat s, sector_count = word_of_nat (piece_sectors x),
      compressed_offset = word_of_nat (length pre), compressed_length = word_of_nat (length (piece_stored x))\<rparr>
    (piece_plain x)"
    using Cons.prems by (intro piece_gives) simp_all
  moreover have "table_gives dec (bytes_reader data) (s + piece_sectors x)
      (dmg_layout (s + piece_sectors x) (length (pre @ piece_stored x)) xs) (map piece_plain xs)"
    using Cons.prems x(1) by (intro Cons.IH) simp_all
  ultimately show ?case using n by simp
qed simp

lemma layout_chunk_ok:
  assumes "list_all (piece_ok dec) xs" and "512 * s + length (concat (map piece_plain xs)) < 2 ^ 62"
  shows "list_all chunk_ok (dmg_layout s off xs) \<and> sorted (map sector_start (dmg_layout s off xs)) \<and>
    (\<forall>c\<in>set (dmg_layout s off xs). word_of_nat s \<le> sector_start c)"
  using assms
proof (induction xs arbitrary: s off)
  case (Cons x xs)
  let ?n = "piece_sectors x"
  have x: "length (piece_plain x) = 512 * ?n" "0 < ?n" using Cons.prems(1) piece_length [of dec x] by auto
  have bound: "s + ?n < 2 ^ 62" using Cons.prems(2) x(1) by simp
  then have n: "unat (word_of_nat ?n :: u64) = ?n" "unat (word_of_nat s :: u64) = s"
    "unat (word_of_nat (s + ?n) :: u64) = s + ?n"
    by (auto intro!: unat_small simp del: of_nat_add)
  have IH: "list_all chunk_ok (dmg_layout (s + ?n) (off + length (piece_stored x)) xs) \<and>
      sorted (map sector_start (dmg_layout (s + ?n) (off + length (piece_stored x)) xs)) \<and>
      (\<forall>c\<in>set (dmg_layout (s + ?n) (off + length (piece_stored x)) xs). word_of_nat (s + ?n) \<le> sector_start c)"
    using Cons.prems x(1) by (intro Cons.IH) simp_all
  have "(word_of_nat s :: u64) \<le> word_of_nat (s + ?n)" using n by (simp add: word_le_nat_alt del: of_nat_add)
  then have later: "\<forall>c\<in>set (dmg_layout (s + ?n) (off + length (piece_stored x)) xs). word_of_nat s \<le> sector_start c"
    using IH by (meson order_trans)
  have "(word_of_nat ?n :: u64) \<noteq> 0" using n(1) x(2) by (auto simp flip: unat_eq_0)
  then have "chunk_ok \<lparr>chunk_type = piece_kind x, sector_start = word_of_nat s, sector_count = word_of_nat ?n,
      compressed_offset = word_of_nat off, compressed_length = word_of_nat (length (piece_stored x))\<rparr>"
    using Cons.prems(1) n bound by (auto simp: chunk_ok_def piece_ok_def kinds split: if_splits)
  then show ?case using IH later by simp
qed simp

lemma layout_end:
  assumes "list_all (piece_ok dec) xs" and "512 * s + length (concat (map piece_plain xs)) < 2 ^ 62"
  shows "for_each chunk_end (dmg_layout s off xs) (word_of_nat (512 * s)) =
    Ok (word_of_nat (512 * s + length (concat (map piece_plain xs))))"
  using assms
proof (induction xs arbitrary: s off)
  case (Cons x xs)
  let ?n = "piece_sectors x"
  let ?c = "\<lparr>chunk_type = piece_kind x, sector_start = word_of_nat s, sector_count = word_of_nat ?n,
      compressed_offset = word_of_nat off, compressed_length = word_of_nat (length (piece_stored x))\<rparr> :: dmg_chunk"
  have x: "length (piece_plain x) = 512 * ?n" using Cons.prems(1) piece_length [of dec x] by auto
  have bound: "512 * (s + ?n) < 2 ^ 62" using Cons.prems(2) x by simp
  then have n: "unat (word_of_nat ?n :: u64) = ?n" "unat (word_of_nat s :: u64) = s"
    "unat (word_of_nat (s + ?n) :: u64) = s + ?n" "unat (word_of_nat (512 * s) :: u64) = 512 * s"
    "unat (word_of_nat (512 * (s + ?n)) :: u64) = 512 * (s + ?n)"
    by (auto intro!: unat_small simp del: of_nat_add of_nat_mult)
  have "checked_add (word_of_nat s) (word_of_nat ?n :: u64) = Some (word_of_nat (s + ?n))"
    using n(1,2) bound by (simp add: checked_add_def)
  moreover have "checked_mul (word_of_nat (s + ?n)) (512 :: u64) = Some (word_of_nat (512 * (s + ?n)))"
    using n(3) bound by (simp add: checked_mul_def del: of_nat_add) (simp add: algebra_simps)
  moreover have "max (word_of_nat (512 * s)) (word_of_nat (512 * (s + ?n)) :: u64) = word_of_nat (512 * (s + ?n))"
    using n(4,5) by (simp only: max_def word_le_nat_alt) simp
  ultimately have "chunk_end ?c (word_of_nat (512 * s)) = Ok (word_of_nat (512 * (s + ?n)))"
    by (simp add: chunk_end_def del: of_nat_add of_nat_mult)
  moreover have "for_each chunk_end (dmg_layout (s + ?n) (off + length (piece_stored x)) xs) (word_of_nat (512 * (s + ?n))) =
      Ok (word_of_nat (512 * (s + ?n) + length (concat (map piece_plain xs))))"
    using Cons.prems x by (intro Cons.IH) simp_all
  ultimately show ?case using x by (simp add: add.assoc del: of_nat_add of_nat_mult)
qed simp

lemma plist_ascii: "c \<in> set (dmg_plist xs) \<Longrightarrow> c < 128"
  using base64_chars by (auto simp: dmg_plist_def blkx_block_def patterns)

lemma plist_bytes: "utf8_lossy (map word_of_nat (dmg_plist xs)) = dmg_plist xs"
proof -
  have byte: "unat (word_of_nat c :: u8) = c \<and> (word_of_nat c :: u8) < 0x80" if "c \<in> set (dmg_plist xs)" for c
    using plist_ascii [OF that] by (simp add: word_less_nat_alt unat_of_nat)
  then have "list_all (\<lambda>b :: u8. b < 0x80) (map word_of_nat (dmg_plist xs))" by (simp add: list_all_iff)
  then have "utf8_lossy (map word_of_nat (dmg_plist xs)) = map unat (map word_of_nat (dmg_plist xs) :: bytes)"
    by (rule utf8_lossy_ascii)
  also have "\<dots> = dmg_plist xs" using byte by (simp add: map_idI)
  finally show ?thesis .
qed

lemma koly_fields:
  "take 4 (koly_write a b) = KOLY_MAGIC" "be64_at (koly_write a b) 0x18 = 0"
  "be64_at (koly_write a b) 0xd8 = word_of_nat a" "be64_at (koly_write a b) 0xe0 = word_of_nat b"
proof -
  have m: "length KOLY_MAGIC = 4" by (simp add: KOLY_MAGIC_def ascii_def)
  show "take 4 (koly_write a b) = KOLY_MAGIC" using m by (simp add: koly_write_def)
  show "be64_at (koly_write a b) 0x18 = 0"
    by (rule be64_at_here [of _ "KOLY_MAGIC @ replicate 20 0"]) (simp_all add: koly_write_def m)
  show "be64_at (koly_write a b) 0xd8 = word_of_nat a"
    by (rule be64_at_here [of _ "KOLY_MAGIC @ replicate 20 0 @ to_be (0 :: u64) @ replicate 184 0"])
      (simp_all add: koly_write_def m)
  show "be64_at (koly_write a b) 0xe0 = word_of_nat b"
    by (rule be64_at_here [of _ "KOLY_MAGIC @ replicate 20 0 @ to_be (0 :: u64) @ replicate 184 0 @ to_be (word_of_nat a :: u64)"])
      (simp_all add: koly_write_def m)
qed

lemma dmg_write_opens:
  assumes "dmg_fits dec xs"
  shows "dmg_open (bytes_reader (dmg_write xs)) =
    Some (Ok \<lparr>dmg_chunks = dmg_layout 0 0 xs, dmg_virtual_size = word_of_nat (length (concat (map piece_plain xs)))\<rparr>)"
proof -
  define data where "data = concat (map piece_stored xs)"
  define xml :: bytes where "xml = map word_of_nat (dmg_plist xs)"
  let ?koly = "koly_write (length data) (length xml)"
  let ?img = "dmg_write xs" and ?r = "bytes_reader (dmg_write xs)"
  have img: "?img = data @ xml @ ?koly" by (simp add: dmg_write_def Let_def data_def xml_def)
  have xml_len: "length xml \<le> 104857600" "0 < length xml"
    using assms by (simp_all add: dmg_fits_def xml_def dmg_plist_def patterns)
  have data_len: "length data < 2 ^ 62" using assms by (simp add: dmg_fits_def data_def)
  have len: "length ?img = length data + length xml + 512" by (simp add: img)
  have small: "length ?img < 2 ^ 63" using data_len xml_len by (simp add: len)
  have words: "unat (word_of_nat (length data + length xml) :: u64) = length data + length xml"
    "unat (word_of_nat (length data) :: u64) = length data" "unat (word_of_nat (length xml) :: u64) = length xml"
    using data_len xml_len by (auto intro!: unat_small simp del: of_nat_add)
  have trailer: "read_exactly ?r (word_of_nat (length data + length xml)) 512 = Ok ?koly"
    using words(1) by (simp add: bytes.read_exactly_eq len del: of_nat_add) (simp add: img)
  have plist: "read_exactly ?r (word_of_nat (length data)) (length xml) = Ok xml"
    using words(2) by (simp add: bytes.read_exactly_eq len) (simp add: img)
  have ok: "list_all chunk_ok (dmg_layout 0 0 xs) \<and> sorted (map sector_start (dmg_layout 0 0 xs))"
    using layout_chunk_ok [of dec xs 0 0] assms by (simp add: dmg_fits_def)
  have "dmg_layout 0 0 xs \<noteq> []" using assms by (cases xs) (simp_all add: dmg_fits_def)
  then have chunks: "parse_plist_blkx (utf8_lossy xml) 0 = Ok (dmg_layout 0 0 xs)"
    unfolding xml_def plist_bytes using ok plist_read [of "dmg_layout 0 0 xs"] by (simp add: dmg_plist_def list_all_iff)
  have vsize: "for_each chunk_end (dmg_layout 0 0 xs) 0 = Ok (word_of_nat (length (concat (map piece_plain xs))))"
    using layout_end [of dec xs 0 0] assms by (simp add: dmg_fits_def)
  have "word_of_nat (length xml) \<noteq> (0 :: u64)" using words(3) xml_len(2) by (auto simp flip: unat_eq_0)
  moreover have "\<not> word_of_nat (length xml) > (100 * 1024 * 1024 :: u64)"
    using words(3) xml_len(1) by (simp add: word_less_nat_alt)
  ultimately have at: "dmg_open_at ?r (word_of_nat (length data + length xml)) =
      Ok \<lparr>dmg_chunks = dmg_layout 0 0 xs, dmg_virtual_size = word_of_nat (length (concat (map piece_plain xs)))\<rparr>"
    using vsize by (simp add: dmg_open_at_def trailer koly_fields Let_def words(3) plist chunks del: of_nat_add)
  have "find_koly ?r = Some (Ok (word_of_nat (length data + length xml)))"
    using bytes.find_koly_eq [of ?img] small by (simp add: len del: of_nat_add)
  moreover have "read_at ?r 0 1 = Ok (take 1 ?img)" by (simp add: exact_reader.read_at_eq [OF bytes.exact_reader_axioms])
  moreover have "take 1 ?img \<noteq> []" using len by auto
  ultimately show ?thesis using at by (auto simp: dmg_open_def)
qed

section \<open>The properties\<close>

text \<open>
  C29. An Apple disk image that was written from a list of pieces (zeros, raw bytes, or bytes
  that the zlib decoder gives back) is read back as these pieces one after the other, for
  every sequence of reads: the trailer is found by reading for the end of the file, the
  property list and its base64 text are decoded to the chunk table, and every read goes
  through the binary search of the table.
\<close>

theorem dmg_roundtrip:
  assumes "dmg_fits dec xs"
  shows "\<exists>r. dmg_children dec (bytes_reader (dmg_write xs)) = Some (Ok [virtual_child r]) \<and>
    positional_reader r (concat (map piece_plain xs))"
proof -
  let ?d = "\<lparr>dmg_chunks = dmg_layout 0 0 xs, dmg_virtual_size = word_of_nat (length (concat (map piece_plain xs)))\<rparr>"
  let ?r = "bytes_reader (dmg_write xs)"
  define xml :: bytes where "xml = map word_of_nat (dmg_plist xs)"
  have img: "dmg_write xs = [] @ concat (map piece_stored xs) @ (xml @ koly_write (length (concat (map piece_stored xs))) (length xml))"
    by (simp add: dmg_write_def Let_def xml_def)
  have fits: "list_all (piece_ok dec) xs" "length (concat (map piece_plain xs)) < 2 ^ 62"
    "length (concat (map piece_stored xs)) < 2 ^ 62" "length xml \<le> 104857600"
    using assms by (simp_all add: dmg_fits_def xml_def)
  have "length (dmg_write xs) < 2 ^ 63" unfolding img using fits(3,4) by simp
  from layout_gives [OF fits(1) img this, of 0] fits(2)
  have table: "table_gives dec ?r 0 (dmg_chunks ?d) (map piece_plain xs)" by simp
  have "unat (word_of_nat (length (concat (map piece_plain xs))) :: u64) = length (concat (map piece_plain xs))"
    using fits(2) by (intro unat_small) simp
  then have "unat (dmg_virtual_size ?d) = length (concat (map piece_plain xs))" by (simp only: dmg.simps)
  from dmg_positional [OF table this] show ?thesis
    unfolding dmg_children_def dmg_write_opens [OF assms] by auto
qed

text \<open>Four sectors: one of zeros, one raw, and two that a single byte is decoded to.\<close>

definition repeat_1024 :: pull_decoder where
  "repeat_1024 compressed = (replicate 1024 (compressed ! 0), None)"

definition dmg_decoders_example :: dmg_decoders where
  "dmg_decoders_example = \<lparr>dmg_zlib = repeat_1024, dmg_bzip2 = repeat_1024, dmg_lzfse = (\<lambda>c n. None)\<rparr>"

definition dmg_example :: "dmg_piece list" where
  "dmg_example =
     [\<lparr>piece_kind = UDZE, piece_stored = [], piece_plain = replicate 512 0\<rparr>,
      \<lparr>piece_kind = UDRW, piece_stored = replicate 512 7, piece_plain = replicate 512 7\<rparr>,
      \<lparr>piece_kind = UDZO, piece_stored = [9], piece_plain = replicate 1024 9\<rparr>]"

lemma length_base64: "length (base64_encode bs) \<le> 4 * length bs + 4"
  by (induction bs rule: base64_encode.induct) simp_all

theorem dmg_roundtrip_witness:
  "\<exists>r. dmg_children dmg_decoders_example (bytes_reader (dmg_write dmg_example)) = Some (Ok [virtual_child r]) \<and>
     positional_reader r (replicate 512 0 @ replicate 512 7 @ replicate 1024 9)"
proof -
  have "length (dmg_plist dmg_example) \<le> 104857600"
    using length_base64 [of "mish_write (dmg_layout 0 0 dmg_example)"]
    by (simp add: dmg_plist_def blkx_block_def patterns mish_write_def dmg_example_def)
  then have "dmg_fits dmg_decoders_example dmg_example"
    by (simp add: dmg_fits_def dmg_example_def piece_ok_def kinds dmg_decoders_example_def repeat_1024_def)
  from dmg_roundtrip [OF this] show ?thesis by (simp add: dmg_example_def)
qed

text \<open>Text in which no opening bracket is in front of a \<^verbatim>\<open>k\<close> does not have the key.\<close>

abbreviation no_key :: "nat list \<Rightarrow> bool" where
  "no_key \<equiv> successively (\<lambda>c d. c = 60 \<longrightarrow> d \<noteq> 107)"

lemma no_key_find: "no_key s \<Longrightarrow> str_find BLKX_KEY s = None"
proof (induction s)
  case (Cons c s)
  have "no_key s" using Cons.prems by (cases s) simp_all
  moreover have "take (length BLKX_KEY) (c # s) \<noteq> BLKX_KEY" using Cons.prems by (cases s) (auto simp: patterns)
  ultimately show ?case using Cons.IH by simp
qed simp

lemma no_key_base64: "no_key (base64_encode b)"
  using base64_chars [of _ b] by (simp add: successively_conv_nth)

lemma no_key_block: "no_key rest \<Longrightarrow> rest = [] \<or> hd rest = 60 \<Longrightarrow> no_key (blkx_block b @ rest)"
  using no_key_base64 [of b] base64_chars [of _ b]
  by (cases "base64_encode b") (auto simp: blkx_block_def patterns successively_append_iff successively_Cons)

lemma no_key_blocks: "no_key (concat (map blkx_block bs)) \<and> (concat (map blkx_block bs) = [] \<or> hd (concat (map blkx_block bs)) = 60)"
proof (induction bs)
  case (Cons b bs)
  then have "no_key (blkx_block b @ concat (map blkx_block bs))" by (intro no_key_block) simp_all
  moreover have "hd (blkx_block b @ concat (map blkx_block bs)) = 60" by (simp add: blkx_block_def patterns)
  ultimately show ?case by (simp only: list.map concat.simps) blast
qed simp

lemma no_key_end: "no_key (DATA_END @ concat (map blkx_block bs))"
  using no_key_blocks [of bs] by (auto simp: patterns successively_append_iff successively_Cons)

text \<open>
  Only the first block of the list under the key \<^verbatim>\<open>blkx\<close> is read: after a block the code
  looks for the key again, which a property list has once, in front of the blocks of all
  partitions. The chunks of the other blocks are not in the table.
\<close>

theorem dmg_later_blocks_lost:
  assumes "\<forall>b\<in>set blocks. \<forall>c\<in>set b. chunk_ok c" and "blocks \<noteq> []" and "hd blocks \<noteq> []"
    and "sorted (map sector_start (hd blocks))"
  shows "parse_plist_blkx (BLKX_KEY @ concat (map (\<lambda>b. blkx_block (mish_write b)) blocks)) 0 = Ok (hd blocks)"
proof -
  obtain b bs where blocks: "blocks = b # bs" using assms(2) by (cases blocks) auto
  have b: "\<forall>c\<in>set b. chunk_ok c" "b \<noteq> []" "sorted (map sector_start b)" using assms blocks by simp_all
  let ?rest = "concat (map blkx_block (map mish_write bs))"
  have "blkx_loop 0 (BLKX_KEY @ blkx_block (mish_write b) @ ?rest) [] = b"
    unfolding blkx_loop_block blkx_chunks_mish [OF b(1)] by (subst blkx_loop_end) (simp_all only: no_key_find no_key_end append_Nil)
  then show ?thesis using b(2,3) by (simp add: blocks parse_plist_blkx_def Let_def sort_key_id_if_sorted comp_def)
qed

text \<open>Two partitions with a raw sector each: only that of the first is in the table.\<close>

definition two_blocks :: "dmg_chunk list list" where
  "two_blocks = map (\<lambda>n. [\<lparr>chunk_type = UDRW, sector_start = n, sector_count = 1, compressed_offset = 512 * n, compressed_length = 512\<rparr>]) [0, 1]"

theorem dmg_later_blocks_lost_witness:
  "parse_plist_blkx (BLKX_KEY @ concat (map (\<lambda>b. blkx_block (mish_write b)) two_blocks)) 0 = Ok (hd two_blocks) \<and>
   length two_blocks = 2"
  using dmg_later_blocks_lost [of two_blocks] by (simp add: two_blocks_def chunk_ok_def kinds)

end
