(* ===== verification/Dms_Base.thy ===== *)
theory Dms_Base
  imports Tables
begin

text \<open>
  The parts of \<^verbatim>\<open>container/disk/dms.rs\<close> that all compression modes share: the results of
  code that may not return, the checksums, the bit reader, the state of the decompressor,
  the run-length decoder, and the window that matches are copied from.
\<close>

section \<open>Code that may not return\<close>

text \<open>\<open>None\<close> is a loop that never ends; \<open>run_then\<close> is \<^verbatim>\<open>?\<close> for such code.\<close>

type_synonym 'a run = "'a io option"

definition run_then :: "'a run \<Rightarrow> ('a \<Rightarrow> 'b run) \<Rightarrow> 'b run" where
  "run_then m f = Option.bind m (\<lambda>result. case result of Ok x \<Rightarrow> f x | Err e \<Rightarrow> Some (Err e) | Panic \<Rightarrow> Some Panic)"

lemma run_then_simps [simp]:
  "run_then None f = None" "run_then (Some (Ok x)) f = f x"
  "run_then (Some (Err e)) f = Some (Err e)" "run_then (Some Panic) f = Some Panic"
  by (simp_all add: run_then_def)

lemma run_then_mono [partial_function_mono]:
  assumes "mono_option B" and "\<And>y. mono_option (\<lambda>f. C y f)"
  shows "mono_option (\<lambda>f. run_then (B f) (\<lambda>y. C y f))"
  unfolding run_then_def
proof (rule bind_mono [OF assms(1)])
  show "mono_option (\<lambda>f. case result of Ok x \<Rightarrow> C x f | Err e \<Rightarrow> Some (Err e) | Panic \<Rightarrow> Some Panic)" for result
    using assms(2) by (cases result) (simp_all add: option.const_mono)
qed

lemma run_then_Ok_iff [ok_iff]: "run_then m f = Some (Ok y) \<longleftrightarrow> (\<exists>x. m = Some (Ok x) \<and> f x = Some (Ok y))"
  by (cases m rule: option.exhaust; cases "the m") auto

lemma run_then_Panic_iff [panic_free]:
  "run_then m f = Some Panic \<longleftrightarrow> m = Some Panic \<or> (\<exists>x. m = Some (Ok x) \<and> f x = Some Panic)"
  by (cases m rule: option.exhaust; cases "the m") auto

lemma run_then_assoc: "run_then (run_then m f) g = run_then m (\<lambda>x. run_then (f x) g)"
  by (cases m rule: option.exhaust; cases "the m") auto

section \<open>Tables and checksums\<close>

definition CRC_TABLE :: "u16 list" where
  "CRC_TABLE =
    [0x0000, 0xC0C1, 0xC181, 0x0140, 0xC301, 0x03C0, 0x0280, 0xC241, 0xC601, 0x06C0, 0x0780, 0xC741,
     0x0500, 0xC5C1, 0xC481, 0x0440, 0xCC01, 0x0CC0, 0x0D80, 0xCD41, 0x0F00, 0xCFC1, 0xCE81, 0x0E40,
     0x0A00, 0xCAC1, 0xCB81, 0x0B40, 0xC901, 0x09C0, 0x0880, 0xC841, 0xD801, 0x18C0, 0x1980, 0xD941,
     0x1B00, 0xDBC1, 0xDA81, 0x1A40, 0x1E00, 0xDEC1, 0xDF81, 0x1F40, 0xDD01, 0x1DC0, 0x1C80, 0xDC41,
     0x1400, 0xD4C1, 0xD581, 0x1540, 0xD701, 0x17C0, 0x1680, 0xD641, 0xD201, 0x12C0, 0x1380, 0xD341,
     0x1100, 0xD1C1, 0xD081, 0x1040, 0xF001, 0x30C0, 0x3180, 0xF141, 0x3300, 0xF3C1, 0xF281, 0x3240,
     0x3600, 0xF6C1, 0xF781, 0x3740, 0xF501, 0x35C0, 0x3480, 0xF441, 0x3C00, 0xFCC1, 0xFD81, 0x3D40,
     0xFF01, 0x3FC0, 0x3E80, 0xFE41, 0xFA01, 0x3AC0, 0x3B80, 0xFB41, 0x3900, 0xF9C1, 0xF881, 0x3840,
     0x2800, 0xE8C1, 0xE981, 0x2940, 0xEB01, 0x2BC0, 0x2A80, 0xEA41, 0xEE01, 0x2EC0, 0x2F80, 0xEF41,
     0x2D00, 0xEDC1, 0xEC81, 0x2C40, 0xE401, 0x24C0, 0x2580, 0xE541, 0x2700, 0xE7C1, 0xE681, 0x2640,
     0x2200, 0xE2C1, 0xE381, 0x2340, 0xE101, 0x21C0, 0x2080, 0xE041, 0xA001, 0x60C0, 0x6180, 0xA141,
     0x6300, 0xA3C1, 0xA281, 0x6240, 0x6600, 0xA6C1, 0xA781, 0x6740, 0xA501, 0x65C0, 0x6480, 0xA441,
     0x6C00, 0xACC1, 0xAD81, 0x6D40, 0xAF01, 0x6FC0, 0x6E80, 0xAE41, 0xAA01, 0x6AC0, 0x6B80, 0xAB41,
     0x6900, 0xA9C1, 0xA881, 0x6840, 0x7800, 0xB8C1, 0xB981, 0x7940, 0xBB01, 0x7BC0, 0x7A80, 0xBA41,
     0xBE01, 0x7EC0, 0x7F80, 0xBF41, 0x7D00, 0xBDC1, 0xBC81, 0x7C40, 0xB401, 0x74C0, 0x7580, 0xB541,
     0x7700, 0xB7C1, 0xB681, 0x7640, 0x7200, 0xB2C1, 0xB381, 0x7340, 0xB101, 0x71C0, 0x7080, 0xB041,
     0x5000, 0x90C1, 0x9181, 0x5140, 0x9301, 0x53C0, 0x5280, 0x9241, 0x9601, 0x56C0, 0x5780, 0x9741,
     0x5500, 0x95C1, 0x9481, 0x5440, 0x9C01, 0x5CC0, 0x5D80, 0x9D41, 0x5F00, 0x9FC1, 0x9E81, 0x5E40,
     0x5A00, 0x9AC1, 0x9B81, 0x5B40, 0x9901, 0x59C0, 0x5880, 0x9841, 0x8801, 0x48C0, 0x4980, 0x8941,
     0x4B00, 0x8BC1, 0x8A81, 0x4A40, 0x4E00, 0x8EC1, 0x8F81, 0x4F40, 0x8D01, 0x4DC0, 0x4C80, 0x8C41,
     0x4400, 0x84C1, 0x8581, 0x4540, 0x8701, 0x47C0, 0x4680, 0x8641, 0x8201, 0x42C0, 0x4380, 0x8341,
     0x4100, 0x81C1, 0x8081, 0x4040]"

definition D_CODE :: "u8 list" where
  "D_CODE =
    [0x00, 0x00, 0x00, 0x00, 0x00, 0x00, 0x00, 0x00, 0x00, 0x00, 0x00, 0x00, 0x00, 0x00, 0x00, 0x00,
     0x00, 0x00, 0x00, 0x00, 0x00, 0x00, 0x00, 0x00, 0x00, 0x00, 0x00, 0x00, 0x00, 0x00, 0x00, 0x00,
     0x01, 0x01, 0x01, 0x01, 0x01, 0x01, 0x01, 0x01, 0x01, 0x01, 0x01, 0x01, 0x01, 0x01, 0x01, 0x01,
     0x02, 0x02, 0x02, 0x02, 0x02, 0x02, 0x02, 0x02, 0x02, 0x02, 0x02, 0x02, 0x02, 0x02, 0x02, 0x02,
     0x03, 0x03, 0x03, 0x03, 0x03, 0x03, 0x03, 0x03, 0x03, 0x03, 0x03, 0x03, 0x03, 0x03, 0x03, 0x03,
     0x04, 0x04, 0x04, 0x04, 0x04, 0x04, 0x04, 0x04, 0x05, 0x05, 0x05, 0x05, 0x05, 0x05, 0x05, 0x05,
     0x06, 0x06, 0x06, 0x06, 0x06, 0x06, 0x06, 0x06, 0x07, 0x07, 0x07, 0x07, 0x07, 0x07, 0x07, 0x07,
     0x08, 0x08, 0x08, 0x08, 0x08, 0x08, 0x08, 0x08, 0x09, 0x09, 0x09, 0x09, 0x09, 0x09, 0x09, 0x09,
     0x0A, 0x0A, 0x0A, 0x0A, 0x0A, 0x0A, 0x0A, 0x0A, 0x0B, 0x0B, 0x0B, 0x0B, 0x0B, 0x0B, 0x0B, 0x0B,
     0x0C, 0x0C, 0x0C, 0x0C, 0x0D, 0x0D, 0x0D, 0x0D, 0x0E, 0x0E, 0x0E, 0x0E, 0x0F, 0x0F, 0x0F, 0x0F,
     0x10, 0x10, 0x10, 0x10, 0x11, 0x11, 0x11, 0x11, 0x12, 0x12, 0x12, 0x12, 0x13, 0x13, 0x13, 0x13,
     0x14, 0x14, 0x14, 0x14, 0x15, 0x15, 0x15, 0x15, 0x16, 0x16, 0x16, 0x16, 0x17, 0x17, 0x17, 0x17,
     0x18, 0x18, 0x19, 0x19, 0x1A, 0x1A, 0x1B, 0x1B, 0x1C, 0x1C, 0x1D, 0x1D, 0x1E, 0x1E, 0x1F, 0x1F,
     0x20, 0x20, 0x21, 0x21, 0x22, 0x22, 0x23, 0x23, 0x24, 0x24, 0x25, 0x25, 0x26, 0x26, 0x27, 0x27,
     0x28, 0x28, 0x29, 0x29, 0x2A, 0x2A, 0x2B, 0x2B, 0x2C, 0x2C, 0x2D, 0x2D, 0x2E, 0x2E, 0x2F, 0x2F,
     0x30, 0x31, 0x32, 0x33, 0x34, 0x35, 0x36, 0x37, 0x38, 0x39, 0x3A, 0x3B, 0x3C, 0x3D, 0x3E, 0x3F]"

definition D_LEN :: "u8 list" where
  "D_LEN =
    [0x03, 0x03, 0x03, 0x03, 0x03, 0x03, 0x03, 0x03, 0x03, 0x03, 0x03, 0x03, 0x03, 0x03, 0x03, 0x03,
     0x03, 0x03, 0x03, 0x03, 0x03, 0x03, 0x03, 0x03, 0x03, 0x03, 0x03, 0x03, 0x03, 0x03, 0x03, 0x03,
     0x04, 0x04, 0x04, 0x04, 0x04, 0x04, 0x04, 0x04, 0x04, 0x04, 0x04, 0x04, 0x04, 0x04, 0x04, 0x04,
     0x04, 0x04, 0x04, 0x04, 0x04, 0x04, 0x04, 0x04, 0x04, 0x04, 0x04, 0x04, 0x04, 0x04, 0x04, 0x04,
     0x04, 0x04, 0x04, 0x04, 0x04, 0x04, 0x04, 0x04, 0x04, 0x04, 0x04, 0x04, 0x04, 0x04, 0x04, 0x04,
     0x05, 0x05, 0x05, 0x05, 0x05, 0x05, 0x05, 0x05, 0x05, 0x05, 0x05, 0x05, 0x05, 0x05, 0x05, 0x05,
     0x05, 0x05, 0x05, 0x05, 0x05, 0x05, 0x05, 0x05, 0x05, 0x05, 0x05, 0x05, 0x05, 0x05, 0x05, 0x05,
     0x05, 0x05, 0x05, 0x05, 0x05, 0x05, 0x05, 0x05, 0x05, 0x05, 0x05, 0x05, 0x05, 0x05, 0x05, 0x05,
     0x05, 0x05, 0x05, 0x05, 0x05, 0x05, 0x05, 0x05, 0x05, 0x05, 0x05, 0x05, 0x05, 0x05, 0x05, 0x05,
     0x06, 0x06, 0x06, 0x06, 0x06, 0x06, 0x06, 0x06, 0x06, 0x06, 0x06, 0x06, 0x06, 0x06, 0x06, 0x06,
     0x06, 0x06, 0x06, 0x06, 0x06, 0x06, 0x06, 0x06, 0x06, 0x06, 0x06, 0x06, 0x06, 0x06, 0x06, 0x06,
     0x06, 0x06, 0x06, 0x06, 0x06, 0x06, 0x06, 0x06, 0x06, 0x06, 0x06, 0x06, 0x06, 0x06, 0x06, 0x06,
     0x07, 0x07, 0x07, 0x07, 0x07, 0x07, 0x07, 0x07, 0x07, 0x07, 0x07, 0x07, 0x07, 0x07, 0x07, 0x07,
     0x07, 0x07, 0x07, 0x07, 0x07, 0x07, 0x07, 0x07, 0x07, 0x07, 0x07, 0x07, 0x07, 0x07, 0x07, 0x07,
     0x07, 0x07, 0x07, 0x07, 0x07, 0x07, 0x07, 0x07, 0x07, 0x07, 0x07, 0x07, 0x07, 0x07, 0x07, 0x07,
     0x08, 0x08, 0x08, 0x08, 0x08, 0x08, 0x08, 0x08, 0x08, 0x08, 0x08, 0x08, 0x08, 0x08, 0x08, 0x08]"

definition crc16_byte :: "u16 \<Rightarrow> u8 \<Rightarrow> u16" where
  "crc16_byte crc b = (CRC_TABLE ! unat ((crc XOR ucast b) AND 0xff)) XOR (drop_bit 8 crc AND 0xff)"

definition crc16 :: "bytes \<Rightarrow> u16" where
  "crc16 data = foldl crc16_byte 0 data"

definition dms_checksum :: "bytes \<Rightarrow> u16" where
  "dms_checksum data = ucast (foldl (\<lambda>acc b. acc + ucast b) (0 :: u32) data AND 0xffff)"

section \<open>The bit reader\<close>

text \<open>The bits of a byte come from the highest one down; behind the data there are zeros.\<close>

record bit_reader =
  br_data :: bytes
  br_pos :: nat
  bitbuf :: u32
  bitcount :: u32

definition br_byte :: "bit_reader \<Rightarrow> u8 \<times> nat" where
  "br_byte br = (if br_pos br < length (br_data br) then (br_data br ! br_pos br, br_pos br + 1) else (0, br_pos br))"

function br_fill :: "bit_reader \<Rightarrow> bit_reader" where
  "br_fill br =
     (if bitcount br < 16
      then let (byte, pos) = br_byte br in
        br_fill (br\<lparr>br_pos := pos, bitbuf := push_bit 8 (bitbuf br) OR ucast byte, bitcount := bitcount br + 8\<rparr>)
      else br)"
  by auto

termination
proof (relation "measure (\<lambda>br. 16 - unat (bitcount br))")
  fix br x pos and byte :: u8
  assume "bitcount br < 16"
  then have "unat (bitcount br) < 16" by (simp add: word_less_nat_alt)
  moreover from this have "unat (bitcount br + 8) = unat (bitcount br) + 8" by (subst unat_add_exact) simp_all
  ultimately show "(br\<lparr>br_pos := pos, bitbuf := push_bit 8 (bitbuf br) OR ucast byte, bitcount := bitcount br + 8\<rparr>, br)
      \<in> measure (\<lambda>br. 16 - unat (bitcount br))" by simp
qed simp

declare br_fill.simps [simp del]

definition br_new :: "bytes \<Rightarrow> bit_reader" where
  "br_new data = br_fill \<lparr>br_data = data, br_pos = 0, bitbuf = 0, bitcount = 0\<rparr>"

text \<open>The amount of a shift is taken modulo 32, as the release build does.\<close>

definition br_peek :: "bit_reader \<Rightarrow> u32 \<Rightarrow> u16" where
  "br_peek br n = ucast (drop_bit (unat ((bitcount br - n) AND 31)) (bitbuf br))"

definition br_drop :: "bit_reader \<Rightarrow> u32 \<Rightarrow> bit_reader" where
  "br_drop br n =
     (let count = bitcount br - n in
      br_fill (br\<lparr>bitcount := count, bitbuf := bitbuf br AND (push_bit (unat (count AND 31)) 1 - 1)\<rparr>))"

definition br_get :: "bit_reader \<Rightarrow> u32 \<Rightarrow> u16 \<times> bit_reader" where
  "br_get br n = (br_peek br n, br_drop br n)"

section \<open>The state of the decompressor\<close>

abbreviation (input) deep_T :: nat where "deep_T \<equiv> 627"
abbreviation (input) deep_N_CHAR :: nat where "deep_N_CHAR \<equiv> 314"
abbreviation (input) deep_R :: nat where "deep_R \<equiv> 626"
abbreviation (input) heavy_NC :: nat where "heavy_NC \<equiv> 510"
abbreviation (input) heavy_NPT :: nat where "heavy_NPT \<equiv> 20"

record dms_state =
  window :: bytes
  quick_text_loc :: u16
  medium_text_loc :: u16
  deep_text_loc :: u16
  heavy_text_loc :: u16
  freq :: "u16 list"
  prnt :: "u16 list"
  son :: "u16 list"
  deep_tabs_due :: bool
  heavy_left :: "u16 list"
  heavy_right :: "u16 list"
  c_len :: bytes
  pt_len :: bytes
  c_table :: "u16 list"
  pt_table :: "u16 list"
  lastlen :: u16
  np :: u16

definition dms_new :: dms_state where
  "dms_new =
     \<lparr>window = replicate 0x4000 0, quick_text_loc = 251, medium_text_loc = 0x3fbe, deep_text_loc = 0x3fc4,
      heavy_text_loc = 0, freq = replicate (deep_T + 1) 0, prnt = replicate (deep_T + deep_N_CHAR) 0,
      son = replicate deep_T 0, deep_tabs_due = True, heavy_left = replicate (2 * heavy_NC - 1) 0,
      heavy_right = replicate (2 * heavy_NC - 1 + 9) 0, c_len = replicate heavy_NC 0, pt_len = replicate heavy_NPT 0,
      c_table = replicate 4096 0, pt_table = replicate 256 0, lastlen = 0, np = 0\<rparr>"

definition dms_reinit :: "dms_state \<Rightarrow> dms_state" where
  "dms_reinit st =
     st\<lparr>quick_text_loc := 251, medium_text_loc := 0x3fbe, deep_text_loc := 0x3fc4, heavy_text_loc := 0,
        deep_tabs_due := True, window := overwrite (window st) 0 (replicate 0x3fc8 0)\<rparr>"

section \<open>Run-length code\<close>

text \<open>The length of a run with the count \<open>b\<close>, and what is behind it; the rest of the input stands for \<^verbatim>\<open>ip\<close>.\<close>

fun rle_count :: "u8 \<Rightarrow> bytes \<Rightarrow> (nat \<times> bytes) option" where
  "rle_count b rest =
     (if b = 0xff
      then (case rest of hi # lo # rest' \<Rightarrow> Some (unat hi * 256 + unat lo, rest') | _ \<Rightarrow> None)
      else Some (unat b, rest))"

lemma rle_count_shorter: "rle_count b rest = Some (n, rest') \<Longrightarrow> length rest' \<le> length rest"
  by (auto split: if_splits list.splits)

function rle_loop :: "bytes \<Rightarrow> bytes \<Rightarrow> nat \<Rightarrow> bytes io" where
  "rle_loop rest out target =
     (if length out \<ge> target then Ok out
      else case rest of
        [] \<Rightarrow> Err InvalidData
      | a # rest1 \<Rightarrow>
          if a \<noteq> 0x90 then rle_loop rest1 (out @ [a]) target
          else case rest1 of
            [] \<Rightarrow> Err InvalidData
          | b # rest2 \<Rightarrow>
              if b = 0 then rle_loop rest2 (out @ [0x90]) target
              else case rest2 of
                [] \<Rightarrow> Err InvalidData
              | fill # rest3 \<Rightarrow>
                  (case rle_count b rest3 of
                     None \<Rightarrow> Err InvalidData
                   | Some (n, rest4) \<Rightarrow>
                       if length out + n > target then Err InvalidData
                       else rle_loop rest4 (out @ replicate n fill) target))"
  by pat_completeness auto

termination
  by (relation "measure (\<lambda>(rest, out, target). length rest)") (auto dest!: rle_count_shorter simp del: rle_count.simps)

declare rle_loop.simps [simp del] rle_count.simps [simp del]

definition unpack_rle :: "bytes \<Rightarrow> bytes \<Rightarrow> nat \<Rightarrow> bytes io" where
  "unpack_rle input out origsize = rle_loop input out (length out + origsize)"

section \<open>The window\<close>

text \<open>
  The bytes that are written go to the output and, at a position that is taken modulo the
  size of the window, to the window. \<open>copy_match\<close> is the loop that repeats earlier bytes; it
  stops when the output of \<open>n\<close> bytes is full.
\<close>

definition put_byte :: "u16 \<Rightarrow> nat \<Rightarrow> u8 \<Rightarrow> bytes \<times> u16 \<times> bytes \<Rightarrow> (bytes \<times> u16 \<times> bytes) io" where
  "put_byte bitmask n c = (\<lambda>(win, loc, out).
     and_then (put_at win (unat (loc AND bitmask)) c) (\<lambda>win'.
     if length out < n then Ok (win', loc + 1, out @ [c]) else Panic))"

fun copy_match :: "u16 \<Rightarrow> nat \<Rightarrow> nat \<Rightarrow> u16 \<Rightarrow> bytes \<times> u16 \<times> bytes \<Rightarrow> (bytes \<times> u16 \<times> bytes) io" where
  "copy_match bitmask n 0 i w = Ok w"
| "copy_match bitmask n (Suc j) i w =
     and_then (get_at (fst w) (unat (i AND bitmask))) (\<lambda>c.
     and_then (put_byte bitmask n c w) (\<lambda>w'.
     if length (snd (snd w')) \<ge> n then Ok w' else copy_match bitmask n j (i + 1) w'))"

text \<open>\<^verbatim>\<open>while op < output.len()\<close>\<close>

partial_function (option) fill_output :: "('s \<Rightarrow> bytes \<Rightarrow> ('s \<times> bytes) run) \<Rightarrow> nat \<Rightarrow> 's \<Rightarrow> bytes \<Rightarrow> ('s \<times> bytes) run" where
  "fill_output step n s out =
     (if length out \<ge> n then Some (Ok (s, out))
      else run_then (step s out) (\<lambda>r. fill_output step n (fst r) (snd r)))"

section \<open>Filling the output\<close>

lemma unat_and_le: "unat (x AND m :: 'a::len word) \<le> unat m"
proof -
  have "x AND m \<le> m" by (rule word_and_le1)
  then show ?thesis by (simp add: word_le_nat_alt)
qed

lemma put_byte_ok:
  assumes "unat bitmask < length win" and "length out < n"
  shows "put_byte bitmask n c (win, loc, out) = Ok (win[unat (loc AND bitmask) := c], loc + 1, out @ [c])"
  using assms le_less_trans [OF unat_and_le [of loc bitmask]] by (simp add: put_byte_def put_at_def)

text \<open>A match adds its length, as far as there is room, and keeps the window.\<close>

lemma copy_match_ok:
  assumes "unat bitmask < length win" and "length out < n"
  shows "\<exists>win' loc' bs. copy_match bitmask n j i (win, loc, out) = Ok (win', loc', out @ bs) \<and>
    length win' = length win \<and> length bs = min j (n - length out)"
  using assms
proof (induction j arbitrary: i win loc out)
  case (Suc j)
  let ?c = "win ! unat (i AND bitmask)" and ?win = "win[unat (loc AND bitmask) := win ! unat (i AND bitmask)]"
  have get: "get_at win (unat (i AND bitmask)) = Ok ?c"
    using Suc.prems(1) le_less_trans [OF unat_and_le [of i bitmask]] by (simp add: get_at_def)
  show ?case
  proof (cases "length out + 1 < n")
    case True
    then obtain win' loc' bs where "copy_match bitmask n j (i + 1) (?win, loc + 1, out @ [?c]) = Ok (win', loc', (out @ [?c]) @ bs)"
      "length win' = length win" "length bs = min j (n - length (out @ [?c]))"
      using Suc.IH [of ?win "out @ [?c]" "i + 1" "loc + 1"] Suc.prems(1) by auto
    then show ?thesis using True Suc.prems by (auto simp: get put_byte_ok)
  next
    case False
    then show ?thesis using Suc.prems by (auto simp: get put_byte_ok)
  qed
qed simp

text \<open>The loops \<^verbatim>\<open>while op < output.len()\<close>: a step that never unwinds, and one that also always adds something.\<close>

locale safe_filling =
  fixes step :: "'s \<Rightarrow> bytes \<Rightarrow> ('s \<times> bytes) run" and n :: nat and inv :: "'s \<Rightarrow> bool"
  assumes step_safe: "inv s \<Longrightarrow> length out < n \<Longrightarrow> step s out \<noteq> Some Panic"
    and step_keeps: "inv s \<Longrightarrow> length out < n \<Longrightarrow> step s out = Some (Ok (s', out')) \<Longrightarrow> inv s' \<and> length out' \<le> n"
begin

lemma fill_safe:
  assumes "fill_output step n s out = Some r" and "inv s" and "length out \<le> n"
  shows "r \<noteq> Panic \<and> (\<forall>s' out'. r = Ok (s', out') \<longrightarrow> inv s' \<and> length out' = n)"
proof -
  have "f = step \<longrightarrow> k = n \<longrightarrow> inv s \<longrightarrow> length out \<le> n \<longrightarrow> r \<noteq> Panic \<and> (\<forall>s' out'. r = Ok (s', out') \<longrightarrow> inv s' \<and> length out' = n)"
    if "fill_output f k s out = Some r" for f k s out r
  proof (rule fill_output.raw_induct [OF _ that])
    fix again and f :: "'s \<Rightarrow> bytes \<Rightarrow> ('s \<times> bytes) run" and k s out r
    assume hyp: "\<And>f k s out r. again f k s out = Some r \<Longrightarrow>
        f = step \<longrightarrow> k = n \<longrightarrow> inv s \<longrightarrow> length out \<le> n \<longrightarrow> r \<noteq> Panic \<and> (\<forall>s' out'. r = Ok (s', out') \<longrightarrow> inv s' \<and> length out' = n)"
      and body: "(if k \<le> length out then Some (Ok (s, out)) else run_then (f s out) (\<lambda>r. again f k (fst r) (snd r))) = Some r"
    show "f = step \<longrightarrow> k = n \<longrightarrow> inv s \<longrightarrow> length out \<le> n \<longrightarrow> r \<noteq> Panic \<and> (\<forall>s' out'. r = Ok (s', out') \<longrightarrow> inv s' \<and> length out' = n)"
    proof (intro impI)
      assume fk: "f = step" "k = n" and "inv s" "length out \<le> n"
      show "r \<noteq> Panic \<and> (\<forall>s' out'. r = Ok (s', out') \<longrightarrow> inv s' \<and> length out' = n)"
      proof (cases "length out = n")
        case True
        then show ?thesis using body fk \<open>inv s\<close> by auto
      next
        case False
        then have less: "length out < n" using \<open>length out \<le> n\<close> by simp
        then have run: "run_then (step s out) (\<lambda>r. again step n (fst r) (snd r)) = Some r" using body fk by simp
        show ?thesis
        proof (cases "\<exists>s' out'. step s out = Some (Ok (s', out'))")
          case True
          then obtain s' out' where step: "step s out = Some (Ok (s', out'))" by blast
          with run have "again step n s' out' = Some r" by simp
          from hyp [OF this] step_keeps [OF \<open>inv s\<close> less step] show ?thesis by simp
        next
          case False
          then show ?thesis using run step_safe [OF \<open>inv s\<close> less]
            by (auto simp: run_then_def split: Option.bind_splits io.splits)
        qed
      qed
    qed
  qed
  with assms show ?thesis by blast
qed

end

locale filling =
  fixes step :: "'s \<Rightarrow> bytes \<Rightarrow> ('s \<times> bytes) run" and n :: nat and inv :: "'s \<Rightarrow> bool"
  assumes step_adds: "inv s \<Longrightarrow> length out < n \<Longrightarrow>
    \<exists>s' bs. step s out = Some (Ok (s', out @ bs)) \<and> inv s' \<and> bs \<noteq> [] \<and> length out + length bs \<le> n"
begin

lemma fill_returns:
  "inv s \<Longrightarrow> length out \<le> n \<Longrightarrow> \<exists>s' bs. fill_output step n s out = Some (Ok (s', out @ bs)) \<and> inv s' \<and> length out + length bs = n"
proof (induction "n - length out" arbitrary: s out rule: less_induct)
  case less
  show ?case
  proof (cases "length out = n")
    case True
    then show ?thesis using less.prems by (subst fill_output.simps) simp
  next
    case False
    then have "length out < n" using less.prems(2) by simp
    from step_adds [OF less.prems(1) this] obtain s' bs where step: "step s out = Some (Ok (s', out @ bs))"
      "inv s'" "bs \<noteq> []" "length out + length bs \<le> n" by blast
    then have "n - length (out @ bs) < n - length out" using \<open>length out < n\<close> by (cases bs) auto
    from less.hyps [OF this step(2)] step(4) obtain s'' bs' where
      "fill_output step n s' (out @ bs) = Some (Ok (s'', (out @ bs) @ bs'))" "inv s''" "length (out @ bs) + length bs' = n"
      by auto
    then show ?thesis using \<open>length out < n\<close> step(1) by (subst fill_output.simps) auto
  qed
qed

end

sublocale filling \<subseteq> safe_filling
proof
  fix s s' and out out' :: bytes
  assume pre: "inv s" "length out < n"
  from step_adds [OF this] obtain s1 bs where "step s out = Some (Ok (s1, out @ bs))" "inv s1" "length out + length bs \<le> n"
    by blast
  then show "step s out \<noteq> Some Panic" "step s out = Some (Ok (s', out')) \<Longrightarrow> inv s' \<and> length out' \<le> n" by auto
qed

section \<open>The run-length code\<close>

text \<open>What is written for \<open>n\<close> times the byte \<open>c\<close>.\<close>

definition rle_write :: "nat \<times> u8 \<Rightarrow> bytes" where
  "rle_write = (\<lambda>(n, c).
     if n = 1 then (if c = 0x90 then [0x90, 0] else [c])
     else if n < 255 then [0x90, word_of_nat n, c]
     else [0x90, 0xff, c, word_of_nat (n div 256), word_of_nat (n mod 256)])"

definition rle_plain :: "(nat \<times> u8) list \<Rightarrow> bytes" where
  "rle_plain runs = concat (map (\<lambda>(n, c). replicate n c) runs)"

lemma rle_one:
  assumes "0 < n" and "n < 65536" and "length out + n \<le> target"
  shows "rle_loop (rle_write (n, c) @ rest) out target = rle_loop rest (out @ replicate n c) target"
proof -
  have room: "\<not> target \<le> length out" using assms(1,3) by simp
  show ?thesis
  proof (cases "n = 1")
    case True
    then show ?thesis using room by (subst rle_loop.simps) (simp add: rle_write_def)
  next
    case False
    show ?thesis
    proof (cases "n < 255")
      case True
      then have "unat (word_of_nat n :: u8) = n" by (simp add: unat_of_nat)
      then have "word_of_nat n \<noteq> (0 :: u8)" "word_of_nat n \<noteq> (0xff :: u8)" and count: "rle_count (word_of_nat n) rest = Some (n, rest)"
        using assms(1) True by (auto simp: rle_count.simps)
      then show ?thesis using True \<open>n \<noteq> 1\<close> room assms(3) by (subst rle_loop.simps) (simp add: rle_write_def)
    next
      case False
      have "n div 256 < 256" using assms(2) by (simp add: less_mult_imp_div_less)
      then have "unat (word_of_nat (n div 256) :: u8) * 256 + unat (word_of_nat (n mod 256) :: u8) = n" by (simp add: unat_of_nat)
      then have "rle_count 0xff (word_of_nat (n div 256) # word_of_nat (n mod 256) # rest) = Some (n, rest)"
        by (simp add: rle_count.simps)
      then show ?thesis using False \<open>n \<noteq> 1\<close> room assms(3) by (subst rle_loop.simps) (simp add: rle_write_def)
    qed
  qed
qed

lemma rle_loop_bound:
  "rle_loop rest out target = Ok out' \<Longrightarrow> length out \<le> target \<Longrightarrow> length out' = target \<and> take (length out) out' = out"
proof (induction rest out target rule: rle_loop.induct)
  case (1 rest out target)
  have grown: "length out' = target \<and> take (length out) out' = out"
    if "length (out @ bs) \<le> target \<Longrightarrow> length out' = target \<and> take (length (out @ bs)) out' = out @ bs"
      "length (out @ bs) \<le> target" for bs
  proof -
    have "take (length out) out' = take (length out) (take (length (out @ bs)) out')" by (simp add: min_def)
    also have "\<dots> = out" using that by simp
    finally show ?thesis using that by simp
  qed
  show ?case
  proof (cases "length out < target")
    case False
    then show ?thesis using 1(4,5) by (simp add: rle_loop.simps [of rest])
  next
    case True
    then have open_end: "\<not> target \<le> length out" by simp
    note loop = 1(4) [unfolded rle_loop.simps [of rest]]
    obtain a rest1 where rest: "rest = a # rest1" using loop open_end by (cases rest) auto
    show ?thesis
    proof (cases "a = 0x90")
      case False
      show ?thesis using grown [OF 1(1) [OF open_end rest False]] loop open_end rest False by simp
    next
      case a: True
      obtain b rest2 where rest1: "rest1 = b # rest2" using loop open_end rest a by (cases rest1) auto
      show ?thesis
      proof (cases "b = 0")
        case True
        show ?thesis using grown [OF 1(2) [OF open_end rest _ rest1 True]] loop open_end rest rest1 a True by simp
      next
        case False
        obtain c rest3 where rest2: "rest2 = c # rest3" using loop open_end rest rest1 a False by (cases rest2) auto
        obtain n rest4 where count: "rle_count b rest3 = Some (n, rest4)" and fits: "\<not> target < length out + n"
          and run: "rle_loop rest4 (out @ replicate n c) target = Ok out'"
          using loop open_end rest rest1 rest2 a False by (auto split: option.splits if_splits)
        show ?thesis using grown [OF 1(3) [OF open_end rest _ rest1 False rest2 count _ fits run]] a fits by simp
      qed
    qed
  qed
qed

lemma rle_loop_writes:
  assumes "\<forall>(n, c)\<in>set runs. 0 < n \<and> n < 65536" 
  shows "rle_loop (concat (map rle_write runs) @ rest) out (length out + length (rle_plain runs)) = Ok (out @ rle_plain runs)"
  using assms
proof (induction runs arbitrary: out)
  case Nil
  then show ?case by (subst rle_loop.simps) (simp add: rle_plain_def)
next
  case (Cons r runs)
  obtain n c where r: "r = (n, c)" by (cases r)
  have "rle_loop (rle_write (n, c) @ concat (map rle_write runs) @ rest) out (length out + length (rle_plain (r # runs))) =
      rle_loop (concat (map rle_write runs) @ rest) (out @ replicate n c) (length out + length (rle_plain (r # runs)))"
    using Cons.prems r by (intro rle_one) (auto simp: rle_plain_def)
  moreover have "length out + length (rle_plain (r # runs)) = length (out @ replicate n c) + length (rle_plain runs)"
    by (simp add: rle_plain_def r)
  ultimately show ?case using Cons.IH [of "out @ replicate n c"] Cons.prems r by (simp add: rle_plain_def add.assoc)
qed

section \<open>The checksum\<close>

text \<open>The table is that of the reflected 16-bit cyclic redundancy check with the polynomial \<open>0xA001\<close>.\<close>

definition crc_step :: "u16 \<Rightarrow> u16" where
  "crc_step w = (if bit w 0 then drop_bit 1 w XOR 0xA001 else drop_bit 1 w)"

definition crc16_bitwise :: "bytes \<Rightarrow> u16" where
  "crc16_bitwise data = foldl (\<lambda>crc b. (crc_step ^^ 8) (crc XOR ucast b)) 0 data"

fun crc_row :: "nat \<Rightarrow> u16 \<Rightarrow> u16 list" where
  "crc_row 0 w = []"
| "crc_row (Suc k) w = (crc_step ^^ 8) w # crc_row k (w + 1)"

lemma crc_row_numeral: "crc_row (numeral k) w = (crc_step ^^ 8) w # crc_row (pred_numeral k) (w + 1)"
  by (simp add: numeral_eq_Suc)

lemma crc_step8: "(crc_step ^^ 8) w = crc_step (crc_step (crc_step (crc_step (crc_step (crc_step (crc_step (crc_step w)))))))"
  by (simp add: numeral_eq_Suc)

lemma crc_step_eval:
  "crc_step 0 = 0" "crc_step 1 = 0xA001"
  "crc_step (numeral k) = (if odd (numeral k :: u16) then drop_bit 1 (numeral k) XOR 0xA001 else drop_bit 1 (numeral k))"
  by (simp_all add: crc_step_def bit_0)

lemma crc_table: "CRC_TABLE = crc_row 256 0"
  by (simp add: crc_row_numeral crc_step8 crc_step_eval CRC_TABLE_def)

lemma nth_crc_row: "i < k \<Longrightarrow> crc_row k w ! i = (crc_step ^^ 8) (w + word_of_nat i)"
  by (induction k w arbitrary: i rule: crc_row.induct) (auto simp: nth_Cons ac_simps split: nat.splits)

lemma crc_step_xor: "crc_step (v XOR w) = crc_step v XOR crc_step w"
  by (cases "bit v 0"; cases "bit w 0") (simp_all add: crc_step_def bit_xor_iff drop_bit_xor ac_simps)

lemma crc_steps_xor: "(crc_step ^^ n) (v XOR w) = (crc_step ^^ n) v XOR (crc_step ^^ n) w"
  by (induction n arbitrary: v w) (simp_all add: crc_step_xor)

lemma crc_steps_high: "n \<le> 8 \<Longrightarrow> (crc_step ^^ n) (push_bit 8 w) = drop_bit n (push_bit 8 w)"
proof (induction n)
  case (Suc n)
  then have "\<not> bit (drop_bit n (push_bit 8 w)) 0" by (simp add: bit_drop_bit_eq bit_push_bit_iff)
  then show ?case using Suc by (simp add: crc_step_def add.commute)
qed simp

lemma crc16_byte_bitwise: "crc16_byte crc b = (crc_step ^^ 8) (crc XOR ucast b)"
proof -
  define w where "w = crc XOR ucast b"
  have low: "w AND 0xff = take_bit 8 w" by (simp add: take_bit_eq_mask mask_eq_exp_minus_1)
  have parts: "w = take_bit 8 w XOR push_bit 8 (drop_bit 8 w)"
    by (rule bit_word_eqI) (auto simp: bit_xor_iff bit_take_bit_iff bit_push_bit_iff bit_drop_bit_eq)
  have high: "drop_bit 8 (push_bit 8 (drop_bit 8 w)) = drop_bit 8 crc AND 0xff"
  proof (rule bit_word_eqI)
    fix i
    assume "i < LENGTH(16)"
    have "drop_bit 8 crc AND 0xff = take_bit 8 (drop_bit 8 crc)" by (simp add: take_bit_eq_mask mask_eq_exp_minus_1)
    moreover have "\<not> bit b (i + 8)" using bit_imp_le_length [of b "i + 8"] by auto
    ultimately show "bit (drop_bit 8 (push_bit 8 (drop_bit 8 w))) i = bit (drop_bit 8 crc AND 0xff) i"
      using bit_imp_le_length [of crc "i + 8"]
      by (auto simp: w_def bit_drop_bit_eq bit_push_bit_iff bit_take_bit_iff bit_xor_iff bit_ucast_iff add.commute)
  qed
  have "(crc_step ^^ 8) w = (crc_step ^^ 8) (take_bit 8 w) XOR (crc_step ^^ 8) (push_bit 8 (drop_bit 8 w))"
    by (subst parts) (rule crc_steps_xor)
  then have split: "(crc_step ^^ 8) w = (crc_step ^^ 8) (w AND 0xff) XOR (drop_bit 8 crc AND 0xff)"
    unfolding crc_steps_high [OF order_refl] low high .
  have "unat (w AND 0xff) < 256" using unat_and_le [of w "0xff"] by simp
  then have "CRC_TABLE ! unat (w AND 0xff) = (crc_step ^^ 8) (w AND 0xff)" by (simp add: crc_table nth_crc_row)
  then show ?thesis using split by (simp add: crc16_byte_def w_def)
qed

text \<open>
  C37. The checksum with a table of 256 entries computes, on every data, the cyclic redundancy
  check that shifts one bit at a time.
\<close>

theorem crc16_is_bitwise: "crc16 data = crc16_bitwise data"
  by (simp add: crc16_def crc16_bitwise_def crc16_byte_bitwise cong: foldl_cong)

section \<open>The bits that are read\<close>

text \<open>The bit number \<open>p\<close> of the data, and the number that the \<open>n\<close> bits from \<open>p\<close> on make.\<close>

definition data_bit :: "bytes \<Rightarrow> nat \<Rightarrow> bool" where
  "data_bit data p \<longleftrightarrow> p div 8 < length data \<and> bit (data ! (p div 8)) (7 - p mod 8)"

fun bits_val :: "(nat \<Rightarrow> bool) \<Rightarrow> nat \<Rightarrow> nat \<Rightarrow> nat" where
  "bits_val f p 0 = 0"
| "bits_val f p (Suc n) = 2 * bits_val f p n + of_bool (f (p + n))"

lemma bit_bits_val: "bit (bits_val f p n) i \<longleftrightarrow> i < n \<and> f (p + (n - 1 - i))"
proof (induction n arbitrary: i)
  case (Suc n)
  show ?case
  proof (cases i)
    case 0
    then show ?thesis by (simp add: bit_0)
  next
    case (Suc k)
    have "bit (bits_val f p (Suc n)) i = bit (bits_val f p n) k"
      by (simp add: Suc bit_Suc)
    then show ?thesis using Suc.IH [of k] Suc by auto
  qed
qed simp

lemma bits_val_less: "bits_val f p n < 2 ^ n"
  by (induction n) auto

lemma bits_val_cong: "(\<And>i. i < n \<Longrightarrow> f (p + i) = g (q + i)) \<Longrightarrow> bits_val f p n = bits_val g q n"
  by (induction n) auto

text \<open>The buffer holds the next \<open>bitcount\<close> bits from \<open>p\<close> on.\<close>

definition br_holds :: "bytes \<Rightarrow> nat \<Rightarrow> bit_reader \<Rightarrow> bool" where
  "br_holds data p br \<longleftrightarrow> br_data br = data \<and> unat (bitcount br) < 24 \<and>
     (\<exists>v. br_pos br = min v (length data) \<and> 8 * v = p + unat (bitcount br)) \<and>
     (\<forall>i. bit (bitbuf br) i \<longleftrightarrow> i < unat (bitcount br) \<and> data_bit data (p + (unat (bitcount br) - 1 - i)))"

definition br_at :: "bytes \<Rightarrow> nat \<Rightarrow> bit_reader \<Rightarrow> bool" where
  "br_at data p br \<longleftrightarrow> br_holds data p br \<and> 16 \<le> unat (bitcount br)"

lemma br_fill_at: "br_holds data p br \<Longrightarrow> br_at data p (br_fill br)"
proof (induction br rule: br_fill.induct)
  case (1 br)
  let ?c = "unat (bitcount br)"
  show ?case
  proof (cases "bitcount br < 16")
    case False
    then have "16 \<le> ?c" by (simp add: word_less_nat_alt)
    then show ?thesis using 1(2) False by (subst br_fill.simps) (simp add: br_at_def)
  next
    case True
    then have c: "?c < 16" by (simp add: word_less_nat_alt)
    then have c8: "unat (bitcount br + 8) = ?c + 8" by (subst unat_add_exact) simp_all
    obtain v where v: "br_pos br = min v (length data)" "8 * v = p + ?c" and data: "br_data br = data"
      using 1(2) by (auto simp: br_holds_def)
    obtain byte pos where byte: "br_byte br = (byte, pos)" by fastforce
    then have pos: "pos = min (Suc v) (length data)" "byte = (if v < length data then data ! v else 0)"
      using v(1) data by (auto simp: br_byte_def split: if_splits)
    define br' where "br' = br\<lparr>br_pos := pos, bitbuf := push_bit 8 (bitbuf br) OR ucast byte, bitcount := bitcount br + 8\<rparr>"
    have bits: "bit (bitbuf br') i \<longleftrightarrow> i < ?c + 8 \<and> data_bit data (p + (?c + 8 - 1 - i))" for i
    proof (cases "i < 8")
      case True
      then have "p + (?c + 8 - 1 - i) = 8 * v + (7 - i)" using v(2) by simp
      moreover have "(8 * v + k) div 8 = v" "(8 * v + k) mod 8 = k" if "k < 8" for k using that by simp_all
      from this [of "7 - i"] have "(8 * v + (7 - i)) div 8 = v" "7 - (8 * v + (7 - i)) mod 8 = i" using True by linarith+
      ultimately show ?thesis using True pos(2)
        by (auto simp: br'_def bit_or_iff bit_push_bit_iff bit_ucast_iff data_bit_def)
    next
      case False
      then have "\<not> bit byte i" using bit_imp_le_length [of byte i] by auto
      moreover have "p + (?c + 8 - 1 - i) = p + (?c - 1 - (i - 8))" using False by simp
      moreover have "bit (bitbuf br) (i - 8) \<longleftrightarrow> i - 8 < ?c \<and> data_bit data (p + (?c - 1 - (i - 8)))"
        using 1(2) by (simp add: br_holds_def)
      ultimately show ?thesis using False c by (auto simp: br'_def bit_or_iff bit_push_bit_iff bit_ucast_iff)
    qed
    have "br_holds data p br'"
      unfolding br_holds_def
    proof (intro conjI allI exI [of _ "Suc v"])
      show "br_data br' = data" "br_pos br' = min (Suc v) (length data)" by (simp_all add: br'_def data pos(1))
      have count: "unat (bitcount br') = ?c + 8" by (simp add: br'_def c8)
      show "unat (bitcount br') < 24" "8 * Suc v = p + unat (bitcount br')" using c v(2) by (simp_all add: count)
      show "bit (bitbuf br') i \<longleftrightarrow> i < unat (bitcount br') \<and> data_bit data (p + (unat (bitcount br') - 1 - i))" for i
        unfolding count by (rule bits)
    qed
    from 1(1) [OF True _ byte [symmetric] _] this have "br_at data p (br_fill br')"
      by (simp add: br'_def byte)
    then show ?thesis using True by (subst br_fill.simps) (simp add: byte br'_def)
  qed
qed

lemma br_new_at: "br_at data 0 (br_new data)"
  unfolding br_new_def by (rule br_fill_at) (simp add: br_holds_def)

text \<open>What a look at the next \<open>n\<close> bits and their removal are, for the amounts that the code uses.\<close>

lemma br_amount:
  assumes "br_at data p br" and "unat n \<le> 16"
  shows "unat (bitcount br - n) = unat (bitcount br) - unat n" "unat ((bitcount br - n) AND 31) = unat (bitcount br) - unat n"
proof -
  have c: "16 \<le> unat (bitcount br)" "unat (bitcount br) < 24" using assms(1) by (simp_all add: br_at_def br_holds_def)
  show d: "unat (bitcount br - n) = unat (bitcount br) - unat n" using c assms(2) by (intro unat_sub) (simp add: word_le_nat_alt)
  have "(bitcount br - n) AND 31 = (bitcount br - n) AND mask 5" by (simp add: mask_eq_exp_minus_1)
  then have "(bitcount br - n) AND 31 = take_bit 5 (bitcount br - n)" by (simp only: take_bit_eq_mask)
  then have "unat ((bitcount br - n) AND 31) = take_bit 5 (unat (bitcount br) - unat n)" by (simp only: unsigned_take_bit_eq d)
  then show "unat ((bitcount br - n) AND 31) = unat (bitcount br) - unat n" using c by (simp add: take_bit_nat_eq_self)
qed

lemma br_peek_at:
  assumes "br_at data p br" and "unat n \<le> 16"
  shows "br_peek br n = word_of_nat (bits_val (data_bit data) p (unat n))"
proof (rule bit_word_eqI)
  fix i
  assume "i < LENGTH(16)"
  let ?c = "unat (bitcount br)"
  have c: "16 \<le> ?c" "?c < 24" using assms(1) by (simp_all add: br_at_def br_holds_def)
  have "bit (br_peek br n) i \<longleftrightarrow> bit (bitbuf br) (?c - unat n + i)"
    using \<open>i < LENGTH(16)\<close> by (simp add: br_peek_def br_amount [OF assms] bit_ucast_iff bit_drop_bit_eq)
  also have "\<dots> \<longleftrightarrow> ?c - unat n + i < ?c \<and> data_bit data (p + (?c - 1 - (?c - unat n + i)))"
    using assms(1) by (simp add: br_at_def br_holds_def)
  also have "\<dots> \<longleftrightarrow> i < unat n \<and> data_bit data (p + (unat n - 1 - i))"
    using c assms(2) by (auto simp: Suc_diff_le)
  also have "\<dots> \<longleftrightarrow> bit (bits_val (data_bit data) p (unat n)) i" by (simp add: bit_bits_val)
  finally show "bit (br_peek br n) i = bit (word_of_nat (bits_val (data_bit data) p (unat n)) :: u16) i"
    using \<open>i < LENGTH(16)\<close> by (simp add: bit_of_nat_iff)
qed

lemma br_drop_at:
  assumes "br_at data p br" and "unat n \<le> 16"
  shows "br_at data (p + unat n) (br_drop br n)"
  unfolding br_drop_def Let_def
proof (rule br_fill_at)
  let ?c = "unat (bitcount br)"
  have c: "16 \<le> ?c" "?c < 24" using assms(1) by (simp_all add: br_at_def br_holds_def)
  have "push_bit (?c - unat n) 1 - 1 = (mask (?c - unat n) :: u32)" by (simp add: mask_eq_exp_minus_1 push_bit_eq_mult)
  then have "bit (bitbuf br AND (push_bit (?c - unat n) 1 - 1)) i \<longleftrightarrow>
      i < ?c - unat n \<and> data_bit data (p + unat n + (?c - unat n - 1 - i))" for i
  proof -
    assume mask: "push_bit (?c - unat n) 1 - 1 = (mask (?c - unat n) :: u32)"
    have "bit (bitbuf br) i \<longleftrightarrow> i < ?c \<and> data_bit data (p + (?c - 1 - i))" using assms(1) by (simp add: br_at_def br_holds_def)
    moreover have "p + (?c - 1 - i) = p + unat n + (?c - unat n - 1 - i)" if "i < ?c - unat n" using that assms(2) c by simp
    ultimately show ?thesis using c unfolding mask by (auto simp: bit_and_iff bit_mask_iff)
  qed
  then show "br_holds data (p + unat n)
      (br\<lparr>bitcount := bitcount br - n, bitbuf := bitbuf br AND (push_bit (unat ((bitcount br - n) AND 31)) 1 - 1)\<rparr>)"
    using assms(1) c assms(2) by (auto simp: br_holds_def br_at_def br_amount [OF assms])
qed

text \<open>A bit reader that was made by \<open>br_new\<close> and used for at most 16 bits at a time.\<close>

definition reading :: "bit_reader \<Rightarrow> bool" where
  "reading br \<longleftrightarrow> (\<exists>data p. br_at data p br)"

lemma reading_new [simp]: "reading (br_new data)"
  using br_new_at by (auto simp: reading_def)

lemma reading_drop [simp]: "reading br \<Longrightarrow> unat n \<le> 16 \<Longrightarrow> reading (br_drop br n)"
  using br_drop_at unfolding reading_def by blast

lemma reading_peek: "reading br \<Longrightarrow> unat n \<le> 16 \<Longrightarrow> unat (br_peek br n) < 2 ^ unat n"
proof -
  assume "reading br" and n: "unat n \<le> 16"
  then obtain data p where "br_at data p br" by (auto simp: reading_def)
  then have "br_peek br n = word_of_nat (bits_val (data_bit data) p (unat n))" using n by (rule br_peek_at)
  moreover have "(2::nat) ^ unat n \<le> 2 ^ 16" using n by (intro power_increasing) simp_all
  ultimately show ?thesis using bits_val_less [of "data_bit data" p "unat n"] by (simp add: unat_of_nat)
qed

text \<open>Every entry of the two tables of the distance code is small.\<close>

lemma distance_tables:
  "length D_CODE = 256" "length D_LEN = 256" "i < 256 \<Longrightarrow> D_CODE ! i < 64" "i < 256 \<Longrightarrow> D_LEN ! i \<le> 8"
proof -
  have codes: "list_all (\<lambda>b. b < 64) D_CODE" and lens: "list_all (\<lambda>b. b \<le> 8) D_LEN" by (simp_all add: D_CODE_def D_LEN_def)
  show len: "length D_CODE = 256" "length D_LEN = 256" by (simp_all add: D_CODE_def D_LEN_def)
  show "i < 256 \<Longrightarrow> D_CODE ! i < 64" "i < 256 \<Longrightarrow> D_LEN ! i \<le> 8"
    using codes lens len by (simp_all add: list_all_length)
qed

text \<open>
  Run-length coded data is unpacked to what was written: for every list of runs, of up to
  65535 bytes each, in any of the three forms of the code, and with anything behind it.
\<close>

theorem rle_roundtrip:
  assumes "\<forall>(n, c)\<in>set runs. 0 < n \<and> n < 65536"
  shows "unpack_rle (concat (map rle_write runs) @ rest) [] (length (rle_plain runs)) = Ok (rle_plain runs)"
  using rle_loop_writes [OF assms, of rest "[]"] by (simp add: unpack_rle_def)

theorem rle_roundtrip_witness:
  "unpack_rle (concat (map rle_write [(3, 7), (1, 0x90), (300, 5)]) @ [1, 2]) [] 304 =
     Ok ([7, 7, 7, 0x90] @ replicate 300 5)"
  using rle_roundtrip [of "[(3, 7), (1, 0x90), (300, 5)]" "[1, 2]"] by (simp add: rle_plain_def numeral_3_eq_3)

text \<open>The numbers that a sequence of reads gives, and the numbers that are in the data.\<close>

fun br_gets :: "bit_reader \<Rightarrow> u32 list \<Rightarrow> u16 list" where
  "br_gets br [] = []"
| "br_gets br (n # ns) = (let (v, br') = br_get br n in v # br_gets br' ns)"

fun data_vals :: "bytes \<Rightarrow> nat \<Rightarrow> u32 list \<Rightarrow> u16 list" where
  "data_vals data p [] = []"
| "data_vals data p (n # ns) = word_of_nat (bits_val (data_bit data) p (unat n)) # data_vals data (p + unat n) ns"

lemma br_gets_at: "br_at data p br \<Longrightarrow> \<forall>n\<in>set ns. unat n \<le> 16 \<Longrightarrow> br_gets br ns = data_vals data p ns"
  by (induction ns arbitrary: p br) (auto simp: br_get_def br_peek_at dest: br_drop_at)

text \<open>
  The bit reader, with its 32-bit buffer that is filled byte by byte, gives for every
  sequence of reads of at most 16 bits the bits of the data one after the other, the highest
  bit of a byte first, and zeros behind the end.
\<close>

theorem bit_reader_refines:
  assumes "\<forall>n\<in>set ns. unat n \<le> 16"
  shows "br_gets (br_new data) ns = data_vals data 0 ns"
  using br_gets_at [OF br_new_at assms] .

theorem bit_reader_refines_witness:
  "br_gets (br_new [0xa5, 0x0f]) [4, 8, 6] = data_vals [0xa5, 0x0f] 0 [4, 8, 6] \<and> hd (data_vals [0xa5, 0x0f] 0 [4, 8, 6]) = 10"
proof
  show "br_gets (br_new [0xa5, 0x0f]) [4, 8, 6] = data_vals [0xa5, 0x0f] 0 [4, 8, 6]"
    by (rule bit_reader_refines) simp
  show "hd (data_vals [0xa5, 0x0f] 0 [4, 8, 6]) = 10" by code_simp
qed

end
