(* ===== verification/Dms_Window.thy ===== *)
theory Dms_Window
  imports Dms_Base
begin

text \<open>
  The modes of \<^verbatim>\<open>container/disk/dms.rs\<close> without a code table: \<^verbatim>\<open>Quick\<close>, whose matches have a
  fixed size, and \<^verbatim>\<open>Medium\<close>, whose lengths and distances are in a fixed prefix code.
\<close>

section \<open>Quick\<close>

definition quick_step :: "nat \<Rightarrow> bit_reader \<times> dms_state \<Rightarrow> bytes \<Rightarrow> ((bit_reader \<times> dms_state) \<times> bytes) run" where
  "quick_step n = (\<lambda>(br, st) out.
     let br1 = br_drop br 1; w = (window st, quick_text_loc st, out) in
     Some (if br_peek br 1 \<noteq> 0
       then let (c, br2) = br_get br1 8 in
         and_then (put_byte 0xff n (ucast c) w) (\<lambda>(win, loc, out').
         Ok ((br2, st\<lparr>window := win, quick_text_loc := loc\<rparr>), out'))
       else let (v, br2) = br_get br1 2; j = v + 2; (d, br3) = br_get br2 8; i = quick_text_loc st - d - 1 in
         and_then (copy_match 0xff n (unat j) i w) (\<lambda>(win, loc, out').
         Ok ((br3, st\<lparr>window := win, quick_text_loc := loc\<rparr>), out'))))"

definition unpack_quick :: "dms_state \<Rightarrow> bytes \<Rightarrow> nat \<Rightarrow> (dms_state \<times> bytes) run" where
  "unpack_quick st input n =
     run_then (fill_output (quick_step n) n (br_new input, st) []) (\<lambda>((br, st'), out).
     Some (Ok (st'\<lparr>quick_text_loc := (quick_text_loc st' + 5) AND 0xff\<rparr>, out)))"

section \<open>Medium\<close>

text \<open>
  A code byte \<open>c\<close> gives a number and how many bits of the next byte are needed; shifted in
  behind \<open>c\<close> they make the next index.
\<close>

definition table_byte :: "u8 list \<Rightarrow> u16 \<Rightarrow> u16 io" where
  "table_byte table c = and_then (get_at table (unat c)) (\<lambda>v. Ok (ucast v))"

definition shift_in :: "bit_reader \<Rightarrow> u16 \<Rightarrow> u16 \<Rightarrow> u16 \<times> bit_reader" where
  "shift_in br c u = (let (v, br') = br_get br (ucast u) in ((push_bit (unat u) c OR v) AND 0xff, br'))"

definition medium_match :: "bit_reader \<Rightarrow> (u16 \<times> u16 \<times> bit_reader) io" where
  "medium_match br =
     (let (c, br1) = br_get br 8 in
      and_then (table_byte D_CODE c) (\<lambda>code.
      and_then (table_byte D_LEN c) (\<lambda>u.
      let j = code + 3; (c2, br2) = shift_in br1 c u; br3 = br_drop br2 0 in
      and_then (table_byte D_LEN c2) (\<lambda>u2.
      and_then (table_byte D_CODE c2) (\<lambda>high.
      let (c3, br4) = shift_in br3 c2 u2 in
      Ok (j, push_bit 8 high OR c3, br4))))))"

definition medium_step :: "nat \<Rightarrow> bit_reader \<times> dms_state \<Rightarrow> bytes \<Rightarrow> ((bit_reader \<times> dms_state) \<times> bytes) run" where
  "medium_step n = (\<lambda>(br, st) out.
     let br1 = br_drop br 1; w = (window st, medium_text_loc st, out) in
     Some (if br_peek br 1 \<noteq> 0
       then let (c, br2) = br_get br1 8 in
         and_then (put_byte 0x3fff n (ucast c) w) (\<lambda>(win, loc, out').
         Ok ((br2, st\<lparr>window := win, medium_text_loc := loc\<rparr>), out'))
       else
         and_then (medium_match br1) (\<lambda>(j, d, br2).
         and_then (copy_match 0x3fff n (unat j) (medium_text_loc st - d - 1) w) (\<lambda>(win, loc, out').
         Ok ((br2, st\<lparr>window := win, medium_text_loc := loc\<rparr>), out')))))"

definition unpack_medium :: "dms_state \<Rightarrow> bytes \<Rightarrow> nat \<Rightarrow> (dms_state \<times> bytes) run" where
  "unpack_medium st input n =
     run_then (fill_output (medium_step n) n (br_new input, st) []) (\<lambda>((br, st'), out).
     Some (Ok (st'\<lparr>medium_text_loc := (medium_text_loc st' + 66) AND 0x3fff\<rparr>, out)))"

section \<open>Both modes return\<close>

text \<open>What a mode keeps: its reader, the size of the window and all of the state but the window and its position.\<close>

definition quick_inv :: "dms_state \<Rightarrow> bit_reader \<times> dms_state \<Rightarrow> bool" where
  "quick_inv st0 = (\<lambda>(br, st). reading br \<and> length (window st) = 0x4000 \<and>
     (\<exists>win loc. st = st0\<lparr>window := win, quick_text_loc := loc\<rparr>))"

definition medium_inv :: "dms_state \<Rightarrow> bit_reader \<times> dms_state \<Rightarrow> bool" where
  "medium_inv st0 = (\<lambda>(br, st). reading br \<and> length (window st) = 0x4000 \<and>
     (\<exists>win loc. st = st0\<lparr>window := win, medium_text_loc := loc\<rparr>))"

lemma copied:
  assumes "length win = 0x4000" and "unat bitmask < 0x4000" and "length out < n" and "0 < j"
  obtains win' loc' bs where "copy_match bitmask n j i (win, loc, out) = Ok (win', loc', out @ bs)"
    and "length win' = 0x4000" and "bs \<noteq> []" and "length out + length bs \<le> n"
proof -
  obtain win' loc' bs where "copy_match bitmask n j i (win, loc, out) = Ok (win', loc', out @ bs)"
    "length win' = length win" "length bs = min j (n - length out)"
    using copy_match_ok [of bitmask win out n j i loc] assms by auto
  with that [of win' loc' bs] assms show ?thesis by fastforce
qed

lemma table_byte_ok: "length table = 256 \<Longrightarrow> unat c < 256 \<Longrightarrow> table_byte table c = Ok (ucast (table ! unat c))"
  by (simp add: table_byte_def get_at_def)

lemma shift_in_ok:
  assumes "shift_in br c u = (c', br')" and "reading br" and "unat u \<le> 8"
  shows "reading br' \<and> unat c' < 256"
proof -
  have "unat (ucast u :: u32) \<le> 16" using assms(3) by simp
  then show ?thesis
    using assms unat_and_le [of "push_bit (unat u) c OR br_peek br (ucast u)" "0xff"]
    by (auto simp: shift_in_def br_get_def)
qed

lemma D_LEN_amount: "unat c < 256 \<Longrightarrow> unat (ucast (D_LEN ! unat c) :: u16) \<le> 8"
  using distance_tables(4) [of "unat c"] by (simp add: word_le_nat_alt)

lemma medium_match_ok:
  assumes "reading br"
  obtains j d br' where "medium_match br = Ok (j, d, br')" and "reading br'" and "0 < unat j"
proof -
  let ?c = "br_peek br 8" and ?br1 = "br_drop br 8"
  have c: "unat ?c < 256" and r1: "reading ?br1" using reading_peek [OF assms, of 8] assms by simp_all
  obtain c2 br2 where s2: "shift_in ?br1 ?c (ucast (D_LEN ! unat ?c)) = (c2, br2)" by fastforce
  from shift_in_ok [OF s2 r1 D_LEN_amount [OF c]] have r2: "reading br2" and c2: "unat c2 < 256" by blast+
  from r2 have r3: "reading (br_drop br2 0)" by simp
  obtain c3 br4 where s3: "shift_in (br_drop br2 0) c2 (ucast (D_LEN ! unat c2)) = (c3, br4)" by fastforce
  from shift_in_ok [OF s3 r3 D_LEN_amount [OF c2]] have r4: "reading br4" by blast
  have "unat (ucast (D_CODE ! unat ?c) + 3 :: u16) = unat (D_CODE ! unat ?c) + 3"
    using unat_u8_less [of "D_CODE ! unat ?c"] by (subst unat_add_exact) simp_all
  then have "0 < unat (ucast (D_CODE ! unat ?c) + 3 :: u16)" by simp
  moreover have "medium_match br = Ok (ucast (D_CODE ! unat ?c) + 3, push_bit 8 (ucast (D_CODE ! unat c2)) OR c3, br4)"
    using c c2 by (simp add: medium_match_def br_get_def Let_def table_byte_ok distance_tables s2 s3)
  ultimately show ?thesis using r4 that by blast
qed

interpretation quick: filling "quick_step n" n "quick_inv st0" for n st0
proof
  fix s and out :: bytes
  assume inv: "quick_inv st0 s" and less: "length out < n"
  obtain br st where s: "s = (br, st)" by (cases s)
  have br: "reading br" and win: "length (window st) = 0x4000"
    using inv by (simp_all add: s quick_inv_def)
  have st: "\<exists>win loc. st\<lparr>window := w, quick_text_loc := l\<rparr> = st0\<lparr>window := win, quick_text_loc := loc\<rparr>" for w l
  proof (intro exI)
    show "st\<lparr>window := w, quick_text_loc := l\<rparr> = st0\<lparr>window := w, quick_text_loc := l\<rparr>"
      using inv by (auto simp: s quick_inv_def)
  qed
  show "\<exists>s' bs. quick_step n s out = Some (Ok (s', out @ bs)) \<and> quick_inv st0 s' \<and> bs \<noteq> [] \<and> length out + length bs \<le> n"
  proof (cases "br_peek br 1 \<noteq> 0")
    case True
    then show ?thesis using br win less st
      by (auto simp: s quick_step_def br_get_def put_byte_ok quick_inv_def Let_def)
  next
    case False
    let ?v = "br_peek (br_drop br 1) 2" and ?br2 = "br_drop (br_drop br 1) 2"
    have "unat (?v + 2) = unat ?v + 2" using reading_peek [of "br_drop br 1" 2] br by (subst unat_add_exact) simp_all
    then have "0 < unat (?v + 2)" by simp
    from copied [OF win _ less this, of "0xff" "quick_text_loc st - br_peek ?br2 8 - 1" "quick_text_loc st"]
    obtain win' loc' bs where "copy_match 0xff n (unat (?v + 2)) (quick_text_loc st - br_peek ?br2 8 - 1)
        (window st, quick_text_loc st, out) = Ok (win', loc', out @ bs)" "length win' = 0x4000" "bs \<noteq> []" "length out + length bs \<le> n"
      by auto
    then show ?thesis using False br st by (simp add: s quick_step_def br_get_def quick_inv_def Let_def)
  qed
qed

interpretation medium: filling "medium_step n" n "medium_inv st0" for n st0
proof
  fix s and out :: bytes
  assume inv: "medium_inv st0 s" and less: "length out < n"
  obtain br st where s: "s = (br, st)" by (cases s)
  have br: "reading br" and win: "length (window st) = 0x4000"
    using inv by (simp_all add: s medium_inv_def)
  have st: "\<exists>win loc. st\<lparr>window := w, medium_text_loc := l\<rparr> = st0\<lparr>window := win, medium_text_loc := loc\<rparr>" for w l
  proof (intro exI)
    show "st\<lparr>window := w, medium_text_loc := l\<rparr> = st0\<lparr>window := w, medium_text_loc := l\<rparr>"
      using inv by (auto simp: s medium_inv_def)
  qed
  show "\<exists>s' bs. medium_step n s out = Some (Ok (s', out @ bs)) \<and> medium_inv st0 s' \<and> bs \<noteq> [] \<and> length out + length bs \<le> n"
  proof (cases "br_peek br 1 \<noteq> 0")
    case True
    then show ?thesis using br win less st
      by (auto simp: s medium_step_def br_get_def put_byte_ok medium_inv_def Let_def)
  next
    case False
    from medium_match_ok [of "br_drop br 1"] br obtain j d br2
      where m: "medium_match (br_drop br 1) = Ok (j, d, br2)" "reading br2" "0 < unat j" by auto
    from copied [OF win _ less m(3), of "0x3fff" "medium_text_loc st - d - 1" "medium_text_loc st"]
    obtain win' loc' bs where "copy_match 0x3fff n (unat j) (medium_text_loc st - d - 1)
        (window st, medium_text_loc st, out) = Ok (win', loc', out @ bs)" "length win' = 0x4000" "bs \<noteq> []" "length out + length bs \<le> n"
      by auto
    then show ?thesis using False st m by (simp add: s medium_step_def medium_inv_def Let_def)
  qed
qed

lemma unpack_quick_returns:
  assumes "length (window st) = 0x4000"
  shows "\<exists>win loc out. unpack_quick st input n = Some (Ok (st\<lparr>window := win, quick_text_loc := loc\<rparr>, out)) \<and>
    length win = 0x4000 \<and> length out = n"
proof -
  have "quick_inv st (br_new input, st)" using assms by (auto simp: quick_inv_def intro!: exI [of _ "window st"] exI [of _ "quick_text_loc st"])
  from quick.fill_returns [OF this, of "[]" n] show ?thesis by (fastforce simp: unpack_quick_def quick_inv_def)
qed

lemma unpack_medium_returns:
  assumes "length (window st) = 0x4000"
  shows "\<exists>win loc out. unpack_medium st input n = Some (Ok (st\<lparr>window := win, medium_text_loc := loc\<rparr>, out)) \<and>
    length win = 0x4000 \<and> length out = n"
proof -
  have "medium_inv st (br_new input, st)" using assms by (auto simp: medium_inv_def intro!: exI [of _ "window st"] exI [of _ "medium_text_loc st"])
  from medium.fill_returns [OF this, of "[]" n] show ?thesis by (fastforce simp: unpack_medium_def medium_inv_def)
qed

end
