(* ===== verification/Dms_Deep.thy ===== *)
theory Dms_Deep
  imports Dms_Base
begin

text \<open>
  The mode \<^verbatim>\<open>Deep\<close> of \<^verbatim>\<open>container/disk/dms.rs\<close>: literals and match lengths are in an adaptive
  Huffman code. The tree is in three arrays: \<open>freq\<close> by node, in increasing order; \<open>son\<close>, the
  first of the two neighbouring children of a node, or 627 plus the symbol of a leaf; \<open>prnt\<close>,
  the parent of a node, and at 627 plus a symbol its leaf.
\<close>

section \<open>The first tree\<close>

definition deep_leaf :: "nat \<Rightarrow> dms_state \<Rightarrow> dms_state io" where
  "deep_leaf i st =
     and_then (put_at (freq st) i 1) (\<lambda>f.
     and_then (put_at (son st) i (word_of_nat (i + deep_T))) (\<lambda>s.
     and_then (put_at (prnt st) (i + deep_T) (word_of_nat i)) (\<lambda>p.
     Ok (st\<lparr>freq := f, son := s, prnt := p\<rparr>))))"

definition deep_join :: "nat \<Rightarrow> nat \<times> dms_state \<Rightarrow> (nat \<times> dms_state) io" where
  "deep_join j = (\<lambda>(i, st).
     and_then (get_at (freq st) i) (\<lambda>f1.
     and_then (get_at (freq st) (i + 1)) (\<lambda>f2.
     and_then (put_at (freq st) j (f1 + f2)) (\<lambda>f.
     and_then (put_at (son st) j (word_of_nat i)) (\<lambda>s.
     and_then (put_at (prnt st) i (word_of_nat j)) (\<lambda>p1.
     and_then (put_at p1 (i + 1) (word_of_nat j)) (\<lambda>p2.
     Ok (i + 2, st\<lparr>freq := f, son := s, prnt := p2\<rparr>))))))))"

definition init_deep_tabs :: "dms_state \<Rightarrow> dms_state io" where
  "init_deep_tabs st =
     and_then (for_each deep_leaf [0..<deep_N_CHAR] st) (\<lambda>st1.
     and_then (for_each deep_join [deep_N_CHAR..<deep_R + 1] (0, st1)) (\<lambda>(i, st2).
     and_then (put_at (freq st2) deep_T 0xffff) (\<lambda>f.
     and_then (put_at (prnt st2) deep_R 0) (\<lambda>p.
     Ok (st2\<lparr>freq := f, prnt := p, deep_tabs_due := False\<rparr>)))))"

section \<open>Building the tree again with halved counts\<close>

text \<open>The leaves, in order, with their counts halved.\<close>

definition reconst_leaf :: "nat \<Rightarrow> nat \<times> dms_state \<Rightarrow> (nat \<times> dms_state) io" where
  "reconst_leaf i = (\<lambda>(j, st).
     and_then (get_at (son st) i) (\<lambda>k.
     if unat k \<ge> deep_T
     then and_then (get_at (freq st) i) (\<lambda>v.
       and_then (put_at (freq st) j (v div 2 + v mod 2)) (\<lambda>f.
       and_then (put_at (son st) j k) (\<lambda>s.
       Ok (j + 1, st\<lparr>freq := f, son := s\<rparr>))))
     else Ok (j, st)))"

text \<open>\<^verbatim>\<open>while f < self.freq[kk] { kk -= 1; }\<close>\<close>

fun find_slot :: "u16 list \<Rightarrow> u16 \<Rightarrow> nat \<Rightarrow> nat io" where
  "find_slot fs f 0 = and_then (get_at fs 0) (\<lambda>v. if f < v then Panic else Ok 0)"
| "find_slot fs f (Suc kk) = and_then (get_at fs (Suc kk)) (\<lambda>v. if f < v then find_slot fs f kk else Ok (Suc kk))"

text \<open>\<^verbatim>\<open>xs.copy_within(a..b, d)\<close>\<close>

definition copy_within :: "'a list \<Rightarrow> nat \<Rightarrow> nat \<Rightarrow> nat \<Rightarrow> 'a list io" where
  "copy_within xs a b d =
     (if a \<le> b \<and> b \<le> length xs \<and> d + (b - a) \<le> length xs
      then Ok (overwrite xs d (take (b - a) (drop a xs))) else Panic)"

definition shift_up :: "'a list \<Rightarrow> nat \<Rightarrow> nat \<Rightarrow> 'a list io" where
  "shift_up xs kk l = (if l > 0 then copy_within xs kk (kk + l) (kk + 1) else Ok xs)"

definition reconst_join :: "nat \<Rightarrow> nat \<times> dms_state \<Rightarrow> (nat \<times> dms_state) io" where
  "reconst_join j = (\<lambda>(i, st).
     and_then (get_at (freq st) i) (\<lambda>f1.
     and_then (get_at (freq st) (i + 1)) (\<lambda>f2.
     let f = f1 + f2 in
     and_then (put_at (freq st) j f) (\<lambda>fs.
     and_then (find_slot fs f (j - 1)) (\<lambda>k.
     let kk = k + 1; l = j - kk in
     and_then (shift_up fs kk l) (\<lambda>fs1.
     and_then (shift_up (son st) kk l) (\<lambda>ss1.
     and_then (put_at fs1 kk f) (\<lambda>fs2.
     and_then (put_at ss1 kk (word_of_nat i)) (\<lambda>ss2.
     Ok (i + 2, st\<lparr>freq := fs2, son := ss2\<rparr>))))))))))"

definition reconst_parent :: "nat \<Rightarrow> dms_state \<Rightarrow> dms_state io" where
  "reconst_parent i st =
     and_then (get_at (son st) i) (\<lambda>k.
     and_then (put_at (prnt st) (unat k) (word_of_nat i)) (\<lambda>p.
     if unat k \<ge> deep_T then Ok (st\<lparr>prnt := p\<rparr>)
     else and_then (put_at p (unat k + 1) (word_of_nat i)) (\<lambda>p'. Ok (st\<lparr>prnt := p'\<rparr>))))"

definition deep_reconst :: "dms_state \<Rightarrow> dms_state io" where
  "deep_reconst st =
     and_then (for_each reconst_leaf [0..<deep_T] (0, st)) (\<lambda>(j, st1).
     and_then (for_each reconst_join [deep_N_CHAR..<deep_T] (0, st1)) (\<lambda>(i, st2).
     for_each reconst_parent [0..<deep_T] st2))"

section \<open>Counting a symbol\<close>

text \<open>\<^verbatim>\<open>while k > self.freq[l + 1] { l += 1; }\<close>\<close>

function last_below :: "u16 list \<Rightarrow> u16 \<Rightarrow> nat \<Rightarrow> nat io" where
  "last_below fs k l =
     (if l + 1 < length fs then if k > fs ! (l + 1) then last_below fs k (l + 1) else Ok l else Panic)"
  by auto

termination by (relation "measure (\<lambda>(fs, k, l). length fs - l)") auto

declare last_below.simps [simp del]

text \<open>The links of a node that moves: its leaf, or its two children, get a new parent.\<close>

definition set_parent :: "u16 list \<Rightarrow> nat \<Rightarrow> nat \<Rightarrow> u16 list io" where
  "set_parent p i l =
     and_then (put_at p i (word_of_nat l)) (\<lambda>p'.
     if i < deep_T then put_at p' (i + 1) (word_of_nat l) else Ok p')"

definition deep_swap :: "dms_state \<Rightarrow> nat \<Rightarrow> nat \<Rightarrow> u16 \<Rightarrow> dms_state io" where
  "deep_swap st c l k =
     and_then (get_at (freq st) l) (\<lambda>fl.
     and_then (put_at (freq st) c fl) (\<lambda>f1.
     and_then (put_at f1 l k) (\<lambda>f2.
     and_then (get_at (son st) c) (\<lambda>i.
     and_then (set_parent (prnt st) (unat i) l) (\<lambda>p1.
     and_then (get_at (son st) l) (\<lambda>j.
     and_then (put_at (son st) l i) (\<lambda>s1.
     and_then (set_parent p1 (unat j) c) (\<lambda>p2.
     and_then (put_at s1 c j) (\<lambda>s2.
     Ok (st\<lparr>freq := f2, son := s2, prnt := p2\<rparr>))))))))))"

text \<open>One round of the climb: the node \<open>c\<close> is counted and, if the order is disturbed, moved; the result is where it is.\<close>

definition deep_count :: "dms_state \<Rightarrow> nat \<Rightarrow> (dms_state \<times> nat) io" where
  "deep_count st c =
     and_then (get_at (freq st) c) (\<lambda>f.
     let k = f + 1 in
     and_then (put_at (freq st) c k) (\<lambda>fs.
     let st1 = st\<lparr>freq := fs\<rparr> in
     and_then (get_at fs (c + 1)) (\<lambda>above.
     if k > above
     then and_then (last_below fs k (c + 1)) (\<lambda>l.
       and_then (deep_swap st1 c l k) (\<lambda>st2. Ok (st2, l)))
     else Ok (st1, c))))"

partial_function (option) deep_climb :: "dms_state \<Rightarrow> nat \<Rightarrow> dms_state run" where
  "deep_climb st c =
     run_then (Some (and_then (deep_count st c) (\<lambda>(st', c'). and_then (get_at (prnt st') c') (\<lambda>p. Ok (st', p))))) (\<lambda>r.
     if unat (snd r) = 0 then Some (Ok (fst r)) else deep_climb (fst r) (unat (snd r)))"

definition deep_update :: "dms_state \<Rightarrow> u16 \<Rightarrow> dms_state run" where
  "deep_update st c =
     run_then (Some (and_then (get_at (freq st) deep_R) (\<lambda>f. if f = 0x8000 then deep_reconst st else Ok st))) (\<lambda>st1.
     run_then (Some (get_at (prnt st1) (unat (c + 627)))) (\<lambda>leaf.
     deep_climb st1 (unat leaf)))"

section \<open>Decoding\<close>

partial_function (option) deep_walk :: "u16 list \<Rightarrow> u16 \<Rightarrow> bit_reader \<Rightarrow> (u16 \<times> bit_reader) run" where
  "deep_walk ss c br =
     (if unat c < deep_T
      then run_then (Some (get_at ss (unat c + unat (br_peek br 1)))) (\<lambda>c'. deep_walk ss c' (br_drop br 1))
      else Some (Ok (c, br)))"

definition deep_decode_char :: "bit_reader \<Rightarrow> dms_state \<Rightarrow> (u16 \<times> bit_reader \<times> dms_state) run" where
  "deep_decode_char br st =
     run_then (Some (get_at (son st) deep_R)) (\<lambda>top.
     run_then (deep_walk (son st) top br) (\<lambda>(c, br').
     run_then (deep_update st (c - 627)) (\<lambda>st'. Some (Ok (c - 627, br', st')))))"

definition deep_decode_position :: "bit_reader \<Rightarrow> (u16 \<times> bit_reader) io" where
  "deep_decode_position br =
     (let (i, br1) = br_get br 8 in
      and_then (get_at D_CODE (unat i)) (\<lambda>code.
      and_then (get_at D_LEN (unat i)) (\<lambda>j.
      let (v, br2) = br_get br1 (ucast j) in
      Ok (push_bit 8 (ucast code) OR ((push_bit (unat j) i OR v) AND 0xff), br2))))"

definition deep_step :: "nat \<Rightarrow> bit_reader \<times> dms_state \<Rightarrow> bytes \<Rightarrow> ((bit_reader \<times> dms_state) \<times> bytes) run" where
  "deep_step n = (\<lambda>(br, st) out.
     run_then (deep_decode_char br st) (\<lambda>(c, br1, st1).
     let w = (window st1, deep_text_loc st1, out) in
     Some (if c < 256
       then and_then (put_byte 0x3fff n (ucast c) w) (\<lambda>(win, loc, out').
         Ok ((br1, st1\<lparr>window := win, deep_text_loc := loc\<rparr>), out'))
       else and_then (deep_decode_position br1) (\<lambda>(d, br2).
         and_then (copy_match 0x3fff n (unat (c - 255 + 2)) (deep_text_loc st1 - d - 1) w) (\<lambda>(win, loc, out').
         Ok ((br2, st1\<lparr>window := win, deep_text_loc := loc\<rparr>), out'))))))"

definition unpack_deep :: "dms_state \<Rightarrow> bytes \<Rightarrow> nat \<Rightarrow> (dms_state \<times> bytes) run" where
  "unpack_deep st input n =
     run_then (Some (if deep_tabs_due st then init_deep_tabs st else Ok st)) (\<lambda>st0.
     run_then (fill_output (deep_step n) n (br_new input, st0) []) (\<lambda>((br, st'), out).
     Some (Ok (st'\<lparr>deep_text_loc := (deep_text_loc st' + 60) AND 0x3fff\<rparr>, out))))"

end
