(* ===== verification/Dms_Tree.thy ===== *)
theory Dms_Tree
  imports Dms_Deep "HOL-Library.Multiset"
begin

text \<open>
  The adaptive Huffman tree of \<^verbatim>\<open>dms.rs\<close>: what a tree is, and that counting a symbol, building
  the tree and building it again keep it one. So the decoder always comes to a leaf, and no
  index is out of range.
\<close>

section \<open>The tree\<close>

text \<open>
  The links of a tree: the pointers to children are, in some order, those to the 314 symbols
  and to the pairs of neighbours, the children of a node are below it, and the parents are
  those of the children.
\<close>

abbreviation nat_at :: "u16 list \<Rightarrow> nat \<Rightarrow> nat" where "nat_at xs i \<equiv> unat (xs ! i)"

definition deep_nodes :: "nat list" where
  "deep_nodes = [deep_T..<deep_T + deep_N_CHAR] @ map (\<lambda>n. 2 * n) [0..<deep_N_CHAR - 1]"

lemma set_deep_nodes: "x \<in> set deep_nodes \<longleftrightarrow> deep_T \<le> x \<and> x < deep_T + deep_N_CHAR \<or> even x \<and> x < deep_R"
proof -
  have "x \<in> (\<lambda>n. 2 * n) ` {0..<313} \<longleftrightarrow> even x \<and> x < 626" by (auto elim!: evenE)
  then show ?thesis by (simp add: deep_nodes_def del: upt_rec_numeral)
qed

lemma distinct_deep_nodes: "distinct deep_nodes"
proof -
  have "distinct (map (\<lambda>n. 2 * n) [0..<313 :: nat])" by (simp add: distinct_map inj_on_def del: upt_rec_numeral)
  then show ?thesis by (auto simp: deep_nodes_def simp del: upt_rec_numeral)
qed

definition deep_links :: "u16 list \<Rightarrow> u16 list \<Rightarrow> bool" where
  "deep_links ss ps \<longleftrightarrow> length ss = deep_T \<and> length ps = deep_T + deep_N_CHAR \<and> mset (map unat ss) = mset deep_nodes \<and>
     (\<forall>i<deep_T. nat_at ss i < deep_T \<longrightarrow> nat_at ss i + 1 < i) \<and>
     (\<forall>i<deep_T. nat_at ps (nat_at ss i) = i \<and> (nat_at ss i < deep_T \<longrightarrow> nat_at ps (nat_at ss i + 1) = i)) \<and>
     nat_at ps deep_R = 0"

text \<open>
  The counts: they increase with the node, and that of an inner node is the sum of those of
  its children; while a symbol is counted, the sum is one more at the node \<open>c\<close> that is next.
\<close>

definition deep_freqs :: "u16 list \<Rightarrow> u16 list \<Rightarrow> nat \<Rightarrow> bool" where
  "deep_freqs fs ss c \<longleftrightarrow> length fs = deep_T + 1 \<and> fs ! deep_T = 0xffff \<and>
     (\<forall>i j. i \<le> j \<longrightarrow> j < deep_T \<longrightarrow> nat_at fs i \<le> nat_at fs j) \<and> (\<forall>i<deep_T. 0 < nat_at fs i) \<and>
     (\<forall>i<deep_T. nat_at ss i < deep_T \<longrightarrow> nat_at fs (nat_at ss i) + nat_at fs (nat_at ss i + 1) = nat_at fs i + of_bool (i = c))"

definition deep_tree :: "dms_state \<Rightarrow> bool" where
  "deep_tree st \<longleftrightarrow> deep_links (son st) (prnt st) \<and> deep_freqs (freq st) (son st) deep_T \<and> nat_at (freq st) deep_R \<le> 0x8000"

lemma deep_linksD:
  assumes "deep_links ss ps"
  shows "length ss = deep_T" "length ps = deep_T + deep_N_CHAR"
    "i < deep_T \<Longrightarrow> nat_at ss i < deep_T + deep_N_CHAR"
    "i < deep_T \<Longrightarrow> nat_at ss i < deep_T \<Longrightarrow> nat_at ss i + 1 < i \<and> even (nat_at ss i)"
    "i < deep_T \<Longrightarrow> nat_at ps (nat_at ss i) = i"
    "i < deep_T \<Longrightarrow> nat_at ss i < deep_T \<Longrightarrow> nat_at ps (nat_at ss i + 1) = i"
    "nat_at ps deep_R = 0" "distinct (map unat ss)" "set (map unat ss) = set deep_nodes"
proof -
  show len: "length ss = deep_T" "length ps = deep_T + deep_N_CHAR" "nat_at ps deep_R = 0"
    "i < deep_T \<Longrightarrow> nat_at ps (nat_at ss i) = i"
    "i < deep_T \<Longrightarrow> nat_at ss i < deep_T \<Longrightarrow> nat_at ps (nat_at ss i + 1) = i"
    using assms by (simp_all add: deep_links_def)
  have mset: "mset (map unat ss) = mset deep_nodes" using assms by (simp add: deep_links_def)
  then show nodes: "set (map unat ss) = set deep_nodes" by (rule mset_eq_setD)
  show "distinct (map unat ss)" using mset_eq_imp_distinct_iff [OF mset] distinct_deep_nodes by simp
  have "nat_at ss i \<in> set deep_nodes" if "i < deep_T"
    using that len(1) nodes by (metis length_map nth_map nth_mem)
  then show "i < deep_T \<Longrightarrow> nat_at ss i < deep_T + deep_N_CHAR"
    "i < deep_T \<Longrightarrow> nat_at ss i < deep_T \<Longrightarrow> nat_at ss i + 1 < i \<and> even (nat_at ss i)"
    using assms unfolding set_deep_nodes by (auto simp: deep_links_def)
qed

text \<open>Every node but the root, and every symbol, is a child of its parent.\<close>

abbreviation deep_child :: "u16 list \<Rightarrow> nat \<Rightarrow> nat \<Rightarrow> bool" where
  "deep_child ss p x \<equiv> p < deep_T \<and> (x = nat_at ss p \<or> x = nat_at ss p + 1 \<and> nat_at ss p < deep_T)"

lemma deep_parent:
  assumes "deep_links ss ps" and "x < deep_R \<or> deep_T \<le> x \<and> x < deep_T + deep_N_CHAR"
  shows "deep_child ss (nat_at ps x) x"
proof -
  note D = deep_linksD [OF assms(1)]
  have "(if x < deep_T then 2 * (x div 2) else x) \<in> set deep_nodes"
    using assms(2) by (auto simp: set_deep_nodes)
  then obtain p where p: "p < deep_T" "nat_at ss p = (if x < deep_T then 2 * (x div 2) else x)"
    using D(1,9) by (metis (no_types, lifting) in_set_conv_nth length_map nth_map)
  have "x = nat_at ss p \<or> x = nat_at ss p + 1 \<and> nat_at ss p < deep_T" using p(2) by (auto split: if_splits)
  moreover from this have "nat_at ps x = p" using D(5,6) [of p] p(1) by auto
  ultimately show ?thesis using p(1) by simp
qed

text \<open>A node is above its children.\<close>

lemma deep_child_below: "deep_links ss ps \<Longrightarrow> deep_child ss p x \<Longrightarrow> x < deep_T \<Longrightarrow> x < p"
  using deep_linksD(4) [of ss ps p] by auto

lemma deep_child_unique:
  assumes "deep_links ss ps" and "deep_child ss p x" and "deep_child ss q x" shows "p = q"
  using assms deep_linksD(5,6) [OF assms(1)] by metis


lemma deep_freqsD:
  assumes "deep_freqs fs ss c"
  shows "length fs = deep_T + 1" "fs ! deep_T = 0xffff" "i \<le> j \<Longrightarrow> j < deep_T \<Longrightarrow> nat_at fs i \<le> nat_at fs j"
    "i < deep_T \<Longrightarrow> 0 < nat_at fs i"
    "i < deep_T \<Longrightarrow> nat_at ss i < deep_T \<Longrightarrow> nat_at fs (nat_at ss i) + nat_at fs (nat_at ss i + 1) = nat_at fs i + of_bool (i = c)"
  using assms by (simp_all add: deep_freqs_def)

text \<open>A node counts more than each of its children.\<close>

lemma deep_child_less:
  assumes "deep_links ss ps" and "deep_freqs fs ss c" and "deep_child ss p x" and "x < deep_T" and "p \<noteq> c"
  shows "nat_at fs x < nat_at fs p"
proof -
  have inner: "nat_at ss p < deep_T" and p: "p < deep_T" using assms(3,4) by auto
  have sum: "nat_at fs (nat_at ss p) + nat_at fs (nat_at ss p + 1) = nat_at fs p"
    using deep_freqsD(5) [OF assms(2) p inner] assms(5) by simp
  have "nat_at ss p + 1 < p" using deep_linksD(4) [OF assms(1) p inner] by simp
  then have "0 < nat_at fs (nat_at ss p)" "0 < nat_at fs (nat_at ss p + 1)"
    using deep_freqsD(4) [OF assms(2)] p by simp_all
  then show ?thesis using sum assms(3) by auto
qed

section \<open>Counting a symbol\<close>

lemma last_below_ok:
  assumes "length fs = deep_T + 1" and "fs ! deep_T = 0xffff" and "l < deep_T"
  shows "\<exists>l'. last_below fs k l = Ok l' \<and> l \<le> l' \<and> l' < deep_T \<and> k \<le> fs ! (l' + 1) \<and> (\<forall>m. l < m \<longrightarrow> m \<le> l' \<longrightarrow> fs ! m < k)"
  using assms
proof (induction fs k l rule: last_below.induct)
  case (1 fs k l)
  show ?case
  proof (cases "k > fs ! (l + 1)")
    case True
    have "l + 1 \<noteq> deep_T"
    proof
      assume "l + 1 = deep_T"
      then have "0xffff < k" using True 1(3) by simp
      then show False using unat_u16_less [of k] by (simp add: word_less_nat_alt)
    qed
    then have "l + 1 < deep_T" using 1(4) by simp
    then obtain l' where l': "last_below fs k (l + 1) = Ok l'" "l + 1 \<le> l'" "l' < deep_T" "k \<le> fs ! (l' + 1)"
      "\<forall>m. l + 1 < m \<longrightarrow> m \<le> l' \<longrightarrow> fs ! m < k"
      using 1(1) [OF _ True] 1(2,3) by auto
    have "last_below fs k l = Ok l'" using l'(1) True 1(2,4) by (subst last_below.simps) simp
    moreover have "fs ! m < k" if "l < m" "m \<le> l'" for m
      using l'(5) that True by (cases "m = l + 1") auto
    ultimately show ?thesis using l'(2,3,4) by (intro exI [of _ l']) auto
  next
    case False
    then show ?thesis using 1(2,4) by (subst last_below.simps) (auto simp: not_less)
  qed
qed

text \<open>The parents when the children of a pointer \<open>v\<close> get the parent \<open>p\<close>.\<close>

definition kids_to :: "u16 list \<Rightarrow> nat \<Rightarrow> nat \<Rightarrow> u16 list" where
  "kids_to ps v p = (if v < deep_T then ps[v := word_of_nat p, v + 1 := word_of_nat p] else ps[v := word_of_nat p])"

lemma length_kids_to [simp]: "length (kids_to ps v p) = length ps"
  by (simp add: kids_to_def)

lemma set_parent_ok: "length ps = deep_T + deep_N_CHAR \<Longrightarrow> v < deep_T + deep_N_CHAR \<Longrightarrow> set_parent ps v p = Ok (kids_to ps v p)"
  by (simp add: set_parent_def kids_to_def put_at_def)

lemma nth_kids_to:
  assumes "length ps = deep_T + deep_N_CHAR" and "v < deep_T + deep_N_CHAR" and "p < deep_T"
  shows "nat_at (kids_to ps v p) x = (if x = v \<or> x = v + 1 \<and> v < deep_T then p else nat_at ps x)"
  using assms by (auto simp: kids_to_def nth_list_update unat_of_nat)

text \<open>
  One round: the count of the node \<open>c\<close> goes up by one, at the place \<open>l\<close> where the order is
  kept, and the trees at \<open>c\<close> and \<open>l\<close> change places.
\<close>

definition moved :: "u16 list \<Rightarrow> nat \<Rightarrow> nat \<Rightarrow> u16 list" where
  "moved ss c l = ss[l := ss ! c, c := ss ! l]"

definition moved_parents :: "u16 list \<Rightarrow> u16 list \<Rightarrow> nat \<Rightarrow> nat \<Rightarrow> u16 list" where
  "moved_parents ss ps c l = (if l = c then ps else kids_to (kids_to ps (nat_at ss c) l) (nat_at ss l) c)"

lemma deep_links_moved:
  assumes links: "deep_links ss ps" and "c \<le> l" and "l < deep_T" and "l \<noteq> c \<Longrightarrow> nat_at ss l < deep_T \<Longrightarrow> nat_at ss l + 1 < c"
  shows "deep_links (moved ss c l) (moved_parents ss ps c l)"
proof (cases "l = c")
  case True
  then show ?thesis using links by (simp add: moved_def moved_parents_def)
next
  case False
  note D = deep_linksD [OF links]
  let ?ss = "moved ss c l" and ?ps = "moved_parents ss ps c l"
  have cl: "c < l" "c < deep_T" using False assms(2,3) by simp_all
  have ss: "nat_at ?ss i = (if i = c then nat_at ss l else if i = l then nat_at ss c else nat_at ss i)" if "i < deep_T" for i
    using that cl assms(3) D(1) by (auto simp: moved_def nth_list_update)
  have ps: "nat_at ?ps x = (if deep_child ss l x then c else if deep_child ss c x then l else nat_at ps x)" for x
    using False D(2,3) cl assms(3) by (simp add: moved_parents_def nth_kids_to)
  have "mset ?ss = mset ss" unfolding moved_def using cl assms(3) D(1) by (intro mset_swap) simp_all
  then have "mset (map unat ?ss) = mset deep_nodes" using links by (simp add: deep_links_def)
  moreover have "nat_at ?ss i + 1 < i" if "i < deep_T" "nat_at ?ss i < deep_T" for i
    using that ss [OF that(1)] D(4) [of i] D(4) [of c] assms(4) False cl by (auto split: if_splits)
  moreover have "nat_at ?ps (nat_at ?ss i) = i \<and> (nat_at ?ss i < deep_T \<longrightarrow> nat_at ?ps (nat_at ?ss i + 1) = i)" if "i < deep_T" for i
  proof -
    have "nat_at ?ps x = i" if x: "x = nat_at ?ss i \<or> x = nat_at ?ss i + 1 \<and> nat_at ?ss i < deep_T" for x
    proof -
      have "deep_child ss (if i = c then l else if i = l then c else i) x"
        using x ss [OF \<open>i < deep_T\<close>] cl assms(3) \<open>i < deep_T\<close> by (auto split: if_splits)
      then show ?thesis using ps [of x] deep_child_unique [OF links] False D(5,6) [of i] \<open>i < deep_T\<close>
        by (smt (verit, best))
    qed
    then show ?thesis by simp
  qed
  moreover have "nat_at ?ps deep_R = 0"
  proof -
    have "\<not> deep_child ss p deep_R" for p
    proof
      assume child: "deep_child ss p deep_R"
      then have "deep_R < p" by (rule deep_child_below [OF links]) simp
      then show False using child by linarith
    qed
    then show ?thesis using ps [of deep_R] D(7) by metis
  qed
  ultimately show ?thesis using D(1,2) False by (auto simp: deep_links_def moved_def moved_parents_def)
qed


text \<open>What the search for the place finds when the node \<open>c\<close> is counted.\<close>

definition deep_place :: "u16 list \<Rightarrow> nat \<Rightarrow> nat \<Rightarrow> bool" where
  "deep_place fs c l \<longleftrightarrow> c \<le> l \<and> l < deep_T \<and> nat_at fs l = nat_at fs c \<and> nat_at fs c + 1 \<le> nat_at fs (l + 1)"

lemma deep_place_below:
  assumes "deep_links ss ps" and "deep_freqs fs ss c" and "deep_place fs c l" and "l \<noteq> c"
  shows "l < deep_R \<and> (nat_at ss l < deep_T \<longrightarrow> nat_at ss l + 1 < c)"
proof -
  note D = deep_linksD [OF assms(1)] and E = deep_freqsD [OF assms(2)]
  have cl: "c < l" "l < deep_T" "nat_at fs l = nat_at fs c" using assms(3,4) by (simp_all add: deep_place_def)
  have up: "deep_child ss (nat_at ps c) c" using deep_parent [OF assms(1), of c] cl by simp
  then have "c < nat_at ps c" using deep_child_below [OF assms(1)] cl by simp
  then have "nat_at fs c < nat_at fs (nat_at ps c)" using deep_child_less [OF assms(1,2) up] cl by simp
  also have "nat_at fs (nat_at ps c) \<le> nat_at fs deep_R" using E(3) [of "nat_at ps c" deep_R] up by simp
  finally have "l \<noteq> deep_R" using cl by auto
  moreover have "nat_at ss l + 1 < c" if inner: "nat_at ss l < deep_T"
  proof -
    have "nat_at fs (nat_at ss l + 1) < nat_at fs l"
      using deep_child_less [OF assms(1,2), of l "nat_at ss l + 1"] D(4) [OF cl(2) inner] inner cl assms(4) by simp
    then show ?thesis using E(3) [of c "nat_at ss l + 1"] D(4) [OF cl(2) inner] cl by (cases "nat_at ss l + 1 < c") auto
  qed
  ultimately show ?thesis using cl by auto
qed

lemma deep_freqs_moved:
  assumes links: "deep_links ss ps" and freqs: "deep_freqs fs ss c" and place: "deep_place fs c l"
    and k: "unat k = nat_at fs c + 1"
  shows "deep_freqs (fs[l := k]) (moved ss c l) (nat_at (moved_parents ss ps c l) l)"
proof -
  note D = deep_linksD [OF links] and E = deep_freqsD [OF freqs] and below = deep_place_below [OF links freqs place]
  let ?fs = "fs[l := k]" and ?ss = "moved ss c l" and ?q = "nat_at (moved_parents ss ps c l) l"
  have cl: "c \<le> l" "l < deep_T" "nat_at fs l = nat_at fs c" "nat_at fs c + 1 \<le> nat_at fs (l + 1)"
    using place by (simp_all add: deep_place_def)
  have fs: "nat_at ?fs i = (if i = l then nat_at fs c + 1 else nat_at fs i)" for i
    using cl(2) E(1) k by (simp add: nth_list_update)
  have ss: "nat_at ?ss i = (if i = c then nat_at ss l else if i = l then nat_at ss c else nat_at ss i)" if "i < deep_T" for i
    using that cl D(1) by (auto simp: moved_def nth_list_update)
  have moved: "deep_links ?ss (moved_parents ss ps c l)"
    using deep_links_moved [OF links cl(1,2)] below by blast
  note D' = deep_linksD [OF moved]
  have q: "deep_child ?ss i l \<Longrightarrow> i = ?q" for i using D'(5,6) [of i] by auto
  have sums: "nat_at ?fs (nat_at ?ss i) + nat_at ?fs (nat_at ?ss i + 1) = nat_at ?fs i + of_bool (i = ?q)"
    if i: "i < deep_T" "nat_at ?ss i < deep_T" for i
  proof -
    have down: "nat_at ?ss i + 1 < i" using D'(4) [OF i] by simp
    consider (at) "i = l" | (low) "i = c" "c \<noteq> l" | (other) "i \<noteq> c" "i \<noteq> l" by blast
    then show ?thesis
    proof cases
      case at
      have "l \<noteq> ?q"
      proof (cases "l < deep_R")
        case True
        then show ?thesis using deep_parent [OF moved, of l] deep_child_below [OF moved, of ?q l] by auto
      next
        case False
        then have "l = deep_R" using cl by simp
        then show ?thesis using D'(7) by simp
      qed
      moreover have "nat_at ?ss i = nat_at ss c" using ss [OF i(1)] at by simp
      ultimately show ?thesis using E(5) [of c] i down at cl fs by (auto split: if_splits)
    next
      case low
      have "nat_at ?ss i = nat_at ss l" using ss [OF i(1)] low by simp
      moreover have "c \<noteq> ?q"
        using deep_parent [OF moved, of l] deep_child_below [OF moved, of ?q l] below low cl by auto
      ultimately show ?thesis using E(5) [of l] i down low cl fs by (auto split: if_splits)
    next
      case other
      have v: "nat_at ?ss i = nat_at ss i" using ss [OF i(1)] other by simp
      have sum: "nat_at fs (nat_at ss i) + nat_at fs (nat_at ss i + 1) = nat_at fs i"
        using E(5) [of i] i v other by simp
      show ?thesis
      proof (cases "i = ?q")
        case True
        have "l < deep_R"
        proof (rule ccontr)
          assume "\<not> l < deep_R"
          then have "l = deep_R" using cl by simp
          then show False using D'(7) True down by simp
        qed
        then have "deep_child ?ss i l" using deep_parent [OF moved, of l] True by simp
        then have "l = nat_at ss i \<or> l = nat_at ss i + 1" unfolding v by blast
        then have "nat_at ?fs (nat_at ss i) + nat_at ?fs (nat_at ss i + 1) = nat_at fs (nat_at ss i) + nat_at fs (nat_at ss i + 1) + 1"
          using fs [of "nat_at ss i"] fs [of "nat_at ss i + 1"] cl(3) by auto
        moreover have "nat_at ?fs i = nat_at fs i" using fs [of i] other by simp
        moreover have "of_bool (i = ?q) = (1 :: nat)" using True by simp
        ultimately show ?thesis unfolding v using sum by linarith
      next
        case False
        then have "\<not> deep_child ?ss i l" using q by blast
        then have "l \<noteq> nat_at ss i" "l \<noteq> nat_at ss i + 1" using i unfolding v by blast+
        then have "nat_at ?fs (nat_at ss i) = nat_at fs (nat_at ss i)" "nat_at ?fs (nat_at ss i + 1) = nat_at fs (nat_at ss i + 1)"
          using fs [of "nat_at ss i"] fs [of "nat_at ss i + 1"] by auto
        moreover have "nat_at ?fs i = nat_at fs i" using fs [of i] other by simp
        moreover have "of_bool (i = ?q) = (0 :: nat)" using False by simp
        ultimately show ?thesis unfolding v using sum by linarith
      qed
    qed
  qed
  have "nat_at ?fs i \<le> nat_at ?fs j" if "i \<le> j" "j < deep_T" for i j
  proof (cases "i = l \<and> l < j")
    case True
    then have "nat_at fs (l + 1) \<le> nat_at fs j" using E(3) [of "l + 1" j] that by simp
    then show ?thesis using True cl fs by simp
  next
    case False
    then show ?thesis using that E(3) [of i j] cl fs by auto
  qed
  moreover have "0 < nat_at ?fs i" if "i < deep_T" for i using E(4) that fs by simp
  ultimately show ?thesis using E(1,2) cl sums by (simp add: deep_freqs_def)
qed

text \<open>The symbols keep their counts, except the one at \<open>c\<close>.\<close>

abbreviation symbol_count :: "dms_state \<Rightarrow> nat \<Rightarrow> nat" where
  "symbol_count st s \<equiv> nat_at (freq st) (nat_at (prnt st) (deep_T + s))"

lemma moved_counts:
  assumes links: "deep_links ss ps" and "length fs = deep_T + 1" and place: "deep_place fs c l"
    and k: "unat k = nat_at fs c + 1" and "s < deep_N_CHAR"
  shows "nat_at (fs[l := k]) (nat_at (moved_parents ss ps c l) (deep_T + s)) =
    nat_at fs (nat_at ps (deep_T + s)) + of_bool (nat_at ps (deep_T + s) = c)"
proof -
  note D = deep_linksD [OF links]
  have cl: "c \<le> l" "l < deep_T" "nat_at fs l = nat_at fs c" using place by (simp_all add: deep_place_def)
  have fs: "nat_at (fs[l := k]) i = (if i = l then nat_at fs c + 1 else nat_at fs i)" for i
    using cl(2) assms(2) k by (simp add: nth_list_update)
  have child: "deep_child ss p (deep_T + s) \<longleftrightarrow> nat_at ps (deep_T + s) = p" if "p < deep_T" for p
  proof
    have own: "deep_child ss (nat_at ps (deep_T + s)) (deep_T + s)" by (rule deep_parent [OF links]) (simp add: assms(5))
    show "deep_child ss p (deep_T + s) \<Longrightarrow> nat_at ps (deep_T + s) = p" by (rule deep_child_unique [OF links own])
    show "nat_at ps (deep_T + s) = p \<Longrightarrow> deep_child ss p (deep_T + s)" using own by simp
  qed
  have "nat_at (moved_parents ss ps c l) (deep_T + s) =
      (if l = c then nat_at ps (deep_T + s) else if deep_child ss l (deep_T + s) then c
       else if deep_child ss c (deep_T + s) then l else nat_at ps (deep_T + s))"
    using cl D(2,3) by (simp add: moved_parents_def nth_kids_to)
  also have "\<dots> = (if l = c then nat_at ps (deep_T + s) else if nat_at ps (deep_T + s) = l then c
      else if nat_at ps (deep_T + s) = c then l else nat_at ps (deep_T + s))"
    using child [of l] child [of c] cl by simp
  finally have parent: "nat_at (moved_parents ss ps c l) (deep_T + s) = \<dots>" .
  consider "l = c" | "l \<noteq> c" "nat_at ps (deep_T + s) = l" | "l \<noteq> c" "nat_at ps (deep_T + s) \<noteq> l" by blast
  then show ?thesis unfolding parent fs using cl(3) by cases simp_all
qed

definition climbing :: "dms_state \<Rightarrow> nat \<Rightarrow> bool" where
  "climbing st c \<longleftrightarrow> deep_links (son st) (prnt st) \<and> deep_freqs (freq st) (son st) c \<and> c < deep_T \<and> nat_at (freq st) deep_R < 0x8000"

abbreviation counted :: "dms_state \<Rightarrow> nat \<Rightarrow> nat \<Rightarrow> dms_state" where
  "counted st c l \<equiv> st\<lparr>freq := (freq st)[l := freq st ! c + 1], son := moved (son st) c l, prnt := moved_parents (son st) (prnt st) c l\<rparr>"

lemma count_next:
  assumes "climbing st c"
  shows "unat (freq st ! c + 1) = nat_at (freq st) c + 1" "nat_at (freq st) c + 1 \<le> 0x8000"
proof -
  have "nat_at (freq st) c \<le> nat_at (freq st) deep_R"
    using assms deep_freqsD(3) [of "freq st" "son st" c c deep_R] by (simp add: climbing_def)
  then show bound: "nat_at (freq st) c + 1 \<le> 0x8000" using assms by (simp add: climbing_def)
  show "unat (freq st ! c + 1) = nat_at (freq st) c + 1" using bound by (subst unat_add_exact) simp_all
qed

lemma deep_count_ok:
  assumes "climbing st c"
  shows "\<exists>l. deep_place (freq st) c l \<and> deep_count st c = Ok (counted st c l, l)"
proof -
  let ?fs = "freq st" and ?k = "freq st ! c + 1"
  have links: "deep_links (son st) (prnt st)" and freqs: "deep_freqs ?fs (son st) c" and c: "c < deep_T"
    using assms by (simp_all add: climbing_def)
  note D = deep_linksD [OF links] and E = deep_freqsD [OF freqs] and k = count_next [OF assms]
  let ?up = "?fs[c := ?k]"
  have up: "length ?up = deep_T + 1" "?up ! deep_T = 0xffff" "\<And>i. i \<noteq> c \<Longrightarrow> ?up ! i = ?fs ! i"
    using E(1,2) c by simp_all
  have top: "\<not> ?k > 0xffff"
    using unat_u16_less [of ?k] by (simp add: word_less_nat_alt)
  show ?thesis
  proof (cases "?k > ?fs ! (c + 1)")
    case False
    then have "nat_at ?fs c + 1 \<le> nat_at ?fs (c + 1)" using k(1) by (simp add: word_less_nat_alt)
    then have "deep_place ?fs c c" using c by (simp add: deep_place_def)
    moreover have "deep_count st c = Ok (counted st c c, c)"
      using False c E(1) by (simp add: deep_count_def get_at_def put_at_def moved_def moved_parents_def)
    ultimately show ?thesis by blast
  next
    case True
    have "c + 1 < deep_T"
    proof (rule ccontr)
      assume "\<not> c + 1 < deep_T"
      then have "c + 1 = deep_T" using c by simp
      then show False using True E(2) top by simp
    qed
    from last_below_ok [OF up(1,2) this, of ?k] obtain l where l: "last_below ?up ?k (c + 1) = Ok l" "c + 1 \<le> l" "l < deep_T"
      "?k \<le> ?up ! (l + 1)" "\<And>m. c + 1 < m \<Longrightarrow> m \<le> l \<Longrightarrow> ?up ! m < ?k" by blast
    have "?fs ! l < ?k" using l(2) l(5) [of l] True up(3) [of l] by (cases "l = c + 1") auto
    then have "nat_at ?fs l < nat_at ?fs c + 1" using k(1) by (simp add: word_less_nat_alt)
    moreover have "nat_at ?fs c \<le> nat_at ?fs l" using E(3) [of c l] l(2,3) by simp
    ultimately have same: "nat_at ?fs l = nat_at ?fs c" by simp
    have "nat_at ?fs c + 1 \<le> nat_at ?fs (l + 1)" using l(2,4) up(3) [of "l + 1"] k(1) by (simp add: word_le_nat_alt)
    then have place: "deep_place ?fs c l" using l(2,3) same by (simp add: deep_place_def)
    have undo: "?up[c := ?fs ! l, l := ?k] = ?fs[l := ?k]" using word_unat_eq_iff [THEN iffD2, OF same] by simp
    have "deep_swap (st\<lparr>freq := ?up\<rparr>) c l ?k = Ok (counted st c l)"
      using l(2,3) c E(1) D(1,2) D(3) [of c] D(3) [of l] undo
      by (simp add: deep_swap_def get_at_def put_at_def set_parent_ok moved_def moved_parents_def)
    then have "deep_count st c = Ok (counted st c l, l)"
      using True c E(1) l(1) by (simp add: deep_count_def get_at_def put_at_def)
    with place show ?thesis by blast
  qed
qed

text \<open>The climb reaches the root.\<close>

lemma deep_freqs_root: "deep_links ss ps \<Longrightarrow> deep_freqs fs ss 0 \<longleftrightarrow> deep_freqs fs ss deep_T"
  using deep_linksD(4) [of ss ps 0] by (auto simp: deep_freqs_def)

lemma counted_next:
  assumes "climbing st c" and "deep_place (freq st) c l"
  shows "deep_links (moved (son st) c l) (moved_parents (son st) (prnt st) c l)"
    "deep_freqs ((freq st)[l := freq st ! c + 1]) (moved (son st) c l) (nat_at (moved_parents (son st) (prnt st) c l) l)"
    "s < deep_N_CHAR \<Longrightarrow> symbol_count (counted st c l) s = symbol_count st s + of_bool (nat_at (prnt st) (deep_T + s) = c)"
proof -
  have links: "deep_links (son st) (prnt st)" and freqs: "deep_freqs (freq st) (son st) c" using assms(1) by (simp_all add: climbing_def)
  show "deep_links (moved (son st) c l) (moved_parents (son st) (prnt st) c l)"
    using assms(2) deep_place_below [OF links freqs assms(2)] by (intro deep_links_moved [OF links]) (auto simp: deep_place_def)
  show "deep_freqs ((freq st)[l := freq st ! c + 1]) (moved (son st) c l) (nat_at (moved_parents (son st) (prnt st) c l) l)"
    by (rule deep_freqs_moved [OF links freqs assms(2) count_next(1) [OF assms(1)]])
  show "s < deep_N_CHAR \<Longrightarrow> symbol_count (counted st c l) s = symbol_count st s + of_bool (nat_at (prnt st) (deep_T + s) = c)"
    using moved_counts [OF links deep_freqsD(1) [OF freqs] assms(2) count_next(1) [OF assms(1)]] by simp
qed

lemma deep_climb_ok:
  assumes "climbing st c"
  shows "\<exists>f s p. deep_climb st c = Some (Ok (st\<lparr>freq := f, son := s, prnt := p\<rparr>)) \<and> deep_tree (st\<lparr>freq := f, son := s, prnt := p\<rparr>) \<and>
    (\<forall>i<deep_N_CHAR. symbol_count (st\<lparr>freq := f, son := s, prnt := p\<rparr>) i = symbol_count st i + of_bool (nat_at (prnt st) (deep_T + i) = c))"
  using assms
proof (induction "deep_T - c" arbitrary: st c rule: less_induct)
  case less
  obtain l where l: "deep_place (freq st) c l" "deep_count st c = Ok (counted st c l, l)"
    using deep_count_ok [OF less.prems] by blast
  let ?st = "counted st c l"
  let ?q = "nat_at (prnt ?st) l"
  note after = counted_next [OF less.prems l(1)] and k = count_next [OF less.prems]
  have cl: "c \<le> l" "l < deep_T" using l(1) by (simp_all add: deep_place_def)
  have "length (prnt ?st) = deep_T + deep_N_CHAR" using deep_linksD(2) [OF after(1)] by simp
  then have run: "deep_climb st c = (if ?q = 0 then Some (Ok ?st) else deep_climb ?st ?q)"
    using l(2) cl by (subst deep_climb.simps) (simp add: get_at_def)
  show ?case
  proof (cases "?q = 0")
    case True
    have "l = deep_R"
    proof (rule ccontr)
      assume "l \<noteq> deep_R"
      then have "deep_child (son ?st) ?q l" using deep_parent [OF after(1), of l] cl by simp
      then show False using True deep_child_below [OF after(1), of ?q l] cl by simp
    qed
    then have "nat_at (freq ?st) deep_R \<le> 0x8000"
      using k cl deep_freqsD(1) [of "freq st" "son st" c] less.prems by (simp add: climbing_def)
    moreover have "deep_freqs (freq ?st) (son ?st) deep_T"
      using after(2) True deep_freqs_root [OF after(1)] by simp
    ultimately have "deep_tree ?st" using after(1) by (simp add: deep_tree_def)
    then show ?thesis using run True after(3) by (intro exI) auto
  next
    case False
    then have "l \<noteq> deep_R" using deep_linksD(7) [OF after(1)] by auto
    then have child: "deep_child (son ?st) ?q l" using deep_parent [OF after(1), of l] cl by simp
    then have up: "l < ?q" "?q < deep_T" using deep_child_below [OF after(1), of ?q l] cl by simp_all
    have "nat_at (freq ?st) deep_R = nat_at (freq st) deep_R" using \<open>l \<noteq> deep_R\<close> by simp
    then have climb: "climbing ?st ?q"
      using after(1,2) up(2) less.prems by (simp add: climbing_def)
    have inner: "nat_at (prnt ?st) (deep_T + i) \<noteq> ?q" if "i < deep_N_CHAR" for i
    proof
      assume "nat_at (prnt ?st) (deep_T + i) = ?q"
      then have "deep_child (son ?st) ?q (deep_T + i)" using deep_parent [OF after(1), of "deep_T + i"] that by simp
      then show False using child cl \<open>l \<noteq> deep_R\<close> by auto
    qed
    have "deep_T - ?q < deep_T - c" using up cl by simp
    from less.hyps [OF this climb] show ?thesis
      using run False after(3) inner by auto
  qed
qed

end
