(* ===== verification/Dms_Rebuild.thy ===== *)
theory Dms_Rebuild
  imports Dms_Tree
begin

text \<open>
  How the adaptive tree of \<^verbatim>\<open>dms.rs\<close> is built from its leaves, by joining the two lowest nodes
  that have no parent: at the start, and with halved counts when the counts are full. Both
  give a tree.
\<close>


declare upt_rec_numeral [simp del]

section \<open>Building a tree\<close>

lemma for_each_upt_ok:
  assumes "a \<le> b" and "P a s" and "\<And>i s. a \<le> i \<Longrightarrow> i < b \<Longrightarrow> P i s \<Longrightarrow> \<exists>t. f i s = Ok t \<and> P (Suc i) t"
  shows "\<exists>t. for_each f [a..<b] s = Ok t \<and> P b t"
  using assms
proof (induction "b - a" arbitrary: a s)
  case (Suc n)
  then obtain t where t: "f a s = Ok t" "P (Suc a) t" by (metis Suc_neq_Zero diff_is_0_eq' le_refl less_Suc_eq_le not_less_eq linorder_not_le)
  have "\<exists>u. for_each f [Suc a..<b] t = Ok u \<and> P b u"
    using Suc.hyps(2) Suc.prems(3) t(2) by (intro Suc.hyps(1)) auto
  then show ?case using t Suc.hyps(2) by (subst upt_conv_Cons) auto
qed auto

text \<open>
  The first \<open>j\<close> nodes are there: the symbols and \<open>j - 314\<close> joined pairs; the counts of the
  nodes that have no parent yet sum up to \<open>W\<close>.
\<close>

definition building :: "nat \<Rightarrow> nat \<Rightarrow> u16 list \<Rightarrow> u16 list \<Rightarrow> bool" where
  "building W j fs ss \<longleftrightarrow> deep_N_CHAR \<le> j \<and> j \<le> deep_T \<and> length fs = deep_T + 1 \<and> length ss = deep_T \<and>
     (\<forall>a b. a \<le> b \<longrightarrow> b < j \<longrightarrow> nat_at fs a \<le> nat_at fs b) \<and> (\<forall>a<j. 0 < nat_at fs a) \<and>
     mset (map unat (take j ss)) = mset ([deep_T..<deep_T + deep_N_CHAR] @ map (\<lambda>n. 2 * n) [0..<j - deep_N_CHAR]) \<and>
     (\<forall>a<j. nat_at ss a < deep_T \<longrightarrow> nat_at ss a + 1 < a \<and> nat_at fs (nat_at ss a) + nat_at fs (nat_at ss a + 1) = nat_at fs a) \<and>
     sum_list (map unat (drop (2 * (j - deep_N_CHAR)) (take j fs))) = W"

definition insert_at :: "'a list \<Rightarrow> nat \<Rightarrow> nat \<Rightarrow> 'a \<Rightarrow> 'a list" where
  "insert_at xs k j v = take k xs @ [v] @ drop k (take j xs) @ drop (j + 1) xs"

lemma insert_at_props:
  assumes "k \<le> j" and "j < length xs"
  shows "length (insert_at xs k j v) = length xs"
    "take (j + 1) (insert_at xs k j v) = take k xs @ [v] @ drop k (take j xs)"
    "insert_at xs k j v ! a = (if a < k then xs ! a else if a = k then v else if a \<le> j then xs ! (a - 1) else xs ! a)"
    "insert_at (xs[j := w]) k j v = insert_at xs k j v"
proof -
  have len: "length (take k xs @ [v] @ drop k (take j xs)) = j + 1" using assms by simp
  show "length (insert_at xs k j v) = length xs" using assms by (simp add: insert_at_def)
  show "take (j + 1) (insert_at xs k j v) = take k xs @ [v] @ drop k (take j xs)"
    unfolding insert_at_def using len by (metis append.assoc append_eq_conv_conj)
  show "insert_at (xs[j := w]) k j v = insert_at xs k j v" using assms by (simp add: insert_at_def drop_update_cancel take_update_cancel)
  show "insert_at xs k j v ! a = (if a < k then xs ! a else if a = k then v else if a \<le> j then xs ! (a - 1) else xs ! a)"
  proof (cases "k < a")
    case True
    then obtain m where a: "a = Suc (k + m)" using less_imp_Suc_add by blast
    then show ?thesis using assms by (cases "a \<le> j") (auto simp: insert_at_def nth_append min_def add.commute)
  next
    case False
    then show ?thesis using assms by (auto simp: insert_at_def nth_append min_def)
  qed
qed

lemma building_open:
  assumes "building W j fs ss" and "j < deep_T"
  shows "sum_list (map unat (drop (2 * (j - deep_N_CHAR)) (take j fs))) =
    nat_at fs (2 * (j - deep_N_CHAR)) + nat_at fs (2 * (j - deep_N_CHAR) + 1) +
    sum_list (map unat (drop (2 * (j - deep_N_CHAR) + 2) (take j fs)))"
proof -
  let ?i = "2 * (j - 314)" and ?xs = "take j fs"
  have "?i + 1 < j" "j \<le> length fs" using assms by (auto simp: building_def)
  then have "drop ?i ?xs = fs ! ?i # fs ! (?i + 1) # drop (?i + 2) ?xs"
    by (simp add: Cons_nth_drop_Suc [symmetric])
  then show ?thesis by simp
qed

lemma building_node:
  assumes "building W j fs ss" and "a < j"
  shows "nat_at ss a < deep_T \<Longrightarrow> even (nat_at ss a) \<and> nat_at ss a + 1 < 2 * (j - deep_N_CHAR)"
    "nat_at ss a < deep_T + deep_N_CHAR"
proof -
  have "j \<le> length ss" and nodes: "mset (map unat (take j ss)) = mset ([deep_T..<deep_T + deep_N_CHAR] @ map (\<lambda>n. 2 * n) [0..<j - deep_N_CHAR])"
    using assms(1) by (simp_all add: building_def)
  then have "nat_at ss a = map unat (take j ss) ! a" "a < length (map unat (take j ss))" using assms(2) by simp_all
  then have "nat_at ss a \<in> set (map unat (take j ss))" by (metis nth_mem)
  then have "nat_at ss a \<in> set ([deep_T..<deep_T + deep_N_CHAR] @ map (\<lambda>n. 2 * n) [0..<j - deep_N_CHAR])"
    using mset_eq_setD [OF nodes] by simp
  moreover have "j \<le> 627" using assms(1) by (simp add: building_def)
  ultimately show "nat_at ss a < deep_T \<Longrightarrow> even (nat_at ss a) \<and> nat_at ss a + 1 < 2 * (j - deep_N_CHAR)"
    "nat_at ss a < deep_T + deep_N_CHAR" by auto
qed

lemma building_insert:
  assumes "building W j fs ss" and "j < deep_T" and i: "i = 2 * (j - deep_N_CHAR)" and k: "i + 2 \<le> k" "k \<le> j"
    and f: "unat f = nat_at fs i + nat_at fs (i + 1)"
    and low: "\<And>a. a < k \<Longrightarrow> nat_at fs a \<le> unat f" and high: "\<And>a. k \<le> a \<Longrightarrow> a < j \<Longrightarrow> unat f \<le> nat_at fs a"
  shows "building W (Suc j) (insert_at fs k j f) (insert_at ss k j (word_of_nat i))"
proof -
  let ?fs = "insert_at fs k j f" and ?ss = "insert_at ss k j (word_of_nat i)"
  have B: "deep_N_CHAR \<le> j" "length fs = deep_T + 1" "length ss = deep_T"
    "\<And>a b. a \<le> b \<Longrightarrow> b < j \<Longrightarrow> nat_at fs a \<le> nat_at fs b" "\<And>a. a < j \<Longrightarrow> 0 < nat_at fs a"
    "mset (map unat (take j ss)) = mset ([deep_T..<deep_T + deep_N_CHAR] @ map (\<lambda>n. 2 * n) [0..<j - deep_N_CHAR])"
    "\<And>a. a < j \<Longrightarrow> nat_at ss a < deep_T \<Longrightarrow> nat_at ss a + 1 < a \<and> nat_at fs (nat_at ss a) + nat_at fs (nat_at ss a + 1) = nat_at fs a"
    "sum_list (map unat (drop i (take j fs))) = W"
    using assms(1) i by (simp_all add: building_def)
  have jf: "j < length fs" and js: "j < length ss" using B(2,3) assms(2) by simp_all
  have "i < 65536" using i assms(2) by simp
  then have iw: "unat (word_of_nat i :: u16) = i" by (simp add: unat_of_nat)
  note F = insert_at_props [OF k(2) jf] and S = insert_at_props [OF k(2) js]
  have Fk: "nat_at ?fs a = (if a < k then nat_at fs a else if a = k then unat f else nat_at fs (a - 1))" if "a \<le> j" for a
    using F(3) [of f a] that by simp
  have Sk: "nat_at ?ss a = (if a < k then nat_at ss a else if a = k then i else nat_at ss (a - 1))" if "a \<le> j" for a
    using S(3) [of "word_of_nat i" a] that iw by simp
  have "nat_at ?fs a \<le> nat_at ?fs b" if "a \<le> b" "b < Suc j" for a b
    using that low [of a] high [of "b - 1"] B(4) [of a b] B(4) [of a "b - 1"] B(4) [of "a - 1" "b - 1"] Fk [of a] Fk [of b] k by auto
  moreover have "0 < nat_at ?fs a" if "a < Suc j" for a
    using that B(5) Fk [of a] f k by auto
  moreover have "mset (map unat (take (Suc j) ?ss)) = mset ([deep_T..<deep_T + deep_N_CHAR] @ map (\<lambda>n. 2 * n) [0..<Suc j - deep_N_CHAR])"
  proof -
    have "take j ss = take k ss @ drop k (take j ss)" using k(2) by (metis append_take_drop_id min.absorb1 take_take)
    then have "mset (map unat (take (Suc j) ?ss)) = add_mset i (mset (map unat (take j ss)))"
      using S(2) [of "word_of_nat i"] iw by (metis (no_types, lifting) Suc_eq_plus1 append_Cons append_Nil list.simps(9) map_append mset.simps(2) mset_append union_mset_add_mset_right)
    moreover have "map (\<lambda>n. 2 * n) [0..<Suc j - deep_N_CHAR] = map (\<lambda>n. 2 * n) [0..<j - deep_N_CHAR] @ [i]"
      unfolding Suc_diff_le [OF B(1)] by (simp add: i)
    ultimately show ?thesis unfolding B(6) by (simp del: upt_rec_numeral)
  qed
  moreover have "nat_at ?ss a + 1 < a \<and> nat_at ?fs (nat_at ?ss a) + nat_at ?fs (nat_at ?ss a + 1) = nat_at ?fs a"
    if a: "a < Suc j" "nat_at ?ss a < deep_T" for a
  proof -
    consider "a < k" | "a = k" | b where "a = Suc b" "k \<le> b" "b < j"
      using a(1) by (metis less_Suc_eq_le linorder_neqE_nat not_less_eq Suc_less_eq gr0_implies_Suc gr_implies_not0 not0_implies_Suc)
    then show ?thesis
    proof cases
      case 1
      then show ?thesis using a B(7) [of a] k Fk Sk [of a] by simp
    next
      case 2
      then show ?thesis using Fk Sk [of a] k f by simp
    next
      case 3
      then have "nat_at ?ss a = nat_at ss b" using Sk [of a] by simp
      then have inner: "nat_at ss b < deep_T" using a(2) by simp
      have "nat_at ss b + 1 < k" using building_node(1) [OF assms(1) 3(3) inner] i k by simp
      then show ?thesis using B(7) [OF 3(3) inner] Fk [of a] Fk [of "nat_at ss b"] Fk [of "nat_at ss b + 1"] 3 k
          \<open>nat_at ?ss a = nat_at ss b\<close> by simp
    qed
  qed
  moreover have "sum_list (map unat (drop (2 * (Suc j - deep_N_CHAR)) (take (Suc j) ?fs))) = W"
  proof -
    have split: "take j fs = take k fs @ drop k (take j fs)" using k(2) by (metis append_take_drop_id min.absorb1 take_take)
    have "drop (i + 2) (take (Suc j) ?fs) = drop (i + 2) (take k fs) @ f # drop k (take j fs)"
      using F(2) [of f] k B(2) assms(2) by simp
    moreover have "drop (i + 2) (take j fs) = drop (i + 2) (take k fs) @ drop k (take j fs)"
      by (subst split) (use k B(2) assms(2) in simp)
    moreover have "2 * (Suc j - deep_N_CHAR) = i + 2" using i B(1) by simp
    ultimately show ?thesis using building_open [OF assms(1,2)] B(8) f i by simp
  qed
  ultimately show ?thesis
    using B(1-3) assms(2) F(1) S(1) by (simp add: building_def)
qed


text \<open>The finished nodes are a tree when the parents are set.\<close>

definition parents_to :: "nat \<Rightarrow> u16 list \<Rightarrow> u16 list \<Rightarrow> bool" where
  "parents_to n ss ps \<longleftrightarrow> length ps = deep_T + deep_N_CHAR \<and>
     (\<forall>i<n. nat_at ps (nat_at ss i) = i \<and> (nat_at ss i < deep_T \<longrightarrow> nat_at ps (nat_at ss i + 1) = i))"

lemma built_links:
  assumes "building W deep_T fs ss" and "parents_to deep_T ss ps" and "nat_at ps deep_R = 0"
  shows "deep_links ss ps"
proof -
  have "take deep_T ss = ss" using assms(1) by (simp add: building_def)
  then show ?thesis using assms by (simp add: building_def parents_to_def deep_links_def deep_nodes_def)
qed

lemma built_freqs:
  assumes "building W deep_T fs ss" and "fs ! deep_T = 0xffff"
  shows "deep_freqs fs ss deep_T \<and> nat_at fs deep_R = W"
proof -
  have "length fs = 628" and total: "sum_list (map unat (drop 626 (take 627 fs))) = W" using assms(1) by (simp_all add: building_def)
  then have "drop 626 (take 627 fs) = [fs ! 626]" by (simp add: Cons_nth_drop_Suc [symmetric])
  then show ?thesis using assms total by (simp add: building_def deep_freqs_def)
qed

lemma building_top:
  assumes "building W deep_T fs ss" shows "building W deep_T (fs[deep_T := v]) ss"
proof -
  have below: "fs[deep_T := v] ! a = fs ! a" if "a < deep_T" for a using that by simp
  have "nat_at ss a + 1 < deep_T" if "a < deep_T" "nat_at ss a < deep_T" for a
    using assms that by (auto simp: building_def dest!: spec [of _ a])
  then have "\<forall>a<deep_T. nat_at ss a < deep_T \<longrightarrow> nat_at ss a + 1 < a \<and>
      nat_at (fs[deep_T := v]) (nat_at ss a) + nat_at (fs[deep_T := v]) (nat_at ss a + 1) = nat_at (fs[deep_T := v]) a"
    using assms below unfolding building_def by metis
  moreover have "take deep_T (fs[deep_T := v]) = take deep_T fs" by simp
  ultimately show ?thesis using assms below unfolding building_def by (elim conjE) (intro conjI; simp)
qed

text \<open>The pairs of children of different nodes are different.\<close>

lemma building_apart:
  assumes "building W j fs ss" and "a < j" and "b < j" and "a \<noteq> b"
    and "x = nat_at ss a \<or> x = nat_at ss a + 1 \<and> nat_at ss a < deep_T"
  shows "\<not> (x = nat_at ss b \<or> x = nat_at ss b + 1 \<and> nat_at ss b < deep_T)"
proof -
  have "j \<le> length ss" and nodes: "mset (map unat (take j ss)) = mset ([deep_T..<deep_T + deep_N_CHAR] @ map (\<lambda>n. 2 * n) [0..<j - deep_N_CHAR])"
    "j \<le> deep_T" using assms(1) by (simp_all add: building_def)
  have "distinct ([deep_T..<deep_T + deep_N_CHAR] @ map (\<lambda>n. 2 * n) [0..<j - deep_N_CHAR])"
    using nodes(2) by (auto simp: distinct_map inj_on_def)
  then have "distinct (map unat (take j ss))" using mset_eq_imp_distinct_iff [OF nodes(1)] by simp
  then have ne: "nat_at ss a \<noteq> nat_at ss b"
    using assms(2-4) \<open>j \<le> length ss\<close> by (auto simp: distinct_conv_nth)
  have even: "nat_at ss c < deep_T \<Longrightarrow> even (nat_at ss c) \<and> nat_at ss c + 1 < deep_T" if "c < j" for c
    using building_node(1) [OF assms(1) that] nodes(2) by auto
  show ?thesis using ne even [OF assms(2)] even [OF assms(3)] assms(5) by presburger
qed

lemma parents_step:
  assumes "building W j fs ss" and "n < j" and "parents_to n ss ps"
  shows "parents_to (Suc n) ss (kids_to ps (nat_at ss n) n)"
proof -
  have len: "length ps = deep_T + deep_N_CHAR" and done_before:
    "\<And>i. i < n \<Longrightarrow> nat_at ps (nat_at ss i) = i \<and> (nat_at ss i < deep_T \<longrightarrow> nat_at ps (nat_at ss i + 1) = i)"
    using assms(3) by (simp_all add: parents_to_def)
  have "n < 627" using assms(1,2) by (simp add: building_def)
  note kids = nth_kids_to [OF len building_node(2) [OF assms(1,2)] this]
  have "nat_at (kids_to ps (nat_at ss n) n) x = i"
    if i: "i < Suc n" "x = nat_at ss i \<or> x = nat_at ss i + 1 \<and> nat_at ss i < deep_T" for i x
  proof (cases "i = n")
    case True
    then show ?thesis using i(2) kids [of x] by auto
  next
    case False
    then have "\<not> (x = nat_at ss n \<or> x = nat_at ss n + 1 \<and> nat_at ss n < deep_T)"
      using building_apart [OF assms(1) _ assms(2), of i x] i assms(2) by simp
    then show ?thesis using kids [of x] done_before [of i] i False by auto
  qed
  then show ?thesis using len by (simp add: parents_to_def)
qed

section \<open>The first tree\<close>

text \<open>All of the state but the tree.\<close>

abbreviation off_tree :: "dms_state \<Rightarrow> dms_state" where
  "off_tree st \<equiv> st\<lparr>freq := [], son := [], prnt := []\<rparr>"

definition leaves_to :: "nat \<Rightarrow> dms_state \<Rightarrow> bool" where
  "leaves_to n st \<longleftrightarrow> length (freq st) = deep_T + 1 \<and> length (son st) = deep_T \<and> length (prnt st) = deep_T + deep_N_CHAR \<and>
     (\<forall>a<n. freq st ! a = 1 \<and> nat_at (son st) a = a + deep_T \<and> nat_at (prnt st) (a + deep_T) = a)"

lemma deep_leaf_ok:
  assumes "n < deep_N_CHAR" and "leaves_to n st"
  shows "\<exists>st'. deep_leaf n st = Ok st' \<and> leaves_to (Suc n) st' \<and> off_tree st' = off_tree st"
proof -
  let ?st = "st\<lparr>freq := (freq st)[n := 1], son := (son st)[n := word_of_nat (n + deep_T)], prnt := (prnt st)[n + deep_T := word_of_nat n]\<rparr>"
  have words: "unat (word_of_nat n :: u16) = n" "unat (word_of_nat (n + deep_T) :: u16) = n + deep_T"
    using assms(1) by (simp_all add: unat_of_nat del: of_nat_add)
  have "deep_leaf n st = Ok ?st" using assms by (simp add: deep_leaf_def leaves_to_def put_at_def)
  moreover have "leaves_to (Suc n) ?st"
    using assms words by (auto simp: leaves_to_def nth_list_update simp del: of_nat_add)
  ultimately show ?thesis by simp
qed

lemma leaves_building:
  assumes "leaves_to deep_N_CHAR st"
  shows "building deep_N_CHAR deep_N_CHAR (freq st) (son st) \<and> parents_to deep_N_CHAR (son st) (prnt st)"
proof -
  have L: "length (freq st) = deep_T + 1" "length (son st) = deep_T" "length (prnt st) = deep_T + deep_N_CHAR"
    "\<And>a. a < deep_N_CHAR \<Longrightarrow> freq st ! a = 1 \<and> nat_at (son st) a = a + deep_T \<and> nat_at (prnt st) (a + deep_T) = a"
    using assms by (simp_all add: leaves_to_def)
  have "map unat (take deep_N_CHAR (son st)) = [deep_T..<deep_T + deep_N_CHAR]"
    using L(2,4) by (intro nth_equalityI) (auto simp: add.commute)
  moreover have "take deep_N_CHAR (freq st) = replicate deep_N_CHAR 1"
    using L(1,4) by (intro nth_equalityI) auto
  moreover have "sum_list (map unat (replicate n (1 :: u16))) = n" for n by (induction n) simp_all
  ultimately show ?thesis using L by (simp add: building_def parents_to_def)
qed

definition joined_to :: "nat \<Rightarrow> nat \<times> dms_state \<Rightarrow> bool" where
  "joined_to j = (\<lambda>(i, st). i = 2 * (j - deep_N_CHAR) \<and> building deep_N_CHAR j (freq st) (son st) \<and> parents_to j (son st) (prnt st) \<and>
     (j < deep_T \<longrightarrow> nat_at (freq st) (j - 1) \<le> nat_at (freq st) i + nat_at (freq st) (i + 1)))"

lemma building_sum_word:
  assumes "building W j fs ss" and "j < deep_T" and "W < 65536" and "i = 2 * (j - deep_N_CHAR)"
  shows "unat (fs ! i + fs ! (i + 1)) = nat_at fs i + nat_at fs (i + 1)" "nat_at fs i + nat_at fs (i + 1) \<le> W"
proof -
  have "sum_list (map unat (drop i (take j fs))) = W" using assms(1,4) by (simp add: building_def)
  then show "nat_at fs i + nat_at fs (i + 1) \<le> W" using building_open [OF assms(1,2)] assms(4) by simp
  then show "unat (fs ! i + fs ! (i + 1)) = nat_at fs i + nat_at fs (i + 1)" using assms(3) by (intro unat_add_exact) simp
qed

lemma deep_join_ok:
  assumes "deep_N_CHAR \<le> j" and "j < deep_T" and "joined_to j s"
  shows "\<exists>s'. deep_join j s = Ok s' \<and> joined_to (Suc j) s' \<and> off_tree (snd s') = off_tree (snd s)"
proof -
  obtain i st where s: "s = (i, st)" by (cases s)
  have i: "i = 2 * (j - deep_N_CHAR)" and B: "building deep_N_CHAR j (freq st) (son st)" and P: "parents_to j (son st) (prnt st)"
    and last: "nat_at (freq st) (j - 1) \<le> nat_at (freq st) i + nat_at (freq st) (i + 1)"
    using assms(2,3) unfolding joined_to_def s by auto
  let ?f = "freq st ! i + freq st ! (i + 1)"
  note f = building_sum_word [OF B assms(2) _ i]
  have len: "length (freq st) = deep_T + 1" "length (son st) = deep_T" "length (prnt st) = deep_T + deep_N_CHAR"
    using B P by (simp_all add: building_def parents_to_def)
  have sorted: "\<And>a b. a \<le> b \<Longrightarrow> b < j \<Longrightarrow> nat_at (freq st) a \<le> nat_at (freq st) b" using B by (simp add: building_def)
  let ?fs = "(freq st)[j := ?f]" and ?ss = "(son st)[j := word_of_nat i]" and ?ps = "kids_to (prnt st) i j"
  have ij: "i + 2 \<le> j" using i assms(1,2) by simp
  have at_end: "insert_at xs j j v = xs[j := v]" if "j < length xs" for xs and v :: u16
    using that by (simp add: insert_at_def upd_conv_take_nth_drop)
  have B': "building deep_N_CHAR (Suc j) ?fs ?ss"
  proof -
    have low: "nat_at (freq st) a \<le> unat ?f" if "a < j" for a
    proof -
      have "a \<le> j - 1" "j - 1 < j" using that by simp_all
      then show ?thesis using sorted [of a "j - 1"] last f(1) by linarith
    qed
    have "building deep_N_CHAR (Suc j) (insert_at (freq st) j j ?f) (insert_at (son st) j j (word_of_nat i))"
      by (rule building_insert [OF B assms(2) i ij order_refl _ low]) (use f(1) in simp_all)
    then show ?thesis using at_end len assms(2) by simp
  qed
  have "i < 65536" using i assms(2) by simp
  then have iw: "nat_at ?ss j = i" using len assms(2) by (simp add: unat_of_nat)
  have "parents_to j ?ss (prnt st)" using P by (simp add: parents_to_def)
  from parents_step [OF B' _ this] iw have P': "parents_to (Suc j) ?ss ?ps" by simp
  have "deep_join j s = Ok (i + 2, st\<lparr>freq := ?fs, son := ?ss, prnt := ?ps\<rparr>)"
    using len assms(2) ij by (simp add: deep_join_def s get_at_def put_at_def kids_to_def)
  moreover have "joined_to (Suc j) (i + 2, st\<lparr>freq := ?fs, son := ?ss, prnt := ?ps\<rparr>)"
  proof -
    have "nat_at ?fs j \<le> nat_at ?fs (i + 2) + nat_at ?fs (i + 3)" if "Suc j < deep_T"
    proof -
      have up: "nat_at ?fs a \<le> nat_at ?fs b" if "a \<le> b" "b < Suc j" for a b using B' that by (simp add: building_def)
      have "i + 3 < Suc j" using i that assms(1) by simp
      then have "nat_at ?fs i \<le> nat_at ?fs (i + 2)" "nat_at ?fs (i + 1) \<le> nat_at ?fs (i + 3)" by (intro up; linarith)+
      moreover have "nat_at ?fs j = nat_at (freq st) i + nat_at (freq st) (i + 1)" using f(1) len assms(2) by simp
      moreover have "nat_at ?fs i = nat_at (freq st) i" "nat_at ?fs (i + 1) = nat_at (freq st) (i + 1)" using ij by simp_all
      ultimately show ?thesis by linarith
    qed
    moreover have "2 * (Suc j - deep_N_CHAR) = i + 2" using i assms(1) by simp
    ultimately show ?thesis using B' P' by (simp add: joined_to_def numeral_3_eq_3)
  qed
  ultimately show ?thesis by (auto simp: s)
qed


text \<open>The tables that the first track in this mode starts with.\<close>

lemma init_deep_tabs_ok:
  assumes "length (freq st) = deep_T + 1" and "length (son st) = deep_T" and "length (prnt st) = deep_T + deep_N_CHAR"
  shows "\<exists>st'. init_deep_tabs st = Ok st' \<and> deep_tree st' \<and> nat_at (freq st') deep_R = deep_N_CHAR \<and>
    off_tree st' = off_tree (st\<lparr>deep_tabs_due := False\<rparr>)"
proof -
  let ?same = "\<lambda>st'. off_tree st' = off_tree st"
  have "leaves_to 0 st \<and> ?same st"
    using assms by (simp add: leaves_to_def)
  then have "\<exists>st1. for_each deep_leaf [0..<deep_N_CHAR] st = Ok st1 \<and> leaves_to deep_N_CHAR st1 \<and> ?same st1"
    by (rule for_each_upt_ok [rotated]) (auto dest!: deep_leaf_ok)
  then obtain st1 where st1: "for_each deep_leaf [0..<deep_N_CHAR] st = Ok st1" "leaves_to deep_N_CHAR st1" "?same st1" by blast
  have "joined_to deep_N_CHAR (0, st1) \<and> ?same (snd (0 :: nat, st1))"
    using leaves_building [OF st1(2)] st1(2,3) by (auto simp: joined_to_def leaves_to_def)
  then have "\<exists>s2. for_each deep_join [deep_N_CHAR..<deep_R + 1] (0, st1) = Ok s2 \<and> joined_to (deep_R + 1) s2 \<and> ?same (snd s2)"
  proof (rule for_each_upt_ok [rotated])
    fix j s
    assume "deep_N_CHAR \<le> j" "j < deep_R + 1" and "joined_to j s \<and> ?same (snd s)"
    then show "\<exists>t. deep_join j s = Ok t \<and> joined_to (Suc j) t \<and> ?same (snd t)"
      using deep_join_ok [of j s] by fastforce
  qed simp
  then obtain i2 st2 where st2: "for_each deep_join [deep_N_CHAR..<deep_R + 1] (0, st1) = Ok (i2, st2)" "joined_to (deep_R + 1) (i2, st2)" "?same st2"
    by auto
  have B: "building deep_N_CHAR deep_T (freq st2) (son st2)" and P: "parents_to deep_T (son st2) (prnt st2)"
    using st2(2) by (simp_all add: joined_to_def)
  let ?fs = "(freq st2)[deep_T := 0xffff]" and ?ps = "(prnt st2)[deep_R := 0]"
  have len: "length (freq st2) = deep_T + 1" "length (prnt st2) = deep_T + deep_N_CHAR"
    using B P by (simp_all add: building_def parents_to_def)
  have B': "building deep_N_CHAR deep_T ?fs (son st2)"
    using B by (rule building_top)
  have P': "parents_to deep_T (son st2) ?ps"
  proof -
    have "nat_at (son st2) i \<noteq> deep_R \<and> (nat_at (son st2) i < deep_T \<longrightarrow> nat_at (son st2) i + 1 \<noteq> deep_R)" if "i < deep_T" for i
      using building_node(1) [OF B that] by (cases "nat_at (son st2) i < 627") auto
    then show ?thesis using P by (simp add: parents_to_def)
  qed
  have "deep_links (son st2) ?ps" using built_links [OF B' P'] len by simp
  moreover have "deep_freqs ?fs (son st2) deep_T" "nat_at ?fs deep_R = deep_N_CHAR" using built_freqs [OF B'] len by simp_all
  moreover have "init_deep_tabs st = Ok (st2\<lparr>freq := ?fs, prnt := ?ps, deep_tabs_due := False\<rparr>)"
    using st1(1) st2(1) len by (simp add: init_deep_tabs_def put_at_def)
  moreover have "off_tree (st2\<lparr>freq := ?fs, prnt := ?ps, deep_tabs_due := False\<rparr>) = (off_tree st2)\<lparr>deep_tabs_due := False\<rparr>" by simp
  then have "off_tree (st2\<lparr>freq := ?fs, prnt := ?ps, deep_tabs_due := False\<rparr>) = off_tree (st\<lparr>deep_tabs_due := False\<rparr>)"
    unfolding st2(3) by simp
  ultimately show ?thesis by (simp add: deep_tree_def)
qed

section \<open>Building the tree again\<close>

definition leaf_nodes :: "u16 list \<Rightarrow> nat \<Rightarrow> nat list" where
  "leaf_nodes ss n = filter (\<lambda>a. deep_T \<le> nat_at ss a) [0..<n]"

definition halved :: "u16 \<Rightarrow> u16" where
  "halved v = v div 2 + v mod 2"

lemma unat_halved: "unat (halved v) = (unat v + 1) div 2"
proof -
  have "unat v div 2 + unat v mod 2 < 65536" using unat_u16_less [of v] by linarith
  then have "unat (halved v) = unat v div 2 + unat v mod 2"
    unfolding halved_def by (subst unat_add_exact) (simp_all add: unat_div unat_mod)
  then show ?thesis by presburger
qed

definition collected :: "dms_state \<Rightarrow> nat \<Rightarrow> nat \<times> dms_state \<Rightarrow> bool" where
  "collected st0 n = (\<lambda>(j, st). j = length (leaf_nodes (son st0) n) \<and> length (freq st) = deep_T + 1 \<and> length (son st) = deep_T \<and>
     take j (freq st) = map (\<lambda>a. halved (freq st0 ! a)) (leaf_nodes (son st0) n) \<and>
     take j (son st) = map (\<lambda>a. son st0 ! a) (leaf_nodes (son st0) n) \<and>
     (\<forall>a\<ge>n. freq st ! a = freq st0 ! a \<and> son st ! a = son st0 ! a) \<and> prnt st = prnt st0 \<and> off_tree st = off_tree st0)"

lemma take_put: "j < length xs \<Longrightarrow> take (Suc j) (xs[j := v]) = take j xs @ [v]"
  by (simp add: take_Suc_conv_app_nth)

lemma reconst_leaf_ok:
  assumes "n < deep_T" and "collected st0 n s"
  shows "\<exists>s'. reconst_leaf n s = Ok s' \<and> collected st0 (Suc n) s'"
proof -
  obtain j st where s: "s = (j, st)" by (cases s)
  have C: "j = length (leaf_nodes (son st0) n)" "length (freq st) = deep_T + 1" "length (son st) = deep_T"
    "take j (freq st) = map (\<lambda>a. halved (freq st0 ! a)) (leaf_nodes (son st0) n)"
    "take j (son st) = map (\<lambda>a. son st0 ! a) (leaf_nodes (son st0) n)"
    "\<And>a. n \<le> a \<Longrightarrow> freq st ! a = freq st0 ! a \<and> son st ! a = son st0 ! a" "prnt st = prnt st0" "off_tree st = off_tree st0"
    using assms(2) unfolding collected_def s by auto
  have jn: "j \<le> n" unfolding C(1) leaf_nodes_def by (metis length_filter_le diff_zero length_upt)
  have more: "leaf_nodes (son st0) (Suc n) = (if deep_T \<le> nat_at (son st0) n then leaf_nodes (son st0) n @ [n] else leaf_nodes (son st0) n)"
    by (simp add: leaf_nodes_def)
  show ?thesis
  proof (cases "deep_T \<le> nat_at (son st0) n")
    case True
    let ?st = "st\<lparr>freq := (freq st)[j := halved (freq st0 ! n)], son := (son st)[j := son st0 ! n]\<rparr>"
    have "reconst_leaf n s = Ok (j + 1, ?st)"
      using True jn assms(1) C(2,3) C(6) [of n] by (simp add: reconst_leaf_def s get_at_def put_at_def halved_def)
    moreover have "collected st0 (Suc n) (j + 1, ?st)"
      unfolding collected_def prod.case more
    proof (intro conjI allI impI)
      show "off_tree ?st = off_tree st0" using C(8) by simp
    qed (use True jn assms(1) C(1-7) in \<open>simp_all add: take_put\<close>)
    ultimately show ?thesis by blast
  next
    case False
    have "reconst_leaf n s = Ok (j, st)"
      using False assms(1) C(3) C(6) [of n] by (simp add: reconst_leaf_def s get_at_def)
    moreover have "collected st0 (Suc n) (j, st)" using False C by (simp add: collected_def more)
    ultimately show ?thesis by blast
  qed
qed

text \<open>The leaves of a tree are the nodes of the symbols, and the root counts what they count.\<close>

lemma leaf_nodes_symbols:
  assumes "deep_links ss ps"
  shows "mset (map (\<lambda>a. nat_at ss a) (leaf_nodes ss deep_T)) = mset [deep_T..<deep_T + deep_N_CHAR]"
    "length (leaf_nodes ss deep_T) = deep_N_CHAR"
proof -
  have len: "length ss = deep_T" and nodes: "mset (map unat ss) = mset deep_nodes" using assms by (simp_all add: deep_links_def)
  have "map unat ss = map (\<lambda>a. nat_at ss a) [0..<deep_T]" using len by (intro nth_equalityI) simp_all
  then have "filter (\<lambda>v. deep_T \<le> v) (map unat ss) = map (\<lambda>a. nat_at ss a) (leaf_nodes ss deep_T)"
    by (simp add: leaf_nodes_def filter_map comp_def)
  then have "mset (map (\<lambda>a. nat_at ss a) (leaf_nodes ss deep_T)) = filter_mset (\<lambda>v. deep_T \<le> v) (mset deep_nodes)"
    by (metis mset_filter nodes)
  also have "\<dots> = mset (filter (\<lambda>v. deep_T \<le> v) deep_nodes)" by simp
  also have "filter (\<lambda>v. deep_T \<le> v) deep_nodes = [deep_T..<deep_T + deep_N_CHAR]"
    by (auto simp: deep_nodes_def filter_empty_conv intro!: filter_True)
  finally show mset: "mset (map (\<lambda>a. nat_at ss a) (leaf_nodes ss deep_T)) = mset [deep_T..<deep_T + deep_N_CHAR]" .
  show "length (leaf_nodes ss deep_T) = deep_N_CHAR"
    using mset_eq_length [OF mset] by simp
qed

lemma sum_pairs: "(\<Sum>n<(m :: nat). f (2 * n) + f (2 * n + 1)) = (\<Sum>x<2 * m. f x :: nat)"
  by (induction m) simp_all

lemma tree_sum:
  assumes "deep_links ss ps" and "deep_freqs fs ss deep_T"
  shows "sum_list (map (\<lambda>a. nat_at fs a) (leaf_nodes ss deep_T)) = nat_at fs deep_R"
proof -
  note D = deep_linksD [OF assms(1)] and E = deep_freqsD [OF assms(2)]
  let ?F = "\<lambda>a. nat_at fs a" and ?S = "\<lambda>a. nat_at ss a"
  let ?inner = "{a. a < deep_T \<and> ?S a < deep_T}" and ?leaves = "{a. a < deep_T \<and> deep_T \<le> ?S a}"
  have inj: "inj_on ?S ?inner"
    using D(1,8) by (auto simp: inj_on_def distinct_conv_nth)
  have img: "?S ` ?inner = (\<lambda>n. 2 * n) ` {..<deep_N_CHAR - 1}"
  proof (intro equalityI subsetI)
    fix v assume "v \<in> ?S ` ?inner"
    then obtain a where "a < deep_T" "v = ?S a" "v < deep_T" by auto
    then have "even v" "v < deep_R" using D(4) [of a] by auto
    then show "v \<in> (\<lambda>n. 2 * n) ` {..<deep_N_CHAR - 1}" by (auto elim!: evenE)
  next
    fix v :: nat assume "v \<in> (\<lambda>n. 2 * n) ` {..<deep_N_CHAR - 1}"
    then have "v \<in> set (map unat ss)" "v < deep_T" unfolding D(9) set_deep_nodes by auto
    then show "v \<in> ?S ` ?inner" using D(1) by (auto simp: in_set_conv_nth)
  qed
  have "(\<Sum>a\<in>?inner. ?F a) = (\<Sum>a\<in>?inner. ?F (?S a) + ?F (?S a + 1))"
    using E(5) by (intro sum.cong) auto
  also have "\<dots> = (\<Sum>v\<in>?S ` ?inner. ?F v + ?F (v + 1))" using inj by (simp add: sum.reindex)
  also have "\<dots> = (\<Sum>n<deep_N_CHAR - 1. ?F (2 * n) + ?F (2 * n + 1))" unfolding img by (simp add: sum.reindex inj_on_def)
  also have "\<dots> = (\<Sum>x<deep_R. ?F x)" using sum_pairs [of ?F 313] by simp
  finally have inner: "(\<Sum>a\<in>?inner. ?F a) = (\<Sum>x<deep_R. ?F x)" .
  have "{..<deep_T} = ?leaves \<union> ?inner" by auto
  then have "(\<Sum>x<deep_T. ?F x) = (\<Sum>a\<in>?leaves. ?F a) + (\<Sum>a\<in>?inner. ?F a)"
    by (simp add: sum.union_disjoint disjoint_iff)
  moreover have "{..<deep_T} = insert deep_R {..<deep_R}" by auto
  then have "(\<Sum>x<deep_T. ?F x) = (\<Sum>x<deep_R. ?F x) + ?F deep_R" by simp
  moreover have "sum_list (map ?F (leaf_nodes ss deep_T)) = (\<Sum>a\<in>?leaves. ?F a)"
  proof -
    have "set (leaf_nodes ss deep_T) = ?leaves" "distinct (leaf_nodes ss deep_T)" by (auto simp: leaf_nodes_def)
    then show ?thesis by (metis sum_list_distinct_conv_sum_set)
  qed
  ultimately show ?thesis using inner by simp
qed

text \<open>With the leaves alone the building starts; the halved counts sum up to little more than half of the root's.\<close>

lemma collected_building:
  assumes "deep_tree st0" and "collected st0 deep_T (j, st)"
  obtains W where "j = deep_N_CHAR" and "building W deep_N_CHAR (freq st) (son st)" and "2 * W \<le> nat_at (freq st0) deep_R + deep_N_CHAR"
    and "freq st ! deep_T = 0xffff"
proof -
  have links: "deep_links (son st0) (prnt st0)" and freqs: "deep_freqs (freq st0) (son st0) deep_T"
    using assms(1) by (simp_all add: deep_tree_def)
  let ?L = "leaf_nodes (son st0) deep_T"
  have C: "j = length ?L" "length (freq st) = deep_T + 1" "length (son st) = deep_T"
    "take j (freq st) = map (\<lambda>a. halved (freq st0 ! a)) ?L" "take j (son st) = map (\<lambda>a. son st0 ! a) ?L"
    "freq st ! deep_T = freq st0 ! deep_T"
    using assms(2) unfolding collected_def by auto
  have j: "j = deep_N_CHAR" using C(1) leaf_nodes_symbols(2) [OF links] by simp
  have L: "?L ! a \<in> set ?L" "?L ! a < deep_T" if "a < deep_N_CHAR" for a
  proof -
    show "?L ! a \<in> set ?L" using that j C(1) by (intro nth_mem) simp
    then show "?L ! a < deep_T" by (simp add: leaf_nodes_def)
  qed
  have fs: "nat_at (freq st) a = (nat_at (freq st0) (?L ! a) + 1) div 2" if "a < deep_N_CHAR" for a
  proof -
    have "freq st ! a = take j (freq st) ! a" using that j by simp
    then show ?thesis unfolding C(4) using that j C(1) by (simp add: unat_halved)
  qed
  have sorted: "sorted ?L" by (simp add: leaf_nodes_def sorted_wrt_filter)
  let ?W = "sum_list (map unat (take j (freq st)))"
  have "building ?W deep_N_CHAR (freq st) (son st)"
    unfolding building_def
  proof (intro conjI allI impI)
    show "length (freq st) = deep_T + 1" "length (son st) = deep_T" by (rule C)+
    show "nat_at (freq st) a \<le> nat_at (freq st) b" if "a \<le> b" "b < deep_N_CHAR" for a b
    proof -
      have "?L ! a \<le> ?L ! b" using sorted_nth_mono [OF sorted that(1)] that(2) j C(1) by simp
      then have "nat_at (freq st0) (?L ! a) \<le> nat_at (freq st0) (?L ! b)" using deep_freqsD(3) [OF freqs] L(2) [OF that(2)] by simp
      then show ?thesis using fs that by (simp add: div_le_mono)
    qed
    show "0 < nat_at (freq st) a" if "a < deep_N_CHAR" for a
      using fs [OF that] deep_freqsD(4) [OF freqs L(2) [OF that]] by simp
    have "map unat (take j (son st)) = map (\<lambda>a. nat_at (son st0) a) ?L" unfolding C(5) by simp
    then show "mset (map unat (take deep_N_CHAR (son st))) =
        mset ([deep_T..<deep_T + deep_N_CHAR] @ map (\<lambda>n. 2 * n) [0..<deep_N_CHAR - deep_N_CHAR])"
      using leaf_nodes_symbols(1) [OF links] j by simp
    fix a
    assume a: "a < deep_N_CHAR" "nat_at (son st) a < deep_T"
    have "son st ! a = take j (son st) ! a" using a j by simp
    also have "\<dots> = son st0 ! (?L ! a)" unfolding C(5) using a j C(1) by simp
    finally have "deep_T \<le> nat_at (son st) a" using L(1) [OF a(1)] by (simp add: leaf_nodes_def)
    with a(2) show "nat_at (son st) a + 1 < a" "nat_at (freq st) (nat_at (son st) a) + nat_at (freq st) (nat_at (son st) a + 1) = nat_at (freq st) a"
      by simp_all
  next
    show "sum_list (map unat (drop (2 * (deep_N_CHAR - deep_N_CHAR)) (take deep_N_CHAR (freq st)))) = ?W" using j by simp
  qed simp_all
  moreover have "2 * ?W \<le> nat_at (freq st0) deep_R + deep_N_CHAR"
  proof -
    have "2 * sum_list (map (\<lambda>a. (nat_at (freq st0) a + 1) div 2) xs) \<le> sum_list (map (nat_at (freq st0)) xs) + length xs" for xs
      by (induction xs) auto
    from this [of ?L] show ?thesis
      unfolding C(4) using tree_sum [OF links freqs] j C(1) by (simp add: unat_halved comp_def)
  qed
  ultimately show ?thesis using that j C(6) deep_freqsD(2) [OF freqs] by simp
qed

lemma find_slot_ok:
  assumes "k0 < length fs" and "m \<le> k0" and "\<not> f < fs ! m"
  shows "\<exists>k. find_slot fs f k0 = Ok k \<and> m \<le> k \<and> k \<le> k0 \<and> \<not> f < fs ! k \<and> (\<forall>a. k < a \<longrightarrow> a \<le> k0 \<longrightarrow> f < fs ! a)"
  using assms
proof (induction k0)
  case (Suc k0)
  show ?case
  proof (cases "f < fs ! Suc k0")
    case True
    then have "m \<le> k0" using Suc.prems by (cases "m = Suc k0") auto
    with Suc obtain k where "find_slot fs f k0 = Ok k \<and> m \<le> k \<and> k \<le> k0 \<and> \<not> f < fs ! k \<and> (\<forall>a. k < a \<longrightarrow> a \<le> k0 \<longrightarrow> f < fs ! a)"
      by auto
    then show ?thesis using True Suc.prems(1) by (intro exI [of _ k]) (auto simp: get_at_def le_Suc_eq)
  next
    case False
    then show ?thesis using Suc.prems by (auto simp: get_at_def)
  qed
qed (simp add: get_at_def)

lemma shift_up_ok:
  assumes "k \<le> j" and "j < length xs"
  obtains ys where "shift_up xs k (j - k) = Ok ys" and "length ys = length xs" and "ys[k := v] = insert_at xs k j v"
proof (cases "k = j")
  case True
  then show ?thesis using that [of xs] assms by (simp add: shift_up_def insert_at_def upd_conv_take_nth_drop)
next
  case False
  let ?ys = "overwrite xs (k + 1) (take (j - k) (drop k xs))"
  have "shift_up xs k (j - k) = Ok ?ys" using False assms by (simp add: shift_up_def copy_within_def)
  moreover have "length ?ys = length xs" using assms by simp
  moreover have "?ys[k := v] = insert_at xs k j v"
  proof (rule nth_equalityI)
    fix i
    assume "i < length (?ys[k := v])"
    then show "?ys[k := v] ! i = insert_at xs k j v ! i"
      using assms False by (auto simp: insert_at_props(3) nth_overwrite nth_list_update)
  qed (use assms in \<open>simp add: insert_at_props\<close>)
  ultimately show ?thesis by (rule that)
qed

definition rejoined :: "dms_state \<Rightarrow> nat \<Rightarrow> nat \<Rightarrow> nat \<times> dms_state \<Rightarrow> bool" where
  "rejoined st0 W j = (\<lambda>(i, st). i = 2 * (j - deep_N_CHAR) \<and> building W j (freq st) (son st) \<and> freq st ! deep_T = 0xffff \<and>
     prnt st = prnt st0 \<and> off_tree st = off_tree st0)"

lemma reconst_join_ok:
  assumes "deep_N_CHAR \<le> j" and "j < deep_T" and "W < 65536" and "rejoined st0 W j s"
  shows "\<exists>s'. reconst_join j s = Ok s' \<and> rejoined st0 W (Suc j) s'"
proof -
  obtain i st where s: "s = (i, st)" by (cases s)
  have i: "i = 2 * (j - deep_N_CHAR)" and B: "building W j (freq st) (son st)" and top: "freq st ! deep_T = 0xffff"
    and rest: "prnt st = prnt st0" "off_tree st = off_tree st0"
    using assms(4) unfolding rejoined_def s by auto
  have len: "length (freq st) = deep_T + 1" "length (son st) = deep_T" using B by (simp_all add: building_def)
  have up: "\<And>a b. a \<le> b \<Longrightarrow> b < j \<Longrightarrow> nat_at (freq st) a \<le> nat_at (freq st) b" using B by (simp add: building_def)
  let ?f = "freq st ! i + freq st ! (i + 1)"
  let ?fs = "(freq st)[j := ?f]"
  note f = building_sum_word [OF B assms(2,3) i]
  have ij: "i + 2 \<le> j" using i assms(1,2) by simp
  have at: "\<not> ?f < ?fs ! (i + 1)" using f(1) ij by (simp add: word_less_nat_alt)
  have "j - 1 < length ?fs" "i + 1 \<le> j - 1" using ij len assms(2) by simp_all
  from find_slot_ok [OF this at] obtain k where k: "find_slot ?fs ?f (j - 1) = Ok k" "i + 1 \<le> k" "k \<le> j - 1"
    "\<not> ?f < ?fs ! k" "\<And>a. k < a \<Longrightarrow> a \<le> j - 1 \<Longrightarrow> ?f < ?fs ! a"
    by blast
  have kj: "k + 1 \<le> j" "i + 2 \<le> k + 1" using k(2,3) ij by simp_all
  have low: "nat_at (freq st) a \<le> unat ?f" if "a < k + 1" for a
    using up [of a k] that kj k(4) by (simp add: word_less_nat_alt)
  have high: "unat ?f \<le> nat_at (freq st) a" if "k + 1 \<le> a" "a < j" for a
  proof -
    have "k < a" "a \<le> j - 1" using that by linarith+
    then show ?thesis using k(5) [of a] that by (simp add: word_less_nat_alt)
  qed
  have B': "building W (Suc j) (insert_at (freq st) (k + 1) j ?f) (insert_at (son st) (k + 1) j (word_of_nat i))"
    by (rule building_insert [OF B assms(2) i kj(2,1) f(1) low high])
  obtain ys where ys: "shift_up ?fs (k + 1) (j - (k + 1)) = Ok ys" "length ys = length ?fs"
    "ys[k + 1 := ?f] = insert_at ?fs (k + 1) j ?f"
    using shift_up_ok [OF kj(1), of ?fs ?f] len assms(2) by auto
  obtain zs where zs: "shift_up (son st) (k + 1) (j - (k + 1)) = Ok zs" "length zs = length (son st)"
    "zs[k + 1 := word_of_nat i] = insert_at (son st) (k + 1) j (word_of_nat i)"
    using shift_up_ok [OF kj(1), of "son st" "word_of_nat i"] len assms(2) by auto
  have fs': "ys[k + 1 := ?f] = insert_at (freq st) (k + 1) j ?f" using ys(3) insert_at_props(4) [OF kj(1), of "freq st"] len assms(2) by simp
  let ?st = "st\<lparr>freq := ys[k + 1 := ?f], son := zs[k + 1 := word_of_nat i]\<rparr>"
  have "reconst_join j s = Ok (i + 2, ?st)"
    using k(1) ys zs len assms(2) ij kj by (simp add: reconst_join_def s get_at_def put_at_def Let_def)
  moreover have "rejoined st0 W (Suc j) (i + 2, ?st)"
  proof -
    have "insert_at (freq st) (k + 1) j ?f ! deep_T = 0xffff" using insert_at_props(3) [OF kj(1), of "freq st" ?f deep_T] len assms(2) top kj(1) by simp
    moreover have "2 * (Suc j - deep_N_CHAR) = i + 2" using i assms(1) by simp
    ultimately show ?thesis using B' rest zs(3) fs' by (simp add: rejoined_def)
  qed
  ultimately show ?thesis by blast
qed

definition reparented :: "dms_state \<Rightarrow> nat \<Rightarrow> dms_state \<Rightarrow> bool" where
  "reparented st0 n st \<longleftrightarrow> freq st = freq st0 \<and> son st = son st0 \<and> parents_to n (son st) (prnt st) \<and> nat_at (prnt st) deep_R = 0 \<and>
     off_tree st = off_tree st0"

lemma reconst_parent_ok:
  assumes "building W deep_T (freq st0) (son st0)" and "n < deep_T" and "reparented st0 n st"
  shows "\<exists>st'. reconst_parent n st = Ok st' \<and> reparented st0 (Suc n) st'"
proof -
  have R: "freq st = freq st0" "son st = son st0" "parents_to n (son st0) (prnt st)" "nat_at (prnt st) deep_R = 0" "off_tree st = off_tree st0"
    and len: "length (son st0) = deep_T" "length (prnt st) = deep_T + deep_N_CHAR"
    using assms(1,3) by (auto simp: reparented_def parents_to_def building_def)
  let ?v = "nat_at (son st0) n"
  let ?st = "st\<lparr>prnt := kids_to (prnt st) ?v n\<rparr>"
  have v: "?v < deep_T + deep_N_CHAR" "?v \<noteq> deep_R \<and> (?v < deep_T \<longrightarrow> ?v + 1 \<noteq> deep_R)"
    using building_node [OF assms(1,2)] by (cases "?v < 627"; auto)+
  have "reconst_parent n st = Ok ?st"
    using assms(2) R(2) len v(1) by (simp add: reconst_parent_def get_at_def put_at_def kids_to_def)
  moreover have "reparented st0 (Suc n) ?st"
    using R parents_step [OF assms(1,2) R(3)] nth_kids_to [OF len(2) v(1) assms(2), of deep_R] v(2) by (auto simp: reparented_def)
  ultimately show ?thesis by blast
qed

lemma deep_reconst_ok:
  assumes "deep_tree st"
  shows "\<exists>st'. deep_reconst st = Ok st' \<and> deep_tree st' \<and> nat_at (freq st') deep_R < 0x8000 \<and> off_tree st' = off_tree st"
proof -
  have links: "deep_links (son st) (prnt st)" and freqs: "deep_freqs (freq st) (son st) deep_T" and root: "nat_at (freq st) deep_R \<le> 0x8000"
    using assms by (simp_all add: deep_tree_def)
  have "collected st 0 (0, st)"
    using deep_linksD(1) [OF links] deep_freqsD(1) [OF freqs] by (simp add: collected_def leaf_nodes_def)
  then have "\<exists>s. for_each reconst_leaf [0..<deep_T] (0, st) = Ok s \<and> collected st deep_T s"
    by (rule for_each_upt_ok [rotated]) (simp only: reconst_leaf_ok, simp)
  then obtain j st1 where st1: "for_each reconst_leaf [0..<deep_T] (0, st) = Ok (j, st1)" "collected st deep_T (j, st1)" by auto
  obtain W where W: "building W deep_N_CHAR (freq st1) (son st1)" "2 * W \<le> nat_at (freq st) deep_R + deep_N_CHAR" "freq st1 ! deep_T = 0xffff"
    using collected_building [OF assms st1(2)] by blast
  have small: "W < 0x8000" using W(2) root by simp
  have "rejoined st W deep_N_CHAR (0, st1)" using W(1,3) st1(2) by (simp add: rejoined_def collected_def)
  then have "\<exists>s. for_each reconst_join [deep_N_CHAR..<deep_T] (0, st1) = Ok s \<and> rejoined st W deep_T s"
    by (rule for_each_upt_ok [rotated]) (use small reconst_join_ok in simp_all)
  then obtain i st2 where st2: "for_each reconst_join [deep_N_CHAR..<deep_T] (0, st1) = Ok (i, st2)" "rejoined st W deep_T (i, st2)" by auto
  have B: "building W deep_T (freq st2) (son st2)" "freq st2 ! deep_T = 0xffff" "prnt st2 = prnt st" "off_tree st2 = off_tree st"
    using st2(2) by (simp_all add: rejoined_def)
  have "reparented st2 0 st2"
    using B(3) deep_linksD(2,7) [OF links] by (simp add: reparented_def parents_to_def)
  then have "\<exists>st3. for_each reconst_parent [0..<deep_T] st2 = Ok st3 \<and> reparented st2 deep_T st3"
    by (rule for_each_upt_ok [rotated]) (simp only: reconst_parent_ok [OF B(1)], simp)
  then obtain st3 where st3: "for_each reconst_parent [0..<deep_T] st2 = Ok st3" "reparented st2 deep_T st3" by blast
  have same: "freq st3 = freq st2" "son st3 = son st2" "parents_to deep_T (son st2) (prnt st3)" "nat_at (prnt st3) deep_R = 0"
    "off_tree st3 = off_tree st"
    using st3(2) B(4) by (auto simp: reparented_def)
  have "deep_links (son st3) (prnt st3)" using built_links [OF B(1) same(3,4)] same(2) by simp
  moreover have "deep_freqs (freq st3) (son st3) deep_T" "nat_at (freq st3) deep_R = W" using built_freqs [OF B(1,2)] same(1,2) by simp_all
  ultimately have "deep_tree st3" "nat_at (freq st3) deep_R < 0x8000" using small by (simp_all add: deep_tree_def)
  then show ?thesis using st1 st2 st3 same(5) by (auto simp: deep_reconst_def)
qed

end
