(* ===== verification/Dms_Symbols.thy ===== *)
theory Dms_Symbols
  imports Dms_Rebuild
begin

text \<open>
  What the adaptive code of \<^verbatim>\<open>dms.rs\<close> decodes: the walk always ends at a symbol, the symbol is
  counted, every symbol has a code word, and the mode \<^verbatim>\<open>Deep\<close> returns on every input.
\<close>

section \<open>Decoding\<close>

text \<open>A symbol is counted: the tree stays one, and only the count of this symbol changes.\<close>

lemma deep_leaf_climbing:
  assumes "deep_tree st" and "nat_at (freq st) deep_R < 0x8000" and "s < deep_N_CHAR"
  shows "climbing st (nat_at (prnt st) (deep_T + s))"
    "t < deep_N_CHAR \<Longrightarrow> nat_at (prnt st) (deep_T + t) = nat_at (prnt st) (deep_T + s) \<longleftrightarrow> t = s"
proof -
  have links: "deep_links (son st) (prnt st)" and freqs: "deep_freqs (freq st) (son st) deep_T" using assms(1) by (simp_all add: deep_tree_def)
  have leaf: "nat_at (prnt st) (deep_T + t) < deep_T \<and> nat_at (son st) (nat_at (prnt st) (deep_T + t)) = deep_T + t"
    if "t < deep_N_CHAR" for t
  proof -
    have "deep_child (son st) (nat_at (prnt st) (deep_T + t)) (deep_T + t)"
      by (rule deep_parent [OF links]) (simp add: that)
    then show ?thesis using deep_linksD(4) [OF links, of "nat_at (prnt st) (deep_T + t)"] by auto
  qed
  let ?x = "nat_at (prnt st) (deep_T + s)"
  have "deep_freqs (freq st) (son st) ?x"
    unfolding deep_freqs_def
  proof (intro conjI allI impI)
    fix i assume i: "i < deep_T" "nat_at (son st) i < deep_T"
    then have "i \<noteq> ?x" using leaf [OF assms(3)] by auto
    then show "nat_at (freq st) (nat_at (son st) i) + nat_at (freq st) (nat_at (son st) i + 1) = nat_at (freq st) i + of_bool (i = ?x)"
      using deep_freqsD(5) [OF freqs i] i(1) by simp
  qed (use freqs in \<open>simp_all add: deep_freqs_def\<close>)
  then show "climbing st ?x" using links assms(2) leaf [OF assms(3)] by (simp add: climbing_def)
  show "nat_at (prnt st) (deep_T + t) = ?x \<longleftrightarrow> t = s" if "t < deep_N_CHAR"
  proof
    assume same: "nat_at (prnt st) (deep_T + t) = ?x"
    show "t = s" using leaf [OF that] leaf [OF assms(3)] unfolding same by linarith
  qed simp
qed

lemma deep_update_ok:
  assumes "deep_tree st" and "unat c < deep_N_CHAR"
  shows "\<exists>st'. deep_update st c = Some (Ok st') \<and> deep_tree st' \<and> off_tree st' = off_tree st \<and>
    (nat_at (freq st) deep_R < 0x8000 \<longrightarrow> (\<forall>t<deep_N_CHAR. symbol_count st' t = symbol_count st t + of_bool (t = unat c)))"
proof -
  have len: "length (freq st) = deep_T + 1" using assms(1) by (simp add: deep_tree_def deep_freqs_def)
  have root: "nat_at (freq st) deep_R \<le> 0x8000" using assms(1) by (simp add: deep_tree_def)
  define full where "full \<longleftrightarrow> freq st ! deep_R = 0x8000"
  have full: "full \<longleftrightarrow> nat_at (freq st) deep_R = 0x8000" by (simp add: full_def word_unat_eq_iff)
  obtain st1 where st1: "(if full then deep_reconst st else Ok st) = Ok st1" "deep_tree st1" "nat_at (freq st1) deep_R < 0x8000"
    "off_tree st1 = off_tree st" "\<not> full \<Longrightarrow> st1 = st"
  proof (cases full)
    case True
    then show ?thesis using deep_reconst_ok [OF assms(1)] that by auto
  next
    case False
    then show ?thesis using that [of st] assms(1) root full by auto
  qed
  have word: "unat (c + 627) = deep_T + unat c" using assms(2) by (subst unat_add_exact) simp_all
  note climb = deep_leaf_climbing [OF st1(2,3) assms(2)]
  from deep_climb_ok [OF climb(1)] obtain f s p where done_climb: "deep_climb st1 (nat_at (prnt st1) (deep_T + unat c)) = Some (Ok (st1\<lparr>freq := f, son := s, prnt := p\<rparr>))"
    "deep_tree (st1\<lparr>freq := f, son := s, prnt := p\<rparr>)"
    "\<And>t. t < deep_N_CHAR \<Longrightarrow> symbol_count (st1\<lparr>freq := f, son := s, prnt := p\<rparr>) t =
      symbol_count st1 t + of_bool (nat_at (prnt st1) (deep_T + t) = nat_at (prnt st1) (deep_T + unat c))"
    by blast
  let ?st = "st1\<lparr>freq := f, son := s, prnt := p\<rparr>"
  have "length (prnt st1) = deep_T + deep_N_CHAR" using st1(2) by (simp add: deep_tree_def deep_links_def)
  then have "deep_update st c = Some (Ok ?st)"
    using st1(1) done_climb(1) len assms(2) word by (simp add: deep_update_def get_at_def full_def)
  moreover have "off_tree ?st = off_tree st" using st1(4) by simp
  moreover have "symbol_count ?st t = symbol_count st t + of_bool (t = unat c)"
    if "nat_at (freq st) deep_R < 0x8000" "t < deep_N_CHAR" for t
  proof -
    have "st1 = st" using st1(5) full that(1) by simp
    then show ?thesis using done_climb(3) [OF that(2)] climb(2) [OF that(2)] by simp
  qed
  ultimately show ?thesis using done_climb(2) by blast
qed

text \<open>The walk from the root ends at a symbol.\<close>

lemma deep_pointer:
  assumes "deep_links ss ps" and "x < deep_T"
  shows "nat_at ss x < deep_T \<Longrightarrow> nat_at ss x + 1 < x" "nat_at ss x < deep_T + deep_N_CHAR"
  using deep_linksD(3,4) [OF assms] by auto

lemma peek_one: "reading br \<Longrightarrow> unat (br_peek br 1) \<le> 1"
  using reading_peek [of br 1] by simp

lemma deep_walk_ok:
  assumes "deep_links ss ps" and "reading br" and "unat c < deep_T + deep_N_CHAR" and "unat c < deep_T \<longrightarrow> unat c + 1 < deep_T"
  shows "\<exists>c' br'. deep_walk ss c br = Some (Ok (c', br')) \<and> deep_T \<le> unat c' \<and> unat c' < deep_T + deep_N_CHAR \<and> reading br'"
  using assms(2-4)
proof (induction "unat c" arbitrary: c br rule: less_induct)
  case less
  show ?case
  proof (cases "unat c < deep_T")
    case False
    then show ?thesis using less.prems by (subst deep_walk.simps) auto
  next
    case True
    let ?x = "unat c + unat (br_peek br 1)"
    have x: "?x < deep_T" "?x \<le> unat c + 1" using True less.prems(3) peek_one [OF less.prems(1)] by auto
    note ptr = deep_pointer [OF assms(1) x(1)]
    have step: "deep_walk ss c br = deep_walk ss (ss ! ?x) (br_drop br 1)"
      using True x deep_linksD(1) [OF assms(1)] by (subst deep_walk.simps) (simp add: get_at_def)
    have "reading (br_drop br 1)" using less.prems(1) by simp
    show ?thesis
    proof (cases "nat_at ss ?x < deep_T")
      case inner: True
      then have "nat_at ss ?x < unat c" using ptr(1) x by simp
      from less.hyps [OF this \<open>reading (br_drop br 1)\<close> ptr(2)] show ?thesis using ptr(1) inner x step by auto
    next
      case False
      then show ?thesis using ptr(2) step \<open>reading (br_drop br 1)\<close> by (subst (asm) deep_walk.simps [of ss "ss ! ?x"]) auto
    qed
  qed
qed

lemma deep_decode_char_ok:
  assumes "deep_tree st" and "reading br"
  shows "\<exists>c br' st'. deep_decode_char br st = Some (Ok (c, br', st')) \<and> unat c < deep_N_CHAR \<and> reading br' \<and> deep_tree st' \<and> off_tree st' = off_tree st"
proof -
  have links: "deep_links (son st) (prnt st)" using assms(1) by (simp add: deep_tree_def)
  note ptr = deep_pointer [OF links, of deep_R]
  have "\<exists>c' br'. deep_walk (son st) (son st ! deep_R) br = Some (Ok (c', br')) \<and> deep_T \<le> unat c' \<and> unat c' < deep_T + deep_N_CHAR \<and> reading br'"
    using ptr by (intro deep_walk_ok [OF links assms(2)]) auto
  then obtain c br' where walk: "deep_walk (son st) (son st ! deep_R) br = Some (Ok (c, br'))"
    "deep_T \<le> unat c" "unat c < deep_T + deep_N_CHAR" "reading br'" by blast
  have sym: "unat (c - 627) = unat c - deep_T" using walk(2) by (subst unat_sub) (simp_all add: word_le_nat_alt)
  then have "unat (c - 627) < deep_N_CHAR" using walk(2,3) by simp
  from deep_update_ok [OF assms(1) this] obtain st' where "deep_update st (c - 627) = Some (Ok st')" "deep_tree st'" "off_tree st' = off_tree st" by blast
  then show ?thesis using walk deep_linksD(1) [OF links] sym by (auto simp: deep_decode_char_def get_at_def)
qed

section \<open>The mode returns\<close>

lemma deep_decode_position_ok:
  assumes "reading br"
  shows "\<exists>d br'. deep_decode_position br = Ok (d, br') \<and> reading br'"
proof -
  have i: "unat (br_peek br 8) < 256" using reading_peek [OF assms, of 8] by simp
  then have "unat (ucast (D_LEN ! unat (br_peek br 8)) :: u32) \<le> 16"
    using distance_tables(4) [OF i] by (simp add: word_le_nat_alt)
  then show ?thesis using i assms distance_tables(1,2)
    by (simp add: deep_decode_position_def br_get_def get_at_def Let_def)
qed

text \<open>All of the state but the tree and the window of this mode.\<close>

abbreviation off_deep :: "dms_state \<Rightarrow> dms_state" where
  "off_deep st \<equiv> (off_tree st)\<lparr>window := [], deep_text_loc := 0\<rparr>"

definition deep_inv :: "dms_state \<Rightarrow> bit_reader \<times> dms_state \<Rightarrow> bool" where
  "deep_inv st0 = (\<lambda>(br, st). reading br \<and> length (window st) = 0x4000 \<and> deep_tree st \<and> off_deep st = off_deep st0)"

lemma deep_tree_window [simp]: "deep_tree (st\<lparr>window := w, deep_text_loc := l\<rparr>) \<longleftrightarrow> deep_tree st"
  by (simp add: deep_tree_def)

interpretation deep: filling "deep_step n" n "deep_inv st0" for n st0
proof
  fix s and out :: bytes
  assume inv: "deep_inv st0 s" and less: "length out < n"
  obtain br st where s: "s = (br, st)" by (cases s)
  have I: "reading br" "length (window st) = 0x4000" "deep_tree st" "off_deep st = off_deep st0" using inv by (simp_all add: s deep_inv_def)
  obtain c br1 st1 where c: "deep_decode_char br st = Some (Ok (c, br1, st1))" "unat c < deep_N_CHAR" "reading br1" "deep_tree st1"
    "off_tree st1 = off_tree st" using deep_decode_char_ok [OF I(3,1)] by blast
  have win: "length (window st1) = 0x4000" and off: "off_deep st1 = off_deep st0"
    using c(5) I(2,4) by (metis dms_state.surjective dms_state.select_convs(1) dms_state.update_convs(6,7,8)) (simp add: c(5) I(4))
  show "\<exists>s' bs. deep_step n s out = Some (Ok (s', out @ bs)) \<and> deep_inv st0 s' \<and> bs \<noteq> [] \<and> length out + length bs \<le> n"
  proof (cases "c < 256")
    case True
    then show ?thesis using c win less off by (simp add: s deep_step_def put_byte_ok deep_inv_def)
  next
    case False
    obtain d br2 where d: "deep_decode_position br1 = Ok (d, br2)" "reading br2" using deep_decode_position_ok [OF c(3)] by blast
    have "256 \<le> unat c" using False by (simp add: word_less_nat_alt)
    then have "unat (c - 255) = unat c - 255" by (subst unat_sub) (simp_all add: word_le_nat_alt)
    then have "unat (c - 255 + 2) = unat c - 255 + 2" using c(2) by (subst unat_add_exact) simp_all
    then have "0 < unat (c - 255 + 2)" by simp
    with copy_match_ok [of "0x3fff" "window st1" out n "unat (c - 255 + 2)" "deep_text_loc st1 - d - 1" "deep_text_loc st1"] win less
    obtain win' loc' bs where "copy_match 0x3fff n (unat (c - 255 + 2)) (deep_text_loc st1 - d - 1) (window st1, deep_text_loc st1, out) =
        Ok (win', loc', out @ bs)" "length win' = 0x4000" "bs \<noteq> []" "length out + length bs \<le> n"
      by fastforce
    then show ?thesis using False c d off by (simp add: s deep_step_def deep_inv_def)
  qed
qed

text \<open>The tables are there, or will be made before the first symbol.\<close>

definition deep_ready :: "dms_state \<Rightarrow> bool" where
  "deep_ready st \<longleftrightarrow> length (freq st) = deep_T + 1 \<and> length (son st) = deep_T \<and> length (prnt st) = deep_T + deep_N_CHAR \<and>
     (\<not> deep_tabs_due st \<longrightarrow> deep_tree st)"

lemma deep_tree_ready: "deep_tree st \<Longrightarrow> deep_ready st"
  by (simp add: deep_ready_def deep_tree_def deep_links_def deep_freqs_def)

lemma unpack_deep_returns:
  assumes "length (window st) = 0x4000" and "deep_ready st"
  shows "\<exists>st' out. unpack_deep st input n = Some (Ok (st', out)) \<and> length out = n \<and> length (window st') = 0x4000 \<and>
    deep_tree st' \<and> off_deep st' = off_deep (st\<lparr>deep_tabs_due := False\<rparr>)"
proof -
  obtain st0 where st0: "(if deep_tabs_due st then init_deep_tabs st else Ok st) = Ok st0" "deep_tree st0"
    "off_tree st0 = off_tree (st\<lparr>deep_tabs_due := False\<rparr>)"
  proof (cases "deep_tabs_due st")
    case True
    then show ?thesis using init_deep_tabs_ok [of st] assms(2) that by (auto simp: deep_ready_def)
  next
    case False
    then show ?thesis using that [of st] assms(2) by (simp add: deep_ready_def)
  qed
  have "window st0 = window st" using st0(3) by (metis dms_state.surjective dms_state.select_convs(1) dms_state.update_convs(6,7,8,9))
  then have "deep_inv st0 (br_new input, st0)" using assms(1) st0(2) by (simp add: deep_inv_def)
  from deep.fill_returns [OF this, of "[]" n] obtain br st' out where
    run: "fill_output (deep_step n) n (br_new input, st0) [] = Some (Ok ((br, st'), out))" "deep_inv st0 (br, st')" "length out = n"
    by auto
  let ?st = "st'\<lparr>deep_text_loc := (deep_text_loc st' + 60) AND 0x3fff\<rparr>"
  have "unpack_deep st input n = Some (Ok (?st, out))" using st0(1) run(1) by (simp add: unpack_deep_def)
  moreover have "off_deep ?st = off_deep st0" using run(2) by (simp add: deep_inv_def)
  moreover have "off_deep st0 = off_deep (st\<lparr>deep_tabs_due := False\<rparr>)" using st0(3) by simp
  moreover have "deep_tree ?st" using run(2) by (simp add: deep_inv_def deep_tree_def)
  ultimately show ?thesis using run(2,3) by (auto simp: deep_inv_def)
qed

section \<open>The counts of a whole text\<close>

lemma symbols_sum:
  assumes "deep_tree st"
  shows "(\<Sum>t<deep_N_CHAR. symbol_count st t) = nat_at (freq st) deep_R"
proof -
  have links: "deep_links (son st) (prnt st)" and freqs: "deep_freqs (freq st) (son st) deep_T"
    using assms by (simp_all add: deep_tree_def)
  let ?L = "leaf_nodes (son st) deep_T" and ?h = "\<lambda>v. nat_at (freq st) (nat_at (prnt st) v)"
  have "nat_at (freq st) deep_R = sum_list (map (\<lambda>a. nat_at (freq st) a) ?L)"
    using tree_sum [OF links freqs] by simp
  also have "\<dots> = sum_list (map ?h (map (\<lambda>a. nat_at (son st) a) ?L))"
    using deep_linksD(5) [OF links] by (auto simp: leaf_nodes_def intro!: arg_cong [where f = sum_list])
  also have "\<dots> = sum_mset (image_mset ?h (mset (map (\<lambda>a. nat_at (son st) a) ?L)))"
    by (simp only: mset_map [symmetric] sum_mset_sum_list)
  also have "\<dots> = sum_list (map ?h [deep_T..<deep_T + deep_N_CHAR])"
    unfolding leaf_nodes_symbols(1) [OF links] by (simp only: sum_mset_sum_list flip: mset_map)
  also have "\<dots> = (\<Sum>v\<in>{deep_T..<deep_T + deep_N_CHAR}. ?h v)"
    by (simp only: interv_sum_list_conv_sum_set_nat set_upt)
  also have "\<dots> = (\<Sum>t<deep_N_CHAR. ?h (deep_T + t))"
    by (rule sum.reindex_bij_witness [where i = "\<lambda>t. deep_T + t" and j = "\<lambda>v. v - deep_T"]) auto
  finally show ?thesis by simp
qed

fun deep_updates :: "dms_state \<Rightarrow> u16 list \<Rightarrow> dms_state run" where
  "deep_updates st [] = Some (Ok st)"
| "deep_updates st (c # cs) = run_then (deep_update st c) (\<lambda>st'. deep_updates st' cs)"

lemma deep_updates_ok:
  assumes "deep_tree st" and "\<forall>c\<in>set cs. unat c < deep_N_CHAR" and "nat_at (freq st) deep_R + length cs \<le> 0x8000"
  shows "\<exists>st'. deep_updates st cs = Some (Ok st') \<and> deep_tree st' \<and>
    (\<forall>t<deep_N_CHAR. symbol_count st' t = symbol_count st t + count_list (map unat cs) t)"
  using assms
proof (induction cs arbitrary: st)
  case Nil
  then show ?case by simp
next
  case (Cons c cs)
  then have c: "unat c < deep_N_CHAR" and "nat_at (freq st) deep_R < 0x8000" by simp_all
  with deep_update_ok [OF Cons.prems(1)] obtain st1 where st1: "deep_update st c = Some (Ok st1)" "deep_tree st1"
    "\<forall>t<deep_N_CHAR. symbol_count st1 t = symbol_count st t + of_bool (t = unat c)" by blast
  have "(\<Sum>t<deep_N_CHAR. symbol_count st1 t) = (\<Sum>t<deep_N_CHAR. symbol_count st t + of_bool (t = unat c))"
    by (intro sum.cong refl) (use st1(3) in auto)
  also have "\<dots> = (\<Sum>t<deep_N_CHAR. symbol_count st t) + 1"
    using c by (simp add: sum.distrib of_bool_def del: sum.lessThan_Suc)
  finally have "nat_at (freq st1) deep_R + length cs \<le> 0x8000"
    using Cons.prems(3) symbols_sum [OF st1(2)] symbols_sum [OF Cons.prems(1)] by simp
  from Cons.IH [OF st1(2) _ this] Cons.prems(2) obtain st' where "deep_updates st1 cs = Some (Ok st')" "deep_tree st'"
    "\<forall>t<deep_N_CHAR. symbol_count st' t = symbol_count st1 t + count_list (map unat cs) t" by auto
  then show ?case using st1(1,3) by auto
qed



section \<open>Code words\<close>

text \<open>The bits that lead from the root to the node \<open>x\<close>; the second child of a pair has an odd number.\<close>

function deep_path :: "u16 list \<Rightarrow> nat \<Rightarrow> bool list" where
  "deep_path ps x = (if x < deep_R \<and> x < nat_at ps x then deep_path ps (nat_at ps x) @ [odd x] else [])"
  by auto

termination by (relation "measure (\<lambda>(ps, x). deep_R - x)") auto

declare deep_path.simps [simp del]

text \<open>An encoder that counts with the decoder's own operation, and the decoder of as many symbols.\<close>

fun deep_encode :: "dms_state \<Rightarrow> u16 list \<Rightarrow> bool list run" where
  "deep_encode st [] = Some (Ok [])"
| "deep_encode st (c # cs) =
     run_then (deep_update st c) (\<lambda>st'.
     run_then (deep_encode st' cs) (\<lambda>bits.
     Some (Ok (deep_path (prnt st) (nat_at (prnt st) (deep_T + unat c)) @ bits))))"

fun deep_decode_chars :: "nat \<Rightarrow> bit_reader \<Rightarrow> dms_state \<Rightarrow> u16 list run" where
  "deep_decode_chars 0 br st = Some (Ok [])"
| "deep_decode_chars (Suc n) br st =
     run_then (deep_decode_char br st) (\<lambda>(c, br', st').
     run_then (deep_decode_chars n br' st') (\<lambda>cs. Some (Ok (c # cs))))"

definition pack_bits :: "bool list \<Rightarrow> bytes" where
  "pack_bits bs = map (\<lambda>j. word_of_nat (bits_val (\<lambda>i. i < length bs \<and> bs ! i) (8 * j) 8)) [0..<(length bs + 7) div 8]"

lemma data_bit_pack:
  assumes "k < length bs" shows "data_bit (pack_bits bs @ rest) k = bs ! k"
proof -
  let ?f = "\<lambda>i. i < length bs \<and> bs ! i"
  have j: "k div 8 < (length bs + 7) div 8" using assms by linarith
  have "(pack_bits bs @ rest) ! (k div 8) = word_of_nat (bits_val ?f (8 * (k div 8)) 8)"
    using j by (simp add: pack_bits_def nth_append del: bits_val.simps)
  moreover have "bit (word_of_nat (bits_val ?f (8 * (k div 8)) 8) :: u8) (7 - k mod 8) \<longleftrightarrow> ?f (8 * (k div 8) + k mod 8)"
  proof -
    have k: "k mod 8 \<le> 7" "7 - k mod 8 < 8" using mod_less_divisor [of 8 k] by linarith+
    then show ?thesis unfolding bit_of_nat_iff bit_bits_val by simp
  qed
  moreover have "8 * (k div 8) + k mod 8 = k" by simp
  ultimately show ?thesis using assms j by (simp add: data_bit_def pack_bits_def)
qed

lemma deep_parent_of:
  assumes "deep_links ss ps" and "x < deep_R"
  shows "nat_at ps x < deep_T \<and> x < nat_at ps x \<and> nat_at ss (nat_at ps x) < deep_T \<and> nat_at ss (nat_at ps x) + of_bool (odd x) = x"
proof -
  let ?a = "nat_at ps x"
  have x: "?a < deep_T" "x = nat_at ss ?a \<or> x = nat_at ss ?a + 1 \<and> nat_at ss ?a < deep_T"
    using deep_parent [OF assms(1), of x] assms(2) by auto
  then have "nat_at ss ?a < deep_T" using assms(2) by auto
  with deep_linksD(4) [OF assms(1) x(1)] have "nat_at ss ?a + 1 < ?a" "even (nat_at ss ?a)" by simp_all
  then show ?thesis using x \<open>nat_at ss ?a < deep_T\<close> by auto
qed

lemma deep_walk_path:
  assumes "deep_links ss ps" and "br_at data p br" and "x \<le> deep_R"
    and "\<And>k. k < length (deep_path ps x) \<Longrightarrow> data_bit data (p + k) = deep_path ps x ! k"
  shows "\<exists>br'. deep_walk ss (ss ! deep_R) br = deep_walk ss (ss ! x) br' \<and> br_at data (p + length (deep_path ps x)) br'"
  using assms(3,4)
proof (induction "deep_R - x" arbitrary: x rule: less_induct)
  case less
  show ?case
  proof (cases "x = deep_R")
    case True
    then have "deep_path ps x = []" by (subst deep_path.simps) simp
    then show ?thesis using True assms(2) by auto
  next
    case False
    then have x: "x < deep_R" using less.prems(1) by simp
    let ?a = "nat_at ps x"
    note A = deep_parent_of [OF assms(1) x]
    have path: "deep_path ps x = deep_path ps ?a @ [odd x]" using x A by (subst deep_path.simps) simp
    have "data_bit data (p + k) = deep_path ps ?a ! k" if "k < length (deep_path ps ?a)" for k
      using less.prems(2) [of k] that by (simp add: path nth_append)
    moreover have "deep_R - ?a < deep_R - x" "?a \<le> deep_R" using x A by auto
    ultimately obtain br1 where br1: "deep_walk ss (ss ! deep_R) br = deep_walk ss (ss ! ?a) br1"
      "br_at data (p + length (deep_path ps ?a)) br1" using less.hyps [of ?a] by blast
    have "data_bit data (p + length (deep_path ps ?a)) = odd x" using less.prems(2) [of "length (deep_path ps ?a)"] by (simp add: path)
    then have peek: "unat (br_peek br1 1) = of_bool (odd x)" using br_peek_at [OF br1(2), of 1] by simp
    have "nat_at ss ?a + unat (br_peek br1 1) = x" unfolding peek using A by simp
    then have "deep_walk ss (ss ! ?a) br1 = deep_walk ss (ss ! x) (br_drop br1 1)"
      using A x deep_linksD(1) [OF assms(1)] by (subst deep_walk.simps) (simp add: get_at_def)
    moreover have "br_at data (p + length (deep_path ps x)) (br_drop br1 1)"
      using br_drop_at [OF br1(2), of 1] by (simp add: path)
    ultimately show ?thesis using br1(1) by auto
  qed
qed

lemma deep_decode_path:
  assumes "deep_tree st" and "br_at data p br" and c: "unat c < deep_N_CHAR"
    and path: "\<And>k. k < length (deep_path (prnt st) (nat_at (prnt st) (deep_T + unat c))) \<Longrightarrow>
      data_bit data (p + k) = deep_path (prnt st) (nat_at (prnt st) (deep_T + unat c)) ! k"
    and update: "deep_update st c = Some (Ok st')"
  shows "\<exists>br'. deep_decode_char br st = Some (Ok (c, br', st')) \<and>
    br_at data (p + length (deep_path (prnt st) (nat_at (prnt st) (deep_T + unat c)))) br'"
proof -
  let ?x = "nat_at (prnt st) (deep_T + unat c)"
  have links: "deep_links (son st) (prnt st)" using assms(1) by (simp add: deep_tree_def)
  note D = deep_linksD [OF links]
  have "deep_T + unat c \<in> set (map unat (son st))" using c unfolding D(9) set_deep_nodes by simp
  then obtain a where a: "a < deep_T" "nat_at (son st) a = deep_T + unat c" using D(1) by (auto simp: in_set_conv_nth)
  then have x: "?x = a" using D(5) [of a] by simp
  obtain br' where br': "deep_walk (son st) (son st ! deep_R) br = deep_walk (son st) (son st ! a) br'"
    "br_at data (p + length (deep_path (prnt st) a)) br'"
    using deep_walk_path [OF links assms(2), of a] path a(1) unfolding x by auto
  have "deep_walk (son st) (son st ! a) br' = Some (Ok (son st ! a, br'))" using a(2) by (subst deep_walk.simps) simp
  moreover have "son st ! a - 627 = c"
  proof -
    have "unat (son st ! a - 627) = unat c" using a(2) by (subst unat_sub) (simp_all add: word_le_nat_alt)
    then show ?thesis by (simp add: word_unat_eq_iff)
  qed
  ultimately show ?thesis using br' update D(1) unfolding x by (auto simp: deep_decode_char_def get_at_def)
qed

lemma deep_decode_encoded:
  assumes "deep_tree st" and "\<forall>c\<in>set cs. unat c < deep_N_CHAR"
  shows "\<exists>bits. deep_encode st cs = Some (Ok bits) \<and>
    (\<forall>data p br. br_at data p br \<longrightarrow> (\<forall>k<length bits. data_bit data (p + k) = bits ! k) \<longrightarrow> deep_decode_chars (length cs) br st = Some (Ok cs))"
  using assms
proof (induction cs arbitrary: st)
  case Nil
  then show ?case by simp
next
  case (Cons c cs)
  then have c: "unat c < deep_N_CHAR" by simp
  with deep_update_ok [OF Cons.prems(1)] obtain st1 where st1: "deep_update st c = Some (Ok st1)" "deep_tree st1" by blast
  from Cons.IH [OF st1(2)] Cons.prems(2) obtain bits where bits: "deep_encode st1 cs = Some (Ok bits)"
    and decode: "\<And>data p br. br_at data p br \<Longrightarrow> (\<And>k. k < length bits \<Longrightarrow> data_bit data (p + k) = bits ! k) \<Longrightarrow>
      deep_decode_chars (length cs) br st1 = Some (Ok cs)" by auto
  let ?path = "deep_path (prnt st) (nat_at (prnt st) (deep_T + unat c))"
  have "deep_decode_chars (length (c # cs)) br st = Some (Ok (c # cs))"
    if "br_at data p br" and all: "\<forall>k<length (?path @ bits). data_bit data (p + k) = (?path @ bits) ! k" for data p br
  proof -
    have "data_bit data (p + k) = ?path ! k" if "k < length ?path" for k using all [rule_format, of k] that by (simp add: nth_append)
    from deep_decode_path [OF Cons.prems(1) \<open>br_at data p br\<close> c this st1(1)] obtain br'
      where br': "deep_decode_char br st = Some (Ok (c, br', st1))" "br_at data (p + length ?path) br'" by blast
    have "data_bit data (p + length ?path + k) = bits ! k" if "k < length bits" for k
      using all [rule_format, of "length ?path + k"] that by (simp add: add.assoc)
    from decode [OF br'(2) this] br'(1) show ?thesis by simp
  qed
  then show ?case using st1(1) bits by auto
qed

text \<open>
  A text of symbols that is written in the adaptive code, each symbol as the path to its
  leaf in the tree of the symbols before it, is decoded to that text, whatever is behind it; the text may be so long that the
  tree is built again with halved counts any number of times.
\<close>

theorem deep_code_roundtrip:
  assumes "length (freq st) = deep_T + 1" and "length (son st) = deep_T" and "length (prnt st) = deep_T + deep_N_CHAR"
    and "\<forall>c\<in>set cs. unat c < deep_N_CHAR"
  shows "\<exists>st0 bits. init_deep_tabs st = Ok st0 \<and> deep_encode st0 cs = Some (Ok bits) \<and>
    deep_decode_chars (length cs) (br_new (pack_bits bits @ rest)) st0 = Some (Ok cs)"
proof -
  obtain st0 where st0: "init_deep_tabs st = Ok st0" "deep_tree st0" using init_deep_tabs_ok [OF assms(1-3)] by blast
  obtain bits where "deep_encode st0 cs = Some (Ok bits)"
    "\<And>data p br. br_at data p br \<Longrightarrow> (\<And>k. k < length bits \<Longrightarrow> data_bit data (p + k) = bits ! k) \<Longrightarrow> deep_decode_chars (length cs) br st0 = Some (Ok cs)"
    using deep_decode_encoded [OF st0(2) assms(4)] by blast
  then show ?thesis using st0(1) br_new_at [of "pack_bits bits @ rest"] data_bit_pack [of _ bits rest] by fastforce
qed

lemma deep_code_roundtrip_witness:
  "\<exists>st0 bits. init_deep_tabs dms_new = Ok st0 \<and> deep_encode st0 [65, 300, 65] = Some (Ok bits) \<and>
     deep_decode_chars 3 (br_new (pack_bits bits @ [1, 2])) st0 = Some (Ok [65, 300, 65])"
  using deep_code_roundtrip [of dms_new "[65, 300, 65]" "[1, 2]"] by (simp add: dms_new_def numeral_3_eq_3)

end
