(* ===== verification/Dms_Lz.thy ===== *)
theory Dms_Lz
  imports Dms_Window Dms_Symbols
begin

text \<open>
  What the window modes of \<^verbatim>\<open>container/disk/dms.rs\<close> mean: their codes are literal bytes and
  copies of earlier bytes, and the ring buffer that the copies are taken from always holds
  the last bytes of the history. The interface \<open>lz_mode\<close> is what such a mode does with one
  code; the modes Quick, Medium and Deep interpret it.
\<close>

section \<open>Literals and copies\<close>

text \<open>A copy takes \<open>len\<close> bytes, one after the other, \<open>dist + 1\<close> bytes back; it may overlap itself.\<close>

datatype lz_token = Literal u8 | Copy nat nat

primrec lz_copy :: "nat \<Rightarrow> nat \<Rightarrow> bytes \<Rightarrow> bytes" where
  "lz_copy 0 d hist = []"
| "lz_copy (Suc j) d hist = (let c = hist ! (length hist - 1 - d) in c # lz_copy j d (hist @ [c]))"

primrec lz_bytes :: "bytes \<Rightarrow> lz_token \<Rightarrow> bytes" where
  "lz_bytes hist (Literal c) = [c]"
| "lz_bytes hist (Copy j d) = lz_copy j d hist"

primrec lz_plain :: "bytes \<Rightarrow> lz_token list \<Rightarrow> bytes" where
  "lz_plain hist [] = []"
| "lz_plain hist (t # ts) = lz_bytes hist t @ lz_plain (hist @ lz_bytes hist t) ts"

lemma length_lz_copy [simp]: "length (lz_copy j d hist) = j"
  by (induction j arbitrary: hist) (simp_all add: Let_def)

section \<open>The ring buffer\<close>

text \<open>In a window of \<open>2 ^ b\<close> bytes the byte \<open>k + 1\<close> positions in front of \<open>loc\<close> is the byte \<open>k + 1\<close> from the end of the history.\<close>

definition window_holds :: "nat \<Rightarrow> bytes \<Rightarrow> bytes \<Rightarrow> u16 \<Rightarrow> bool" where
  "window_holds b hist win loc \<longleftrightarrow> b \<le> 14 \<and> length win = 0x4000 \<and> 2 ^ b \<le> length hist \<and>
     (\<forall>k<2 ^ b. win ! unat (take_bit b (loc - 1 - of_nat k)) = hist ! (length hist - 1 - k))"

definition window_bytes :: "nat \<Rightarrow> bytes \<Rightarrow> u16 \<Rightarrow> bytes" where
  "window_bytes b win loc = map (\<lambda>k. win ! unat (take_bit b (loc + of_nat k))) [0..<2 ^ b]"

lemma take_bit_index: "b \<le> 14 \<Longrightarrow> unat (take_bit b (x :: u16)) < 0x4000"
proof -
  assume "b \<le> 14"
  have "unat (take_bit b x) < 2 ^ b" by (simp add: unsigned_take_bit_eq take_bit_nat_less_exp)
  also have "\<dots> \<le> 2 ^ 14" using \<open>b \<le> 14\<close> by (intro power_increasing) simp_all
  finally show ?thesis by simp
qed

lemma take_bit_shift:
  assumes "take_bit b x = take_bit b y" shows "take_bit b (x + z) = take_bit b (y + z :: u16)"
  using assms
proof transfer
  fix b and x y z :: int
  let ?n = "min LENGTH(16) b"
  assume "take_bit LENGTH(16) (take_bit b x) = take_bit LENGTH(16) (take_bit b y)"
  then have "take_bit ?n x = take_bit ?n y" by (simp only: take_bit_take_bit)
  then have "take_bit ?n (take_bit ?n x + take_bit ?n z) = take_bit ?n (take_bit ?n y + take_bit ?n z)" by (simp only:)
  then have "take_bit ?n (x + z) = take_bit ?n (y + z)" by (simp only: take_bit_add)
  then show "take_bit LENGTH(16) (take_bit b (x + z)) = take_bit LENGTH(16) (take_bit b (y + z))" by (simp only: take_bit_take_bit)
qed

lemma take_bit_of_nat_small: "k < 2 ^ b \<Longrightarrow> b \<le> 14 \<Longrightarrow> unat (take_bit b (of_nat k :: u16)) = k"
proof -
  assume k: "k < 2 ^ b" and b: "b \<le> 14"
  have "(2 :: nat) ^ b \<le> 2 ^ 14" using b by (intro power_increasing) simp_all
  then have "k < 65536" using k by simp
  then show ?thesis using k by (simp add: unsigned_take_bit_eq unat_of_nat take_bit_nat_eq_self)
qed

lemma window_put:
  assumes "window_holds b hist win loc"
  shows "window_holds b (hist @ [c]) (win[unat (take_bit b loc) := c]) (loc + 1)"
  unfolding window_holds_def
proof (intro conjI allI impI)
  have W: "b \<le> 14" "length win = 0x4000" "2 ^ b \<le> length hist" using assms by (simp_all add: window_holds_def)
  then show "b \<le> 14" "length (win[unat (take_bit b loc) := c]) = 0x4000" "2 ^ b \<le> length (hist @ [c])" by simp_all
  fix k :: nat assume k: "k < 2 ^ b"
  show "win[unat (take_bit b loc) := c] ! unat (take_bit b (loc + 1 - 1 - of_nat k)) = (hist @ [c]) ! (length (hist @ [c]) - 1 - k)"
  proof (cases k)
    case 0
    then show ?thesis using take_bit_index [OF W(1), of loc] W(2) by simp
  next
    case (Suc j)
    have "take_bit b (loc - of_nat k) \<noteq> take_bit b loc"
    proof
      assume "take_bit b (loc - of_nat k) = take_bit b loc"
      from take_bit_shift [OF this, of "of_nat k - loc"] have "take_bit b (of_nat k :: u16) = 0" by simp
      then have "unat (take_bit b (of_nat k :: u16)) = 0" by simp
      then show False using take_bit_of_nat_small [OF k W(1)] Suc by simp
    qed
    then have "unat (take_bit b loc) \<noteq> unat (take_bit b (loc - of_nat k))" by (simp add: word_unat_eq_iff)
    moreover have "loc - of_nat k = loc - 1 - of_nat j" using Suc by (simp add: algebra_simps)
    moreover have "win ! unat (take_bit b (loc - 1 - of_nat j)) = hist ! (length hist - 1 - j)"
      using assms k Suc unfolding window_holds_def by simp
    moreover have "length hist - 1 - j < length hist" using W(3) k Suc by simp
    ultimately show ?thesis using Suc by (simp add: nth_append diff_diff_eq)
  qed
qed

lemma window_get:
  "window_holds b hist win loc \<Longrightarrow> d < 2 ^ b \<Longrightarrow> win ! unat (take_bit b (loc - of_nat d - 1)) = hist ! (length hist - 1 - d)"
  unfolding window_holds_def by (simp add: algebra_simps)

lemma window_start:
  assumes "b \<le> 14" and "length win = 0x4000"
  shows "window_holds b (window_bytes b win loc) win loc"
  unfolding window_holds_def
proof (intro conjI allI impI)
  show "b \<le> 14" "length win = 0x4000" by (rule assms)+
  show "2 ^ b \<le> length (window_bytes b win loc)" by (simp add: window_bytes_def)
  fix k :: nat assume k: "k < 2 ^ b"
  then have "2 ^ b - 1 - k < 2 ^ b" by simp
  then have "window_bytes b win loc ! (length (window_bytes b win loc) - 1 - k) = win ! unat (take_bit b (loc + of_nat (2 ^ b - 1 - k)))"
    by (simp add: window_bytes_def)
  moreover have "take_bit b (loc + of_nat (2 ^ b - 1 - k)) = take_bit b (loc - 1 - of_nat k)"
  proof -
    have "of_nat (2 ^ b - 1 - k) = (2 ^ b - 1 - of_nat k :: u16)" using k by (simp add: of_nat_diff)
    then have sum: "loc + of_nat (2 ^ b - 1 - k) = 2 ^ b + (loc - 1 - of_nat k)" by (simp only:) (simp add: algebra_simps)
    have "take_bit b (2 ^ b + (loc - 1 - of_nat k)) = take_bit b (0 + (loc - 1 - of_nat k))"
      by (rule take_bit_shift, rule bit_word_eqI) (simp add: bit_take_bit_iff bit_exp_iff)
    then show ?thesis unfolding sum by simp
  qed
  ultimately show "win ! unat (take_bit b (loc - 1 - of_nat k)) = window_bytes b win loc ! (length (window_bytes b win loc) - 1 - k)" by simp
qed

text \<open>What the loops of the decoder do with a window.\<close>

lemma put_byte_holds:
  assumes "window_holds b hist win loc" and "length out < n"
  obtains win' where "put_byte (mask b) n c (win, loc, out) = Ok (win', loc + 1, out @ [c])" and "window_holds b (hist @ [c]) win' (loc + 1)"
proof
  have "unat (take_bit b loc) < length win" using assms(1) take_bit_index by (simp add: window_holds_def)
  then show "put_byte (mask b) n c (win, loc, out) = Ok (win[unat (take_bit b loc) := c], loc + 1, out @ [c])"
    using assms(2) by (simp add: put_byte_def put_at_def flip: take_bit_eq_mask)
qed (rule window_put [OF assms(1)])

lemma copy_match_holds:
  assumes "window_holds b hist win loc" and "d < 2 ^ b" and "length out + j \<le> n"
  shows "\<exists>win' loc'. copy_match (mask b) n j (loc - of_nat d - 1) (win, loc, out) = Ok (win', loc', out @ lz_copy j d hist) \<and>
    window_holds b (hist @ lz_copy j d hist) win' loc'"
  using assms(1,3)
proof (induction j arbitrary: hist win loc out)
  case 0
  then show ?case by simp
next
  case (Suc j)
  let ?c = "hist ! (length hist - 1 - d)"
  have "unat (take_bit b (loc - of_nat d - 1)) < length win" using Suc.prems(1) take_bit_index by (simp add: window_holds_def)
  then have get: "get_at win (unat ((loc - of_nat d - 1) AND mask b)) = Ok ?c"
    using window_get [OF Suc.prems(1) assms(2)] by (simp add: get_at_def flip: take_bit_eq_mask)
  have room: "length out < n" using Suc.prems(2) by simp
  obtain win1 where put: "put_byte (mask b) n ?c (win, loc, out) = Ok (win1, loc + 1, out @ [?c])"
    "window_holds b (hist @ [?c]) win1 (loc + 1)" by (rule put_byte_holds [OF Suc.prems(1) room])
  have same: "loc - of_nat d - 1 + 1 = loc + 1 - of_nat d - 1" by simp
  from Suc.IH [OF put(2), of "out @ [?c]"] Suc.prems(2) obtain win' loc' where
    run: "copy_match (mask b) n j (loc + 1 - of_nat d - 1) (win1, loc + 1, out @ [?c]) =
        Ok (win', loc', (out @ [?c]) @ lz_copy j d (hist @ [?c]))"
      "window_holds b ((hist @ [?c]) @ lz_copy j d (hist @ [?c])) win' loc'" by auto
  show ?case
  proof (cases "n \<le> length (out @ [?c])")
    case True
    then have "j = 0" using Suc.prems(2) by simp
    then show ?thesis using True put by (auto simp: get Let_def)
  next
    case False
    then show ?thesis using put(1) run unfolding copy_match.simps same by (auto simp: get Let_def)
  qed
qed

section \<open>Codes as bits\<close>

text \<open>A number as \<open>n\<close> bits, the highest one first; and that these bits are at the position \<open>p\<close> of the data.\<close>

definition bits_of :: "nat \<Rightarrow> nat \<Rightarrow> bool list" where
  "bits_of n v = map (\<lambda>i. bit v (n - 1 - i)) [0..<n]"

definition has_bits :: "bytes \<Rightarrow> nat \<Rightarrow> bool list \<Rightarrow> bool" where
  "has_bits data p bs \<longleftrightarrow> (\<forall>k<length bs. data_bit data (p + k) = bs ! k)"

lemma length_bits_of [simp]: "length (bits_of n v) = n"
  by (simp add: bits_of_def)

lemma has_bits_append: "has_bits data p (xs @ ys) \<longleftrightarrow> has_bits data p xs \<and> has_bits data (p + length xs) ys"
proof
  assume all: "has_bits data p (xs @ ys)"
  have "data_bit data (p + length xs + k) = ys ! k" if "k < length ys" for k
    using all that by (auto simp: has_bits_def add.assoc dest: spec [of _ "length xs + k"])
  moreover have "data_bit data (p + k) = xs ! k" if "k < length xs" for k
    using all that by (auto simp: has_bits_def nth_append dest: spec [of _ k])
  ultimately show "has_bits data p xs \<and> has_bits data (p + length xs) ys" by (simp add: has_bits_def)
next
  assume both: "has_bits data p xs \<and> has_bits data (p + length xs) ys"
  show "has_bits data p (xs @ ys)"
    unfolding has_bits_def
  proof (intro allI impI)
    fix k assume k: "k < length (xs @ ys)"
    show "data_bit data (p + k) = (xs @ ys) ! k"
    proof (cases "k < length xs")
      case True
      then show ?thesis using both by (simp add: has_bits_def nth_append)
    next
      case False
      then have "p + length xs + (k - length xs) = p + k" "k - length xs < length ys" using k by auto
      then have "data_bit data (p + k) = ys ! (k - length xs)" using both unfolding has_bits_def by metis
      then show ?thesis using False by (simp add: nth_append)
    qed
  qed
qed

lemma has_bits_Cons: "has_bits data p (x # xs) \<longleftrightarrow> data_bit data p = x \<and> has_bits data (p + 1) xs"
  using has_bits_append [of data p "[x]" xs] by (simp add: has_bits_def)

lemma has_bits_pack: "has_bits (pack_bits bs @ rest) 0 bs"
  by (simp add: has_bits_def data_bit_pack)

lemma has_bits_val:
  assumes "has_bits data p (bits_of n v)" and "v < 2 ^ n"
  shows "bits_val (data_bit data) p n = v"
proof (rule bit_eqI)
  fix i
  have "data_bit data (p + (n - 1 - i)) = bit v i" if "i < n"
  proof -
    have "data_bit data (p + (n - 1 - i)) = bits_of n v ! (n - 1 - i)"
      using assms(1) [unfolded has_bits_def, rule_format, of "n - 1 - i"] that by (simp only: length_bits_of)
    then show ?thesis using that by (simp add: bits_of_def)
  qed
  moreover have "\<not> bit v i" if "\<not> i < n"
  proof -
    have "take_bit n v = v" using assms(2) by (simp add: take_bit_nat_eq_self_iff)
    then show ?thesis using that by (metis bit_take_bit_iff)
  qed
  ultimately show "bit (bits_val (data_bit data) p n) i = bit v i" unfolding bit_bits_val by blast
qed

lemma bits_val_split: "bits_val f p (m + n) = bits_val f p m * 2 ^ n + bits_val f (p + m) n"
  by (induction n) (simp_all add: algebra_simps)

text \<open>Reading a number that was written.\<close>

lemma br_get_bits:
  assumes "br_at data p br" and "unat n \<le> 16" and "has_bits data p (bits_of (unat n) v)" and "v < 2 ^ unat n"
  shows "br_get br n = (of_nat v, br_drop br n)" "br_at data (p + unat n) (br_drop br n)"
  using br_peek_at [OF assms(1,2)] has_bits_val [OF assms(3,4)] br_drop_at [OF assms(1,2)] by (simp_all add: br_get_def)

section \<open>A mode that decodes such codes\<close>

text \<open>
  The client writes the codes one after the other; \<open>code\<close> may depend on a state \<open>e\<close> of the
  writer that \<open>advance\<close> changes. What a mode owes: at the bits of a code one step of its loop adds the bytes of the
  code and goes on behind the bits.
\<close>

primrec lz_codes :: "('e \<Rightarrow> lz_token \<Rightarrow> bool list) \<Rightarrow> ('e \<Rightarrow> lz_token \<Rightarrow> 'e) \<Rightarrow> 'e \<Rightarrow> lz_token list \<Rightarrow> bool list" where
  "lz_codes code advance e [] = []"
| "lz_codes code advance e (t # ts) = code e t @ lz_codes code advance (advance e t) ts"

locale lz_mode =
  fixes step :: "nat \<Rightarrow> bit_reader \<times> dms_state \<Rightarrow> bytes \<Rightarrow> ((bit_reader \<times> dms_state) \<times> bytes) run"
    and code :: "'e \<Rightarrow> lz_token \<Rightarrow> bool list" and advance :: "'e \<Rightarrow> lz_token \<Rightarrow> 'e" and valid :: "lz_token \<Rightarrow> bool"
    and holds :: "'e \<Rightarrow> bytes \<Rightarrow> dms_state \<Rightarrow> bool"
  assumes step_token: "holds e hist st \<Longrightarrow> br_at data p br \<Longrightarrow> has_bits data p (code e t) \<Longrightarrow> valid t \<Longrightarrow>
      length out + length (lz_bytes hist t) \<le> n \<Longrightarrow>
      \<exists>br' st'. step n (br, st) out = Some (Ok ((br', st'), out @ lz_bytes hist t)) \<and>
        br_at data (p + length (code e t)) br' \<and> holds (advance e t) (hist @ lz_bytes hist t) st'"
    and valid_bytes: "valid t \<Longrightarrow> lz_bytes hist t \<noteq> []"
begin

lemma fill_tokens:
  assumes "holds e hist st" and "br_at data p br" and "has_bits data p (lz_codes code advance e ts)" and "\<forall>t\<in>set ts. valid t"
    and "n = length out + length (lz_plain hist ts)"
  shows "\<exists>s'. fill_output (step n) n (br, st) out = Some (Ok (s', out @ lz_plain hist ts))"
  using assms
proof (induction ts arbitrary: e hist st p br out)
  case Nil
  then show ?case by (subst fill_output.simps) simp
next
  case (Cons t ts)
  have t: "valid t" and bits: "has_bits data p (code e t)" "has_bits data (p + length (code e t)) (lz_codes code advance (advance e t) ts)"
    using Cons.prems(3,4) by (simp_all add: has_bits_append)
  have "length out + length (lz_bytes hist t) \<le> n" using Cons.prems(5) by simp
  from step_token [OF Cons.prems(1,2) bits(1) t this] obtain br' st' where
    run: "step n (br, st) out = Some (Ok ((br', st'), out @ lz_bytes hist t))"
      "br_at data (p + length (code e t)) br'" "holds (advance e t) (hist @ lz_bytes hist t) st'" by blast
  have less: "\<not> n \<le> length out" using Cons.prems(5) valid_bytes [OF t, of hist] by simp
  from Cons.IH [OF run(3,2) bits(2), of "out @ lz_bytes hist t"] Cons.prems(4,5)
  obtain s' where "fill_output (step n) n (br', st') (out @ lz_bytes hist t) =
      Some (Ok (s', (out @ lz_bytes hist t) @ lz_plain (hist @ lz_bytes hist t) ts))" by auto
  then show ?case using run(1) less by (subst fill_output.simps) simp
qed

end

section \<open>The prefix code of the tables\<close>

text \<open>
  The tables give for the next byte the number whose prefix it starts with, and the length of
  this prefix. So a number below 64 is written as its prefix, and the bits behind it are the next byte.
\<close>

definition dist_size :: "nat \<Rightarrow> nat" where
  "dist_size v = (if v < 1 then 3 else if v < 4 then 4 else if v < 12 then 5 else if v < 24 then 6 else if v < 48 then 7 else 8)"

definition dist_start :: "nat \<Rightarrow> nat" where
  "dist_start v =
     (if v < 1 then 0 else if v < 4 then 32 + (v - 1) * 16 else if v < 12 then 80 + (v - 4) * 8
      else if v < 24 then 144 + (v - 12) * 4 else if v < 48 then 192 + (v - 24) * 2 else 240 + (v - 48))"

definition dist_of :: "nat \<Rightarrow> nat" where
  "dist_of i =
     (if i < 32 then 0 else if i < 80 then 1 + (i - 32) div 16 else if i < 144 then 4 + (i - 80) div 8
      else if i < 192 then 12 + (i - 144) div 4 else if i < 240 then 24 + (i - 192) div 2 else 48 + (i - 240))"

definition dist_prefix :: "nat \<Rightarrow> bool list" where
  "dist_prefix v = bits_of (dist_size v) (dist_start v div 2 ^ (8 - dist_size v))"

primrec values_from :: "(nat \<Rightarrow> nat) \<Rightarrow> nat \<Rightarrow> nat \<Rightarrow> nat list" where
  "values_from f 0 i = []"
| "values_from f (Suc k) i = f i # values_from f k (i + 1)"

lemma values_from_numeral: "values_from f (numeral k) i = f i # values_from f (pred_numeral k) (i + 1)"
  by (simp add: numeral_eq_Suc)

lemma nth_values_from: "j < k \<Longrightarrow> values_from f k i ! j = f (i + j)"
  by (induction k arbitrary: i j) (auto simp: nth_Cons split: nat.splits)

lemma dist_tables: "map unat D_CODE = values_from dist_of 256 0" "map unat D_LEN = values_from (dist_size \<circ> dist_of) 256 0"
  by (simp_all add: D_CODE_def D_LEN_def values_from_numeral dist_of_def dist_size_def)

lemma dist_table_nth: "i < 256 \<Longrightarrow> unat (D_CODE ! i) = dist_of i" "i < 256 \<Longrightarrow> unat (D_LEN ! i) = dist_size (dist_of i)"
  using arg_cong [OF dist_tables(1), of "\<lambda>xs. xs ! i"] arg_cong [OF dist_tables(2), of "\<lambda>xs. xs ! i"]
  by (simp_all add: distance_tables nth_values_from)

lemma dist_row:
  assumes "v < 64" and "x < 2 ^ (8 - dist_size v)"
  shows "dist_start v + x < 256" "dist_of (dist_start v + x) = v" "dist_start v mod 2 ^ (8 - dist_size v) = 0" "dist_size v \<le> 8"
proof -
  consider "v < 1" | "1 \<le> v" "v < 4" | "4 \<le> v" "v < 12" | "12 \<le> v" "v < 24" | "24 \<le> v" "v < 48" | "48 \<le> v" by linarith
  then have "dist_start v + x < 256 \<and> dist_of (dist_start v + x) = v \<and> dist_start v mod 2 ^ (8 - dist_size v) = 0 \<and> dist_size v \<le> 8"
    by cases (use assms in \<open>simp_all add: dist_size_def dist_start_def dist_of_def, (presburger)?\<close>)
  then show "dist_start v + x < 256" "dist_of (dist_start v + x) = v" "dist_start v mod 2 ^ (8 - dist_size v) = 0" "dist_size v \<le> 8" by blast+
qed

lemma prefix_byte:
  assumes "has_bits data p (dist_prefix v)" and "v < 64"
  defines "c \<equiv> bits_val (data_bit data) p 8"
  shows "c < 256" "unat (D_CODE ! c) = v" "unat (D_LEN ! c) = dist_size v" "dist_size v \<le> 8"
proof -
  let ?B = "bits_val (data_bit data)" and ?L = "dist_size v" and ?M = "2 ^ (8 - dist_size v) :: nat"
  have row: "dist_start v + x < 256" "dist_of (dist_start v + x) = v" "dist_start v mod ?M = 0" "?L \<le> 8" if "x < ?M" for x
    using dist_row [OF assms(2) that] by blast+
  have L: "dist_start v mod ?M = 0" "?L \<le> 8" "dist_start v < 256" using row [of 0] by simp_all
  have "?M * 2 ^ ?L = 2 ^ 8" using L(2) by (simp flip: power_add)
  then have "dist_start v div ?M < 2 ^ ?L" using L(3) by (simp add: less_mult_imp_div_less mult.commute)
  then have "?B p ?L = dist_start v div ?M" using assms(1) has_bits_val unfolding dist_prefix_def by blast
  then have "c = dist_start v div ?M * ?M + ?B (p + ?L) (8 - ?L)" using bits_val_split [of "data_bit data" p ?L "8 - ?L"] L(2) by (simp add: c_def)
  then have c: "c = dist_start v + ?B (p + ?L) (8 - ?L)" using L(1) by auto
  show "c < 256" "?L \<le> 8" using row(1) [OF bits_val_less] L(2) unfolding c by blast+
  then show "unat (D_CODE ! c) = v" "unat (D_LEN ! c) = ?L"
    using dist_table_nth [of c] row(2) [OF bits_val_less] unfolding c by simp_all
qed

text \<open>A byte with the next \<open>u\<close> bits shifted in is the byte \<open>u\<close> bits later.\<close>

lemma shifted_byte:
  assumes "br_at data (p + 8) br" and "unat n \<le> 8"
  shows "(push_bit (unat n) (of_nat (bits_val (data_bit data) p 8)) OR br_peek br n) AND 0xff = (of_nat (bits_val (data_bit data) (p + unat n) 8) :: u16)"
proof (rule bit_word_eqI)
  fix i assume i: "i < LENGTH(16)"
  let ?f = "data_bit data" and ?u = "unat n"
  have low: "bit (0xff :: u16) i \<longleftrightarrow> i < 8"
  proof -
    have "(0xff :: u16) = mask 8" by (simp add: mask_eq_exp_minus_1)
    then show ?thesis using i by (simp only: bit_mask_iff) simp
  qed
  have shifted: "bit (push_bit ?u (of_nat (bits_val ?f p 8)) :: u16) i \<longleftrightarrow> ?u \<le> i \<and> i - ?u < 8 \<and> ?f (p + (8 - 1 - (i - ?u)))"
    using i by (auto simp: bit_push_bit_iff bit_of_nat_iff bit_bits_val)
  have peek: "bit (br_peek br n) i \<longleftrightarrow> i < ?u \<and> ?f (p + 8 + (?u - 1 - i))"
    using i br_peek_at [OF assms(1)] assms(2) by (simp add: bit_of_nat_iff bit_bits_val)
  have goal: "bit (of_nat (bits_val ?f (p + ?u) 8) :: u16) i \<longleftrightarrow> i < 8 \<and> ?f (p + ?u + (8 - 1 - i))"
    using i by (auto simp: bit_of_nat_iff bit_bits_val)
  show "bit ((push_bit ?u (of_nat (bits_val ?f p 8)) OR br_peek br n) AND 0xff) i = bit (of_nat (bits_val ?f (p + ?u) 8) :: u16) i"
  proof (cases "i < 8")
    case False
    then show ?thesis unfolding goal bit_and_iff low by simp
  next
    case True
    show ?thesis
    proof (cases "?u \<le> i")
      case in_byte: True
      then have eq: "p + (8 - 1 - (i - ?u)) = p + ?u + (8 - 1 - i)" using True by linarith
      show ?thesis unfolding goal bit_and_iff bit_or_iff low shifted peek eq using in_byte True by auto
    next
      case False
      then have eq: "p + 8 + (?u - 1 - i) = p + ?u + (8 - 1 - i)" using True by linarith
      show ?thesis unfolding goal bit_and_iff bit_or_iff low shifted peek eq using False True by auto
    qed
  qed
qed

lemma join_bytes: "b < 256 \<Longrightarrow> push_bit 8 (of_nat a) OR of_nat b = (of_nat (256 * a + b) :: u16)"
proof -
  assume "b < 256"
  then have "take_bit 8 b = b" by (simp add: take_bit_nat_eq_self)
  then have "\<not> bit b i" if "8 \<le> i" for i using that by (metis bit_take_bit_iff linorder_not_le)
  then have "\<not> bit (push_bit 8 (of_nat a) :: u16) i \<or> \<not> bit (of_nat b :: u16) i" for i
    by (cases "8 \<le> i") (auto simp: bit_push_bit_iff bit_of_nat_iff)
  then have "push_bit 8 (of_nat a) + of_nat b = (push_bit 8 (of_nat a) OR of_nat b :: u16)" by (rule disjunctive_add)
  then show ?thesis by (simp add: push_bit_eq_mult mult.commute)
qed

definition dist_code :: "nat \<Rightarrow> bool list" where
  "dist_code d = dist_prefix (d div 256) @ bits_of 8 (d mod 256)"

lemma deep_position_bits:
  assumes "br_at data p br" and "has_bits data p (dist_code d)" and "d < 16384"
  shows "\<exists>br'. deep_decode_position br = Ok (of_nat d, br') \<and> br_at data (p + length (dist_code d)) br'"
proof -
  let ?v = "d div 256" and ?B = "bits_val (data_bit data)"
  have bits: "has_bits data p (dist_prefix ?v)" "has_bits data (p + dist_size ?v) (bits_of 8 (d mod 256))"
    using assms(2) by (simp_all add: dist_code_def has_bits_append dist_prefix_def)
  have v: "?v < 64" using assms(3) by (simp add: less_mult_imp_div_less)
  note c = prefix_byte [OF bits(1) v]
  define n :: u32 where "n = ucast (D_LEN ! ?B p 8)"
  have n: "unat n = dist_size ?v" using c(3) by (simp add: n_def unat_ucast_widen)
  have br1: "br_peek br 8 = of_nat (?B p 8)" "br_at data (p + 8) (br_drop br 8)"
    using br_peek_at [OF assms(1), of 8] br_drop_at [OF assms(1), of 8] by simp_all
  have i: "unat (of_nat (?B p 8) :: u16) = ?B p 8" using c(1) by (simp add: unat_of_nat)
  have low: "?B (p + dist_size ?v) 8 = d mod 256" using has_bits_val [OF bits(2)] by simp
  have "(push_bit (unat (D_LEN ! ?B p 8)) (of_nat (?B p 8)) OR br_peek (br_drop br 8) n) AND 0xff = (of_nat (d mod 256) :: u16)"
    using shifted_byte [OF br1(2), of n] n c(3,4) low by simp
  moreover have "push_bit 8 (ucast (D_CODE ! ?B p 8)) OR of_nat (d mod 256) = (of_nat d :: u16)"
  proof -
    have "(ucast (D_CODE ! ?B p 8) :: u16) = of_nat (unat (D_CODE ! ?B p 8))" by simp
    then have code: "(ucast (D_CODE ! ?B p 8) :: u16) = of_nat ?v" unfolding c(2) .
    show ?thesis unfolding code using join_bytes [of "d mod 256" ?v] by simp
  qed
  ultimately have "deep_decode_position br = Ok (of_nat d, br_drop (br_drop br 8) n)"
    using c(1) i by (simp add: deep_decode_position_def br1(1) br_get_def Let_def get_at_def distance_tables n_def)
  moreover have "br_at data (p + 8 + unat n) (br_drop (br_drop br 8) n)"
    using br_drop_at [OF br1(2), of n] n c(4) by simp
  ultimately show ?thesis using n by (simp add: dist_code_def dist_prefix_def add_ac)
qed

section \<open>Quick\<close>

lemma window_masks: "(0xff :: u16) = mask 8" "(0x3fff :: u16) = mask 14"
  by (simp_all add: mask_eq_exp_minus_1)

text \<open>The flag in front of a code, and the byte of a literal.\<close>

lemma flag_bit:
  assumes "br_at data p br" and "has_bits data p (x # bs)"
  shows "br_peek br 1 \<noteq> 0 \<longleftrightarrow> x" "br_at data (p + 1) (br_drop br 1)" "has_bits data (p + 1) bs"
  using assms br_peek_at [OF assms(1), of 1] br_drop_at [OF assms(1), of 1] by (auto simp: has_bits_Cons)

lemma byte_bits:
  assumes "br_at data p br" and "has_bits data p (bits_of 8 v)" and "v < 256"
  shows "br_get br 8 = (of_nat v, br_drop br 8)" "br_at data (p + 8) (br_drop br 8)"
  using br_get_bits [OF assms(1), of 8 v] assms(2,3) by simp_all

definition quick_valid :: "lz_token \<Rightarrow> bool" where
  "quick_valid t = (case t of Literal c \<Rightarrow> True | Copy j d \<Rightarrow> 2 \<le> j \<and> j \<le> 5 \<and> d < 256)"

definition quick_code :: "lz_token \<Rightarrow> bool list" where
  "quick_code t = (case t of Literal c \<Rightarrow> True # bits_of 8 (unat c) | Copy j d \<Rightarrow> False # bits_of 2 (j - 2) @ bits_of 8 d)"

definition quick_holds :: "bytes \<Rightarrow> dms_state \<Rightarrow> bool" where
  "quick_holds hist st \<longleftrightarrow> window_holds 8 hist (window st) (quick_text_loc st)"

lemma quick_token:
  assumes "quick_holds hist st" and "br_at data p br" and "has_bits data p (quick_code t)" and "quick_valid t"
    and "length out + length (lz_bytes hist t) \<le> n"
  shows "\<exists>br' st'. quick_step n (br, st) out = Some (Ok ((br', st'), out @ lz_bytes hist t)) \<and>
    br_at data (p + length (quick_code t)) br' \<and> quick_holds (hist @ lz_bytes hist t) st'"
proof -
  note win = assms(1) [unfolded quick_holds_def]
  show ?thesis
  proof (cases t)
    case (Literal c)
    have bits: "has_bits data p (True # bits_of 8 (unat c))" using assms(3) Literal by (simp add: quick_code_def)
    note flag = flag_bit [OF assms(2) bits]
    have "unat c < 256" by (rule unat_u8_less)
    note byte = byte_bits [OF flag(2,3) this]
    have "length out < n" using assms(5) Literal by simp
    obtain win' where "put_byte (mask 8) n c (window st, quick_text_loc st, out) = Ok (win', quick_text_loc st + 1, out @ [c])"
      "window_holds 8 (hist @ [c]) win' (quick_text_loc st + 1)" by (rule put_byte_holds [OF win \<open>length out < n\<close>])
    moreover have "ucast (of_nat (unat c) :: u16) = c" by (rule bit_word_eqI) (auto simp: bit_ucast_iff)
    ultimately show ?thesis using flag(1) byte Literal
      by (simp add: quick_step_def quick_code_def quick_holds_def Let_def window_masks add.commute [of 9] del: of_nat_unat)
  next
    case (Copy j d)
    have jd: "2 \<le> j" "j \<le> 5" "d < 256" using assms(4) Copy by (simp_all add: quick_valid_def)
    have bits: "has_bits data p (False # bits_of 2 (j - 2) @ bits_of 8 d)" using assms(3) Copy by (simp add: quick_code_def)
    note flag = flag_bit [OF assms(2) bits]
    have num: "br_get (br_drop br 1) 2 = (of_nat (j - 2), br_drop (br_drop br 1) 2)" "br_at data (p + 1 + 2) (br_drop (br_drop br 1) 2)"
      using br_get_bits [OF flag(2), of 2 "j - 2"] flag(3) jd by (simp_all add: has_bits_append)
    have "has_bits data (p + 1 + 2) (bits_of 8 d)" using flag(3) by (simp add: has_bits_append)
    note byte = byte_bits [OF num(2) this jd(3)]
    have "unat (of_nat (j - 2) + 2 :: u16) = j" using jd by (simp add: of_nat_diff unat_of_nat)
    moreover obtain win' loc' where "copy_match (mask 8) n j (quick_text_loc st - of_nat d - 1) (window st, quick_text_loc st, out) =
        Ok (win', loc', out @ lz_copy j d hist)" "window_holds 8 (hist @ lz_copy j d hist) win' loc'"
      using copy_match_holds [OF win, of d out j n] jd(3) assms(5) Copy by auto
    ultimately show ?thesis using flag(1) num(1) byte Copy
      by (simp add: quick_step_def quick_code_def quick_holds_def Let_def window_masks add.commute [of 11])
  qed
qed

interpretation quick_lz: lz_mode quick_step "\<lambda>_. quick_code" "\<lambda>_ _. ()" quick_valid "\<lambda>_. quick_holds"
proof
  show "lz_bytes hist t \<noteq> []" if "quick_valid t" for hist t
    using that by (cases t) (auto simp: quick_valid_def simp flip: length_greater_0_conv)
qed (rule quick_token)

lemma lz_codes_concat: "lz_codes (\<lambda>_. code) (\<lambda>_ _. ()) e ts = concat (map code ts)"
  by (induction ts) simp_all

text \<open>The history that the window of a state stands for: its last 256 or 16384 bytes.\<close>

lemma unpack_quick_writes:
  assumes "length (window st) = 0x4000" and "\<forall>t\<in>set ts. quick_valid t"
  defines "plain \<equiv> lz_plain (window_bytes 8 (window st) (quick_text_loc st)) ts"
  shows "\<exists>st'. unpack_quick st (pack_bits (concat (map quick_code ts)) @ rest) (length plain) = Some (Ok (st', plain))"
proof -
  let ?hist = "window_bytes 8 (window st) (quick_text_loc st)"
  have "quick_holds ?hist st" using window_start [of 8 "window st"] assms(1) by (simp add: quick_holds_def)
  from quick_lz.fill_tokens [OF this br_new_at, of "pack_bits (concat (map quick_code ts)) @ rest" "()" ts "length plain" "[]"]
  obtain br st' where "fill_output (quick_step (length plain)) (length plain) (br_new (pack_bits (concat (map quick_code ts)) @ rest), st) [] =
      Some (Ok ((br, st'), plain))"
    using assms(2) has_bits_pack by (auto simp: lz_codes_concat plain_def)
  then show ?thesis by (simp add: unpack_quick_def)
qed

section \<open>Medium\<close>

definition medium_valid :: "lz_token \<Rightarrow> bool" where
  "medium_valid t = (case t of Literal c \<Rightarrow> True | Copy j d \<Rightarrow> 3 \<le> j \<and> j \<le> 66 \<and> d < 16384)"

definition medium_code :: "lz_token \<Rightarrow> bool list" where
  "medium_code t = (case t of Literal c \<Rightarrow> True # bits_of 8 (unat c) | Copy j d \<Rightarrow> False # dist_prefix (j - 3) @ dist_code d)"

definition medium_holds :: "bytes \<Rightarrow> dms_state \<Rightarrow> bool" where
  "medium_holds hist st \<longleftrightarrow> window_holds 14 hist (window st) (medium_text_loc st)"

text \<open>Behind a prefix the tables and the shift give the number and the next byte.\<close>

lemma table_bytes:
  assumes "has_bits data p (dist_prefix v)" and "v < 64"
  defines "c \<equiv> of_nat (bits_val (data_bit data) p 8) :: u16"
  shows "table_byte D_CODE c = Ok (of_nat v)" "table_byte D_LEN c = Ok (of_nat (dist_size v))"
proof -
  note B = prefix_byte [OF assms(1,2)]
  have c: "unat c = bits_val (data_bit data) p 8" using B(1) by (simp add: c_def unat_of_nat)
  have "(ucast (D_CODE ! unat c) :: u16) = of_nat (unat (D_CODE ! unat c))" "(ucast (D_LEN ! unat c) :: u16) = of_nat (unat (D_LEN ! unat c))"
    by simp_all
  then have v: "(ucast (D_CODE ! unat c) :: u16) = of_nat v" "(ucast (D_LEN ! unat c) :: u16) = of_nat (dist_size v)"
    using B(2,3) unfolding c by simp_all
  have "unat c < 256" using B(1) c by simp
  then show "table_byte D_CODE c = Ok (of_nat v)" "table_byte D_LEN c = Ok (of_nat (dist_size v))"
    by (simp_all only: table_byte_ok distance_tables v)
qed

lemma shift_in_bits:
  assumes "br_at data (p + 8) br" and "u \<le> 8"
  shows "shift_in br (of_nat (bits_val (data_bit data) p 8)) (of_nat u) = (of_nat (bits_val (data_bit data) (p + u) 8), br_drop br (of_nat u))"
    "br_at data (p + u + 8) (br_drop br (of_nat u))"
proof -
  have u: "unat (of_nat u :: u16) = u" "unat (of_nat u :: u32) = u" using assms(2) by (simp_all add: unat_of_nat)
  have "ucast (of_nat u :: u16) = (of_nat u :: u32)" using u by (simp add: word_unat_eq_iff unat_ucast_widen)
  then show "shift_in br (of_nat (bits_val (data_bit data) p 8)) (of_nat u) = (of_nat (bits_val (data_bit data) (p + u) 8), br_drop br (of_nat u))"
    using shifted_byte [OF assms(1), of "of_nat u"] assms(2) u by (simp add: shift_in_def br_get_def)
  show "br_at data (p + u + 8) (br_drop br (of_nat u))"
    using br_drop_at [OF assms(1), of "of_nat u"] assms(2) u by (simp add: add_ac)
qed

lemma medium_match_bits:
  assumes "br_at data p br" and "has_bits data p (dist_prefix (j - 3) @ dist_code d)" and j: "3 \<le> j" "j \<le> 66" and d: "d < 16384"
  shows "\<exists>br'. medium_match br = Ok (of_nat j, of_nat d, br') \<and> br_at data (p + length (dist_prefix (j - 3) @ dist_code d)) br'"
proof -
  let ?B = "bits_val (data_bit data)" and ?v = "j - 3" and ?w = "d div 256"
  let ?L = "dist_size ?v" and ?M = "dist_size ?w"
  have bits: "has_bits data p (dist_prefix ?v)" "has_bits data (p + ?L) (dist_prefix ?w)" "has_bits data (p + ?L + ?M) (bits_of 8 (d mod 256))"
    using assms(2) by (simp_all add: dist_code_def has_bits_append dist_prefix_def)
  have v: "?v < 64" "?w < 64" using j d by (simp_all add: less_mult_imp_div_less)
  have le: "?L \<le> 8" "?M \<le> 8" using prefix_byte(4) [OF bits(1) v(1)] prefix_byte(4) [OF bits(2) v(2)] by blast+
  let ?br1 = "br_drop br 8"
  have first: "br_get br 8 = (of_nat (?B p 8), ?br1)" "br_at data (p + 8) ?br1"
    using br_peek_at [OF assms(1), of 8] br_drop_at [OF assms(1), of 8] by (simp_all add: br_get_def)
  note second = shift_in_bits [OF first(2) le(1)]
  let ?br2 = "br_drop ?br1 (of_nat ?L)"
  have "br_at data (p + ?L + 8) (br_drop ?br2 0)" using br_drop_at [OF second(2), of 0] by simp
  note third = shift_in_bits [OF this le(2)]
  note t1 = table_bytes [OF bits(1) v(1)] and t2 = table_bytes [OF bits(2) v(2)]
  have low: "?B (p + ?L + ?M) 8 = d mod 256" using has_bits_val [OF bits(3)] by simp
  have "of_nat ?v + 3 = (of_nat j :: u16)" using j by (simp add: of_nat_diff)
  moreover have "push_bit 8 (of_nat ?w) OR of_nat (d mod 256) = (of_nat d :: u16)" using join_bytes [of "d mod 256" ?w] by simp
  ultimately have "medium_match br = Ok (of_nat j, of_nat d, br_drop (br_drop ?br2 0) (of_nat ?M))"
    unfolding medium_match_def first(1) Let_def prod.case t1 and_then.simps second(1) t2 third(1) low by simp
  then show ?thesis using third(2) by (simp add: dist_code_def dist_prefix_def add_ac)
qed

lemma medium_token:
  assumes "medium_holds hist st" and "br_at data p br" and "has_bits data p (medium_code t)" and "medium_valid t"
    and "length out + length (lz_bytes hist t) \<le> n"
  shows "\<exists>br' st'. medium_step n (br, st) out = Some (Ok ((br', st'), out @ lz_bytes hist t)) \<and>
    br_at data (p + length (medium_code t)) br' \<and> medium_holds (hist @ lz_bytes hist t) st'"
proof -
  note win = assms(1) [unfolded medium_holds_def]
  show ?thesis
  proof (cases t)
    case (Literal c)
    have bits: "has_bits data p (True # bits_of 8 (unat c))" using assms(3) Literal by (simp add: medium_code_def)
    note flag = flag_bit [OF assms(2) bits]
    have "unat c < 256" by (rule unat_u8_less)
    note byte = byte_bits [OF flag(2,3) this]
    have "length out < n" using assms(5) Literal by simp
    obtain win' where "put_byte (mask 14) n c (window st, medium_text_loc st, out) = Ok (win', medium_text_loc st + 1, out @ [c])"
      "window_holds 14 (hist @ [c]) win' (medium_text_loc st + 1)" by (rule put_byte_holds [OF win \<open>length out < n\<close>])
    moreover have "ucast (of_nat (unat c) :: u16) = c" by (rule bit_word_eqI) (auto simp: bit_ucast_iff)
    ultimately show ?thesis using flag(1) byte Literal
      by (simp add: medium_step_def medium_code_def medium_holds_def Let_def window_masks add.commute [of 9] del: of_nat_unat)
  next
    case (Copy j d)
    have jd: "3 \<le> j" "j \<le> 66" "d < 16384" using assms(4) Copy by (simp_all add: medium_valid_def)
    have bits: "has_bits data p (False # dist_prefix (j - 3) @ dist_code d)" using assms(3) Copy by (simp add: medium_code_def)
    note flag = flag_bit [OF assms(2) bits]
    obtain br' where br': "medium_match (br_drop br 1) = Ok (of_nat j, of_nat d, br')"
      "br_at data (p + 1 + length (dist_prefix (j - 3) @ dist_code d)) br'" using medium_match_bits [OF flag(2,3) jd] by blast
    have "unat (of_nat j :: u16) = j" using jd by (simp add: unat_of_nat)
    moreover obtain win' loc' where "copy_match (mask 14) n j (medium_text_loc st - of_nat d - 1) (window st, medium_text_loc st, out) =
        Ok (win', loc', out @ lz_copy j d hist)" "window_holds 14 (hist @ lz_copy j d hist) win' loc'"
      using copy_match_holds [OF win, of d out j n] jd(3) assms(5) Copy by auto
    ultimately show ?thesis using flag(1) br' Copy
      by (simp add: medium_step_def medium_code_def medium_holds_def Let_def window_masks)
  qed
qed

interpretation medium_lz: lz_mode medium_step "\<lambda>_. medium_code" "\<lambda>_ _. ()" medium_valid "\<lambda>_. medium_holds"
proof
  show "lz_bytes hist t \<noteq> []" if "medium_valid t" for hist t
    using that by (cases t) (auto simp: medium_valid_def simp flip: length_greater_0_conv)
qed (rule medium_token)

lemma unpack_medium_writes:
  assumes "length (window st) = 0x4000" and "\<forall>t\<in>set ts. medium_valid t"
  defines "plain \<equiv> lz_plain (window_bytes 14 (window st) (medium_text_loc st)) ts"
  shows "\<exists>st'. unpack_medium st (pack_bits (concat (map medium_code ts)) @ rest) (length plain) = Some (Ok (st', plain))"
proof -
  let ?hist = "window_bytes 14 (window st) (medium_text_loc st)"
  have "medium_holds ?hist st" using window_start [of 14 "window st"] assms(1) by (simp add: medium_holds_def)
  from medium_lz.fill_tokens [OF this br_new_at, of "pack_bits (concat (map medium_code ts)) @ rest" "()" ts "length plain" "[]"]
  obtain br st' where "fill_output (medium_step (length plain)) (length plain) (br_new (pack_bits (concat (map medium_code ts)) @ rest), st) [] =
      Some (Ok ((br, st'), plain))"
    using assms(2) has_bits_pack by (auto simp: lz_codes_concat plain_def)
  then show ?thesis by (simp add: unpack_medium_def)
qed

section \<open>Deep\<close>

text \<open>Counting a symbol looks at the tree alone: in a state that has the tree of \<open>st\<close> and everything else of \<open>r\<close> it does the same.\<close>

definition with_tree :: "dms_state \<Rightarrow> dms_state \<Rightarrow> dms_state" where
  "with_tree r st = r\<lparr>freq := freq st, son := son st, prnt := prnt st\<rparr>"

lemma with_tree_simps [simp]:
  "freq (with_tree r st) = freq st" "son (with_tree r st) = son st" "prnt (with_tree r st) = prnt st"
  "window (with_tree r st) = window r" "deep_text_loc (with_tree r st) = deep_text_loc r"
  "(with_tree r st)\<lparr>freq := f\<rparr> = with_tree r (st\<lparr>freq := f\<rparr>)" "(with_tree r st)\<lparr>son := s\<rparr> = with_tree r (st\<lparr>son := s\<rparr>)"
  "(with_tree r st)\<lparr>prnt := p\<rparr> = with_tree r (st\<lparr>prnt := p\<rparr>)"
  by (simp_all add: with_tree_def)

lemma map_and_then: "map_io g (and_then m k) = and_then m (\<lambda>x. map_io g (k x))"
  by (cases m) simp_all

lemma and_then_map: "and_then (map_io g m) k = and_then m (\<lambda>x. k (g x))"
  by (cases m) simp_all

lemma for_each_map: "(\<And>x s. f x (g s) = map_io g (f x s)) \<Longrightarrow> for_each f xs (g s) = map_io g (for_each f xs s)"
  by (induction xs arbitrary: s) (simp_all add: and_then_map map_and_then)

abbreviation with_trees :: "dms_state \<Rightarrow> nat \<times> dms_state \<Rightarrow> nat \<times> dms_state" where
  "with_trees r \<equiv> map_prod id (with_tree r)"

lemma reconst_leaf_frame: "reconst_leaf i (with_trees r s) = map_io (with_trees r) (reconst_leaf i s)"
  by (cases s) (simp add: reconst_leaf_def map_and_then if_distrib [where f = "map_io (with_trees r)"] cong: if_cong)

lemma reconst_join_frame: "reconst_join j (with_trees r s) = map_io (with_trees r) (reconst_join j s)"
  by (cases s) (simp add: reconst_join_def Let_def map_and_then)

lemma reconst_parent_frame: "reconst_parent i (with_tree r st) = map_io (with_tree r) (reconst_parent i st)"
  by (simp add: reconst_parent_def map_and_then if_distrib [where f = "map_io (with_tree r)"] cong: if_cong)

lemma reconst_loops_frame:
  "and_then (for_each reconst_leaf leaves (0, with_tree r st)) (\<lambda>(j, st1). and_then (for_each reconst_join inner (0, st1)) (\<lambda>(i, st2). for_each reconst_parent nodes st2)) =
   map_io (with_tree r) (and_then (for_each reconst_leaf leaves (0, st)) (\<lambda>(j, st1). and_then (for_each reconst_join inner (0, st1)) (\<lambda>(i, st2). for_each reconst_parent nodes st2)))"
proof -
  have leaf: "for_each reconst_leaf leaves (0, with_tree r st) = map_io (with_trees r) (for_each reconst_leaf leaves (0, st))"
    using for_each_map [of reconst_leaf "with_trees r" leaves "(0, st)", OF reconst_leaf_frame] by simp
  have join: "for_each reconst_join inner (0, with_tree r st1) = map_io (with_trees r) (for_each reconst_join inner (0, st1))" for st1
    using for_each_map [of reconst_join "with_trees r" inner "(0, st1)", OF reconst_join_frame] by simp
  have parent: "for_each reconst_parent nodes (with_tree r st2) = map_io (with_tree r) (for_each reconst_parent nodes st2)" for st2
    by (rule for_each_map) (rule reconst_parent_frame)
  show ?thesis by (simp add: leaf join parent and_then_map map_and_then split_beta)
qed

lemma deep_reconst_frame: "deep_reconst (with_tree r st) = map_io (with_tree r) (deep_reconst st)"
  unfolding deep_reconst_def by (rule reconst_loops_frame)

lemma deep_swap_frame: "deep_swap (with_tree r st) c l k = map_io (with_tree r) (deep_swap st c l k)"
  by (simp add: deep_swap_def map_and_then)

lemma deep_count_frame: "deep_count (with_tree r st) c = map_io (map_prod (with_tree r) id) (deep_count st c)"
  by (simp add: deep_count_def Let_def map_and_then and_then_map deep_swap_frame
      if_distrib [where f = "map_io (map_prod (with_tree r) id)"] cong: if_cong)

lemma deep_climb_frame:
  assumes "deep_climb st c = Some x" shows "deep_climb (with_tree r st) c = Some (map_io (with_tree r) x)"
proof (rule deep_climb.raw_induct [OF _ assms])
  fix again and st :: dms_state and c x
  assume hyp: "\<And>st c x. again st c = Some x \<Longrightarrow> deep_climb (with_tree r st) c = Some (map_io (with_tree r) x)"
    and body: "run_then (Some (and_then (deep_count st c) (\<lambda>(st', c'). and_then (get_at (prnt st') c') (\<lambda>p. Ok (st', p)))))
      (\<lambda>s. if unat (snd s) = 0 then Some (Ok (fst s)) else again (fst s) (unat (snd s))) = Some x"
  let ?round = "\<lambda>st. and_then (deep_count st c) (\<lambda>(st', c'). and_then (get_at (prnt st') c') (\<lambda>p. Ok (st', p)))"
  have round: "?round (with_tree r st) = map_io (map_prod (with_tree r) id) (?round st)"
    by (simp add: deep_count_frame and_then_map map_and_then split_beta)
  show "deep_climb (with_tree r st) c = Some (map_io (with_tree r) x)"
  proof (cases "?round st")
    case (Ok s)
    then show ?thesis using body hyp by (subst deep_climb.simps, subst round) (auto split: if_splits)
  next
    case (Err e)
    then show ?thesis using body by (subst deep_climb.simps, subst round) auto
  next
    case Panic
    then show ?thesis using body by (subst deep_climb.simps, subst round) auto
  qed
qed

lemma deep_update_frame:
  assumes "deep_update st c = Some (Ok st')" shows "deep_update (with_tree r st) c = Some (Ok (with_tree r st'))"
proof -
  let ?start = "\<lambda>st. and_then (get_at (freq st) deep_R) (\<lambda>f. if f = 0x8000 then deep_reconst st else Ok st)"
  have start: "?start (with_tree r st) = map_io (with_tree r) (?start st)"
    by (simp add: deep_reconst_frame map_and_then if_distrib [where f = "map_io (with_tree r)"] cong: if_cong)
  obtain st1 leaf where run: "?start st = Ok st1" "get_at (prnt st1) (unat (c + 627)) = Ok leaf" "deep_climb st1 (unat leaf) = Some (Ok st')"
    using assms by (auto simp: deep_update_def run_then_Ok_iff)
  have "deep_update (with_tree r st) c = deep_climb (with_tree r st1) (unat leaf)"
    unfolding deep_update_def start run(1) using run(2) by simp
  then show ?thesis using deep_climb_frame [OF run(3)] by simp
qed

text \<open>The symbol of a code, and the tree of the writer.\<close>

definition deep_symbol :: "lz_token \<Rightarrow> u16" where
  "deep_symbol t = (case t of Literal c \<Rightarrow> ucast c | Copy j d \<Rightarrow> of_nat (j + 253))"

definition deep_valid :: "lz_token \<Rightarrow> bool" where
  "deep_valid t = (case t of Literal c \<Rightarrow> True | Copy j d \<Rightarrow> 3 \<le> j \<and> j \<le> 60 \<and> d < 16384)"

definition deep_code :: "dms_state \<Rightarrow> lz_token \<Rightarrow> bool list" where
  "deep_code e t = deep_path (prnt e) (nat_at (prnt e) (deep_T + unat (deep_symbol t))) @
     (case t of Literal c \<Rightarrow> [] | Copy j d \<Rightarrow> dist_code d)"

definition deep_advance :: "dms_state \<Rightarrow> lz_token \<Rightarrow> dms_state" where
  "deep_advance e t = (case deep_update e (deep_symbol t) of Some (Ok e') \<Rightarrow> e' | _ \<Rightarrow> e)"

definition deep_holds :: "dms_state \<Rightarrow> bytes \<Rightarrow> dms_state \<Rightarrow> bool" where
  "deep_holds e hist st \<longleftrightarrow> deep_tree e \<and> with_tree st e = st \<and> window_holds 14 hist (window st) (deep_text_loc st)"

lemma deep_symbol_copy: "j \<le> 60 \<Longrightarrow> unat (deep_symbol (Copy j d)) = j + 253"
proof -
  assume "j \<le> 60"
  then show ?thesis unfolding deep_symbol_def lz_token.case unat_of_nat by simp
qed

lemma deep_symbol_less: "deep_valid t \<Longrightarrow> unat (deep_symbol t) < deep_N_CHAR"
proof (cases t)
  case (Literal c)
  then show ?thesis using unat_u8_less [of c] by (simp add: deep_symbol_def unat_ucast_widen)
next
  case (Copy j d)
  then show "deep_valid t \<Longrightarrow> ?thesis" using deep_symbol_copy [of j d] by (simp add: deep_valid_def)
qed

lemma deep_token:
  assumes "deep_holds e hist st" and "br_at data p br" and "has_bits data p (deep_code e t)" and "deep_valid t"
    and "length out + length (lz_bytes hist t) \<le> n"
  shows "\<exists>br' st'. deep_step n (br, st) out = Some (Ok ((br', st'), out @ lz_bytes hist t)) \<and>
    br_at data (p + length (deep_code e t)) br' \<and> deep_holds (deep_advance e t) (hist @ lz_bytes hist t) st'"
proof -
  have tree: "deep_tree e" "with_tree st e = st" and win: "window_holds 14 hist (window st) (deep_text_loc st)"
    using assms(1) by (simp_all add: deep_holds_def)
  have same: "freq st = freq e" "son st = son e" "prnt st = prnt e"
    using arg_cong [OF tree(2), of freq] arg_cong [OF tree(2), of son] arg_cong [OF tree(2), of prnt] by simp_all
  have st: "deep_tree st" using tree(1) by (simp add: deep_tree_def same)
  let ?c = "deep_symbol t" and ?path = "deep_path (prnt e) (nat_at (prnt e) (deep_T + unat (deep_symbol t)))"
  have c: "unat ?c < deep_N_CHAR" by (rule deep_symbol_less [OF assms(4)])
  obtain e' where e': "deep_update e ?c = Some (Ok e')" "deep_tree e'" using deep_update_ok [OF tree(1) c] by blast
  have update: "deep_update st ?c = Some (Ok (with_tree st e'))" using deep_update_frame [OF e'(1), of st] tree(2) by simp
  have bits: "has_bits data p ?path" "has_bits data (p + length ?path) (case t of Literal c \<Rightarrow> [] | Copy j d \<Rightarrow> dist_code d)"
    using assms(3) by (simp_all add: deep_code_def has_bits_append)
  obtain br1 where br1: "deep_decode_char br st = Some (Ok (?c, br1, with_tree st e'))" "br_at data (p + length ?path) br1"
    using deep_decode_path [OF st assms(2) c _ update] bits(1) by (auto simp: same has_bits_def)
  have holds: "deep_holds (deep_advance e t) h ((with_tree st e')\<lparr>window := w, deep_text_loc := l\<rparr>)" if "window_holds 14 h w l" for h w l
    using that e' by (simp add: deep_holds_def deep_advance_def with_tree_def)
  show ?thesis
  proof (cases t)
    case (Literal b)
    have "length out < n" using assms(5) Literal by simp
    then obtain win' where put: "put_byte (mask 14) n b (window st, deep_text_loc st, out) = Ok (win', deep_text_loc st + 1, out @ [b])"
      "window_holds 14 (hist @ [b]) win' (deep_text_loc st + 1)" by (rule put_byte_holds [OF win])
    have sym: "?c = ucast b" "?c < 256" "ucast ?c = b"
      using unat_u8_less [of b] Literal
      by (auto simp: deep_symbol_def word_less_nat_alt unat_ucast_widen bit_ucast_iff intro: bit_word_eqI)
    show ?thesis using br1 put sym(2,3) holds [OF put(2)] Literal by (simp add: deep_step_def deep_code_def window_masks)
  next
    case (Copy j d)
    have jd: "3 \<le> j" "j \<le> 60" "d < 16384" using assms(4) Copy by (simp_all add: deep_valid_def)
    have sym: "unat ?c = j + 253" using jd Copy deep_symbol_copy by simp
    then have high: "\<not> ?c < 256" using jd by (simp add: word_less_nat_alt)
    have "?c - 255 + 2 = of_nat j" using Copy by (simp add: deep_symbol_def)
    then have len: "unat (?c - 255 + 2) = j" using jd by (simp add: unat_of_nat)
    obtain br2 where pos: "deep_decode_position br1 = Ok (of_nat d, br2)" "br_at data (p + length ?path + length (dist_code d)) br2"
      using deep_position_bits [OF br1(2) _ jd(3)] bits(2) Copy by auto
    obtain win' loc' where copy: "copy_match (mask 14) n j (deep_text_loc st - of_nat d - 1) (window st, deep_text_loc st, out) =
        Ok (win', loc', out @ lz_copy j d hist)" "window_holds 14 (hist @ lz_copy j d hist) win' loc'"
      using copy_match_holds [OF win, of d out j n] jd(3) assms(5) Copy by auto
    show ?thesis using br1(1) pos copy high len holds [OF copy(2)] Copy
      by (simp add: deep_step_def deep_code_def window_masks add.assoc)
  qed
qed

interpretation deep_lz: lz_mode deep_step deep_code deep_advance deep_valid deep_holds
proof
  show "lz_bytes hist t \<noteq> []" if "deep_valid t" for hist t
    using that by (cases t) (auto simp: deep_valid_def simp flip: length_greater_0_conv)
qed (rule deep_token)

lemma unpack_deep_writes:
  assumes "length (window st) = 0x4000" and "\<forall>t\<in>set ts. deep_valid t"
    and "(if deep_tabs_due st then init_deep_tabs st else Ok st) = Ok e" and "deep_tree e"
    and "window e = window st" and "deep_text_loc e = deep_text_loc st"
  defines "plain \<equiv> lz_plain (window_bytes 14 (window st) (deep_text_loc st)) ts"
  shows "\<exists>st'. unpack_deep st (pack_bits (lz_codes deep_code deep_advance e ts) @ rest) (length plain) = Some (Ok (st', plain))"
proof -
  let ?hist = "window_bytes 14 (window st) (deep_text_loc st)"
  have "deep_holds e ?hist e" using window_start [of 14 "window st"] assms(1,4,5,6) by (simp add: deep_holds_def with_tree_def)
  from deep_lz.fill_tokens [OF this br_new_at, of "pack_bits (lz_codes deep_code deep_advance e ts) @ rest" ts "length plain" "[]"]
  obtain br st' where "fill_output (deep_step (length plain)) (length plain) (br_new (pack_bits (lz_codes deep_code deep_advance e ts) @ rest), e) [] =
      Some (Ok ((br, st'), plain))"
    using assms(2) has_bits_pack by (auto simp: plain_def)
  then show ?thesis using assms(3) by (simp add: unpack_deep_def)
qed

end
