(* ===== verification/Dms_Heavy.thy ===== *)
theory Dms_Heavy
  imports Dms_Base
begin

text \<open>
  The modes \<^verbatim>\<open>Heavy\<close> of \<^verbatim>\<open>container/disk/dms.rs\<close>: two static Huffman codes per track, one for
  literals and match lengths and one for the sizes of distances. A code is read as the
  lengths of its words; \<open>make_table\<close> turns them to a table over the first bits, with a tree in
  \<open>heavy_left\<close> and \<open>heavy_right\<close> for the words that are longer.
\<close>

section \<open>The tables of a code\<close>

record mk_tbl =
  mk_n :: u16
  mk_blen :: bytes
  mk_tbl :: "u16 list"
  mk_left :: "u16 list"
  mk_right :: "u16 list"
  mk_tblsiz :: u16
  mk_bit :: u16
  mk_maxdepth :: u16
  mk_depth :: u16
  mk_len :: u16
  mk_c :: "u16"
  mk_codeword :: u16
  mk_avail :: u16

text \<open>
  The loop that looks for the next symbol at or after \<open>c\<close> whose word has the length \<open>len\<close>; \<open>c\<close>
  and the number of symbols are compared as signed numbers. There may be none.
\<close>

lemma sint_next: "sint c < sint (n :: u16) \<Longrightarrow> sint (c + 1 :: u16) = sint c + 1"
proof -
  assume less: "sint c < sint n"
  have "sint n < 32768" "- 32768 \<le> sint c" using sint_lt [of n] sint_ge [of c] by simp_all
  then have "signed_take_bit 15 (sint c + 1) = sint c + 1"
    using less by (intro signed_take_bit_int_eq_self) simp_all
  then show ?thesis by (simp add: sint_word_ariths)
qed

function next_symbol :: "bytes \<Rightarrow> u16 \<Rightarrow> u8 \<Rightarrow> u16 \<Rightarrow> u16 option io" where
  "next_symbol blen n len c =
     (if sint n \<le> sint c then Ok None
      else and_then (get_at blen (unat (scast c :: u64))) (\<lambda>b.
        if b = len then Ok (Some c) else next_symbol blen n len (c + 1)))"
  by auto

termination by (relation "measure (\<lambda>(blen, n, len, c). nat (sint n - sint c))") (auto simp: not_le dest: sint_next)

declare next_symbol.simps [simp del]

text \<open>
  The first half of \<^verbatim>\<open>mktbl\<close>: at the depth of the words that are next, a symbol with such a
  word takes its part of the table and is the result (\<open>Inr\<close>); otherwise the words of the next
  length are looked for.
\<close>

definition mk_assign :: "mk_tbl \<Rightarrow> u16 \<Rightarrow> (mk_tbl \<times> u16) io" where
  "mk_assign s c =
     (let codeword = mk_codeword s + mk_bit s in
      if codeword > mk_tblsiz s then Err InvalidData
      else
        and_then (for_each (\<lambda>i tbl. put_at tbl i c) [unat (mk_codeword s)..<unat codeword] (mk_tbl s)) (\<lambda>tbl.
        Ok (s\<lparr>mk_c := c, mk_codeword := codeword, mk_tbl := tbl\<rparr>, c)))"

definition mk_symbol :: "mk_tbl \<Rightarrow> (mk_tbl + mk_tbl \<times> u16) io" where
  "mk_symbol s =
     (if mk_len s = mk_depth s
      then and_then (next_symbol (mk_blen s) (mk_n s) (ucast (mk_len s)) (mk_c s + 1)) (\<lambda>found.
        case found of
          Some c \<Rightarrow> and_then (mk_assign s c) (\<lambda>r. Ok (Inr r))
        | None \<Rightarrow> Ok (Inl (s\<lparr>mk_c := - 1, mk_len := mk_len s + 1, mk_bit := drop_bit 1 (mk_bit s)\<rparr>)))
      else Ok (Inl s))"

definition mk_up :: "mk_tbl \<Rightarrow> mk_tbl" where
  "mk_up s = s\<lparr>mk_depth := mk_depth s - 1\<rparr>"

text \<open>What is done with an inner node \<open>i\<close> of the tree when both its children are there.\<close>

definition mk_node :: "mk_tbl \<Rightarrow> u16 \<Rightarrow> (mk_tbl \<times> u16) io" where
  "mk_node s i =
     (if mk_codeword s \<ge> mk_tblsiz s then Err InvalidData
      else if mk_depth s = mk_maxdepth s
      then and_then (put_at (mk_tbl s) (unat (mk_codeword s)) i) (\<lambda>tbl.
        Ok (mk_up (s\<lparr>mk_tbl := tbl, mk_codeword := mk_codeword s + 1\<rparr>), i))
      else Ok (mk_up s, i))"

partial_function (option) mktbl :: "mk_tbl \<Rightarrow> (mk_tbl \<times> u16) run" where
  "mktbl s =
     run_then (Some (mk_symbol s)) (\<lambda>found.
     case found of
       Inr r \<Rightarrow> Some (Ok r)
     | Inl s1 \<Rightarrow>
         (let s2 = s1\<lparr>mk_depth := mk_depth s1 + 1\<rparr> in
          if mk_depth s2 < mk_maxdepth s2
          then run_then (mktbl s2) (\<lambda>r1. run_then (mktbl (fst r1)) (\<lambda>r2. Some (Ok (mk_up (fst r2), 0))))
          else if mk_depth s2 > 32 then Some (Err InvalidData)
          else
            (let i = mk_avail s2; s3 = s2\<lparr>mk_avail := i + 1\<rparr> in
             if unat i \<ge> 2 * unat (mk_n s3) - 1 then Some (Err InvalidData)
             else
               run_then (mktbl s3) (\<lambda>r1.
               run_then (Some (put_at (mk_left (fst r1)) (unat i) (snd r1))) (\<lambda>lefts.
               run_then (mktbl (fst r1\<lparr>mk_left := lefts\<rparr>)) (\<lambda>r2.
               run_then (Some (put_at (mk_right (fst r2)) (unat i) (snd r2))) (\<lambda>rights.
               Some (mk_node (fst r2\<lparr>mk_right := rights\<rparr>) i))))))))"

definition make_table :: "u16 \<Rightarrow> bytes \<Rightarrow> u16 \<Rightarrow> u16 list \<Rightarrow> u16 list \<Rightarrow> u16 list \<Rightarrow> (u16 list \<times> u16 list \<times> u16 list) run" where
  "make_table nchar bitlen tablebits table left right =
     (let tblsiz = push_bit (unat tablebits) 1;
        s = \<lparr>mk_n = nchar, mk_blen = bitlen, mk_tbl = table, mk_left = left, mk_right = right, mk_tblsiz = tblsiz,
             mk_bit = tblsiz div 2, mk_maxdepth = tablebits + 1, mk_depth = 1, mk_len = 1, mk_c = - 1,
             mk_codeword = 0, mk_avail = nchar\<rparr> in
      run_then (mktbl s) (\<lambda>r1.
      run_then (mktbl (fst r1)) (\<lambda>r2.
      if mk_codeword (fst r2) \<noteq> tblsiz then Some (Err InvalidData)
      else Some (Ok (mk_tbl (fst r2), mk_left (fst r2), mk_right (fst r2))))))"

section \<open>Reading the codes of a track\<close>

definition read_lens :: "u32 \<Rightarrow> nat list \<Rightarrow> bit_reader \<times> bytes \<Rightarrow> (bit_reader \<times> bytes) io" where
  "read_lens w = for_each (\<lambda>i (br, lens).
     let (v, br') = br_get br w in and_then (put_at lens i (ucast v)) (\<lambda>lens'. Ok (br', lens')))"

definition clear_lens :: "nat list \<Rightarrow> bytes \<Rightarrow> bytes io" where
  "clear_lens = for_each (\<lambda>i lens. put_at lens i 0)"

definition heavy_read_tree_c :: "bit_reader \<Rightarrow> dms_state \<Rightarrow> (bit_reader \<times> dms_state) run" where
  "heavy_read_tree_c br st =
     (let (n, br1) = br_get br 9 in
      if n > 0 then
        run_then (Some (read_lens 5 [0..<min (unat n) heavy_NC] (br1, c_len st))) (\<lambda>(br2, lens).
        run_then (Some (clear_lens [unat n..<heavy_NC] lens)) (\<lambda>lens'.
        run_then (make_table (of_nat heavy_NC) lens' 12 (c_table st) (heavy_left st) (heavy_right st)) (\<lambda>(tbl, ls, rs).
        Some (Ok (br2, st\<lparr>c_len := lens', c_table := tbl, heavy_left := ls, heavy_right := rs\<rparr>)))))
      else
        (let (v, br2) = br_get br1 9 in
         Some (Ok (br2, st\<lparr>c_len := map (\<lambda>_. 0) (c_len st), c_table := map (\<lambda>_. v) (c_table st)\<rparr>))))"

definition heavy_read_tree_p :: "bit_reader \<Rightarrow> dms_state \<Rightarrow> (bit_reader \<times> dms_state) run" where
  "heavy_read_tree_p br st =
     (let (n, br1) = br_get br 5 in
      if n > 0 then
        run_then (Some (read_lens 4 [0..<min (unat n) heavy_NPT] (br1, pt_len st))) (\<lambda>(br2, lens).
        run_then (Some (clear_lens [unat n..<unat (np st)] lens)) (\<lambda>lens'.
        run_then (make_table (np st) lens' 8 (pt_table st) (heavy_left st) (heavy_right st)) (\<lambda>(tbl, ls, rs).
        Some (Ok (br2, st\<lparr>pt_len := lens', pt_table := tbl, heavy_left := ls, heavy_right := rs\<rparr>)))))
      else
        (let (v, br2) = br_get br1 5 in
         run_then (Some (get_range (pt_len st) 0 (unat (np st)))) (\<lambda>_.
         Some (Ok (br2, st\<lparr>pt_len := overwrite (pt_len st) 0 (replicate (unat (np st)) 0),
                           pt_table := map (\<lambda>_. v) (pt_table st)\<rparr>)))))"

section \<open>Decoding\<close>

text \<open>The walk down the tree for the words that are longer than the index of the table.\<close>

partial_function (option) heavy_walk :: "u16 list \<Rightarrow> u16 list \<Rightarrow> u16 \<Rightarrow> u16 \<Rightarrow> u16 \<Rightarrow> u16 \<Rightarrow> u16 run" where
  "heavy_walk ls rs stop i m j =
     run_then (Some (get_at (if i AND m \<noteq> 0 then rs else ls) (unat j))) (\<lambda>j'.
     if j' < stop then Some (Ok j') else heavy_walk ls rs stop i (drop_bit 1 m) j')"

definition heavy_decode_c :: "bit_reader \<Rightarrow> dms_state \<Rightarrow> (u16 \<times> bit_reader) run" where
  "heavy_decode_c br st =
     run_then (Some (get_at (c_table st) (unat (br_peek br 12)))) (\<lambda>j.
     if j < 510
     then run_then (Some (get_at (c_len st) (unat j))) (\<lambda>l. Some (Ok (j, br_drop br (ucast l))))
     else
       let br1 = br_drop br 12 in
       run_then (heavy_walk (heavy_left st) (heavy_right st) 510 (br_peek br1 16) 0x8000 j) (\<lambda>j'.
       run_then (Some (get_at (c_len st) (unat j'))) (\<lambda>l. Some (Ok (j', br_drop br1 (ucast l - 12))))))"

definition heavy_distance_size :: "bit_reader \<Rightarrow> dms_state \<Rightarrow> (u16 \<times> bit_reader) run" where
  "heavy_distance_size br st =
     run_then (Some (get_at (pt_table st) (unat (br_peek br 8)))) (\<lambda>j.
     if j < np st
     then run_then (Some (get_at (pt_len st) (unat j))) (\<lambda>l. Some (Ok (j, br_drop br (ucast l))))
     else
       let br1 = br_drop br 8 in
       run_then (heavy_walk (heavy_left st) (heavy_right st) (np st) (br_peek br1 16) 0x8000 j) (\<lambda>j'.
       run_then (Some (get_at (pt_len st) (unat j'))) (\<lambda>l. Some (Ok (j', br_drop br1 (ucast l - 8))))))"

definition heavy_decode_p :: "bit_reader \<Rightarrow> dms_state \<Rightarrow> (u16 \<times> bit_reader \<times> dms_state) run" where
  "heavy_decode_p br st =
     run_then (heavy_distance_size br st) (\<lambda>(j, br1).
     if j \<noteq> np st - 1 then
       (if j > 0
        then let (v, br2) = br_get br1 (ucast (j - 1)); d = v OR push_bit (unat ((j - 1) AND 15)) 1 in
          Some (Ok (d, br2, st\<lparr>lastlen := d\<rparr>))
        else Some (Ok (j, br1, st\<lparr>lastlen := j\<rparr>)))
     else Some (Ok (lastlen st, br1, st)))"

definition heavy_step :: "u16 \<Rightarrow> nat \<Rightarrow> bit_reader \<times> dms_state \<Rightarrow> bytes \<Rightarrow> ((bit_reader \<times> dms_state) \<times> bytes) run" where
  "heavy_step bitmask n = (\<lambda>(br, st) out.
     run_then (heavy_decode_c br st) (\<lambda>(c, br1).
     if c < 256
     then Some (and_then (put_byte bitmask n (ucast c) (window st, heavy_text_loc st, out)) (\<lambda>(win, loc, out').
       Ok ((br1, st\<lparr>window := win, heavy_text_loc := loc\<rparr>), out')))
     else
       run_then (heavy_decode_p br1 st) (\<lambda>(d, br2, st2).
       Some (and_then (copy_match bitmask n (unat (c - 253)) (heavy_text_loc st - d - 1) (window st2, heavy_text_loc st2, out))
         (\<lambda>(win, loc, out'). Ok ((br2, st2\<lparr>window := win, heavy_text_loc := loc\<rparr>), out'))))))"

definition unpack_heavy :: "dms_state \<Rightarrow> bytes \<Rightarrow> nat \<Rightarrow> u8 \<Rightarrow> (dms_state \<times> bytes) run" where
  "unpack_heavy st input n flags =
     (let (codes, bitmask) = (if flags AND 8 \<noteq> 0 then (15, 0x1fff) else (14, 0x0fff));
        st0 = st\<lparr>np := codes\<rparr>; br = br_new input in
      run_then (if flags AND 2 \<noteq> 0
          then run_then (heavy_read_tree_c br st0) (\<lambda>(br1, st1). heavy_read_tree_p br1 st1)
          else Some (Ok (br, st0))) (\<lambda>(br2, st2).
      run_then (fill_output (heavy_step bitmask n) n (br2, st2) []) (\<lambda>((br3, st3), out).
      Some (Ok (st3, out)))))"

end
