(* ===== verification/Dms_Codes.thy ===== *)
theory Dms_Codes
  imports Dms_Heavy
begin

text \<open>
  The modes \<^verbatim>\<open>Heavy\<close> of \<^verbatim>\<open>dms.rs\<close> never unwind: the tables of a code are built with every
  index in range, and always in a bounded depth; the walk down the tree of a code stays in the
  tree. (It may not end: the tree of a distance code can be left from an earlier track.)
\<close>

section \<open>A bit reader for any amounts\<close>

text \<open>
  The words of a code can be longer than the buffer has bits, and the count of the buffer then
  wraps around. What is never lost is that the buffer has no more bits than the count modulo 32.
\<close>

definition br_sane :: "bit_reader \<Rightarrow> bool" where
  "br_sane br \<longleftrightarrow> take_bit (unat (bitcount br) mod 32) (bitbuf br) = bitbuf br"

lemma unat_and_31: "unat (w AND 31 :: u32) = unat w mod 32"
proof -
  have "w AND 31 = w AND mask 5" by (simp add: mask_eq_exp_minus_1)
  then have "unat (w AND 31) = unat (take_bit 5 w)" by (simp only: take_bit_eq_mask)
  then show ?thesis by (simp only: unsigned_take_bit_eq) (simp add: take_bit_eq_mod)
qed

lemma br_fill_sane: "br_sane br \<or> unat (bitcount br) < 16 \<and> take_bit (unat (bitcount br)) (bitbuf br) = bitbuf br \<Longrightarrow> br_sane (br_fill br)"
proof (induction br rule: br_fill.induct)
  case (1 br)
  show ?case
  proof (cases "bitcount br < 16")
    case False
    then show ?thesis using 1(2) by (subst br_fill.simps) (auto simp: word_less_nat_alt)
  next
    case True
    then have c: "unat (bitcount br) < 16" by (simp add: word_less_nat_alt)
    then have c8: "unat (bitcount br + 8) = unat (bitcount br) + 8" by (subst unat_add_exact) simp_all
    have buf: "take_bit (unat (bitcount br)) (bitbuf br) = bitbuf br" using 1(2) c by (auto simp: br_sane_def)
    obtain byte pos where byte: "br_byte br = (byte, pos)" by fastforce
    let ?br = "br\<lparr>br_pos := pos, bitbuf := push_bit 8 (bitbuf br) OR ucast byte, bitcount := bitcount br + 8\<rparr>"
    have "take_bit (unat (bitcount br) + 8) (push_bit 8 (bitbuf br)) = push_bit 8 (bitbuf br)"
      using buf by (simp add: take_bit_push_bit)
    moreover have "take_bit (unat (bitcount br) + 8) (ucast byte :: u32) = ucast byte"
    proof (rule bit_word_eqI)
      show "bit (take_bit (unat (bitcount br) + 8) (ucast byte :: u32)) i = bit (ucast byte :: u32) i" for i
        using bit_imp_le_length [of byte i] by (auto simp: bit_take_bit_iff bit_ucast_iff)
    qed
    ultimately have "br_sane ?br" using c c8 by (simp add: br_sane_def)
    then have "br_sane (br_fill ?br)" using 1(1) [OF True refl byte [symmetric]] by simp
    then show ?thesis using True by (subst br_fill.simps) (simp add: byte)
  qed
qed

lemma br_sane_new [simp]: "br_sane (br_new data)"
  unfolding br_new_def by (rule br_fill_sane) simp

lemma br_sane_drop [simp]: "br_sane (br_drop br n)"
  unfolding br_drop_def Let_def
proof (rule br_fill_sane)
  let ?k = "unat (bitcount br - n) mod 32"
  have "push_bit ?k 1 - 1 = (mask ?k :: u32)" by (simp add: mask_eq_exp_minus_1 push_bit_eq_mult)
  then have "bitbuf br AND (push_bit ?k 1 - 1) = take_bit ?k (bitbuf br)" by (simp only: take_bit_eq_mask)
  then have sane: "br_sane (br\<lparr>bitcount := bitcount br - n, bitbuf := bitbuf br AND (push_bit (unat ((bitcount br - n) AND 31)) 1 - 1)\<rparr>)"
    by (simp add: br_sane_def unat_and_31)
  let ?br = "br\<lparr>bitcount := bitcount br - n, bitbuf := bitbuf br AND (push_bit (unat ((bitcount br - n) AND 31)) 1 - 1)\<rparr>"
  show "br_sane ?br \<or> unat (bitcount ?br) < 16 \<and> take_bit (unat (bitcount ?br)) (bitbuf ?br) = bitbuf ?br"
    using sane by (rule disjI1)
qed

lemma br_sane_peek:
  assumes "br_sane br" and "unat n \<le> 16"
  shows "unat (br_peek br n) < 2 ^ unat n"
proof -
  let ?m = "unat (bitcount br) mod 32" and ?s = "unat (bitcount br - n) mod 32"
  have "unat (bitcount br) = (unat (bitcount br - n) + unat n) mod 2 ^ 32"
    using unat_word_ariths(1) [of "bitcount br - n" n] by simp
  then have "?m = (unat (bitcount br - n) + unat n) mod 2 ^ 32 mod 32" by simp
  also have "\<dots> = (unat (bitcount br - n) + unat n) mod 32" by (simp add: mod_mod_cancel)
  also have "\<dots> = (?s + unat n) mod 32" by (simp add: mod_add_left_eq)
  finally have le: "?m \<le> unat n + ?s" by (metis add.commute mod_less_eq_dividend)
  have "take_bit (unat n) (drop_bit ?s (bitbuf br)) = drop_bit ?s (take_bit (unat n + ?s) (bitbuf br))"
    by (simp add: take_bit_drop_bit)
  also have "take_bit (unat n + ?s) (bitbuf br) = take_bit (unat n + ?s) (take_bit ?m (bitbuf br))" using assms(1) by (simp add: br_sane_def)
  also have "\<dots> = take_bit ?m (bitbuf br)" using le by (simp add: min_def)
  also have "\<dots> = bitbuf br" using assms(1) by (simp add: br_sane_def)
  finally have "unat (drop_bit ?s (bitbuf br)) = take_bit (unat n) (unat (drop_bit ?s (bitbuf br)))"
    by (metis unsigned_take_bit_eq)
  then have "unat (drop_bit ?s (bitbuf br)) < 2 ^ unat n" by (metis take_bit_nat_less_exp)
  moreover have "unat (ucast w :: u16) \<le> unat w" for w :: u32
    by (simp add: unsigned_ucast_eq take_bit_nat_less_eq_self)
  ultimately show ?thesis by (simp add: br_peek_def unat_and_31) (meson le_less_trans)
qed

section \<open>The tables\<close>

declare of_nat_unat [simp del]

lemma sint_nonneg: "0 \<le> sint (w :: u16) \<Longrightarrow> sint w = int (unat w)"
proof -
  assume "0 \<le> sint w"
  moreover have "sint w < 32768" using sint_lt [of w] by simp
  ultimately have "take_bit 16 (sint w) = sint w" by (intro take_bit_int_eq_self) simp_all
  then show ?thesis using uint_sint [of w] by (simp add: uint_nat)
qed

lemma sint_small: "unat (w :: u16) < 32768 \<Longrightarrow> sint w = int (unat w)"
proof -
  assume "unat w < 32768"
  then have "signed_take_bit 15 (int (unat w)) = int (unat w)" by (intro signed_take_bit_int_eq_self) simp_all
  then show ?thesis using sint_uint [of w] by (simp add: uint_nat)
qed

lemma scast_index: "0 \<le> sint (w :: u16) \<Longrightarrow> unat (scast w :: u64) = unat w"
proof -
  assume nn: "0 \<le> sint w"
  have "int (unat w) < 2 ^ 64" using unat_u16_less [of w] by simp
  then have "take_bit 64 (int (unat w)) = int (unat w)" by (intro take_bit_int_eq_self) simp_all
  then show ?thesis using sint_nonneg [OF nn] unat_u16_less [of w] by (simp add: scast_eq unat_of_nat)
qed

lemma next_symbol_ok:
  "unat n \<le> length blen \<Longrightarrow> unat n < 32768 \<Longrightarrow> 0 \<le> sint c \<Longrightarrow>
   \<exists>found. next_symbol blen n len c = Ok found \<and> (\<forall>c'. found = Some c' \<longrightarrow> unat c' < unat n \<and> 0 \<le> sint c')"
proof (induction blen n len c rule: next_symbol.induct)
  case (1 blen n len c)
  show ?case
  proof (cases "sint n \<le> sint c")
    case True
    then show ?thesis by (subst next_symbol.simps) simp
  next
    case False
    then have c: "unat c < unat n" using sint_nonneg [OF 1(4)] sint_small [OF 1(3)] by simp
    then have get: "get_at blen (unat (scast c :: u64)) = Ok (blen ! unat c)"
      using 1(2) scast_index [OF 1(4)] by (simp add: get_at_def)
    show ?thesis
    proof (cases "blen ! unat c = len")
      case True
      then show ?thesis using False get c 1(4) by (subst next_symbol.simps) simp
    next
      case other: False
      have "0 \<le> sint (c + 1)" using sint_next [of c n] False 1(4) by simp
      from 1(1) [OF False get other 1(2,3) this] show ?thesis using False get other by (subst next_symbol.simps) simp
    qed
  qed
qed

text \<open>The state of the construction: where it writes, and that all its entries are nodes or symbols.\<close>

abbreviation entries :: "u16 list \<Rightarrow> bool" where
  "entries xs \<equiv> \<forall>v\<in>set xs. unat v < 1019"

definition mk_ok :: "mk_tbl \<Rightarrow> mk_tbl \<Rightarrow> bool" where
  "mk_ok s0 s \<longleftrightarrow> mk_n s = mk_n s0 \<and> mk_blen s = mk_blen s0 \<and> mk_tblsiz s = mk_tblsiz s0 \<and> mk_maxdepth s = mk_maxdepth s0 \<and>
     length (mk_tbl s) = length (mk_tbl s0) \<and> length (mk_left s) = 1019 \<and> length (mk_right s) = 1028 \<and>
     unat (mk_codeword s) \<le> unat (mk_tblsiz s0) \<and> unat (mk_bit s) \<le> 2048 \<and> (0 \<le> sint (mk_c s) \<longrightarrow> unat (mk_c s) < unat (mk_n s0)) \<and>
     - 1 \<le> sint (mk_c s) \<and> entries (mk_tbl s) \<and> entries (mk_left s) \<and> entries (mk_right s)"

definition mk_fits :: "mk_tbl \<Rightarrow> bool" where
  "mk_fits s0 \<longleftrightarrow> unat (mk_n s0) \<le> 510 \<and> unat (mk_n s0) \<le> length (mk_blen s0) \<and> unat (mk_tblsiz s0) \<le> length (mk_tbl s0) \<and>
     unat (mk_tblsiz s0) \<le> 4096 \<and> unat (mk_maxdepth s0) \<le> 13"

lemma for_each_all_ok:
  assumes "P s" and "\<And>x s. x \<in> set xs \<Longrightarrow> P s \<Longrightarrow> \<exists>t. f x s = Ok t \<and> P t"
  shows "\<exists>t. for_each f xs s = Ok t \<and> P t"
  using assms
proof (induction xs arbitrary: s)
  case (Cons x xs)
  obtain t where "f x s = Ok t" "P t" using Cons.prems by (meson list.set_intros(1))
  moreover have "\<exists>u. for_each f xs t = Ok u \<and> P u" using Cons.prems(2) \<open>P t\<close> by (intro Cons.IH) auto
  ultimately show ?case by auto
qed simp

lemma entries_update: "entries xs \<Longrightarrow> unat v < 1019 \<Longrightarrow> entries (xs[i := v])"
  using set_update_subset_insert [of xs i v] by auto

lemma mk_assign_ok:
  assumes fits: "mk_fits s0" and ok: "mk_ok s0 s" and c: "unat c < unat (mk_n s0)" "0 \<le> sint c"
  shows "mk_assign s c \<noteq> Panic \<and> (\<forall>r. mk_assign s c = Ok r \<longrightarrow> mk_ok s0 (fst r) \<and> mk_depth (fst r) = mk_depth s \<and> unat (snd r) < 1019)"
proof (cases "mk_codeword s + mk_bit s > mk_tblsiz s")
  case True
  then show ?thesis by (simp add: mk_assign_def)
next
  case False
  let ?cw = "mk_codeword s + mk_bit s"
  have cw: "unat ?cw \<le> unat (mk_tblsiz s0)" using False ok by (simp add: word_less_nat_alt mk_ok_def not_less)
  let ?P = "\<lambda>tbl. length tbl = length (mk_tbl s0) \<and> entries tbl"
  have "\<exists>tbl. for_each (\<lambda>i tbl. put_at tbl i c) [unat (mk_codeword s)..<unat ?cw] (mk_tbl s) = Ok tbl \<and> ?P tbl"
  proof (rule for_each_all_ok)
    show "?P (mk_tbl s)" using ok by (simp add: mk_ok_def)
    fix i tbl
    assume "i \<in> set [unat (mk_codeword s)..<unat ?cw]" and P: "?P tbl"
    then have "i < length tbl" using cw fits by (auto simp: mk_fits_def)
    then have "put_at tbl i c = Ok (tbl[i := c])" by (simp add: put_at_def)
    moreover have "unat c < 1019" using c(1) fits by (simp add: mk_fits_def)
    then have "?P (tbl[i := c])" using P entries_update [of tbl c i] by simp
    ultimately show "\<exists>t. put_at tbl i c = Ok t \<and> ?P t" by blast
  qed
  then obtain tbl where "for_each (\<lambda>i tbl. put_at tbl i c) [unat (mk_codeword s)..<unat ?cw] (mk_tbl s) = Ok tbl" "?P tbl" by blast
  then have "mk_assign s c = Ok (s\<lparr>mk_c := c, mk_codeword := ?cw, mk_tbl := tbl\<rparr>, c)"
    using False by (simp add: mk_assign_def Let_def)
  moreover have "mk_ok s0 (s\<lparr>mk_c := c, mk_codeword := ?cw, mk_tbl := tbl\<rparr>)"
    using ok c cw \<open>?P tbl\<close> by (simp add: mk_ok_def)
  moreover have "unat c < 1019" using c(1) fits by (simp add: mk_fits_def)
  ultimately show ?thesis by simp
qed

lemma mk_symbol_ok:
  assumes "mk_fits s0" and "mk_ok s0 s"
  shows "mk_symbol s \<noteq> Panic"
    "mk_symbol s = Ok (Inr r) \<Longrightarrow> mk_ok s0 (fst r) \<and> mk_depth (fst r) = mk_depth s \<and> unat (snd r) < 1019"
    "mk_symbol s = Ok (Inl s1) \<Longrightarrow> mk_ok s0 s1 \<and> mk_depth s1 = mk_depth s"
proof -
  have n: "unat (mk_n s) \<le> length (mk_blen s)" "unat (mk_n s) < 32768" "mk_n s = mk_n s0" using assms by (auto simp: mk_ok_def mk_fits_def)
  have "0 \<le> sint (mk_c s + 1)"
  proof -
    have "sint (mk_c s) < sint (of_nat 511 :: u16)"
    proof (cases "0 \<le> sint (mk_c s)")
      case True
      then show ?thesis using assms sint_nonneg [OF True] sint_small [of "of_nat 511"] by (auto simp: mk_ok_def mk_fits_def)
    next
      case False
      then show ?thesis using sint_small [of "of_nat 511"] by simp
    qed
    then show ?thesis using sint_next [of "mk_c s" "of_nat 511"] assms(2) by (simp add: mk_ok_def)
  qed
  from next_symbol_ok [OF n(1,2) this, of "ucast (mk_len s)"] obtain found where
    found: "next_symbol (mk_blen s) (mk_n s) (ucast (mk_len s)) (mk_c s + 1) = Ok found"
    "\<And>c'. found = Some c' \<Longrightarrow> unat c' < unat (mk_n s) \<and> 0 \<le> sint c'" by blast
  have longer: "mk_ok s0 (s\<lparr>mk_c := - 1, mk_len := mk_len s + 1, mk_bit := drop_bit 1 (mk_bit s)\<rparr>)"
  proof -
    have "unat (drop_bit 1 (mk_bit s)) \<le> unat (mk_bit s)" by (simp add: drop_bit_eq_div unat_div)
    also have "\<dots> \<le> 2048" using assms(2) by (simp add: mk_ok_def)
    finally have "unat (drop_bit 1 (mk_bit s)) \<le> 2048" .
    then show ?thesis using assms(2) by (simp add: mk_ok_def)
  qed
  show "mk_symbol s \<noteq> Panic"
    using found mk_assign_ok [OF assms] n(3) by (auto simp: mk_symbol_def and_then_Panic_iff split: option.splits)
  show "mk_symbol s = Ok (Inr r) \<Longrightarrow> mk_ok s0 (fst r) \<and> mk_depth (fst r) = mk_depth s \<and> unat (snd r) < 1019"
    using found mk_assign_ok [OF assms] n(3) by (auto simp: mk_symbol_def and_then_Ok_iff split: option.splits if_splits)
  show "mk_symbol s = Ok (Inl s1) \<Longrightarrow> mk_ok s0 s1 \<and> mk_depth s1 = mk_depth s"
    using found assms(2) longer by (auto simp: mk_symbol_def and_then_Ok_iff split: option.splits if_splits)
qed


text \<open>
  The recursion goes down to a depth of 33 at most, comes back to the depth it started from,
  never unwinds, and gives a node or a symbol.
\<close>

lemma mk_node_ok:
  assumes "mk_fits s0" and "mk_ok s0 s" and "unat i < 1019"
  shows "mk_node s i \<noteq> Panic"
    "mk_node s i = Ok r \<Longrightarrow> mk_ok s0 (fst r) \<and> mk_depth (fst r) = mk_depth s - 1 \<and> unat (snd r) < 1019"
proof -
  have tbl: "length (mk_tbl s) = length (mk_tbl s0)" "mk_tblsiz s = mk_tblsiz s0" "unat (mk_tblsiz s0) \<le> length (mk_tbl s0)"
    using assms(1,2) by (simp_all add: mk_ok_def mk_fits_def)
  then have room: "unat (mk_codeword s) < length (mk_tbl s)" if "\<not> mk_codeword s \<ge> mk_tblsiz s"
    using that by (simp add: word_le_nat_alt)
  then show "mk_node s i \<noteq> Panic" by (simp add: mk_node_def put_at_def)
  have "mk_ok s0 (mk_up (s\<lparr>mk_tbl := (mk_tbl s)[unat (mk_codeword s) := i], mk_codeword := mk_codeword s + 1\<rparr>))"
    if "\<not> mk_codeword s \<ge> mk_tblsiz s"
  proof -
    have "unat (mk_codeword s) + 1 \<le> unat (mk_tblsiz s0)" using that tbl(2) by (simp add: word_le_nat_alt)
    moreover from this have "unat (mk_codeword s + 1) = unat (mk_codeword s) + 1"
      using unat_u16_less [of "mk_tblsiz s0"] by (subst unat_add_exact) simp_all
    moreover have "entries (mk_tbl s)" using assms(2) by (simp add: mk_ok_def)
    ultimately show ?thesis using assms(2) entries_update [OF _ assms(3)] by (simp add: mk_ok_def mk_up_def)
  qed
  moreover have "mk_ok s0 (mk_up s)" using assms(2) by (simp add: mk_ok_def mk_up_def)
  ultimately show "mk_node s i = Ok r \<Longrightarrow> mk_ok s0 (fst r) \<and> mk_depth (fst r) = mk_depth s - 1 \<and> unat (snd r) < 1019"
    using room assms(3) by (auto simp: mk_node_def put_at_def mk_up_def split: if_splits)
qed

definition mk_result :: "mk_tbl \<Rightarrow> u16 \<Rightarrow> (mk_tbl \<times> u16) run \<Rightarrow> bool" where
  "mk_result s0 d m \<longleftrightarrow> (\<exists>r. m = Some r \<and> r \<noteq> Panic \<and>
     (\<forall>x. r = Ok x \<longrightarrow> mk_ok s0 (fst x) \<and> mk_depth (fst x) = d \<and> unat (snd x) < 1019))"

lemma mk_result_then:
  assumes "mk_result s0 d m" and "\<And>x. mk_ok s0 (fst x) \<Longrightarrow> mk_depth (fst x) = d \<Longrightarrow> unat (snd x) < 1019 \<Longrightarrow> mk_result s0 e (f x)"
  shows "mk_result s0 e (run_then m f)"
proof -
  obtain r where r: "m = Some r" "r \<noteq> Panic" "\<And>x. r = Ok x \<Longrightarrow> mk_ok s0 (fst x) \<and> mk_depth (fst x) = d \<and> unat (snd x) < 1019"
    using assms(1) by (auto simp: mk_result_def)
  show ?thesis
  proof (cases r)
    case (Ok x)
    then show ?thesis using r assms(2) [of x] by simp
  next
    case (Err e)
    then show ?thesis using r(1) by (simp add: mk_result_def)
  next
    case Panic
    then show ?thesis using r(2) by simp
  qed
qed

lemma mk_result_simps:
  "mk_result s0 d (Some (Err e))" "mk_result s0 d (Some (Ok x)) \<longleftrightarrow> mk_ok s0 (fst x) \<and> mk_depth (fst x) = d \<and> unat (snd x) < 1019"
  by (cases x; simp add: mk_result_def)+

lemma mk_result_put:
  assumes "i < length xs" and "mk_result s0 d (f (xs[i := v]))"
  shows "mk_result s0 d (run_then (Some (put_at xs i v)) f)"
  using assms by (simp add: put_at_def)

text \<open>Both children of an inner node of the tree.\<close>

definition mk_children :: "mk_tbl \<Rightarrow> u16 \<Rightarrow> (mk_tbl \<times> u16) run" where
  "mk_children s i = run_then (mktbl s) (\<lambda>r1.
     run_then (Some (put_at (mk_left (fst r1)) (unat i) (snd r1))) (\<lambda>lefts.
     run_then (mktbl (fst r1\<lparr>mk_left := lefts\<rparr>)) (\<lambda>r2.
     run_then (Some (put_at (mk_right (fst r2)) (unat i) (snd r2))) (\<lambda>rights.
     Some (mk_node (fst r2\<lparr>mk_right := rights\<rparr>) i)))))"

lemma mk_children_ok:
  assumes "mk_fits s0" and IH: "\<And>t. mk_ok s0 t \<Longrightarrow> mk_depth t = d \<Longrightarrow> mk_result s0 d (mktbl t)"
    and "mk_ok s0 s" and "mk_depth s = d" and i: "unat i < 1019"
  shows "mk_result s0 (d - 1) (mk_children s i)"
  unfolding mk_children_def
proof (rule mk_result_then [OF IH [OF assms(3,4)]])
  fix r1 :: "mk_tbl \<times> u16" assume r1: "mk_ok s0 (fst r1)" "mk_depth (fst r1) = d" "unat (snd r1) < 1019"
  let ?t1 = "fst r1\<lparr>mk_left := (mk_left (fst r1))[unat i := snd r1]\<rparr>"
  have "entries (mk_left (fst r1))" using r1(1) by (simp add: mk_ok_def)
  from entries_update [OF this r1(3)] have t1: "mk_ok s0 ?t1" "mk_depth ?t1 = d" using r1(1,2) by (simp_all add: mk_ok_def)
  show "mk_result s0 (d - 1) (run_then (Some (put_at (mk_left (fst r1)) (unat i) (snd r1))) (\<lambda>lefts.
     run_then (mktbl (fst r1\<lparr>mk_left := lefts\<rparr>)) (\<lambda>r2.
     run_then (Some (put_at (mk_right (fst r2)) (unat i) (snd r2))) (\<lambda>rights.
     Some (mk_node (fst r2\<lparr>mk_right := rights\<rparr>) i)))))"
  proof (rule mk_result_put)
    show "unat i < length (mk_left (fst r1))" using r1(1) i by (simp add: mk_ok_def)
    show "mk_result s0 (d - 1) (run_then (mktbl ?t1) (\<lambda>r2.
       run_then (Some (put_at (mk_right (fst r2)) (unat i) (snd r2))) (\<lambda>rights.
       Some (mk_node (fst r2\<lparr>mk_right := rights\<rparr>) i))))"
    proof (rule mk_result_then [OF IH [OF t1]])
      fix r2 :: "mk_tbl \<times> u16" assume r2: "mk_ok s0 (fst r2)" "mk_depth (fst r2) = d" "unat (snd r2) < 1019"
      let ?t2 = "fst r2\<lparr>mk_right := (mk_right (fst r2))[unat i := snd r2]\<rparr>"
      have "entries (mk_right (fst r2))" using r2(1) by (simp add: mk_ok_def)
      from entries_update [OF this r2(3)] have t2: "mk_ok s0 ?t2" "mk_depth ?t2 = d" using r2(1,2) by (simp_all add: mk_ok_def)
      have "mk_result s0 (d - 1) (Some (mk_node ?t2 i))"
        unfolding mk_result_def using mk_node_ok [OF assms(1) t2(1) i] t2(2) by auto
      then show "mk_result s0 (d - 1) (run_then (Some (put_at (mk_right (fst r2)) (unat i) (snd r2))) (\<lambda>rights.
         Some (mk_node (fst r2\<lparr>mk_right := rights\<rparr>) i)))"
        using r2(1) i by (intro mk_result_put) (simp_all add: mk_ok_def)
    qed
  qed
qed

lemma mktbl_ok:
  assumes "mk_fits s0" and "mk_ok s0 s" and "unat (mk_depth s) \<le> 32"
  shows "mk_result s0 (mk_depth s) (mktbl s)"
  using assms(2,3)
proof (induction "33 - unat (mk_depth s)" arbitrary: s rule: less_induct)
  case less
  note sym = mk_symbol_ok [OF assms(1) less.prems(1)]
  show ?case
  proof (cases "\<exists>s1. mk_symbol s = Ok (Inl s1)")
    case False
    then consider e where "mk_symbol s = Err e" | r where "mk_symbol s = Ok (Inr r)"
      using sym(1) by (cases "mk_symbol s"; metis sum.exhaust)
    then show ?thesis
    proof cases
      case 1
      then show ?thesis by (subst mktbl.simps) (simp add: mk_result_simps)
    next
      case 2
      then show ?thesis using sym(2) by (subst mktbl.simps) (simp add: mk_result_simps)
    qed
  next
    case True
    then obtain s1 where s1: "mk_symbol s = Ok (Inl s1)" "mk_ok s0 s1" "mk_depth s1 = mk_depth s" using sym(3) by blast
    let ?d = "mk_depth s + 1"
    let ?s2 = "s1\<lparr>mk_depth := mk_depth s1 + 1\<rparr>"
    let ?s3 = "?s2\<lparr>mk_avail := mk_avail ?s2 + 1\<rparr>"
    have d: "unat ?d = unat (mk_depth s) + 1" using less.prems(2) by (subst unat_add_exact) simp_all
    have s2: "mk_ok s0 ?s2" "mk_ok s0 ?s3" "mk_depth ?s2 = ?d" "mk_depth ?s3 = ?d" using s1(2,3) by (simp_all add: mk_ok_def)
    have body: "mktbl s =
        (if ?d < mk_maxdepth s1 then run_then (mktbl ?s2) (\<lambda>r1. run_then (mktbl (fst r1)) (\<lambda>r2. Some (Ok (mk_up (fst r2), 0))))
         else if ?d > 32 then Some (Err InvalidData)
         else let i = mk_avail s1 in if unat i \<ge> 2 * unat (mk_n s1) - 1 then Some (Err InvalidData)
           else run_then (mktbl ?s3) (\<lambda>r1.
             run_then (Some (put_at (mk_left (fst r1)) (unat i) (snd r1))) (\<lambda>lefts.
             run_then (mktbl (fst r1\<lparr>mk_left := lefts\<rparr>)) (\<lambda>r2.
             run_then (Some (put_at (mk_right (fst r2)) (unat i) (snd r2))) (\<lambda>rights.
             Some (mk_node (fst r2\<lparr>mk_right := rights\<rparr>) i))))))"
      using s1(1,3) by (subst mktbl.simps) (simp add: Let_def)
    have maxdepth: "unat (mk_maxdepth s1) \<le> 13" using s1(2) assms(1) by (simp add: mk_ok_def mk_fits_def)
    show ?thesis
    proof (cases "?d < mk_maxdepth s1 \<or> \<not> ?d > 32")
      case False
      then show ?thesis unfolding body by (simp add: mk_result_simps)
    next
      case deeper: True
      then have le: "unat ?d \<le> 32" using maxdepth by (auto simp: word_less_nat_alt)
      have IH: "mk_result s0 ?d (mktbl t)" if "mk_ok s0 t" "mk_depth t = ?d" for t
      proof -
        have "33 - unat (mk_depth t) < 33 - unat (mk_depth s)" using that(2) d le by simp
        from less.hyps [OF this that(1)] show ?thesis using that(2) le by simp
      qed
      show ?thesis
      proof (cases "?d < mk_maxdepth s1")
        case True
        have "mk_result s0 (mk_depth s) (run_then (mktbl ?s2) (\<lambda>r1. run_then (mktbl (fst r1)) (\<lambda>r2. Some (Ok (mk_up (fst r2), 0)))))"
        proof (rule mk_result_then [OF IH [OF s2(1,3)]])
          fix r1 assume r1: "mk_ok s0 (fst r1)" "mk_depth (fst r1) = ?d"
          show "mk_result s0 (mk_depth s) (run_then (mktbl (fst r1)) (\<lambda>r2. Some (Ok (mk_up (fst r2), 0))))"
            by (rule mk_result_then [OF IH [OF r1]]) (simp add: mk_result_simps mk_up_def mk_ok_def)
        qed
        then show ?thesis unfolding body using True by simp
      next
        case False
        show ?thesis
        proof (cases "unat (mk_avail s1) \<ge> 2 * unat (mk_n s1) - 1")
          case True
          then show ?thesis unfolding body using False by (simp add: mk_result_simps)
        next
          case room: False
          have i: "unat (mk_avail s1) < 1019" using room s1(2) assms(1) by (auto simp: mk_ok_def mk_fits_def)
          from mk_children_ok [OF assms(1) IH s2(2,4) i]
          have "mk_result s0 (mk_depth s) (mk_children ?s3 (mk_avail s1))" by simp
          then show ?thesis unfolding body using False deeper room by (simp add: Let_def mk_children_def)
        qed
      qed
    qed
  qed
qed


text \<open>
  The tables are always built, or refused: with the lengths of a code for \<open>nchar\<close> symbols the
  construction returns, and every entry that it writes is a symbol or a node.
\<close>

lemma make_table_ok:
  assumes "unat nchar \<le> 510" and "unat nchar \<le> length bitlen" and "unat tablebits \<le> 12" and "length table = 2 ^ unat tablebits"
    and "length left = 1019" and "length right = 1028" and "entries table" and "entries left" and "entries right"
  shows "\<exists>r. make_table nchar bitlen tablebits table left right = Some r \<and> r \<noteq> Panic \<and>
    (\<forall>t l r'. r = Ok (t, l, r') \<longrightarrow> length t = length table \<and> length l = 1019 \<and> length r' = 1028 \<and> entries t \<and> entries l \<and> entries r')"
proof -
  have "(2 :: nat) ^ unat tablebits \<le> 2 ^ 12" using assms(3) by (intro power_increasing) simp_all
  then have siz_bound: "(2 :: nat) ^ unat tablebits \<le> 4096" by simp
  let ?siz = "push_bit (unat tablebits) 1 :: u16"
  have power: "?siz = word_of_nat (2 ^ unat tablebits)" by (simp add: push_bit_eq_mult)
  have siz: "unat ?siz = 2 ^ unat tablebits" unfolding power unat_of_nat using siz_bound by simp
  define s0 where "s0 = \<lparr>mk_n = nchar, mk_blen = bitlen, mk_tbl = table, mk_left = left, mk_right = right, mk_tblsiz = ?siz,
             mk_bit = ?siz div 2, mk_maxdepth = tablebits + 1, mk_depth = 1, mk_len = 1, mk_c = - 1,
             mk_codeword = 0, mk_avail = nchar\<rparr>"
  have "unat (tablebits + 1) = unat tablebits + 1" using assms(3) by (subst unat_add_exact) simp_all
  then have fits: "mk_fits s0" using assms siz siz_bound by (simp add: mk_fits_def s0_def)
  have ok: "mk_ok s0 s0" using assms siz siz_bound by (simp add: mk_ok_def s0_def unat_div)
  have run: "make_table nchar bitlen tablebits table left right =
      run_then (mktbl s0) (\<lambda>r1. run_then (mktbl (fst r1)) (\<lambda>r2.
      if mk_codeword (fst r2) \<noteq> ?siz then Some (Err InvalidData)
      else Some (Ok (mk_tbl (fst r2), mk_left (fst r2), mk_right (fst r2)))))"
    by (simp add: make_table_def s0_def Let_def)
  have depth: "mk_depth s0 = 1" by (simp add: s0_def)
  from mktbl_ok [OF fits ok] depth obtain r1 where r1: "mktbl s0 = Some r1" "r1 \<noteq> Panic"
    "\<And>x. r1 = Ok x \<Longrightarrow> mk_ok s0 (fst x) \<and> mk_depth (fst x) = 1" by (auto simp: mk_result_def)
  show ?thesis
  proof (cases r1)
    case (Ok x)
    then have x: "mk_ok s0 (fst x)" "mk_depth (fst x) = 1" using r1(3) by simp_all
    from mktbl_ok [OF fits x(1)] x(2) obtain r2 where r2: "mktbl (fst x) = Some r2" "r2 \<noteq> Panic"
      "\<And>y. r2 = Ok y \<Longrightarrow> mk_ok s0 (fst y)" by (auto simp: mk_result_def)
    then show ?thesis unfolding run using r1(1) Ok by (cases r2) (auto simp: mk_ok_def s0_def)
  next
    case (Err e)
    then show ?thesis unfolding run using r1(1) by simp
  next
    case Panic
    then show ?thesis using r1(2) by simp
  qed
qed

section \<open>The codes of a track\<close>

text \<open>The part of the state that these modes use.\<close>

definition heavy_ok :: "dms_state \<Rightarrow> bool" where
  "heavy_ok st \<longleftrightarrow> length (heavy_left st) = 1019 \<and> length (heavy_right st) = 1028 \<and> length (c_len st) = heavy_NC \<and>
     length (pt_len st) = heavy_NPT \<and> length (c_table st) = 4096 \<and> length (pt_table st) = 256 \<and>
     entries (heavy_left st) \<and> entries (heavy_right st) \<and> entries (c_table st) \<and> entries (pt_table st)"

text \<open>All of the rest.\<close>

abbreviation off_heavy :: "dms_state \<Rightarrow> dms_state" where
  "off_heavy st \<equiv> st\<lparr>heavy_left := [], heavy_right := [], c_len := [], pt_len := [], c_table := [], pt_table := [], lastlen := 0, np := 0,
     window := [], heavy_text_loc := 0\<rparr>"

lemma read_lens_ok:
  assumes "br_sane br" and "m \<le> length lens"
  obtains br' lens' where "read_lens w [0..<m] (br, lens) = Ok (br', lens')" and "br_sane br'" and "length lens' = length lens"
proof -
  let ?P = "\<lambda>s. br_sane (fst s) \<and> length (snd s) = length lens"
  have "\<exists>s. read_lens w [0..<m] (br, lens) = Ok s \<and> ?P s"
    unfolding read_lens_def
  proof (rule for_each_all_ok)
    fix i and s :: "bit_reader \<times> bytes"
    assume "i \<in> set [0..<m]" and "?P s"
    then show "\<exists>t. (case s of (br, lens) \<Rightarrow> let (v, br') = br_get br w in and_then (put_at lens i (ucast v)) (\<lambda>lens'. Ok (br', lens'))) = Ok t \<and> ?P t"
      using assms(2) by (auto simp: br_get_def put_at_def split: prod.split)
  qed (use assms(1) in simp)
  then show ?thesis using that by auto
qed

lemma clear_lens_ok:
  assumes "b \<le> length lens"
  obtains lens' where "clear_lens [a..<b] lens = Ok lens'" and "length lens' = length lens"
proof -
  have "\<exists>t. for_each (\<lambda>i lens. put_at lens i 0) [a..<b] lens = Ok t \<and> length t = length lens"
    by (rule for_each_all_ok) (use assms in \<open>auto simp: put_at_def\<close>)
  then show ?thesis using that by (auto simp: clear_lens_def)
qed

definition tree_read :: "dms_state \<Rightarrow> (bit_reader \<times> dms_state) run \<Rightarrow> bool" where
  "tree_read st m \<longleftrightarrow> (\<exists>r. m = Some r \<and> r \<noteq> Panic \<and>
     (\<forall>br' st'. r = Ok (br', st') \<longrightarrow> br_sane br' \<and> heavy_ok st' \<and> np st' = np st \<and> window st' = window st \<and> off_heavy st' = off_heavy st))"

lemma entries_map: "unat v < 1019 \<Longrightarrow> entries (map (\<lambda>_. v) xs)"
  by simp

lemma heavy_read_tree_c_ok:
  assumes "br_sane br" and "heavy_ok st"
  shows "tree_read st (heavy_read_tree_c br st)"
proof (cases "br_peek br 9 > 0")
  case False
  have "unat (br_peek (br_drop br 9) 9) < 1019" using br_sane_peek [of "br_drop br 9" 9] by simp
  then show ?thesis using False assms(2) by (simp add: tree_read_def heavy_read_tree_c_def br_get_def Let_def heavy_ok_def)
next
  case True
  have len: "length (c_len st) = 510" using assms(2) by (simp add: heavy_ok_def)
  obtain br2 lens where lens: "read_lens 5 [0..<min (unat (br_peek br 9)) heavy_NC] (br_drop br 9, c_len st) = Ok (br2, lens)"
    "br_sane br2" "length lens = 510"
    using read_lens_ok [of "br_drop br 9" "min (unat (br_peek br 9)) heavy_NC" "c_len st"] len by auto
  obtain lens' where lens': "clear_lens [unat (br_peek br 9)..<heavy_NC] lens = Ok lens'" "length lens' = 510"
    using clear_lens_ok [of heavy_NC lens "unat (br_peek br 9)"] lens(3) by auto
  from make_table_ok [of "of_nat heavy_NC" lens' 12 "c_table st" "heavy_left st" "heavy_right st"] lens'(2) assms(2)
  obtain r where r: "make_table (of_nat heavy_NC) lens' 12 (c_table st) (heavy_left st) (heavy_right st) = Some r" "r \<noteq> Panic"
    "\<And>t l r'. r = Ok (t, l, r') \<Longrightarrow> length t = 4096 \<and> length l = 1019 \<and> length r' = 1028 \<and> entries t \<and> entries l \<and> entries r'"
    by (auto simp: heavy_ok_def)
  show ?thesis
  proof (cases r)
    case (Ok x)
    obtain t l r' where x: "x = (t, l, r')" by (cases x)
    then have "length t = 4096 \<and> length l = 1019 \<and> length r' = 1028 \<and> entries t \<and> entries l \<and> entries r'" using r(3) Ok by simp
    then show ?thesis using True lens lens' r(1) Ok x assms(2)
      by (simp add: tree_read_def heavy_read_tree_c_def br_get_def Let_def heavy_ok_def)
  next
    case (Err e)
    then show ?thesis using True lens lens' r(1) by (simp add: tree_read_def heavy_read_tree_c_def br_get_def Let_def)
  next
    case Panic
    then show ?thesis using r(2) by simp
  qed
qed


lemma heavy_read_tree_p_ok:
  assumes "br_sane br" and "heavy_ok st" and "unat (np st) \<le> 15"
  shows "tree_read st (heavy_read_tree_p br st)"
proof (cases "br_peek br 5 > 0")
  case False
  have "unat (br_peek (br_drop br 5) 5) < 1019" using br_sane_peek [of "br_drop br 5" 5] by simp
  then show ?thesis using False assms(2,3)
    by (simp add: tree_read_def heavy_read_tree_p_def br_get_def Let_def heavy_ok_def get_range_def)
next
  case True
  have len: "length (pt_len st) = 20" using assms(2) by (simp add: heavy_ok_def)
  obtain br2 lens where lens: "read_lens 4 [0..<min (unat (br_peek br 5)) heavy_NPT] (br_drop br 5, pt_len st) = Ok (br2, lens)"
    "br_sane br2" "length lens = 20"
    using read_lens_ok [of "br_drop br 5" "min (unat (br_peek br 5)) heavy_NPT" "pt_len st"] len by auto
  obtain lens' where lens': "clear_lens [unat (br_peek br 5)..<unat (np st)] lens = Ok lens'" "length lens' = 20"
    using clear_lens_ok [of "unat (np st)" lens "unat (br_peek br 5)"] lens(3) assms(3) by auto
  from make_table_ok [of "np st" lens' 8 "pt_table st" "heavy_left st" "heavy_right st"] lens'(2) assms(2,3)
  obtain r where r: "make_table (np st) lens' 8 (pt_table st) (heavy_left st) (heavy_right st) = Some r" "r \<noteq> Panic"
    "\<And>t l r'. r = Ok (t, l, r') \<Longrightarrow> length t = 256 \<and> length l = 1019 \<and> length r' = 1028 \<and> entries t \<and> entries l \<and> entries r'"
    by (auto simp: heavy_ok_def)
  show ?thesis
  proof (cases r)
    case (Ok x)
    obtain t l r' where x: "x = (t, l, r')" by (cases x)
    then have "length t = 256 \<and> length l = 1019 \<and> length r' = 1028 \<and> entries t \<and> entries l \<and> entries r'" using r(3) Ok by simp
    then show ?thesis using True lens lens' r(1) Ok x assms(2)
      by (simp add: tree_read_def heavy_read_tree_p_def br_get_def Let_def heavy_ok_def)
  next
    case (Err e)
    then show ?thesis using True lens lens' r(1) by (simp add: tree_read_def heavy_read_tree_p_def br_get_def Let_def)
  next
    case Panic
    then show ?thesis using r(2) by simp
  qed
qed

section \<open>Decoding\<close>

text \<open>The walk stays in the tree; when it ends, it ends at a symbol.\<close>

lemma heavy_walk_safe:
  assumes "heavy_walk ls rs stop i m j = Some r"
  shows "length ls = 1019 \<longrightarrow> length rs = 1028 \<longrightarrow> entries ls \<longrightarrow> entries rs \<longrightarrow> unat j < 1019 \<longrightarrow>
    r \<noteq> Panic \<and> (\<forall>j'. r = Ok j' \<longrightarrow> j' < stop)"
proof (rule heavy_walk.raw_induct [OF _ assms])
  fix again and ls rs :: "u16 list" and stop i m j :: u16 and r
  assume hyp: "\<And>ls rs stop i m j r. again ls rs stop i m j = Some r \<Longrightarrow>
      length ls = 1019 \<longrightarrow> length rs = 1028 \<longrightarrow> entries ls \<longrightarrow> entries rs \<longrightarrow> unat j < 1019 \<longrightarrow> r \<noteq> Panic \<and> (\<forall>j'. r = Ok j' \<longrightarrow> j' < stop)"
    and body: "run_then (Some (get_at (if i AND m \<noteq> 0 then rs else ls) (unat j)))
      (\<lambda>j'. if j' < stop then Some (Ok j') else again ls rs stop i (drop_bit 1 m) j') = Some r"
  show "length ls = 1019 \<longrightarrow> length rs = 1028 \<longrightarrow> entries ls \<longrightarrow> entries rs \<longrightarrow> unat j < 1019 \<longrightarrow> r \<noteq> Panic \<and> (\<forall>j'. r = Ok j' \<longrightarrow> j' < stop)"
  proof (intro impI)
    assume tree: "length ls = 1019" "length rs = 1028" "entries ls" "entries rs" "unat j < 1019"
    let ?xs = "if i AND m \<noteq> 0 then rs else ls"
    have "unat j < length ?xs" "entries ?xs" using tree by (simp_all split: if_split)
    then have next_j: "get_at ?xs (unat j) = Ok (?xs ! unat j)" "unat (?xs ! unat j) < 1019" by (simp_all add: get_at_def)
    show "r \<noteq> Panic \<and> (\<forall>j'. r = Ok j' \<longrightarrow> j' < stop)"
    proof (cases "?xs ! unat j < stop")
      case True
      then show ?thesis using body next_j(1) by auto
    next
      case False
      then have "again ls rs stop i (drop_bit 1 m) (?xs ! unat j) = Some r" using body next_j(1) by simp
      from hyp [OF this] tree next_j(2) show ?thesis by blast
    qed
  qed
qed

lemma table_entry:
  assumes "entries table" and "unat v < length table"
  shows "get_at table (unat v) = Ok (table ! unat v)" "unat (table ! unat v) < 1019"
  using assms by (simp_all add: get_at_def)

definition decoded :: "(u16 \<Rightarrow> bool) \<Rightarrow> (u16 \<times> bit_reader) run \<Rightarrow> bool" where
  "decoded P m \<longleftrightarrow> m \<noteq> Some Panic \<and> (\<forall>c br'. m = Some (Ok (c, br')) \<longrightarrow> P c \<and> br_sane br')"

lemma decoded_walk:
  assumes "length ls = 1019" and "length rs = 1028" and "entries ls" and "entries rs" and "unat j < 1019"
    and "\<And>j'. j' < stop \<Longrightarrow> decoded P (f j')"
  shows "decoded P (run_then (heavy_walk ls rs stop i m j) f)"
proof (cases "heavy_walk ls rs stop i m j")
  case None
  then show ?thesis by (simp add: decoded_def)
next
  case (Some r)
  then show ?thesis using heavy_walk_safe [OF Some] assms by (cases r) (auto simp: decoded_def)
qed

lemma heavy_decode_c_safe:
  assumes "br_sane br" and "heavy_ok st"
  shows "decoded (\<lambda>c. c < 510) (heavy_decode_c br st)"
proof -
  have peek: "unat (br_peek br 12) < length (c_table st)" using br_sane_peek [OF assms(1), of 12] assms(2) by (simp add: heavy_ok_def)
  have ok: "entries (c_table st)" "length (heavy_left st) = 1019" "length (heavy_right st) = 1028" "entries (heavy_left st)" "entries (heavy_right st)"
    "length (c_len st) = 510" using assms(2) by (simp_all add: heavy_ok_def)
  let ?j = "c_table st ! unat (br_peek br 12)"
  have last: "decoded (\<lambda>c. c < 510) (run_then (Some (get_at (c_len st) (unat j'))) (\<lambda>l. Some (Ok (j', br_drop br' (g l)))))"
    if "j' < 510" for j' br' and g :: "u8 \<Rightarrow> u32"
    using that ok(6) by (simp add: get_at_def word_less_nat_alt decoded_def)
  show ?thesis
  proof (cases "?j < 510")
    case True
    then show ?thesis using last [OF True] table_entry [OF ok(1) peek] by (simp add: heavy_decode_c_def)
  next
    case False
    then show ?thesis using table_entry [OF ok(1) peek] decoded_walk [OF ok(2-5) _ last, of ?j]
      by (simp add: heavy_decode_c_def Let_def)
  qed
qed

lemma heavy_distance_size_safe:
  assumes "br_sane br" and "heavy_ok st" and "unat (np st) \<le> 15"
  shows "decoded (\<lambda>j. True) (heavy_distance_size br st)"
proof -
  have peek: "unat (br_peek br 8) < length (pt_table st)" using br_sane_peek [OF assms(1), of 8] assms(2) by (simp add: heavy_ok_def)
  have ok: "entries (pt_table st)" "length (heavy_left st) = 1019" "length (heavy_right st) = 1028" "entries (heavy_left st)" "entries (heavy_right st)"
    "length (pt_len st) = 20" using assms(2) by (simp_all add: heavy_ok_def)
  let ?j = "pt_table st ! unat (br_peek br 8)"
  have last: "decoded (\<lambda>j. True) (run_then (Some (get_at (pt_len st) (unat j'))) (\<lambda>l. Some (Ok (j', br_drop br' (g l)))))"
    if "j' < np st" for j' br' and g :: "u8 \<Rightarrow> u32"
    using that ok(6) assms(3) by (simp add: get_at_def word_less_nat_alt decoded_def)
  show ?thesis
  proof (cases "?j < np st")
    case True
    then show ?thesis using last [OF True] table_entry [OF ok(1) peek] by (simp add: heavy_distance_size_def)
  next
    case False
    then show ?thesis using table_entry [OF ok(1) peek] decoded_walk [OF ok(2-5) _ last, of ?j]
      by (simp add: heavy_distance_size_def Let_def)
  qed
qed

lemma heavy_decode_p_safe:
  assumes "br_sane br" and "heavy_ok st" and "unat (np st) \<le> 15"
  shows "heavy_decode_p br st \<noteq> Some Panic"
    "heavy_decode_p br st = Some (Ok (d, br', st')) \<Longrightarrow> br_sane br' \<and> (\<exists>v. st' = st\<lparr>lastlen := v\<rparr>)"
proof -
  note safe = heavy_distance_size_safe [OF assms]
  show "heavy_decode_p br st \<noteq> Some Panic"
    using safe by (auto simp: heavy_decode_p_def decoded_def run_then_Panic_iff br_get_def Let_def split: if_splits)
  assume run: "heavy_decode_p br st = Some (Ok (d, br', st'))"
  show "br_sane br' \<and> (\<exists>v. st' = st\<lparr>lastlen := v\<rparr>)"
  proof -
    from run obtain j br1 where size: "heavy_distance_size br st = Some (Ok (j, br1))"
      and rest: "(if j \<noteq> np st - 1 then
         (if j > 0
          then let (v, br2) = br_get br1 (ucast (j - 1)); d = v OR push_bit (unat ((j - 1) AND 15)) 1 in
            Some (Ok (d, br2, st\<lparr>lastlen := d\<rparr>))
          else Some (Ok (j, br1, st\<lparr>lastlen := j\<rparr>)))
       else Some (Ok (lastlen st, br1, st))) = Some (Ok (d, br', st'))"
      by (auto simp: heavy_decode_p_def run_then_Ok_iff)
    have br1: "br_sane br1" using safe size by (simp add: decoded_def)
    show ?thesis
    proof (cases "j \<noteq> np st - 1")
      case True
      then show ?thesis using rest br1 by (cases "j > 0") (auto simp: br_get_def Let_def)
    next
      case False
      then have "br' = br1" "st' = st" using rest by simp_all
      then show ?thesis using br1 by (intro conjI exI [of _ "lastlen st"]) simp_all
    qed
  qed
qed


definition heavy_inv :: "dms_state \<Rightarrow> bit_reader \<times> dms_state \<Rightarrow> bool" where
  "heavy_inv st0 = (\<lambda>(br, st). br_sane br \<and> heavy_ok st \<and> unat (np st) \<le> 15 \<and> length (window st) = 0x4000 \<and> off_heavy st = off_heavy st0)"

text \<open>The mask of the window is one of the two that the modes have.\<close>

definition window_mask :: "u16 \<Rightarrow> u16" where
  "window_mask m = m AND 0x3fff"

lemma window_mask_less: "unat (window_mask m) < 0x4000"
  using unat_and_le [of m "0x3fff"] by (simp add: window_mask_def)

interpretation heavy: safe_filling "heavy_step (window_mask m) n" n "heavy_inv st0" for m n st0
proof
  fix s and out :: bytes
  assume inv: "heavy_inv st0 s" and less: "length out < n"
  obtain br st where s: "s = (br, st)" by (cases s)
  have I: "br_sane br" "heavy_ok st" "unat (np st) \<le> 15" "length (window st) = 0x4000" "off_heavy st = off_heavy st0"
    using inv by (simp_all add: s heavy_inv_def)
  have heavy: "heavy_ok (st\<lparr>lastlen := v, window := w, heavy_text_loc := l\<rparr>)" "heavy_ok (st\<lparr>window := w, heavy_text_loc := l\<rparr>)" for v w l
    using I(2) by (simp_all add: heavy_ok_def)
  have mask: "unat (window_mask m) < length (window st)" using window_mask_less [of m] I(4) by simp
  note char = heavy_decode_c_safe [OF I(1,2)]
  have match: "\<exists>win' loc' bs. copy_match (window_mask m) n j i (window st, heavy_text_loc st, out) = Ok (win', loc', out @ bs) \<and>
      length win' = 0x4000 \<and> length out + length bs \<le> n" for j i
    using copy_match_ok [OF mask less, of j i "heavy_text_loc st"] I(4) less by fastforce
  have put: "put_byte (window_mask m) n c (window st, heavy_text_loc st, out) =
      Ok ((window st)[unat (heavy_text_loc st AND window_mask m) := c], heavy_text_loc st + 1, out @ [c])" for c
    by (rule put_byte_ok [OF mask less])
  have result: "heavy_step (window_mask m) n s out \<noteq> Some Panic \<and>
      (\<forall>s' out'. heavy_step (window_mask m) n s out = Some (Ok (s', out')) \<longrightarrow> heavy_inv st0 s' \<and> length out' \<le> n)"
  proof (cases "\<exists>c br1. heavy_decode_c br st = Some (Ok (c, br1))")
    case False
    have "run_then (heavy_decode_c br st) f \<noteq> Some Panic \<and> run_then (heavy_decode_c br st) f \<noteq> Some (Ok x)"
      for f :: "u16 \<times> bit_reader \<Rightarrow> ((bit_reader \<times> dms_state) \<times> bytes) run" and x
      using char False by (auto simp: run_then_Panic_iff run_then_Ok_iff decoded_def)
    then show ?thesis by (simp add: heavy_step_def s)
  next
    case True
    then obtain c br1 where c: "heavy_decode_c br st = Some (Ok (c, br1))" "br_sane br1" using char by (auto simp: decoded_def)
    show ?thesis
    proof (cases "c < 256")
      case True
      then show ?thesis using c put less I heavy by (simp add: heavy_step_def s heavy_inv_def)
    next
      case False
      note dist = heavy_decode_p_safe [OF c(2) I(2,3)]
      show ?thesis
      proof (cases "\<exists>d br2 st2. heavy_decode_p br1 st = Some (Ok (d, br2, st2))")
        case none: False
        then show ?thesis using c(1) False dist(1) by (auto simp: heavy_step_def s run_then_Panic_iff run_then_Ok_iff)
      next
        case True
        then obtain d br2 v where d: "heavy_decode_p br1 st = Some (Ok (d, br2, st\<lparr>lastlen := v\<rparr>))" "br_sane br2" using dist(2) by blast
        obtain win' loc' bs where "copy_match (window_mask m) n (unat (c - 253)) (heavy_text_loc st - d - 1) (window st, heavy_text_loc st, out) =
            Ok (win', loc', out @ bs)" "length win' = 0x4000" "length out + length bs \<le> n" using match by blast
        then show ?thesis using c(1) False d I heavy by (simp add: heavy_step_def s heavy_inv_def)
      qed
    qed
  qed
  then show "heavy_step (window_mask m) n s out \<noteq> Some Panic" by blast
  show "heavy_inv st0 s' \<and> length out' \<le> n" if "heavy_step (window_mask m) n s out = Some (Ok (s', out'))" for s' out'
    using result that by blast
qed

text \<open>The mode never unwinds, and keeps what the other modes need.\<close>

lemma unpack_heavy_safe:
  assumes "heavy_ok st" and "length (window st) = 0x4000"
  shows "unpack_heavy st input n flags \<noteq> Some Panic"
    "unpack_heavy st input n flags = Some (Ok (st', out)) \<Longrightarrow>
      length out = n \<and> heavy_ok st' \<and> length (window st') = 0x4000 \<and> off_heavy st' = off_heavy st"
proof -
  obtain codes bitmask where mode: "(if flags AND 8 \<noteq> 0 then (15, 0x1fff) else (14, 0x0fff)) = (codes :: u16, bitmask :: u16)" by fastforce
  then have codes: "unat codes \<le> 15" and mask: "bitmask = window_mask bitmask" by (auto simp: window_mask_def split: if_splits)
  let ?st0 = "st\<lparr>np := codes\<rparr>"
  have st0: "heavy_ok ?st0" "unat (np ?st0) \<le> 15" using assms(1) codes by (simp_all add: heavy_ok_def)
  define tables where "tables = (if flags AND 2 \<noteq> 0
      then run_then (heavy_read_tree_c (br_new input) ?st0) (\<lambda>(br1, st1). heavy_read_tree_p br1 st1) else Some (Ok (br_new input, ?st0)))"
  have tables: "tables \<noteq> Some Panic \<and> (\<forall>br st1. tables = Some (Ok (br, st1)) \<longrightarrow> heavy_inv st (br, st1))"
  proof (cases "flags AND 2 = 0")
    case True
    then show ?thesis using st0 assms(2) by (simp add: tables_def heavy_inv_def)
  next
    case False
    from heavy_read_tree_c_ok [OF br_sane_new st0(1), of input]
    obtain r1 where r1: "heavy_read_tree_c (br_new input) ?st0 = Some r1" "r1 \<noteq> Panic"
      "\<And>br st1. r1 = Ok (br, st1) \<Longrightarrow> br_sane br \<and> heavy_ok st1 \<and> np st1 = codes \<and> window st1 = window st \<and> off_heavy st1 = off_heavy st"
      by (auto simp: tree_read_def)
    show ?thesis
    proof (cases r1)
      case (Ok x)
      obtain br1 st1 where x: "x = (br1, st1)" by (cases x)
      then have st1: "br_sane br1" "heavy_ok st1" "np st1 = codes" "window st1 = window st" "off_heavy st1 = off_heavy st" using r1(3) Ok by simp_all
      from heavy_read_tree_p_ok [OF st1(1,2)] codes st1(3)
      obtain r2 where r2: "heavy_read_tree_p br1 st1 = Some r2" "r2 \<noteq> Panic"
        "\<And>br st2. r2 = Ok (br, st2) \<Longrightarrow> br_sane br \<and> heavy_ok st2 \<and> np st2 = codes \<and> window st2 = window st \<and> off_heavy st2 = off_heavy st"
        using st1(4,5) by (auto simp: tree_read_def)
      have "tables = Some r2" using False r1(1) Ok x r2(1) by (simp add: tables_def)
      moreover have "heavy_inv st (br, st2)" if "r2 = Ok (br, st2)" for br st2
        using r2(3) [OF that] codes assms(2) by (simp add: heavy_inv_def)
      ultimately show ?thesis using r2(2) by simp
    next
      case (Err e)
      then show ?thesis using False r1(1) by (simp add: tables_def)
    next
      case Panic
      then show ?thesis using r1(2) by simp
    qed
  qed
  have run: "unpack_heavy st input n flags =
      run_then tables (\<lambda>(br2, st2). run_then (fill_output (heavy_step bitmask n) n (br2, st2) []) (\<lambda>((br3, st3), out). Some (Ok (st3, out))))"
    using mode by (simp add: unpack_heavy_def tables_def Let_def split: prod.splits)
  have fill: "r \<noteq> Panic \<and> (\<forall>s' out. r = Ok (s', out) \<longrightarrow> heavy_inv st s' \<and> length out = n)"
    if "heavy_inv st (br, st1)" "fill_output (heavy_step bitmask n) n (br, st1) [] = Some r" for br st1 r
    using heavy.fill_safe [where m = bitmask and out = "[]"] that mask by simp
  show "unpack_heavy st input n flags \<noteq> Some Panic"
    unfolding run using tables fill [of _ _ Panic] by (auto simp: run_then_Panic_iff)
  show "length out = n \<and> heavy_ok st' \<and> length (window st') = 0x4000 \<and> off_heavy st' = off_heavy st"
    if "unpack_heavy st input n flags = Some (Ok (st', out))"
  proof -
    from that obtain br2 st2 br3 where T: "tables = Some (Ok (br2, st2))"
      and F: "fill_output (heavy_step bitmask n) n (br2, st2) [] = Some (Ok ((br3, st'), out))"
      unfolding run by (auto simp: run_then_Ok_iff)
    have "heavy_inv st (br2, st2)" using tables T by blast
    from fill [OF this F] show ?thesis by (simp add: heavy_inv_def)
  qed
qed

end
