(* ===== verification/Disk_Dms.thy ===== *)
theory Disk_Dms
  imports Dms_Lz Dms_Codes Arc
begin

text \<open>
  Disk Masher archives, \<^verbatim>\<open>container/disk/dms.rs\<close>: a header and, for each track, a header with
  the sizes, the mode and three checksums in front of the packed bytes. The tracks are unpacked
  to a disk of 901120 bytes.
\<close>

definition ADF_SIZE :: nat where "ADF_SIZE = 901120"
definition HEADLEN :: nat where "HEADLEN = 56"
definition THLEN :: nat where "THLEN = 20"
definition TRACK_BUFFER_LEN :: nat where "TRACK_BUFFER_LEN = 32000"

section \<open>One track\<close>

definition unpack_track :: "dms_state \<Rightarrow> bytes \<Rightarrow> bytes \<Rightarrow> nat \<Rightarrow> nat \<Rightarrow> u8 \<Rightarrow> u8 \<Rightarrow> (dms_state \<times> bytes) run" where
  "unpack_track st b1 b2 pklen2 unpklen cmode flags =
     (let rle = (\<lambda>(st', tmp). Some (and_then (unpack_rle tmp b2 unpklen) (\<lambda>out. Ok (st', out))));
        heavy = (\<lambda>(st', tmp). if flags AND 4 \<noteq> 0 then rle (st', tmp)
                  else Some (Ok (st', b2 @ take (min unpklen (length tmp)) tmp))) in
      run_then
       (if cmode = 0 then Some (Ok (st, b2 @ take (min unpklen (length b1)) b1))
        else if cmode = 1 then rle (st, b1)
        else if cmode = 2 then run_then (unpack_quick st b1 pklen2) rle
        else if cmode = 3 then run_then (unpack_medium st b1 pklen2) rle
        else if cmode = 4 then run_then (unpack_deep st b1 pklen2) rle
        else if cmode = 5 then run_then (unpack_heavy st b1 pklen2 (flags AND 7)) heavy
        else if cmode = 6 then run_then (unpack_heavy st b1 pklen2 (flags OR 8)) heavy
        else Some (Err InvalidData)) (\<lambda>(st', out).
      Some (Ok (if flags AND 1 = 0 then dms_reinit st' else st', out))))"

section \<open>The archive\<close>

definition be16_of :: "bytes \<Rightarrow> nat \<Rightarrow> u16" where
  "be16_of d i = push_bit 8 (ucast (d ! i)) OR ucast (d ! (i + 1))"

record dms_track =
  tk_number :: u16
  tk_pklen1 :: nat
  tk_pklen2 :: nat
  tk_unpklen :: nat
  tk_flags :: u8
  tk_cmode :: u8
  tk_usum :: u16
  tk_dcrc :: u16

definition dms_track_of :: "bytes \<Rightarrow> dms_track" where
  "dms_track_of th =
     \<lparr>tk_number = be16_of th 2, tk_pklen1 = unat (be16_of th 6), tk_pklen2 = unat (be16_of th 8),
      tk_unpklen = unat (be16_of th 10), tk_flags = th ! 12, tk_cmode = th ! 13, tk_usum = be16_of th 14, tk_dcrc = be16_of th 16\<rparr>"

text \<open>What the code does with a track whose header is \<open>t\<close> and whose packed bytes are \<open>track_data\<close>.\<close>

definition dms_track_output :: "dms_track \<Rightarrow> bytes \<Rightarrow> bytes \<Rightarrow> bytes io" where
  "dms_track_output t unpacked out =
     (if length unpacked \<ge> tk_unpklen t \<and> dms_checksum (take (tk_unpklen t) unpacked) \<noteq> tk_usum t then Err InvalidData
      else
        let track_offset = unat (tk_number t) * 11 * 512 in
        if track_offset + tk_unpklen t \<le> ADF_SIZE
        then let copy_len = min (tk_unpklen t) (length unpacked) in
          put_range out track_offset (track_offset + copy_len) (take copy_len unpacked)
        else Ok out)"

definition dms_unpack_to :: "dms_track \<Rightarrow> bytes \<Rightarrow> dms_state \<times> bytes \<Rightarrow> (dms_state \<times> bytes) run" where
  "dms_unpack_to t track_data = (\<lambda>(st, out).
     if tk_number t \<ge> 80 \<or> tk_unpklen t \<le> 2048 then Some (Ok (st, out))
     else
       run_then (unpack_track st track_data [] (tk_pklen2 t) (tk_unpklen t) (tk_cmode t) (tk_flags t)) (\<lambda>(st', unpacked).
       Some (and_then (dms_track_output t unpacked out) (\<lambda>out'. Ok (st', out')))))"

text \<open>The track at \<open>pos\<close>: its header, its packed bytes and the position behind it; \<open>None\<close> at the end.\<close>

definition dms_next_track :: "bytes \<Rightarrow> nat \<Rightarrow> (dms_track \<times> bytes \<times> nat) option io" where
  "dms_next_track data pos =
     (if pos + THLEN > length data then Ok None
      else
        let th = take THLEN (drop pos data) in
        if th ! 0 \<noteq> of_char (CHR ''T'') \<or> th ! 1 \<noteq> of_char (CHR ''R'') then Ok None
        else if crc16 (take (THLEN - 2) th) \<noteq> be16_of th (THLEN - 2) then Err InvalidData
        else
          let t = dms_track_of th; pos1 = pos + THLEN in
          if tk_pklen1 t > TRACK_BUFFER_LEN \<or> tk_pklen2 t > TRACK_BUFFER_LEN \<or> tk_unpklen t > TRACK_BUFFER_LEN
          then Err InvalidData
          else if pos1 + tk_pklen1 t > length data then Err UnexpectedEof
          else
            let track_data = take (tk_pklen1 t) (drop pos1 data) in
            if crc16 track_data \<noteq> tk_dcrc t then Err InvalidData
            else Ok (Some (t, track_data, pos1 + tk_pklen1 t)))"

partial_function (option) dms_tracks :: "bytes \<Rightarrow> nat \<Rightarrow> dms_state \<times> bytes \<Rightarrow> bytes run" where
  "dms_tracks data pos s =
     run_then (Some (dms_next_track data pos)) (\<lambda>track.
     case track of
       None \<Rightarrow> Some (Ok (snd s))
     | Some r \<Rightarrow> run_then (dms_unpack_to (fst r) (fst (snd r)) s) (dms_tracks data (snd (snd r))))"

definition decompress_dms :: "bytes \<Rightarrow> bytes run" where
  "decompress_dms data =
     (if length data < HEADLEN then Some (Err UnexpectedEof)
      else if take 4 data \<noteq> ascii ''DMS!'' then Some (Err InvalidData)
      else if crc16 (take (HEADLEN - 6) (drop 4 data)) \<noteq> be16_of data (HEADLEN - 2) then Some (Err InvalidData)
      else if be16_of data 10 AND 2 \<noteq> 0 then Some (Err Unsupported)
      else if be16_of data 50 = 7 then Some (Err InvalidData)
      else dms_tracks data HEADLEN (dms_new, replicate ADF_SIZE 0))"

definition dms_children :: "reader \<Rightarrow> child list io option" where
  "dms_children reader =
     run_then (Some (read_all reader)) (\<lambda>data.
     run_then (decompress_dms data) (\<lambda>decompressed.
     Some (Ok [transformed decompressed])))"

section \<open>What the decompressor keeps\<close>

definition dms_ok :: "dms_state \<Rightarrow> bool" where
  "dms_ok st \<longleftrightarrow> length (window st) = 0x4000 \<and> deep_ready st \<and> heavy_ok st"

lemma dms_new_ok: "dms_ok dms_new"
  by (simp add: dms_ok_def dms_new_def deep_ready_def heavy_ok_def)

lemma dms_reinit_ok: "dms_ok st \<Longrightarrow> dms_ok (dms_reinit st)"
  by (simp add: dms_ok_def dms_reinit_def deep_ready_def heavy_ok_def)

text \<open>The fields that a mode does not touch stay what they are.\<close>

lemma off_deep_heavy:
  assumes "off_deep st' = off_deep st" and "heavy_ok st" shows "heavy_ok st'"
proof -
  have "heavy_ok st' = heavy_ok (off_deep st')" by (simp add: heavy_ok_def)
  then show ?thesis unfolding assms(1) using assms(2) by (simp add: heavy_ok_def)
qed

lemma off_heavy_deep:
  assumes "off_heavy st' = off_heavy st" and "deep_ready st" shows "deep_ready st'"
proof -
  have "deep_ready st' = deep_ready (off_heavy st')" by (simp add: deep_ready_def deep_tree_def)
  then show ?thesis unfolding assms(1) using assms(2) by (simp add: deep_ready_def deep_tree_def)
qed

text \<open>What a step of the unpacking gives: no unwinding, and a state that is ready for the next track.\<close>

definition unpacked_ok :: "(dms_state \<times> 'a) run \<Rightarrow> bool" where
  "unpacked_ok m \<longleftrightarrow> m \<noteq> Some Panic \<and> (\<forall>st' x. m = Some (Ok (st', x)) \<longrightarrow> dms_ok st')"

lemma unpacked_ok_then:
  assumes "unpacked_ok m" and "\<And>st x. dms_ok st \<Longrightarrow> m = Some (Ok (st, x)) \<Longrightarrow> unpacked_ok (f (st, x))"
  shows "unpacked_ok (run_then m f)"
proof (cases "\<exists>st x. m = Some (Ok (st, x))")
  case True
  then show ?thesis using assms by (auto simp: unpacked_ok_def)
next
  case False
  then show ?thesis using assms(1) by (auto simp: unpacked_ok_def run_then_Panic_iff run_then_Ok_iff)
qed

lemma rle_not_Panic: "rle_loop rest out target \<noteq> Panic"
  by (induction rest out target rule: rle_loop.induct) (subst rle_loop.simps, simp split: list.split option.split)

lemma unpack_track_ok:
  assumes "dms_ok st"
  shows "unpacked_ok (unpack_track st b1 b2 pklen2 unpklen cmode flags)"
proof -
  have ok: "length (window st) = 0x4000" "deep_ready st" "heavy_ok st" using assms by (simp_all add: dms_ok_def)
  have rle: "unpacked_ok (Some (and_then (unpack_rle tmp b2 unpklen) (\<lambda>out. Ok (st', out))))" if "dms_ok st'" for st' tmp
    using that rle_not_Panic by (auto simp: unpacked_ok_def unpack_rle_def and_then_Panic_iff and_then_Ok_iff)
  have quick: "unpacked_ok (unpack_quick st b1 pklen2)"
    using unpack_quick_returns [OF ok(1), of b1 pklen2] ok(2,3)
    by (auto simp: unpacked_ok_def dms_ok_def deep_ready_def deep_tree_def heavy_ok_def)
  have medium: "unpacked_ok (unpack_medium st b1 pklen2)"
    using unpack_medium_returns [OF ok(1), of b1 pklen2] ok(2,3)
    by (auto simp: unpacked_ok_def dms_ok_def deep_ready_def deep_tree_def heavy_ok_def)
  have deep: "unpacked_ok (unpack_deep st b1 pklen2)"
  proof -
    obtain st' out where run: "unpack_deep st b1 pklen2 = Some (Ok (st', out))" "length (window st') = 0x4000" "deep_tree st'"
      "off_deep st' = off_deep (st\<lparr>deep_tabs_due := False\<rparr>)"
      using unpack_deep_returns [OF ok(1,2)] by blast
    have "heavy_ok (st\<lparr>deep_tabs_due := False\<rparr>)" using ok(3) by (simp add: heavy_ok_def)
    then have "heavy_ok st'" by (rule off_deep_heavy [OF run(4)])
    then show ?thesis using run deep_tree_ready by (simp add: unpacked_ok_def dms_ok_def)
  qed
  have heavy: "unpacked_ok (unpack_heavy st b1 pklen2 fl)" for fl
    unfolding unpacked_ok_def
  proof (intro conjI allI impI)
    show "unpack_heavy st b1 pklen2 fl \<noteq> Some Panic" by (rule unpack_heavy_safe [OF ok(3,1)])
    fix st' x assume "unpack_heavy st b1 pklen2 fl = Some (Ok (st', x))"
    from unpack_heavy_safe(2) [OF ok(3,1) this] show "dms_ok st'" using off_heavy_deep ok(2) by (simp add: dms_ok_def)
  qed
  have plain: "unpacked_ok (Some (Ok (st', x)))" if "dms_ok st'" for st' and x :: bytes using that by (simp add: unpacked_ok_def)
  show ?thesis
    unfolding unpack_track_def Let_def
    by (rule unpacked_ok_then)
      (auto intro!: unpacked_ok_then [OF quick] unpacked_ok_then [OF medium] unpacked_ok_then [OF deep] unpacked_ok_then [OF heavy]
        rle plain assms dms_reinit_ok simp: unpacked_ok_def [of "Some (Err _)"])
qed

section \<open>The whole archive\<close>

text \<open>What is on the disk behind the last byte that a track can reach.\<close>

definition adf_ok :: "bytes \<Rightarrow> bool" where
  "adf_ok out \<longleftrightarrow> length out = ADF_SIZE \<and> (\<forall>i. 476928 \<le> i \<longrightarrow> i < ADF_SIZE \<longrightarrow> out ! i = 0)"

lemma dms_track_output_ok:
  assumes "tk_number t < 80" and "tk_unpklen t \<le> TRACK_BUFFER_LEN" and "adf_ok out"
  shows "dms_track_output t unpacked out \<noteq> Panic \<and> (\<forall>out'. dms_track_output t unpacked out = Ok out' \<longrightarrow> adf_ok out')"
proof -
  let ?off = "unat (tk_number t) * 11 * 512" and ?len = "min (tk_unpklen t) (length unpacked)"
  have off: "?off + ?len \<le> 476928" using assms(1,2) by (simp add: word_less_nat_alt TRACK_BUFFER_LEN_def)
  then have "?off + length (take ?len unpacked) \<le> length out" using assms(3) by (simp add: adf_ok_def ADF_SIZE_def)
  then have "put_range out ?off (?off + ?len) (take ?len unpacked) = Ok (overwrite out ?off (take ?len unpacked))"
    "adf_ok (overwrite out ?off (take ?len unpacked))"
    using assms(3) off by (auto simp: put_range_def adf_ok_def nth_overwrite)
  then show ?thesis using assms(3) by (auto simp: dms_track_output_def Let_def)
qed

lemma dms_next_track_ok:
  "dms_next_track data pos \<noteq> Panic"
  "dms_next_track data pos = Ok (Some (t, d, pos')) \<Longrightarrow> tk_unpklen t \<le> TRACK_BUFFER_LEN \<and> pos < pos' \<and> pos' \<le> length data"
  by (auto simp: dms_next_track_def Let_def THLEN_def split: if_splits)

lemma dms_unpack_to_ok:
  assumes "dms_ok (fst s)" and "adf_ok (snd s)" and "tk_unpklen t \<le> TRACK_BUFFER_LEN"
  shows "dms_unpack_to t d s \<noteq> Some Panic \<and> (\<forall>s'. dms_unpack_to t d s = Some (Ok s') \<longrightarrow> dms_ok (fst s') \<and> adf_ok (snd s'))"
proof -
  obtain st out where s: "s = (st, out)" by (cases s)
  let ?m = "unpack_track st d [] (tk_pklen2 t) (tk_unpklen t) (tk_cmode t) (tk_flags t)"
  have m: "unpacked_ok ?m" using unpack_track_ok assms(1) s by simp
  show ?thesis
  proof (cases "tk_number t \<ge> 80 \<or> tk_unpklen t \<le> 2048")
    case True
    then show ?thesis using assms s by (simp add: dms_unpack_to_def)
  next
    case False
    then have "tk_number t < 80" by (simp add: not_le)
    from dms_track_output_ok [OF this assms(3)] assms(2) s
    have out: "dms_track_output t unpacked out \<noteq> Panic" "dms_track_output t unpacked out = Ok out' \<Longrightarrow> adf_ok out'" for unpacked out' by auto
    show ?thesis using False m out
      by (auto simp: dms_unpack_to_def s unpacked_ok_def run_then_Panic_iff run_then_Ok_iff and_then_Panic_iff and_then_Ok_iff)
  qed
qed

lemma dms_tracks_safe:
  assumes "dms_tracks data pos s = Some r"
  shows "dms_ok (fst s) \<longrightarrow> adf_ok (snd s) \<longrightarrow> r \<noteq> Panic \<and> (\<forall>out. r = Ok out \<longrightarrow> adf_ok out)"
proof (rule dms_tracks.raw_induct [OF _ assms])
  fix again and data :: bytes and pos and s :: "dms_state \<times> bytes" and r
  assume hyp: "\<And>data pos s r. again data pos s = Some r \<Longrightarrow>
      dms_ok (fst s) \<longrightarrow> adf_ok (snd s) \<longrightarrow> r \<noteq> Panic \<and> (\<forall>out. r = Ok out \<longrightarrow> adf_ok out)"
    and body: "run_then (Some (dms_next_track data pos)) (\<lambda>track. case track of None \<Rightarrow> Some (Ok (snd s))
      | Some r \<Rightarrow> run_then (dms_unpack_to (fst r) (fst (snd r)) s) (again data (snd (snd r)))) = Some r"
  show "dms_ok (fst s) \<longrightarrow> adf_ok (snd s) \<longrightarrow> r \<noteq> Panic \<and> (\<forall>out. r = Ok out \<longrightarrow> adf_ok out)"
  proof (intro impI)
    assume ok: "dms_ok (fst s)" "adf_ok (snd s)"
    show "r \<noteq> Panic \<and> (\<forall>out. r = Ok out \<longrightarrow> adf_ok out)"
    proof (cases "dms_next_track data pos")
      case (Ok track)
      show ?thesis
      proof (cases track)
        case None
        then show ?thesis using body Ok ok(2) by auto
      next
        case (Some x)
        obtain t d pos' where x: "x = (t, d, pos')" by (cases x)
        have step: "dms_unpack_to t d s \<noteq> Some Panic \<and> (\<forall>s'. dms_unpack_to t d s = Some (Ok s') \<longrightarrow> dms_ok (fst s') \<and> adf_ok (snd s'))"
        proof (rule dms_unpack_to_ok [OF ok])
          show "tk_unpklen t \<le> TRACK_BUFFER_LEN" using dms_next_track_ok(2) [of data pos t d pos'] Ok Some x by simp
        qed
        have run: "run_then (dms_unpack_to t d s) (again data pos') = Some r" using body Ok Some x by simp
        show ?thesis
        proof (cases "\<exists>s'. dms_unpack_to t d s = Some (Ok s')")
          case True
          then obtain s' where s': "dms_unpack_to t d s = Some (Ok s')" by blast
          with run have "again data pos' s' = Some r" by simp
          from hyp [OF this] show ?thesis using step s' by blast
        next
          case False
          then show ?thesis using run step by (auto simp: run_then_Panic_iff run_then_Ok_iff)
        qed
      qed
    next
      case (Err e)
      then show ?thesis using body by auto
    next
      case Panic
      then show ?thesis using dms_next_track_ok(1) by simp
    qed
  qed
qed

lemma adf_start: "adf_ok (replicate ADF_SIZE 0)"
  by (simp add: adf_ok_def)

lemma decompress_dms_safe:
  assumes "decompress_dms data = Some r"
  shows "r \<noteq> Panic \<and> (\<forall>out. r = Ok out \<longrightarrow> adf_ok out)"
  using assms dms_tracks_safe [of data HEADLEN "(dms_new, replicate ADF_SIZE 0)" r] dms_new_ok adf_start
  by (auto simp: decompress_dms_def split: if_splits)

text \<open>When no track is in one of the modes \<^verbatim>\<open>Heavy\<close>, the decompressor returns.\<close>

lemma run_then_returns:
  assumes "m \<noteq> None" and "\<And>x. f x \<noteq> None" shows "run_then m f \<noteq> None"
proof -
  from assms(1) obtain v where "m = Some v" by blast
  then show ?thesis using assms(2) by (cases v) simp_all
qed

lemma unpack_track_returns:
  assumes "dms_ok st" and "cmode \<noteq> 5" and "cmode \<noteq> 6"
  shows "unpack_track st b1 b2 pklen2 unpklen cmode flags \<noteq> None"
proof -
  have ok: "length (window st) = 0x4000" "deep_ready st" using assms(1) by (simp_all add: dms_ok_def)
  have quick: "unpack_quick st b1 pklen2 \<noteq> None" and medium: "unpack_medium st b1 pklen2 \<noteq> None"
    and deep: "unpack_deep st b1 pklen2 \<noteq> None"
    using unpack_quick_returns [OF ok(1), of b1 pklen2] unpack_medium_returns [OF ok(1), of b1 pklen2]
      unpack_deep_returns [OF ok, of b1 pklen2] by auto
  show ?thesis
    unfolding unpack_track_def Let_def
  proof (rule run_then_returns, goal_cases)
    case 1
    show ?case using assms(2,3)
      by (auto simp del: not_None_eq intro!: run_then_returns [OF quick] run_then_returns [OF medium] run_then_returns [OF deep])
  qed (simp split: prod.split)
qed

function track_list :: "bytes \<Rightarrow> nat \<Rightarrow> dms_track list" where
  "track_list data pos =
     (case dms_next_track data pos of
       Ok (Some r) \<Rightarrow> fst r # track_list data (snd (snd r))
     | _ \<Rightarrow> [])"
  by pat_completeness auto
termination
proof (relation "measure (\<lambda>(data, pos). length data - pos)", simp, goal_cases)
  case (1 data pos x r)
  then show ?case using dms_next_track_ok(2) [of data pos "fst r" "fst (snd r)" "snd (snd r)"] by fastforce
qed

declare track_list.simps [simp del]

definition no_heavy :: "bytes \<Rightarrow> bool" where
  "no_heavy data \<longleftrightarrow> (\<forall>t\<in>set (track_list data HEADLEN). tk_cmode t \<noteq> 5 \<and> tk_cmode t \<noteq> 6)"

lemma dms_tracks_return:
  assumes "\<forall>t\<in>set (track_list data pos). tk_cmode t \<noteq> 5 \<and> tk_cmode t \<noteq> 6" and "dms_ok (fst s)" and "adf_ok (snd s)"
  shows "dms_tracks data pos s \<noteq> None"
  using assms
proof (induction "length data - pos" arbitrary: pos s rule: less_induct)
  case less
  show ?case
  proof (cases "dms_next_track data pos")
    case (Ok track)
    show ?thesis
    proof (cases track)
      case None
      then show ?thesis using Ok by (subst dms_tracks.simps) simp
    next
      case (Some x)
      obtain t d pos' where x: "x = (t, d, pos')" by (cases x)
      have next_track: "dms_next_track data pos = Ok (Some (t, d, pos'))" using Ok Some x by simp
      note T = dms_next_track_ok(2) [OF next_track]
      have here: "track_list data pos = t # track_list data pos'" using next_track by (subst track_list.simps) simp
      have mode: "tk_cmode t \<noteq> 5" "tk_cmode t \<noteq> 6"
        and later: "\<forall>t\<in>set (track_list data pos'). tk_cmode t \<noteq> 5 \<and> tk_cmode t \<noteq> 6"
        using less.prems(1) by (simp_all add: here)
      obtain st out where s: "s = (st, out)" by (cases s)
      have ran: "dms_unpack_to t d s \<noteq> None"
      proof (cases "tk_number t \<ge> 80 \<or> tk_unpklen t \<le> 2048")
        case True
        then show ?thesis by (simp add: dms_unpack_to_def s)
      next
        case False
        obtain r where "unpack_track st d [] (tk_pklen2 t) (tk_unpklen t) (tk_cmode t) (tk_flags t) = Some r"
          using unpack_track_returns [OF _ mode] less.prems(2) s by fastforce
        then show ?thesis using False by (cases r) (auto simp: dms_unpack_to_def s split: prod.split)
      qed
      have less_pos: "length data - pos' < length data - pos" using T by linarith
      show ?thesis
      proof (cases "\<exists>s'. dms_unpack_to t d s = Some (Ok s')")
        case True
        then obtain s' where s': "dms_unpack_to t d s = Some (Ok s')" by blast
        then have "dms_ok (fst s')" "adf_ok (snd s')" using dms_unpack_to_ok [OF less.prems(2,3)] T by blast+
        from less.hyps [OF less_pos later this] show ?thesis using Ok Some x s' by (subst dms_tracks.simps) simp
      next
        case False
        then obtain e where "dms_unpack_to t d s = Some (Err e) \<or> dms_unpack_to t d s = Some Panic"
          using ran by (cases "the (dms_unpack_to t d s)") auto
        then show ?thesis using Ok Some x by (subst dms_tracks.simps) auto
      qed
    qed
  next
    case (Err e)
    then show ?thesis by (subst dms_tracks.simps) simp
  next
    case Panic
    then show ?thesis by (subst dms_tracks.simps) simp
  qed
qed

section \<open>Archives of stored tracks\<close>

definition be16_bytes :: "u16 \<Rightarrow> bytes" where
  "be16_bytes w = [ucast (drop_bit 8 w), ucast w]"

lemma be16_of_bytes: "be16_of [ucast (drop_bit 8 w), ucast (w :: u16)] 0 = w"
  unfolding be16_of_def by (rule bit_word_eqI) (auto simp: bit_simps)

lemma be16_of_nth: "d ! i = ucast (drop_bit 8 w) \<Longrightarrow> d ! Suc i = ucast (w :: u16) \<Longrightarrow> be16_of d i = w"
  using be16_of_bytes [of w] by (simp add: be16_of_def)

text \<open>The first 18 bytes of a track header, and a track with its header.\<close>

definition track_header :: "dms_track \<Rightarrow> bytes" where
  "track_header t =
     ascii ''TR'' @ be16_bytes (tk_number t) @ [0, 0] @ be16_bytes (of_nat (tk_pklen1 t)) @ be16_bytes (of_nat (tk_pklen2 t)) @
     be16_bytes (of_nat (tk_unpklen t)) @ [tk_flags t, tk_cmode t] @ be16_bytes (tk_usum t) @ be16_bytes (tk_dcrc t)"

definition packed_track :: "dms_track \<Rightarrow> bytes \<Rightarrow> bytes" where
  "packed_track t d = track_header t @ be16_bytes (crc16 (track_header t)) @ d"

text \<open>The header of the bytes \<open>d\<close>, stored without compression as the track number \<open>n\<close>.\<close>

definition stored_of :: "nat \<Rightarrow> bytes \<Rightarrow> dms_track" where
  "stored_of n d =
     \<lparr>tk_number = of_nat n, tk_pklen1 = length d, tk_pklen2 = length d, tk_unpklen = length d, tk_flags = 0, tk_cmode = 0,
      tk_usum = dms_checksum d, tk_dcrc = crc16 d\<rparr>"

fun stored_tracks :: "nat \<Rightarrow> bytes list \<Rightarrow> bytes" where
  "stored_tracks n [] = []"
| "stored_tracks n (t # ts) = packed_track (stored_of n t) t @ stored_tracks (Suc n) ts"

definition stored_archive :: "bytes list \<Rightarrow> bytes" where
  "stored_archive ts = ascii ''DMS!'' @ replicate 52 0 @ stored_tracks 0 ts"

lemma length_track_header: "length (track_header t) = 18"
  by (simp add: track_header_def be16_bytes_def ascii_def)

lemma length_packed_track: "length (packed_track t d) = 20 + length d"
  by (simp add: packed_track_def length_track_header be16_bytes_def)

lemma next_packed_track:
  assumes "tk_pklen1 t = length d" and "tk_dcrc t = crc16 d"
    and "length d \<le> TRACK_BUFFER_LEN" and "tk_pklen2 t \<le> TRACK_BUFFER_LEN" and "tk_unpklen t \<le> TRACK_BUFFER_LEN"
  shows "dms_next_track (pre @ packed_track t d @ post) (length pre) = Ok (Some (t, d, length pre + 20 + length d))"
proof -
  let ?h = "track_header t" and ?d = "pre @ packed_track t d @ post"
  have len: "tk_pklen1 t < 65536" "tk_pklen2 t < 65536" "tk_unpklen t < 65536" using assms by (simp_all add: TRACK_BUFFER_LEN_def)
  have th: "take THLEN (drop (length pre) ?d) = ?h @ be16_bytes (crc16 ?h)"
    by (simp add: packed_track_def THLEN_def length_track_header be16_bytes_def)
  have td: "take (length d) (drop (length pre + THLEN) ?d) = d"
    by (simp add: packed_track_def THLEN_def length_track_header be16_bytes_def)
  have crc: "take (THLEN - 2) (?h @ be16_bytes (crc16 ?h)) = ?h" "be16_of (?h @ be16_bytes (crc16 ?h)) (THLEN - 2) = crc16 ?h"
    by (simp_all add: THLEN_def length_track_header)
      (rule be16_of_nth, simp_all add: be16_bytes_def nth_append length_track_header)
  have magic: "(?h @ be16_bytes (crc16 ?h)) ! 0 = of_char (CHR ''T'')" "(?h @ be16_bytes (crc16 ?h)) ! 1 = of_char (CHR ''R'')"
    by (simp_all add: track_header_def ascii_def)
  have field: "dms_track_of (?h @ be16_bytes (crc16 ?h)) = t"
    using len unfolding dms_track_of_def track_header_def be16_bytes_def ascii_def
    by (simp add: be16_of_nth [of _ 2 "tk_number t"] be16_of_nth [of _ 6 "of_nat (tk_pklen1 t)"] be16_of_nth [of _ 8 "of_nat (tk_pklen2 t)"]
        be16_of_nth [of _ 10 "of_nat (tk_unpklen t)"] be16_of_nth [of _ 14 "tk_usum t"] be16_of_nth [of _ 16 "tk_dcrc t"] unat_of_nat)
  have fits: "length pre + THLEN + length d \<le> length ?d"
    by (simp add: length_packed_track THLEN_def)
  show ?thesis
    unfolding dms_next_track_def Let_def th crc magic field assms(1) using fits assms td by (simp add: THLEN_def)
qed

lemma next_stored_track:
  assumes "length d \<le> TRACK_BUFFER_LEN"
  shows "dms_next_track (pre @ packed_track (stored_of n d) d @ post) (length pre) = Ok (Some (stored_of n d, d, length pre + 20 + length d))"
  by (rule next_packed_track) (simp_all add: stored_of_def assms)

fun placed :: "nat \<Rightarrow> bytes list \<Rightarrow> bytes \<Rightarrow> bytes" where
  "placed n [] out = out"
| "placed n (t # ts) out = placed (Suc n) ts (overwrite out (n * 5632) t)"

lemma stored_tracks_read:
  assumes "n + length ts \<le> 80" and "\<forall>t\<in>set ts. length t = 11264" and "length out = ADF_SIZE"
  shows "dms_tracks (pre @ stored_tracks n ts) (length pre) (st, out) = Some (Ok (placed n ts out))"
  using assms
proof (induction ts arbitrary: n out pre st)
  case Nil
  then show ?case by (subst dms_tracks.simps) (simp add: dms_next_track_def THLEN_def)
next
  case (Cons t ts)
  have t: "length t = 11264" and n: "n < 80" using Cons.prems by simp_all
  have n16: "unat (of_nat n :: u16) = n" using n by (simp add: unat_of_nat)
  have small: "\<not> (of_nat n :: u16) \<ge> 80" using n n16 by (simp add: word_le_nat_alt)
  have out: "length (overwrite out (n * 5632) t) = ADF_SIZE" using n t Cons.prems(3) by (simp add: ADF_SIZE_def)
  have "dms_next_track (pre @ stored_tracks n (t # ts)) (length pre) = Ok (Some (stored_of n t, t, length pre + 20 + length t))"
    using next_stored_track [of t pre n "stored_tracks (Suc n) ts"] t by (simp add: TRACK_BUFFER_LEN_def)
  then have "dms_tracks (pre @ stored_tracks n (t # ts)) (length pre) (st, out) =
      dms_tracks (pre @ stored_tracks n (t # ts)) (length pre + 20 + length t) (dms_reinit st, overwrite out (n * 5632) t)"
    using t n n16 small Cons.prems(3)
    by (subst dms_tracks.simps)
      (simp add: dms_unpack_to_def unpack_track_def dms_track_output_def put_range_def ADF_SIZE_def mult.commute stored_of_def)
  also have "\<dots> = dms_tracks ((pre @ packed_track (stored_of n t) t) @ stored_tracks (Suc n) ts) (length (pre @ packed_track (stored_of n t) t))
      (dms_reinit st, overwrite out (n * 5632) t)"
    by (simp add: length_packed_track add.assoc)
  also have "\<dots> = Some (Ok (placed (Suc n) ts (overwrite out (n * 5632) t)))"
    using Cons.prems out by (intro Cons.IH) simp_all
  finally show ?case by simp
qed

text \<open>The first half of each track, and the last track to its end.\<close>

definition first_halves :: "bytes list \<Rightarrow> bytes" where
  "first_halves ts = concat (map (take 5632) ts) @ (if ts = [] then [] else drop 5632 (last ts))"

lemma placed_eq:
  assumes "\<forall>t\<in>set ts. length t = 11264" and "length a = n * 5632" and "length (first_halves ts) \<le> length rest"
  shows "placed n ts (a @ rest) = a @ first_halves ts @ drop (length (first_halves ts)) rest"
  using assms
proof (induction ts arbitrary: n a rest)
  case Nil
  then show ?case by (simp add: first_halves_def)
next
  case (Cons t ts)
  have t: "length t = 11264" using Cons.prems(1) by simp
  have over: "overwrite (a @ rest) (n * 5632) t = (a @ take 5632 t) @ (drop 5632 t @ drop 11264 rest)"
    using Cons.prems(2) t by (simp add: overwrite_def)
  have len: "length (first_halves us) = (if us = [] then 0 else length us * 5632 + 5632)" if "\<forall>t\<in>set us. length t = 11264" for us :: "bytes list"
  proof -
    have "length (concat (map (take 5632) us)) = length us * 5632" using that by (induction us) simp_all
    then show ?thesis using that last_in_set [of us] by (auto simp: first_halves_def)
  qed
  show ?case
  proof (cases "ts = []")
    case True
    then show ?thesis using t over Cons.prems by (simp add: first_halves_def)
  next
    case False
    have fit: "length (first_halves ts) \<le> length (drop 5632 t @ drop 11264 rest)" "5632 \<le> length (first_halves ts)"
      using Cons.prems len [of "t # ts"] len [of ts] False t by auto
    have "placed (Suc n) ts ((a @ take 5632 t) @ (drop 5632 t @ drop 11264 rest)) =
        (a @ take 5632 t) @ first_halves ts @ drop (length (first_halves ts)) (drop 5632 t @ drop 11264 rest)"
      using Cons.prems(1,2) t by (intro Cons.IH fit(1)) simp_all
    then show ?thesis using over False t fit(2) len [of ts] len [of "t # ts"] Cons.prems(1)
      by (simp add: first_halves_def add.commute)
  qed
qed

lemma crc16_zeros: "crc16 (replicate n 0) = 0"
proof -
  have "foldl crc16_byte 0 (replicate n 0) = 0" by (induction n) (simp_all add: crc16_byte_def CRC_TABLE_def)
  then show ?thesis by (simp add: crc16_def)
qed

lemma header_stored: "decompress_dms (ascii ''DMS!'' @ replicate 52 0 @ rest) =
    dms_tracks (ascii ''DMS!'' @ replicate 52 0 @ rest) HEADLEN (dms_new, replicate ADF_SIZE 0)"
proof -
  let ?d = "ascii ''DMS!'' @ replicate 52 0 @ rest"
  have four: "length (ascii ''DMS!'') = 4" by (simp add: ascii_def)
  have byte: "?d ! i = 0" if "4 \<le> i" "i < 56" for i
  proof -
    have less: "i - 4 < 52" using that by linarith
    have "?d ! i = (replicate 52 0 @ rest) ! (i - 4)" using that by (subst nth_append) (simp only: four leD if_False)
    also have "\<dots> = 0" by (simp only: nth_append length_replicate less if_True nth_replicate)
    finally show ?thesis .
  qed
  have zero: "be16_of ?d i = 0" if "4 \<le> i" "i < 55" for i
    using that byte [of i] byte [of "i + 1"] by (simp add: be16_of_def)
  have "take (HEADLEN - 6) (drop 4 ?d) = replicate 50 0" by (simp add: HEADLEN_def four)
  then have crc: "crc16 (take (HEADLEN - 6) (drop 4 ?d)) = be16_of ?d (HEADLEN - 2)"
    using zero [of "HEADLEN - 2"] by (simp only: crc16_zeros) (simp add: HEADLEN_def)
  have "take 4 ?d = ascii ''DMS!''" "\<not> length ?d < HEADLEN" by (simp_all add: four HEADLEN_def)
  moreover have flags: "be16_of ?d 10 = 0" "be16_of ?d 50 = 0" by (rule zero; simp)+
  ultimately show ?thesis unfolding decompress_dms_def crc flags by simp
qed

lemma stored_archive_read:
  assumes "length ts \<le> 80" and "\<forall>t\<in>set ts. length t = 11264"
  shows "decompress_dms (stored_archive ts) = Some (Ok (placed 0 ts (replicate ADF_SIZE 0)))"
proof -
  have head: "length (ascii ''DMS!'' @ replicate 52 0) = HEADLEN" by (simp add: ascii_def HEADLEN_def)
  have "decompress_dms (stored_archive ts) = dms_tracks ((ascii ''DMS!'' @ replicate 52 0) @ stored_tracks 0 ts)
      (length (ascii ''DMS!'' @ replicate 52 (0 :: u8))) (dms_new, replicate ADF_SIZE 0)"
    unfolding stored_archive_def header_stored head by simp
  also have "\<dots> = Some (Ok (placed 0 ts (replicate ADF_SIZE 0)))"
    by (rule stored_tracks_read) (use assms in simp_all)
  finally show ?thesis .
qed

text \<open>
  C36. An archive of whole tracks of 11264 bytes, stored in their order, is not unpacked to its
  tracks: each one is put 5632 bytes behind the one before, so that only the first half of a track,
  the last one excepted, is left on the disk, and the rest of the disk is zero.
\<close>

theorem dms_tracks_overlap:
  assumes "ts \<noteq> []" and "length ts \<le> 80" and "\<forall>t\<in>set ts. length t = 11264"
  shows "decompress_dms (stored_archive ts) =
    Some (Ok (concat (map (take 5632) ts) @ drop 5632 (last ts) @ replicate (ADF_SIZE - (length ts + 1) * 5632) 0))"
proof -
  have "length (concat (map (take 5632) ts)) = length ts * 5632" using assms(3) by (induction ts) simp_all
  then have len: "length (first_halves ts) = (length ts + 1) * 5632" using assms by (simp add: first_halves_def)
  note stored_archive_read [OF assms(2,3)]
  also have "placed 0 ts (replicate ADF_SIZE 0) = first_halves ts @ drop (length (first_halves ts)) (replicate ADF_SIZE 0)"
    using placed_eq [OF assms(3), of "[]" 0 "replicate ADF_SIZE 0"] assms(2) len by (simp add: ADF_SIZE_def)
  finally show ?thesis using assms(1) len by (simp add: first_halves_def)
qed

lemma dms_tracks_overlap_witness:
  "decompress_dms (stored_archive [replicate 11264 1, replicate 11264 2]) =
    Some (Ok (replicate 5632 1 @ replicate 11264 2 @ replicate (ADF_SIZE - 16896) 0))"
  using dms_tracks_overlap [of "[replicate 11264 1, replicate 11264 2]"] by (simp add: replicate_add [symmetric])

text \<open>
  Whatever the archive holds, the disk has 901120 bytes and all its bytes from 476928 on are
  zero: no track reaches them.
\<close>

theorem dms_second_half_zero:
  assumes "decompress_dms data = Some (Ok out)"
  shows "length out = ADF_SIZE \<and> (\<forall>i. 476928 \<le> i \<longrightarrow> i < ADF_SIZE \<longrightarrow> out ! i = 0)"
  using decompress_dms_safe [OF assms] by (simp add: adf_ok_def)

lemma dms_second_half_zero_witness:
  "\<exists>out. decompress_dms (stored_archive [replicate 11264 1]) = Some (Ok out) \<and>
     length out = ADF_SIZE \<and> (\<forall>i. 476928 \<le> i \<longrightarrow> i < ADF_SIZE \<longrightarrow> out ! i = 0)"
proof (intro exI conjI)
  show run: "decompress_dms (stored_archive [replicate 11264 1]) = Some (Ok (placed 0 [replicate 11264 1] (replicate ADF_SIZE 0)))"
    by (rule stored_archive_read) simp_all
  from dms_second_half_zero [OF run]
  show "length (placed 0 [replicate 11264 1] (replicate ADF_SIZE (0 :: u8))) = ADF_SIZE"
    and "\<forall>i. 476928 \<le> i \<longrightarrow> i < ADF_SIZE \<longrightarrow> placed 0 [replicate 11264 1] (replicate ADF_SIZE (0 :: u8)) ! i = 0"
    by blast+
qed

text \<open>
  C31. Detecting a DMS archive never unwinds, whatever its bytes: the tables of every mode stay in
  their bounds, and where there are too few bytes or a length is wrong the result is an error.
\<close>

theorem dms_never_unwinds:
  assumes "safe_reader r" shows "dms_children r \<noteq> Some Panic"
  using safe_reader.read_all_not_Panic [OF assms] decompress_dms_safe
  by (fastforce simp: dms_children_def run_then_Panic_iff)

lemma dms_never_unwinds_witness: "dms_children (bytes_reader (ascii ''DMS!'')) \<noteq> Some Panic"
  by (rule dms_never_unwinds) (rule bytes.safe_reader_axioms)

text \<open>
  C34. The decompressor returns on every archive that has no track in one of the two modes Heavy;
  the adaptive tree of the mode Deep ends every search.
\<close>

theorem dms_returns:
  assumes "no_heavy data" shows "decompress_dms data \<noteq> None"
  using dms_tracks_return [of data HEADLEN "(dms_new, replicate ADF_SIZE 0)"] dms_new_ok adf_start assms
  by (auto simp: decompress_dms_def no_heavy_def)

lemma dms_returns_witness: "decompress_dms (stored_archive [replicate 11264 1]) \<noteq> None"
proof (rule dms_returns)
  let ?pre = "ascii ''DMS!'' @ replicate 52 (0 :: u8)" and ?t = "replicate 11264 (1 :: u8)"
  have data: "stored_archive [?t] = ?pre @ packed_track (stored_of 0 ?t) ?t @ []" by (simp add: stored_archive_def)
  have pre: "length ?pre = HEADLEN" by (simp add: ascii_def HEADLEN_def)
  have len: "length (stored_archive [?t]) = HEADLEN + 20 + 11264"
    unfolding data by (simp add: length_packed_track ascii_def HEADLEN_def)
  have "dms_next_track (stored_archive [?t]) HEADLEN = Ok (Some (stored_of 0 ?t, ?t, HEADLEN + 20 + length ?t))"
    unfolding data pre [symmetric] by (rule next_stored_track) (simp add: TRACK_BUFFER_LEN_def)
  moreover have "dms_next_track (stored_archive [?t]) (HEADLEN + 20 + length ?t) = Ok None"
    unfolding dms_next_track_def len by (simp add: THLEN_def)
  ultimately show "no_heavy (stored_archive [?t])"
    unfolding no_heavy_def by (subst track_list.simps, subst track_list.simps) (simp add: stored_of_def)
qed

section \<open>Packed tracks\<close>

text \<open>
  The three modes with a window as the archiver writes them: the history that the window of the
  state stands for, the codes that a mode has, and their bits. A track in these modes is packed
  twice, first by its runs.
\<close>

definition track_history :: "u8 \<Rightarrow> dms_state \<Rightarrow> bytes" where
  "track_history cmode st =
     (if cmode = 2 then window_bytes 8 (window st) (quick_text_loc st)
      else if cmode = 3 then window_bytes 14 (window st) (medium_text_loc st)
      else window_bytes 14 (window st) (deep_text_loc st))"

definition track_valid :: "u8 \<Rightarrow> lz_token \<Rightarrow> bool" where
  "track_valid cmode = (if cmode = 2 then quick_valid else if cmode = 3 then medium_valid else deep_valid)"

definition deep_start :: "dms_state \<Rightarrow> dms_state" where
  "deep_start st = (if deep_tabs_due st then (case init_deep_tabs st of Ok e \<Rightarrow> e | _ \<Rightarrow> st) else st)"

definition track_bits :: "u8 \<Rightarrow> dms_state \<Rightarrow> lz_token list \<Rightarrow> bool list" where
  "track_bits cmode st ts =
     (if cmode = 2 then concat (map quick_code ts) else if cmode = 3 then concat (map medium_code ts)
      else lz_codes deep_code deep_advance (deep_start st) ts)"

lemma deep_start_ok:
  assumes "dms_ok st"
  shows "(if deep_tabs_due st then init_deep_tabs st else Ok st) = Ok (deep_start st)" "deep_tree (deep_start st)"
    "window (deep_start st) = window st" "deep_text_loc (deep_start st) = deep_text_loc st"
proof -
  have "deep_ready st" using assms by (simp add: dms_ok_def)
  then obtain e where e: "(if deep_tabs_due st then init_deep_tabs st else Ok st) = Ok e" "deep_tree e"
    "off_tree e = off_tree (st\<lparr>deep_tabs_due := False\<rparr>)"
    using init_deep_tabs_ok [of st] by (cases "deep_tabs_due st") (auto simp: deep_ready_def)
  then have "deep_start st = e" by (auto simp: deep_start_def)
  moreover have "window e = window st" "deep_text_loc e = deep_text_loc st"
    using arg_cong [OF e(3), of window] arg_cong [OF e(3), of deep_text_loc] by simp_all
  ultimately show "(if deep_tabs_due st then init_deep_tabs st else Ok st) = Ok (deep_start st)" "deep_tree (deep_start st)"
    "window (deep_start st) = window st" "deep_text_loc (deep_start st) = deep_text_loc st"
    using e(1,2) by simp_all
qed

lemma window_mode_writes:
  assumes "dms_ok st" and "\<forall>t\<in>set ts. track_valid cmode t"
  defines "plain \<equiv> lz_plain (track_history cmode st) ts" and "packed \<equiv> pack_bits (track_bits cmode st ts)"
  shows "cmode = 2 \<Longrightarrow> \<exists>st'. unpack_quick st (packed @ rest) (length plain) = Some (Ok (st', plain))"
    and "cmode = 3 \<Longrightarrow> \<exists>st'. unpack_medium st (packed @ rest) (length plain) = Some (Ok (st', plain))"
    and "cmode = 4 \<Longrightarrow> \<exists>st'. unpack_deep st (packed @ rest) (length plain) = Some (Ok (st', plain))"
proof -
  have win: "length (window st) = 0x4000" using assms(1) by (simp add: dms_ok_def)
  note start = deep_start_ok [OF assms(1)]
  show "\<exists>st'. unpack_quick st (packed @ rest) (length plain) = Some (Ok (st', plain))" if "cmode = 2"
    using unpack_quick_writes [OF win, of ts rest] assms(2) that by (simp add: packed_def plain_def track_bits_def track_history_def track_valid_def)
  show "\<exists>st'. unpack_medium st (packed @ rest) (length plain) = Some (Ok (st', plain))" if "cmode = 3"
    using unpack_medium_writes [OF win, of ts rest] assms(2) that by (simp add: packed_def plain_def track_bits_def track_history_def track_valid_def)
  show "\<exists>st'. unpack_deep st (packed @ rest) (length plain) = Some (Ok (st', plain))" if "cmode = 4"
    using unpack_deep_writes [OF win _ start, of ts rest] assms(2) that
    by (simp add: packed_def plain_def track_bits_def track_history_def track_valid_def)
qed

text \<open>
  C32. A track that is packed by its runs and then in one of the modes Quick, Medium and Deep
  is unpacked to what was packed: for every state that the tracks before it have left, every list of
  literals and copies that the mode can write, copies that overlap themselves or reach into the
  bytes of earlier tracks included, and whatever is behind the last bit.
\<close>

theorem packed_track_roundtrip:
  assumes "dms_ok st" and "cmode = 2 \<or> cmode = 3 \<or> cmode = 4" and "\<forall>t\<in>set ts. track_valid cmode t"
    and "\<forall>(n, c)\<in>set runs. 0 < n \<and> n < 65536" and "lz_plain (track_history cmode st) ts = concat (map rle_write runs)"
  shows "\<exists>st'. unpack_track st (pack_bits (track_bits cmode st ts) @ rest) [] (length (concat (map rle_write runs)))
      (length (rle_plain runs)) cmode flags = Some (Ok (st', rle_plain runs)) \<and> dms_ok st'"
proof -
  let ?data = "pack_bits (track_bits cmode st ts) @ rest" and ?n = "length (concat (map rle_write runs))"
  have rle: "unpack_rle (concat (map rle_write runs)) [] (length (rle_plain runs)) = Ok (rle_plain runs)"
    using rle_loop_writes [OF assms(4), of "[]" "[]"] by (simp add: unpack_rle_def)
  note writes = window_mode_writes [OF assms(1,3), of rest, unfolded assms(5)]
  have "\<exists>st'. unpack_track st ?data [] ?n (length (rle_plain runs)) cmode flags = Some (Ok (st', rle_plain runs))"
    using assms(2) writes rle unfolding unpack_track_def Let_def by auto
  then obtain st' where run: "unpack_track st ?data [] ?n (length (rle_plain runs)) cmode flags = Some (Ok (st', rle_plain runs))" by blast
  with unpack_track_ok [OF assms(1), of ?data "[]" ?n "length (rle_plain runs)" cmode flags] show ?thesis by (simp add: unpacked_ok_def)
qed

lemma packed_track_roundtrip_witness:
  "\<exists>st'. unpack_track dms_new (pack_bits (track_bits 4 dms_new [Literal 7, Copy 3 0, Literal 0x90, Literal 0]) @ [1]) [] 6 5 4 0 =
     Some (Ok (st', [7, 7, 7, 7, 0x90])) \<and> dms_ok st'"
proof -
  let ?ts = "[Literal 7, Copy 3 0, Literal 0x90, Literal 0]" and ?runs = "[(1, 7), (1, 7), (1, 7), (1, 7), (1, 0x90)] :: (nat \<times> u8) list"
  have runs: "concat (map rle_write ?runs) = [7, 7, 7, 7, 0x90, 0]" "rle_plain ?runs = [7, 7, 7, 7, 0x90]"
    by (simp_all add: rle_write_def rle_plain_def)
  have len: "length [7, 7, 7, 7, 0x90, 0 :: u8] = 6" "length [7, 7, 7, 7, 0x90 :: u8] = 5" by simp_all
  have plain: "lz_plain (track_history 4 dms_new) ?ts = concat (map rle_write ?runs)"
    unfolding runs by (simp add: numeral_3_eq_3 Let_def nth_append)
  have "\<forall>t\<in>set ?ts. track_valid 4 t" by (simp add: track_valid_def deep_valid_def)
  from packed_track_roundtrip [OF dms_new_ok _ this _ plain, of "[1]" 0, unfolded runs len] show ?thesis by simp
qed

end
