(* ===== verification/Registry.thy ===== *)
theory Registry
  imports Detect Pt_Labels Pt_Mbr Pt_Chains Pt_Text Pt_Aix Pt_Ubi Pt_Acorn Disk_Flat Disk_Scl Disk_Apridisk
    Disk_Blocks Disk_Qcow Disk_Chunks Disk_Ewf Disk_Tracks Disk_Vmdk Disk_Dmg Disk_Dms
begin

text \<open>
  The registry of \<^verbatim>\<open>container/mod.rs\<close>: the container of a format name. The decoder crates that
  the containers use are the fields of \<open>decoders\<close>. The containers of \<^verbatim>\<open>dms.rs\<close>, \<^verbatim>\<open>nrg.rs\<close> and
  \<^verbatim>\<open>dmg.rs\<close> have loops that may not end, so that a container gives an option here.
\<close>

section \<open>The registry\<close>

record decoders =
  bz_decoder :: pull_decoder
  gz_decoder :: pull_decoder
  lz4_decoder :: pull_decoder
  zstd_decoder :: "bytes \<Rightarrow> error_kind + (bytes \<times> error_kind option)"
  lzma_decoder :: push_decoder
  xz_decoder :: push_decoder
  lzw_decoder :: "u8 \<Rightarrow> push_decoder"
  zlib_decoder :: pull_decoder
  inflate_decoder :: pull_decoder
  dmg_crates :: dmg_decoders

definition returning :: "container \<Rightarrow> reader \<Rightarrow> child list run" where
  "returning c r = Some (c r)"

definition get_container :: "decoders \<Rightarrow> string \<Rightarrow> (reader \<Rightarrow> child list run) option" where
  "get_container dec = map_of
     [(''arc/bzip2'', returning (bzip2_children (bz_decoder dec))),
      (''arc/compress'', returning (compress_children (lzw_decoder dec))),
      (''arc/gzip'', returning (gzip_children (gz_decoder dec))),
      (''arc/lz4'', returning (lz4_children (lz4_decoder dec))),
      (''arc/lzma'', returning (lzma_children (lzma_decoder dec))),
      (''arc/xz'', returning (xz_children (xz_decoder dec))),
      (''arc/zstd'', returning (zstd_children (zstd_decoder dec))),
      (''disk/apridisk'', returning apridisk_children),
      (''disk/atr'', returning atr_children),
      (''disk/bochs'', returning bochs_children),
      (''disk/cdi'', returning cdi_children),
      (''disk/cloop'', returning (cloop_children (zlib_decoder dec))),
      (''disk/dms'', dms_children),
      (''disk/nrg'', nrg_children),
      (''disk/dmg'', dmg_children (dmg_crates dec)),
      (''disk/ewf'', returning (ewf_children (zlib_decoder dec))),
      (''disk/parallels'', returning parallels_children),
      (''disk/qcow'', returning (qcow_children (inflate_decoder dec))),
      (''disk/qcow2'', returning (qcow2_children (inflate_decoder dec))),
      (''disk/qed'', returning qed_children),
      (''disk/2img'', returning twoimg_children),
      (''disk/scl'', returning scl_children),
      (''disk/vdi'', returning vdi_children),
      (''disk/vhd'', returning vhd_children),
      (''disk/vhdx'', returning vhdx_children),
      (''disk/vmdk'', returning (vmdk_children (inflate_decoder dec))),
      (''pt/acorn/adfs'', returning adfs_children),
      (''pt/acorn/cumana'', returning cumana_children),
      (''pt/acorn/eesox'', returning eesox_children),
      (''pt/acorn/ics'', returning ics_children),
      (''pt/acorn/powertec'', returning powertec_children),
      (''pt/aix'', returning aix_children),
      (''pt/apm'', returning apm_children),
      (''pt/karma'', returning karma_children),
      (''pt/atari'', returning atari_children),
      (''pt/dasd'', returning dasd_children),
      (''pt/disklabel'', returning disklabel_children),
      (''pt/gpt'', returning gpt_children),
      (''pt/mbr'', returning mbr_children),
      (''pt/plan9'', returning plan9_children),
      (''pt/rdb'', returning rdb_children),
      (''pt/pc98'', returning pc98_children),
      (''pt/sgi'', returning sgi_children),
      (''pt/solaris-x86-vtoc'', returning solaris_x86_vtoc_children),
      (''pt/sun-sparc'', returning sun_sparc_children),
      (''pt/sysv68'', returning sysv68_children),
      (''pt/ubi'', returning ubi_children),
      (''pt/ultrix'', returning ultrix_children)]"

text \<open>
  The registry that the detection uses. A container that does not return is counted as an
  unwinding, so that a detection that gives \<open>Ok\<close> has returned.
\<close>

definition crate_registry :: "decoders \<Rightarrow> registry" where
  "crate_registry dec format = map_option (\<lambda>c r. case c r of Some result \<Rightarrow> result | None \<Rightarrow> Panic) (get_container dec format)"

section \<open>The containers that keep the contract\<close>

text \<open>
  The containers that can unwind (\<^verbatim>\<open>qcow.rs\<close>, \<^verbatim>\<open>ewf.rs\<close>, \<^verbatim>\<open>vmdk.rs\<close>) or of which it depends on the
  image whether they return (\<^verbatim>\<open>dms.rs\<close>, \<^verbatim>\<open>nrg.rs\<close>, \<^verbatim>\<open>dmg.rs\<close>).
\<close>

definition HAZARDS :: "string list" where
  "HAZARDS = [''disk/dms'', ''disk/nrg'', ''disk/dmg'', ''disk/ewf'', ''disk/qcow'', ''disk/vmdk'']"

definition keeps_contract :: "(reader \<Rightarrow> child list run) \<Rightarrow> bool" where
  "keeps_contract c \<longleftrightarrow> (\<exists>c'. c = returning c' \<and> safe_container c')"

lemmas safe_containers =
  bzip2.safe_container_axioms compress.safe_container_axioms gzip.safe_container_axioms lz4.safe_container_axioms
  lzma.safe_container_axioms xz.safe_container_axioms zstd.safe_container_axioms apridisk.safe_container_axioms
  atr.safe_container_axioms bochs.safe_container_axioms cdi.safe_container_axioms cloop.safe_container_axioms
  parallels.safe_container_axioms qcow2.safe_container_axioms qed_disk.safe_container_axioms twoimg.safe_container_axioms
  scl.safe_container_axioms vdi.safe_container_axioms vhd.safe_container_axioms vhdx.safe_container_axioms
  adfs.safe_container_axioms cumana.safe_container_axioms eesox.safe_container_axioms ics.safe_container_axioms
  powertec.safe_container_axioms aix.safe_container_axioms apm.safe_container_axioms karma.safe_container_axioms
  atari.safe_container_axioms dasd.safe_container_axioms disklabel.safe_container_axioms gpt.safe_container_axioms
  mbr.safe_container_axioms plan9.safe_container_axioms rdb.safe_container_axioms pc98.safe_container_axioms
  sgi.safe_container_axioms solaris.safe_container_axioms sun_sparc.safe_container_axioms sysv68.safe_container_axioms
  ubi.safe_container_axioms ultrix.safe_container_axioms

lemma returning_keeps: "safe_container c \<Longrightarrow> keeps_contract (returning c)"
  unfolding keeps_contract_def by blast

lemma map_of_all: "map_of xs k = Some v \<Longrightarrow> list_all (\<lambda>(k, v). P k v) xs \<Longrightarrow> P k v"
  by (induction xs) (auto split: if_splits)

lemma get_container_keeps:
  assumes "get_container dec format = Some c"
  shows "format \<in> set HAZARDS \<or> keeps_contract c"
  using assms [unfolded get_container_def]
  by (rule map_of_all) (simp add: safe_containers [THEN returning_keeps] HAZARDS_def)

lemma crate_registry_safe:
  assumes "\<forall>format\<in>fst ` set db. format \<notin> set HAZARDS"
  shows "safe_registry (crate_registry dec) db"
  unfolding safe_registry_def
proof (intro ballI allI impI)
  fix format c
  assume known: "format \<in> fst ` set db" and "crate_registry dec format = Some c"
  then obtain c' where c': "get_container dec format = Some c'" "c = (\<lambda>r. case c' r of Some result \<Rightarrow> result | None \<Rightarrow> Panic)"
    by (auto simp: crate_registry_def)
  from get_container_keeps [OF c'(1)] known assms obtain c'' where "c' = returning c''" "safe_container c''"
    by (auto simp: keeps_contract_def)
  then show "safe_container c" using c'(2) by (simp add: returning_def)
qed

text \<open>
  C5. With the crate's own registry the detection returns a tree and never unwinds, on every
  reader and whatever the decoder crates do, through all levels of containers, for every catalogue
  without the six formats whose containers can unwind or of which it depends on the image whether they return.
\<close>

theorem detection_returns:
  assumes "safe_reader r" and "\<forall>format\<in>fst ` set db. format \<notin> set HAZARDS"
  shows "\<exists>nodes. detect_tree rx (crate_registry dec) (Some db) r = Ok nodes"
  using detect_tree_returns [of "Some db" "crate_registry dec" r rx] crate_registry_safe [OF assms(2)] assms(1) by simp

definition mbr_and_gzip :: format_db where
  "mbr_and_gzip =
     [(''pt/mbr'', DAll [Leaf 510 ''le16'' (Some (VUInt 0xAA55)) None None None None None None None]),
      (''arc/gzip'', DAll [Leaf 0 ''be16'' (Some (VUInt 0x1F8B)) None None None None None None None])]"

lemma detection_returns_witness:
  "\<forall>dec. \<exists>nodes. detect_tree (\<lambda>_ _. None) (crate_registry dec) (Some mbr_and_gzip) (bytes_reader [0x1F, 0x8B, 8]) = Ok nodes"
  using detection_returns [OF bytes.safe_reader_axioms, of mbr_and_gzip] by (simp add: mbr_and_gzip_def HAZARDS_def)

end
