(* ===== verification/Dms_Endless.thy ===== *)
theory Dms_Endless
  imports Disk_Dms
begin

text \<open>
  An archive on which \<^verbatim>\<open>dms.rs\<close> never returns. Its first two tracks leave tables behind, one in
  each of the modes Heavy; the third has no tables of its own and is read with those of the
  second, but with the number of distance codes of the first. So the walk down the tree goes round
  between two nodes that it takes for inner ones.
\<close>

section \<open>Tables\<close>

lemma run_then_weak: "m = m' \<Longrightarrow> run_then m f = run_then m' f" by simp
lemma and_then_weak: "m = m' \<Longrightarrow> and_then m f = and_then m' f" by simp
lemma put_at_in: "i < length xs \<Longrightarrow> put_at xs i v = Ok (xs[i := v])" by (simp add: put_at_def)
lemma get_at_in: "i < length xs \<Longrightarrow> get_at xs i = Ok (xs ! i)" by (simp add: get_at_def)

lemma fill_entries:
  "a \<le> b \<Longrightarrow> b \<le> length tbl \<Longrightarrow> for_each (\<lambda>i tbl. put_at tbl i c) [a..<b] tbl = Ok (overwrite tbl a (replicate (b - a) c))"
proof (induction "b - a" arbitrary: a tbl)
  case 0
  then show ?case by (simp add: overwrite_def)
next
  case (Suc k)
  then have a: "a < b" by simp
  then have "[a..<b] = a # [Suc a..<b]" by (simp add: upt_conv_Cons)
  moreover have "for_each (\<lambda>i tbl. put_at tbl i c) [Suc a..<b] (tbl[a := c]) = Ok (overwrite (tbl[a := c]) (Suc a) (replicate (b - Suc a) c))"
    using Suc a by (intro Suc.hyps) simp_all
  moreover have "overwrite (tbl[a := c]) (Suc a) (replicate (b - Suc a) c) = overwrite tbl a (replicate (b - a) c)"
  proof -
    have "b - a = Suc (b - Suc a)" using a by simp
    moreover have "take (Suc a) (tbl[a := c]) = take a tbl @ [c]" using a Suc.prems(2) by (simp add: take_Suc_conv_app_nth)
    ultimately show ?thesis by (simp add: overwrite_def)
  qed
  ultimately show ?case using a Suc.prems(2) by (simp add: put_at_def)
qed

text \<open>
  The building of a table runs by rewriting, the continuation of a call only when the call has its result.
\<close>

lemmas mk_run = mktbl.simps mk_symbol_def mk_assign_def mk_node_def mk_up_def Let_def get_at_in put_at_in fill_entries next_symbol.simps

definition first_lens :: "nat list" where
  "first_lens = [1, 2, 3, 4, 5, 6, 7, 8, 10, 10, 10, 10]"

definition second_lens :: "nat list" where
  "second_lens = [1, 2, 3, 4, 5, 6, 7, 8, 10, 10, 0, 0, 0, 0, 9]"

text \<open>With 14 codes the node 14 gets the node 15 as a child; with 15 codes the node 15 gets the symbol 14.\<close>

lemma first_table:
  assumes "length tbl = 256" and "length ls = 1019" and "length rs = 1028"
  shows "\<exists>tbl' ls' rs'. make_table 14 [1, 2, 3, 4, 5, 6, 7, 8, 10, 10, 10, 10, 0, 0, 0, 0, 0, 0, 0, 0] 8 tbl ls rs = Some (Ok (tbl', ls', rs')) \<and>
    length tbl' = 256 \<and> length ls' = 1019 \<and> length rs' = 1028 \<and> ls' ! 14 = 15"
  using assms unfolding make_table_def by (simp add: mk_run cong: run_then_weak and_then_weak)

lemma second_table:
  assumes "length tbl = 256" and "length ls = 1019" and "length rs = 1028"
  shows "\<exists>tbl' ls' rs'. make_table 15 [1, 2, 3, 4, 5, 6, 7, 8, 10, 10, 0, 0, 0, 0, 9, 0, 0, 0, 0, 0] 8 tbl ls rs = Some (Ok (tbl', ls', rs')) \<and>
    length tbl' = 256 \<and> length ls' = 1019 \<and> length rs' = 1028 \<and> ls' ! 14 = ls ! 14 \<and> ls' ! 15 = 14 \<and> tbl' ! 255 = 15"
  using assms unfolding make_table_def by (simp add: mk_run cong: run_then_weak and_then_weak)

text \<open>On bits that are all zero the walk only goes to the left.\<close>

lemma endless_walk:
  assumes "ls ! 14 = 15" and "ls ! 15 = 14" and "length ls = 1019"
  shows "heavy_walk ls rs 14 0 m 15 = None"
proof -
  have "heavy_walk ls' rs' stop i m j = Some r \<Longrightarrow> ls' = ls \<longrightarrow> stop = 14 \<longrightarrow> i = 0 \<longrightarrow> j = 14 \<or> j = 15 \<longrightarrow> False" for ls' rs' stop i m j r
  proof (rule heavy_walk.raw_induct [of _ ls' rs' stop i m j])
    fix again and ls' rs' :: "u16 list" and stop i m j :: u16 and r
    assume hyp: "\<And>ls' rs' stop i m j r. again ls' rs' stop i m j = Some r \<Longrightarrow> ls' = ls \<longrightarrow> stop = 14 \<longrightarrow> i = 0 \<longrightarrow> j = 14 \<or> j = 15 \<longrightarrow> False"
      and body: "run_then (Some (get_at (if i AND m \<noteq> 0 then rs' else ls') (unat j)))
        (\<lambda>j'. if j' < stop then Some (Ok j') else again ls' rs' stop i (drop_bit 1 m) j') = Some r"
    show "ls' = ls \<longrightarrow> stop = 14 \<longrightarrow> i = 0 \<longrightarrow> j = 14 \<or> j = 15 \<longrightarrow> False"
      using body hyp [of ls rs' 14 0 "drop_bit 1 m" 14 r] hyp [of ls rs' 14 0 "drop_bit 1 m" 15 r] assms by (auto simp: get_at_def)
  qed
  from this [of ls rs 14 0 m 15] show ?thesis by (cases "heavy_walk ls rs 14 0 m 15") auto
qed

section \<open>Reading the tables\<close>

lemma read_lens_bits:
  assumes "br_at data p br" and "has_bits data p (concat (map (bits_of 4) vs))" and "\<forall>v\<in>set vs. v < 16" and "k + length vs \<le> length lens"
  shows "\<exists>br'. read_lens 4 [k..<k + length vs] (br, lens) = Ok (br', overwrite lens k (map of_nat vs)) \<and> br_at data (p + 4 * length vs) br'"
  using assms
proof (induction vs arbitrary: k lens p br)
  case Nil
  then show ?case by (auto simp: read_lens_def overwrite_def)
next
  case (Cons v vs)
  have bits: "has_bits data p (bits_of 4 v)" "has_bits data (p + 4) (concat (map (bits_of 4) vs))"
    using Cons.prems(2) by (simp_all add: has_bits_append)
  have get: "br_get br 4 = (of_nat v, br_drop br 4)" "br_at data (p + 4) (br_drop br 4)"
    using br_get_bits [OF Cons.prems(1), of 4 v] bits(1) Cons.prems(3) by simp_all
  have "ucast (of_nat v :: u16) = (of_nat v :: u8)"
  proof -
    have "v < 16" using Cons.prems(3) by simp
    then have "unat (ucast (of_nat v :: u16) :: u8) = unat (of_nat v :: u8)"
      by (simp add: unsigned_ucast_eq unat_of_nat take_bit_eq_mod)
    then show ?thesis by (simp add: word_unat_eq_iff)
  qed
  then have step: "read_lens 4 (k # is) (br, lens) = read_lens 4 is (br_drop br 4, lens[k := of_nat v])" for "is"
    using get(1) Cons.prems(4) by (simp add: read_lens_def put_at_in)
  from Cons.IH [OF get(2) bits(2), of "Suc k" "lens[k := of_nat v]"] Cons.prems(3,4) obtain br' where
    rest: "read_lens 4 [Suc k..<Suc k + length vs] (br_drop br 4, lens[k := of_nat v]) = Ok (br', overwrite (lens[k := of_nat v]) (Suc k) (map of_nat vs))"
      "br_at data (p + 4 + 4 * length vs) br'" by (auto simp del: upt_Suc)
  have list: "[k..<k + length (v # vs)] = k # [Suc k..<Suc k + length vs]" by (subst upt_conv_Cons) simp_all
  have whole: "overwrite (lens[k := of_nat v]) (Suc k) (map of_nat vs) = overwrite lens k (map of_nat (v # vs))"
  proof -
    have "take (Suc k) (lens[k := of_nat v]) = take k lens @ [of_nat v]" using Cons.prems(4) by (simp add: take_Suc_conv_app_nth)
    then show ?thesis by (simp add: overwrite_def)
  qed
  have "br_at data (p + 4 * length (v # vs)) br'" using rest(2) by (simp add: add.assoc)
  then show ?case unfolding list step rest(1) whole by blast
qed

text \<open>A track that gives one code to all literals and lengths, and the lengths of the distance codes.\<close>

definition heavy_bits :: "nat \<Rightarrow> nat list \<Rightarrow> bool list" where
  "heavy_bits v vs = bits_of 9 0 @ bits_of 9 v @ bits_of 5 (length vs) @ concat (map (bits_of 4) vs)"

lemma heavy_tables:
  assumes "heavy_ok st" and "flags AND 2 \<noteq> 0" and "v < 512" and vs: "\<forall>v\<in>set vs. v < 16" "vs \<noteq> []" "length vs \<le> 15"
  defines "codes \<equiv> if flags AND 8 \<noteq> 0 then 15 else 14 :: u16"
  defines "lens \<equiv> overwrite (overwrite (pt_len st) 0 (map of_nat vs)) (length vs) (replicate (unat codes - length vs) 0)"
  assumes "length vs \<le> unat codes"
  shows "unpack_heavy st (pack_bits (heavy_bits v vs)) 0 flags =
    run_then (make_table codes lens 8 (pt_table st) (heavy_left st) (heavy_right st)) (\<lambda>(tbl, ls, rs).
      Some (Ok (st\<lparr>np := codes, c_len := map (\<lambda>_. 0) (c_len st), c_table := map (\<lambda>_. of_nat v) (c_table st),
        pt_len := lens, pt_table := tbl, heavy_left := ls, heavy_right := rs\<rparr>, [])))"
proof -
  let ?data = "pack_bits (heavy_bits v vs)"
  have all: "has_bits ?data 0 (heavy_bits v vs)" using has_bits_pack [of "heavy_bits v vs" "[]"] by simp
  have bits: "has_bits ?data 0 (bits_of 9 0)" "has_bits ?data 9 (bits_of 9 v)" "has_bits ?data 18 (bits_of 5 (length vs))"
    "has_bits ?data 23 (concat (map (bits_of 4) vs))"
    using all by (simp_all add: heavy_bits_def has_bits_append)
  let ?b0 = "br_new ?data" let ?b1 = "br_drop ?b0 9" let ?b2 = "br_drop ?b1 9" let ?b3 = "br_drop ?b2 5"
  have g1: "br_get ?b0 9 = (0, ?b1)" "br_at ?data 9 ?b1" using br_get_bits [OF br_new_at, of 9 ?data 0] bits(1) by simp_all
  have g2: "br_get ?b1 9 = (of_nat v, ?b2)" "br_at ?data 18 ?b2" using br_get_bits [OF g1(2), of 9 v] bits(2) assms(3) by simp_all
  have g3: "br_get ?b2 5 = (of_nat (length vs), ?b3)" "br_at ?data 23 ?b3" using br_get_bits [OF g2(2), of 5 "length vs"] bits(3) vs(3) by simp_all
  have n: "unat (of_nat (length vs) :: u16) = length vs" "(of_nat (length vs) :: u16) > 0"
    using vs(2,3) by (simp_all add: unat_of_nat word_less_nat_alt)
  have pt: "length (pt_len st) = 20" using assms(1) by (simp add: heavy_ok_def)
  then have "0 + length vs \<le> length (pt_len st)" using vs(3) by simp
  from read_lens_bits [OF g3(2) bits(4) vs(1) this] obtain b4 where
    lens1: "read_lens 4 [0..<length vs] (?b3, pt_len st) = Ok (b4, overwrite (pt_len st) 0 (map of_nat vs))" by auto
  have "unat codes \<le> 20" by (simp add: codes_def)
  then have lens2: "clear_lens [length vs..<unat codes] (overwrite (pt_len st) 0 (map of_nat vs)) = Ok lens"
    using fill_entries [of "length vs" "unat codes" "overwrite (pt_len st) 0 (map of_nat vs)" 0] assms(9) pt vs(3)
    by (simp add: clear_lens_def lens_def)
  have min: "min (length vs) 20 = length vs" using vs(3) by simp
  let ?st = "st\<lparr>np := codes, c_len := map (\<lambda>_. 0) (c_len st), c_table := map (\<lambda>_. of_nat v) (c_table st)\<rparr>"
  have tree_c: "heavy_read_tree_c ?b0 (st\<lparr>np := codes\<rparr>) = Some (Ok (?b2, ?st))"
    by (simp add: heavy_read_tree_c_def g1(1) g2(1))
  have tree_p: "heavy_read_tree_p ?b2 ?st = run_then (make_table codes lens 8 (pt_table st) (heavy_left st) (heavy_right st)) (\<lambda>(tbl, ls, rs).
      Some (Ok (b4, ?st\<lparr>pt_len := lens, pt_table := tbl, heavy_left := ls, heavy_right := rs\<rparr>)))"
    using n by (simp add: heavy_read_tree_p_def g3(1) min lens1 lens2)
  have none: "fill_output step 0 s [] = Some (Ok (s, []))" for step :: "bit_reader \<times> dms_state \<Rightarrow> bytes \<Rightarrow> ((bit_reader \<times> dms_state) \<times> bytes) run" and s
    by (subst fill_output.simps) simp
  have "unpack_heavy st ?data 0 flags = run_then (heavy_read_tree_p ?b2 ?st) (\<lambda>(br2, st2). Some (Ok (st2, [])))"
  proof (cases "flags AND 8 = 0")
    case True
    then have codes: "codes = 14" by (simp add: codes_def)
    show ?thesis using True assms(2) tree_c unfolding codes by (simp add: unpack_heavy_def Let_def none split_beta)
  next
    case False
    then have codes: "codes = 15" by (simp add: codes_def)
    show ?thesis using False assms(2) tree_c unfolding codes by (simp add: unpack_heavy_def Let_def none split_beta)
  qed
  then show ?thesis unfolding tree_p run_then_assoc by (simp add: case_prod_beta')
qed

section \<open>The archive\<close>

definition heavy_track :: "u8 \<Rightarrow> u8 \<Rightarrow> nat \<Rightarrow> bytes \<Rightarrow> dms_track" where
  "heavy_track cmode flags n d =
     \<lparr>tk_number = 0, tk_pklen1 = length d, tk_pklen2 = n, tk_unpklen = 4096, tk_flags = flags, tk_cmode = cmode,
      tk_usum = 0, tk_dcrc = crc16 d\<rparr>"

definition first_data :: bytes where "first_data = pack_bits (heavy_bits 0 first_lens)"
definition second_data :: bytes where "second_data = pack_bits (heavy_bits 300 second_lens)"
definition third_data :: bytes where "third_data = pack_bits (bits_of 8 255)"

text \<open>Two tracks without any bytes that leave their tables, and one with a single byte, whose code starts with eight ones.\<close>

definition endless_archive :: bytes where
  "endless_archive = ascii ''DMS!'' @ replicate 52 0 @ packed_track (heavy_track 5 2 0 first_data) first_data @
     packed_track (heavy_track 6 2 0 second_data) second_data @ packed_track (heavy_track 5 0 1 third_data) third_data"

lemma length_pack_bits: "length (pack_bits bs) = (length bs + 7) div 8"
  by (simp add: pack_bits_def)

lemma endless_lengths: "length first_data = 9" "length second_data = 11" "length third_data = 1"
  by (simp_all add: first_data_def second_data_def third_data_def length_pack_bits heavy_bits_def first_lens_def second_lens_def)

text \<open>What each track does to the state.\<close>

lemma unpack_heavy_ok: "dms_ok st \<Longrightarrow> unpack_heavy st d n fl = Some (Ok (st', out)) \<Longrightarrow> dms_ok st'"
  using unpack_heavy_safe(2) off_heavy_deep unfolding dms_ok_def by blast

lemma first_track:
  obtains st where "unpack_heavy dms_new first_data 0 2 = Some (Ok (st, []))" and "dms_ok st"
    and "heavy_left st ! 14 = 15" and "pt_len st = [1, 2, 3, 4, 5, 6, 7, 8, 10, 10, 10, 10, 0, 0, 0, 0, 0, 0, 0, 0]"
proof -
  let ?lens = "overwrite (overwrite (pt_len dms_new) 0 (map of_nat first_lens)) (length first_lens) (replicate (unat (14 :: u16) - length first_lens) 0)"
  have lens: "?lens = [1, 2, 3, 4, 5, 6, 7, 8, 10, 10, 10, 10, 0, 0, 0, 0, 0, 0, 0, 0]"
    by (simp add: dms_new_def overwrite_def first_lens_def) (simp add: numeral_eq_Suc)
  have ok: "heavy_ok dms_new" using dms_new_ok by (simp add: dms_ok_def)
  have len: "length (pt_table dms_new) = 256" "length (heavy_left dms_new) = 1019" "length (heavy_right dms_new) = 1028"
    by (simp_all add: dms_new_def)
  obtain tbl ls rs where table: "make_table 14 ?lens 8 (pt_table dms_new) (heavy_left dms_new) (heavy_right dms_new) = Some (Ok (tbl, ls, rs))"
    "ls ! 14 = 15" unfolding lens using first_table [OF len] by blast
  let ?st = "dms_new\<lparr>np := 14, c_len := map (\<lambda>_. 0) (c_len dms_new), c_table := map (\<lambda>_. of_nat 0) (c_table dms_new),
    pt_len := ?lens, pt_table := tbl, heavy_left := ls, heavy_right := rs\<rparr>"
  have run: "unpack_heavy dms_new first_data 0 2 = Some (Ok (?st, []))"
    using heavy_tables [OF ok, of 2 0 first_lens] table(1) by (simp add: first_data_def first_lens_def)
  moreover from unpack_heavy_ok [OF dms_new_ok run] have "dms_ok ?st" .
  ultimately show ?thesis using that [of ?st] table(2) lens by simp
qed

lemma second_track:
  assumes "dms_ok st" and "heavy_left st ! 14 = 15" and "pt_len st = [1, 2, 3, 4, 5, 6, 7, 8, 10, 10, 10, 10, 0, 0, 0, 0, 0, 0, 0, 0]"
  obtains st' where "unpack_heavy st second_data 0 10 = Some (Ok (st', []))" and "dms_ok st'"
    and "heavy_left st' ! 14 = 15" and "heavy_left st' ! 15 = 14" and "pt_table st' ! 255 = 15"
    and "c_table st' = replicate 4096 300" and "c_len st' = replicate 510 0"
proof -
  let ?lens = "overwrite (overwrite (pt_len st) 0 (map of_nat second_lens)) (length second_lens) (replicate (unat (15 :: u16) - length second_lens) 0)"
  have lens: "?lens = [1, 2, 3, 4, 5, 6, 7, 8, 10, 10, 0, 0, 0, 0, 9, 0, 0, 0, 0, 0]"
    by (simp add: assms(3) overwrite_def second_lens_def)
  have ok: "heavy_ok st" using assms(1) by (simp add: dms_ok_def)
  then have len: "length (pt_table st) = 256" "length (heavy_left st) = 1019" "length (heavy_right st) = 1028"
    "length (c_table st) = 4096" "length (c_len st) = 510" by (simp_all add: heavy_ok_def)
  obtain tbl ls rs where table: "make_table 15 ?lens 8 (pt_table st) (heavy_left st) (heavy_right st) = Some (Ok (tbl, ls, rs))"
    "ls ! 14 = 15" "ls ! 15 = 14" "tbl ! 255 = 15" unfolding lens using second_table [OF len(1-3)] assms(2) by metis
  let ?st = "st\<lparr>np := 15, c_len := map (\<lambda>_. 0) (c_len st), c_table := map (\<lambda>_. of_nat 300) (c_table st),
    pt_len := ?lens, pt_table := tbl, heavy_left := ls, heavy_right := rs\<rparr>"
  have run: "unpack_heavy st second_data 0 10 = Some (Ok (?st, []))"
    using heavy_tables [OF ok, of 10 300 second_lens] table(1) by (simp add: second_data_def second_lens_def)
  moreover from unpack_heavy_ok [OF assms(1) run] have "dms_ok ?st" .
  ultimately show ?thesis using that [of ?st] table(2-4) len(4,5) by (simp add: map_replicate_const)
qed

lemma third_track:
  assumes "dms_ok st" and "heavy_left st ! 14 = 15" and "heavy_left st ! 15 = 14" and "pt_table st ! 255 = 15"
    and "c_table st = replicate 4096 300" and "c_len st = replicate 510 0"
  shows "unpack_heavy st third_data 1 0 = None"
proof -
  let ?st = "st\<lparr>np := 14\<rparr>" and ?br = "br_new third_data"
  have len: "length (heavy_left st) = 1019" "length (pt_table st) = 256" using assms(1) by (simp_all add: dms_ok_def heavy_ok_def)
  have at: "br_at third_data 0 ?br" by (rule br_new_at)
  have "unat (br_peek ?br 12) < 4096" using reading_peek [OF reading_new, of 12 third_data] by simp
  then have entry: "c_table st ! unat (br_peek ?br 12) = 300" unfolding assms(5) by (rule nth_replicate)
  have code: "heavy_decode_c ?br ?st = Some (Ok (300, br_drop ?br 0))"
    using \<open>unat (br_peek ?br 12) < 4096\<close> entry by (simp add: heavy_decode_c_def get_at_def assms(5,6))
  let ?b1 = "br_drop ?br 0" and ?b2 = "br_drop (br_drop ?br 0) 8"
  have at1: "br_at third_data 0 ?b1" using br_drop_at [OF at, of 0] by simp
  have "has_bits third_data 0 (bits_of 8 255)" using has_bits_pack [of "bits_of 8 255" "[]"] by (simp add: third_data_def)
  then have peek: "br_peek ?b1 8 = 255" using br_peek_at [OF at1, of 8] has_bits_val [of third_data 0 8 255] by simp
  have at2: "br_at third_data 8 ?b2" using br_drop_at [OF at1, of 8] by simp
  have "\<not> data_bit third_data (8 + i)" for i
  proof -
    have "\<not> (8 + i) div 8 < length third_data" unfolding endless_lengths(3) by linarith
    then show ?thesis by (simp only: data_bit_def simp_thms)
  qed
  then have "bits_val (data_bit third_data) 8 n = 0" for n by (induction n) simp_all
  then have zeros: "br_peek ?b2 16 = 0" using br_peek_at [OF at2, of 16] by simp
  have "heavy_walk (heavy_left st) (heavy_right st) 14 0 0x8000 15 = None" by (rule endless_walk [OF assms(2,3) len(1)])
  then have distance: "heavy_decode_p ?b1 ?st = None"
    by (simp add: heavy_decode_p_def heavy_distance_size_def peek get_at_def len(2) assms(4) Let_def zeros)
  have "heavy_step mask n (?br, ?st) [] = None" for mask n
    using code distance by (simp add: heavy_step_def)
  then have "fill_output (heavy_step mask 1) 1 (?br, ?st) [] = None" for mask by (subst fill_output.simps) simp
  then show ?thesis by (simp add: unpack_heavy_def)
qed

text \<open>One round over the tracks, for a track whose unpacking is known.\<close>

lemma heavy_track_read:
  assumes "length d \<le> TRACK_BUFFER_LEN" and "n \<le> TRACK_BUFFER_LEN"
  shows "dms_tracks (pre @ packed_track (heavy_track cmode flags n d) d @ post) (length pre) s =
    run_then (dms_unpack_to (heavy_track cmode flags n d) d s)
      (dms_tracks (pre @ packed_track (heavy_track cmode flags n d) d @ post) (length (pre @ packed_track (heavy_track cmode flags n d) d)))"
proof -
  have "dms_next_track (pre @ packed_track (heavy_track cmode flags n d) d @ post) (length pre) =
      Ok (Some (heavy_track cmode flags n d, d, length pre + 20 + length d))"
    by (rule next_packed_track) (use assms in \<open>simp_all add: heavy_track_def TRACK_BUFFER_LEN_def\<close>)
  then show ?thesis by (subst dms_tracks.simps) (simp add: length_packed_track add.assoc)
qed

lemma no_output: "length out = ADF_SIZE \<Longrightarrow> dms_track_output (heavy_track cmode flags n d) [] out = Ok out"
  by (simp add: dms_track_output_def heavy_track_def put_range_def overwrite_def ADF_SIZE_def)

lemma heavy_unpack_to:
  assumes "unpack_heavy st d n (if cmode = 5 then flags AND 7 else flags OR 8) = Some (Ok (st', []))" and "cmode = 5 \<or> cmode = 6"
    and "flags AND 4 = 0" and "flags AND 1 = 0" and "length out = ADF_SIZE"
  shows "dms_unpack_to (heavy_track cmode flags n d) d (st, out) = Some (Ok (dms_reinit st', out))"
proof -
  have "unpack_track st d [] n 4096 cmode flags = Some (Ok (dms_reinit st', []))"
    using assms(1-4) by (auto simp: unpack_track_def Let_def)
  then show ?thesis using no_output [OF assms(5), of cmode flags n d] by (simp add: dms_unpack_to_def heavy_track_def)
qed

lemma endless_third:
  assumes "unpack_heavy st d n 0 = None" shows "dms_unpack_to (heavy_track 5 0 n d) d (st, out) = None"
  using assms by (simp add: dms_unpack_to_def heavy_track_def unpack_track_def)

lemma decompress_endless: "decompress_dms endless_archive = None"
proof -
  let ?pre = "ascii ''DMS!'' @ replicate 52 (0 :: u8)" and ?out = "replicate ADF_SIZE (0 :: u8)"
  let ?t1 = "packed_track (heavy_track 5 2 0 first_data) first_data" and ?t2 = "packed_track (heavy_track 6 2 0 second_data) second_data"
    and ?t3 = "packed_track (heavy_track 5 0 1 third_data) third_data"
  obtain st1 where one: "unpack_heavy dms_new first_data 0 2 = Some (Ok (st1, []))" "dms_ok st1"
    "heavy_left st1 ! 14 = 15" "pt_len st1 = [1, 2, 3, 4, 5, 6, 7, 8, 10, 10, 10, 10, 0, 0, 0, 0, 0, 0, 0, 0]" by (rule first_track)
  have r1: "dms_ok (dms_reinit st1)" "heavy_left (dms_reinit st1) ! 14 = 15"
    "pt_len (dms_reinit st1) = [1, 2, 3, 4, 5, 6, 7, 8, 10, 10, 10, 10, 0, 0, 0, 0, 0, 0, 0, 0]"
    using one(2-4) dms_reinit_ok by (simp_all add: dms_reinit_def)
  obtain st2 where two: "unpack_heavy (dms_reinit st1) second_data 0 10 = Some (Ok (st2, []))" "dms_ok st2"
    "heavy_left st2 ! 14 = 15" "heavy_left st2 ! 15 = 14" "pt_table st2 ! 255 = 15"
    "c_table st2 = replicate 4096 300" "c_len st2 = replicate 510 0" by (rule second_track [OF r1])
  have "unpack_heavy (dms_reinit st2) third_data 1 0 = None"
    by (rule third_track) (use two(2-7) dms_reinit_ok in \<open>simp_all add: dms_reinit_def\<close>)
  then have u3: "dms_unpack_to (heavy_track 5 0 1 third_data) third_data (dms_reinit st2, ?out) = None" by (rule endless_third)
  have u1: "dms_unpack_to (heavy_track 5 2 0 first_data) first_data (dms_new, ?out) = Some (Ok (dms_reinit st1, ?out))"
    by (rule heavy_unpack_to) (use one(1) in simp_all)
  have u2: "dms_unpack_to (heavy_track 6 2 0 second_data) second_data (dms_reinit st1, ?out) = Some (Ok (dms_reinit st2, ?out))"
    by (rule heavy_unpack_to) (use two(1) in simp_all)
  have small: "length d \<le> TRACK_BUFFER_LEN" if "d \<in> {first_data, second_data, third_data}" for d
    using that endless_lengths by (auto simp: TRACK_BUFFER_LEN_def)
  have head: "length ?pre = HEADLEN" by (simp add: ascii_def HEADLEN_def)
  have "decompress_dms endless_archive = dms_tracks (?pre @ ?t1 @ (?t2 @ ?t3)) (length ?pre) (dms_new, ?out)"
    unfolding endless_archive_def header_stored head by simp
  also have "\<dots> = dms_tracks (?pre @ ?t1 @ (?t2 @ ?t3)) (length (?pre @ ?t1)) (dms_reinit st1, ?out)"
    using small by (subst heavy_track_read) (simp_all add: u1 TRACK_BUFFER_LEN_def)
  also have "\<dots> = dms_tracks ((?pre @ ?t1) @ ?t2 @ ?t3) (length (?pre @ ?t1)) (dms_reinit st1, ?out)" by (simp only: append_assoc)
  also have "\<dots> = dms_tracks ((?pre @ ?t1) @ ?t2 @ ?t3) (length ((?pre @ ?t1) @ ?t2)) (dms_reinit st2, ?out)"
    using small by (subst heavy_track_read) (simp_all add: u2 TRACK_BUFFER_LEN_def)
  also have "\<dots> = dms_tracks (((?pre @ ?t1) @ ?t2) @ ?t3 @ []) (length ((?pre @ ?t1) @ ?t2)) (dms_reinit st2, ?out)"
    by (simp only: append_assoc append_Nil2)
  also have "\<dots> = None"
    using small by (subst heavy_track_read) (simp_all add: u3 [unfolded One_nat_def] TRACK_BUFFER_LEN_def)
  finally show ?thesis .
qed

text \<open>
  C35. There is an archive of 137 bytes on which the detection never returns: its checksums are
  right, none of its lengths is out of range, and the walk down the tree of the third track goes
  from the node 15 to the node 14 and back.
\<close>

theorem dms_runs_forever: "dms_children (bytes_reader endless_archive) = None"
proof -
  have "length endless_archive \<le> MAX_SIZE"
    by (simp add: endless_archive_def length_packed_track endless_lengths ascii_def MAX_SIZE_def)
  then have "read_all (bytes_reader endless_archive) = Ok endless_archive"
    using positional_reader.read_all_eq [OF bytes.positional_reader_axioms] by simp
  then show ?thesis by (simp add: dms_children_def decompress_endless)
qed

end
