(* ===== verification/Spec2Isabelle.thy ===== *)
theory Spec2Isabelle
  imports Catalogue Registry Dms_Endless
begin

text \<open>
  A model of the library \<^verbatim>\<open>mountin\<close> (\<^verbatim>\<open>src/mountin/lib/mountin/src\<close>), which tells what an
  image contains: it matches the formats of a catalogue against the bytes of a file, opens
  the formats that are containers (partition tables, disk images, compressed streams) and
  detects again in what they hold, and reports the tree to a C callback.

  \<^bold>\<open>How the program is modelled.\<close> A \<^verbatim>\<open>Reader\<close> is a record of its two operations. Every
  fallible function gives an \<open>io\<close> value (\<open>Prelude\<close>): \<open>Ok\<close>, \<open>Err\<close> with the kind of the
  \<^verbatim>\<open>io::Error\<close>, or \<open>Panic\<close> for an unwinding (a slice out of range, a division by zero, an
  impossible allocation). Integers are words of their width. The crate is built in release
  mode, so \<open>+\<close>, \<open>-\<close> and \<open>*\<close> wrap around as they do in the code, and an amount of a shift is
  taken modulo the width; \<^verbatim>\<open>checked_\<close> and \<^verbatim>\<open>saturating_\<close> operations are those of \<open>Prelude\<close>.
  \<^verbatim>\<open>usize\<close> has 64 bits; where it counts bytes in memory it is a \<open>nat\<close>. Loops are
  \<open>for_each\<close>, \<open>for_break\<close>, \<open>collect\<close> and recursive functions with a measure; the walk over
  containers is recursive in the number of levels left of \<^verbatim>\<open>MAX_DEPTH\<close>.

  \<^bold>\<open>The theories.\<close>
  \<^item> \<open>Prelude\<close>: results, checked arithmetic, byte order, the shapes of loops, slices.
  \<^item> \<open>Readers\<close>: \<^verbatim>\<open>BytesReader\<close>, \<^verbatim>\<open>SliceReader\<close>, \<^verbatim>\<open>read_all\<close>, \<^verbatim>\<open>checked_table_size\<close> and the limited
    buffers; the interfaces \<open>safe_reader\<close>, \<open>positional_reader\<close> (short reads allowed) and
    \<open>exact_reader\<close>, each a sublocale of the one before.
  \<^item> \<open>Checksum\<close>, \<open>Matching\<close>: \<^verbatim>\<open>checksum.rs\<close> and the matcher of \<^verbatim>\<open>detect.rs\<close> over the rule
    language of \<^verbatim>\<open>format.rs\<close>; \<open>holds\<close> is the meaning of a rule on a string of bytes, and the
    matcher refines it on every exact reader.
  \<^item> \<open>Tables\<close>: the interfaces \<open>safe_container\<close>, \<open>partition_table\<close> and \<open>entry_table\<close>.
    \<open>Pt_Labels\<close>, \<open>Pt_Mbr\<close>, \<open>Pt_Chains\<close>, \<open>Pt_Text\<close> (with \<open>Utf8\<close>), \<open>Pt_Aix\<close>, \<open>Pt_Ubi\<close> and
    \<open>Pt_Acorn\<close>: the partition tables of \<^verbatim>\<open>container/pt\<close>.
  \<^item> \<open>Arc\<close>: the compressed streams of \<^verbatim>\<open>container/arc\<close>, the interface \<open>stream_container\<close>.
  \<^item> \<open>Blocks\<close>: the interfaces \<open>block_reader\<close> and \<open>block_disk\<close> of an image cut into blocks;
    \<open>Disk_Blocks\<close> (VDI, Bochs, VHD, VHDX, Parallels) and \<open>Disk_Qcow\<close> (QCOW, QCOW2, QED)
    interpret them, and so does \<open>Disk_Chunks\<close> (cloop);
    \<open>Disk_Dmg\<close>: Apple disk images, whose end is found by a bisection and a loop that may not
    return (a \<open>partial_function\<close>), whose chunk table is in base64 in a property list, and whose
    reads go through a binary search.
    \<open>Disk_Vmdk\<close> uses \<open>block_reader\<close> for the four kinds of VMware images. \<open>Disk_Ewf\<close>: evidence files, whose chain
    of sections ends because it only goes forward. \<open>Disk_Tracks\<close>: the discs of \<^verbatim>\<open>nrg.rs\<close>, whose
    chunk loop is a \<open>partial_function\<close>, and of \<^verbatim>\<open>cdi.rs\<close>. \<open>Disk_Flat\<close> (ATR, 2IMG), \<open>Disk_Scl\<close> and \<open>Disk_Apridisk\<close>: floppy images.
  \<^item> \<open>Disk_Dms\<close> and the theories \<open>Dms_\<close>: Disk Masher archives, \<^verbatim>\<open>dms.rs\<close>. The state is \<open>dms_state\<close>, the
    \<^verbatim>\<open>DmsState\<close> of the code, threaded through the tracks. A result that may not exist because a loop
    does not end is an option, \<open>run\<close>; \<open>None\<close> is not returning. \<open>Dms_Base\<close>: checksums, the bit reader,
    run lengths, the copy from the window, the loop that fills the output (interfaces \<open>safe_filling\<close>
    and \<open>filling\<close>). \<open>Dms_Window\<close>: Quick and Medium. \<open>Dms_Deep\<close>: the adaptive Huffman code, with its
    tree invariant in \<open>Dms_Tree\<close>, the building of the tree in \<open>Dms_Rebuild\<close>, and the counts and code
    words in \<open>Dms_Symbols\<close>. \<open>Dms_Heavy\<close>: the static codes, with the bounds of their tables in \<open>Dms_Codes\<close>.
    \<open>Dms_Lz\<close>: what the window modes mean, literals and copies over a history; the interface
    \<open>lz_mode\<close> is interpreted by Quick, Medium and Deep, so that packing and unpacking are inverse.
  \<^item> \<open>Detect\<close>: the tree of \<^verbatim>\<open>detect.rs\<close>, its soundness, completeness and depth.
  \<^item> \<open>Registry\<close>: the table of containers of \<^verbatim>\<open>container/mod.rs\<close> with all of the above; every container
    but six keeps the contract of \<open>safe_container\<close> on every image, so the whole detection returns.
  \<^item> \<open>Catalogue\<close>: loading the catalogue (\<^verbatim>\<open>format.rs\<close>) and the C interface (\<^verbatim>\<open>lib.rs\<close>), also
    with several threads that load at once.

  \<^bold>\<open>What is a parameter.\<close> The decoders (\<^verbatim>\<open>flate2\<close>, \<^verbatim>\<open>bzip2\<close>, \<^verbatim>\<open>lz4\<close>, \<^verbatim>\<open>zstd\<close>, \<^verbatim>\<open>lzma\<close>, \<^verbatim>\<open>weezl\<close>)
  are functions from the compressed bytes to the bytes they deliver and how they end; the
  regular expressions, the MessagePack decoder and the file system are functions too. No
  property assumes anything of them beyond these types.

  \<^bold>\<open>What is not modelled.\<close> The memory is unlimited except for the size of one allocation;
  time and stack are not modelled. The walk through a tree in the modes Heavy of \<^verbatim>\<open>dms.rs\<close> need not
  end when a track reuses the tables of a track with the other number of distance codes
  (\<open>Dms_Endless\<close> has an archive on which it does not); so the archives with these modes are shown to
  be safe, but not to be unpacked. The six containers that
  \<open>HAZARDS\<close> lists are left out of the theorem on the whole detection. \<^verbatim>\<open>mountin_version\<close> gives a constant
  and is left out, and so are the files that only declare modules. The file does not change during a detection.
\<close>

end
